(* ===== verification/Prelude.thy ===== *)
theory Prelude
  imports Main "HOL-Library.Word"
begin

text \<open>
  Shared vocabulary of the development: the integer types of
  \<^verbatim>\<open>core/oltp/include/oltp/common/common.hpp\<close>, the error values that stand for the ways
  the C++ code can stop (a failed \<^verbatim>\<open>assert\<close>, \<^verbatim>\<open>LOG(FATAL)\<close>, a thrown
  \<^verbatim>\<open>std::runtime_error\<close>, a bad memory access), sequencing of fallible steps, byte
  buffers, the interface of the third-party cuckoo hash map, and the lemma collections
  the component theories extend.
\<close>

unbundle bit_operations_syntax

section \<open>Integer types\<close>

type_synonym byte = "8 word"
type_synonym xid_t = "64 word"
type_synonym rowid_t = "64 word"
type_synonym vid_t = "64 word"
type_synonym delta_id_t = "8 word"
type_synonym worker_id_t = "8 word"
type_synonym table_id_t = "8 word"
type_synonym column_id_t = "8 word"
type_synonym partition_id_t = "8 word"
type_synonym column_uuid_t = "32 word"
type_synonym row_uuid_t = "64 word"
type_synonym master_version_t = "8 word"
type_synonym snapshot_version_t = "8 word"
type_synonym uintptr = "64 word"
type_synonym size_t = "64 word"
type_synonym thread_id = nat

abbreviation UINT64_MAX :: "64 word" where
  "UINT64_MAX \<equiv> - 1"

section \<open>Failure values and sequencing\<close>

text \<open>
  How the code can stop: a failed assertion, a fatal log message, an exception, an access outside of a
  container, through a null pointer or outside of a block of memory, a loop that does not end, and an
  overflow of a signed number, which is undefined.
\<close>

datatype error =
    Assertion string
  | Fatal string
  | RuntimeError string
  | OutOfRange
  | NullDeref
  | BadAccess
  | Diverges
  | SignedOverflow

type_synonym 'a result = "error + 'a"

definition rbind :: "'a result \<Rightarrow> ('a \<Rightarrow> 'b result) \<Rightarrow> 'b result" where
  "rbind m f = (case m of Inl e \<Rightarrow> Inl e | Inr x \<Rightarrow> f x)"

definition rassert :: "bool \<Rightarrow> string \<Rightarrow> unit result" where
  "rassert b msg = (if b then Inr () else Inl (Assertion msg))"

primrec rfold :: "('a \<Rightarrow> 's \<Rightarrow> 's result) \<Rightarrow> 'a list \<Rightarrow> 's \<Rightarrow> 's result" where
  "rfold f [] s = Inr s"
| "rfold f (x # xs) s = rbind (f x s) (rfold f xs)"

primrec rmap :: "('a \<Rightarrow> 'b result) \<Rightarrow> 'a list \<Rightarrow> 'b list result" where
  "rmap f [] = Inr []"
| "rmap f (x # xs) = rbind (f x) (\<lambda>y. rbind (rmap f xs) (\<lambda>ys. Inr (y # ys)))"

definition isOK :: "'a result \<Rightarrow> bool" where
  "isOK m = (case m of Inl _ \<Rightarrow> False | Inr _ \<Rightarrow> True)"

lemma rbind_Inl [simp]: "rbind (Inl e) f = Inl e"
  by (simp add: rbind_def)

lemma rbind_Inr [simp]: "rbind (Inr x) f = f x"
  by (simp add: rbind_def)

lemma rbind_eq_Inr_iff: "rbind m f = Inr y \<longleftrightarrow> (\<exists>x. m = Inr x \<and> f x = Inr y)"
  by (cases m) auto

lemma rbind_eq_Inl_iff:
  "rbind m f = Inl e \<longleftrightarrow> m = Inl e \<or> (\<exists>x. m = Inr x \<and> f x = Inl e)"
  by (cases m) auto

lemma rbind_assoc: "rbind (rbind m f) g = rbind m (\<lambda>x. rbind (f x) g)"
  by (cases m) auto

lemma rassert_eq_Inr_iff [simp]: "rassert b msg = Inr u \<longleftrightarrow> b"
  by (simp add: rassert_def)

lemma rassert_True [simp]: "rassert True msg = Inr ()"
  by (simp add: rassert_def)

lemma rassert_False [simp]: "rassert False msg = Inl (Assertion msg)"
  by (simp add: rassert_def)

lemma isOK_simps [simp]: "isOK (Inl e) = False" "isOK (Inr x) = True"
  by (simp_all add: isOK_def)

lemma isOK_iff: "isOK m \<longleftrightarrow> (\<exists>x. m = Inr x)"
  by (cases m) auto

lemma rfold_append: "rfold f (xs @ ys) s = rbind (rfold f xs s) (rfold f ys)"
  by (induction xs arbitrary: s) (simp_all add: rbind_def split: sum.split)

lemma rbind_Inr_right [simp]: "rbind m Inr = m"
  by (cases m) simp_all

lemma rfold_snoc: "rfold f (xs @ [x]) s = rbind (rfold f xs s) (f x)"
proof -
  have "rfold f [x] = f x" by (rule ext) (simp add: rbind_def split: sum.split)
  then show ?thesis by (simp add: rfold_append del: rfold.simps)
qed

lemma rfold_invariant:
  assumes "rfold f xs s = Inr s'" and "P s"
    and "\<And>x s s'. x \<in> set xs \<Longrightarrow> P s \<Longrightarrow> f x s = Inr s' \<Longrightarrow> P s'"
  shows "P s'"
  using assms
proof (induction xs arbitrary: s)
  case Nil
  then show ?case by simp
next
  case (Cons x xs)
  then obtain t where t: "f x s = Inr t" and rest: "rfold f xs t = Inr s'"
    by (auto simp: rbind_eq_Inr_iff)
  then have "P t" using Cons.prems(2) Cons.prems(3) [of x s t] by simp
  with rest show ?case using Cons.IH [of t] Cons.prems(3) by (meson list.set_intros(2))
qed

lemma rfold_total:
  assumes "P s"
    and "\<And>x s. x \<in> set xs \<Longrightarrow> P s \<Longrightarrow> \<exists>s'. f x s = Inr s' \<and> P s'"
  shows "\<exists>s'. rfold f xs s = Inr s' \<and> P s'"
  using assms
proof (induction xs arbitrary: s)
  case Nil
  then show ?case by simp
next
  case (Cons x xs)
  then obtain t where "f x s = Inr t" and "P t" by (meson list.set_intros(1))
  moreover from this(2) have "\<exists>s'. rfold f xs t = Inr s' \<and> P s'"
    using Cons.IH Cons.prems(2) by (meson list.set_intros(2))
  ultimately show ?case by simp
qed

lemma rmap_eq_Inr_length: "rmap f xs = Inr ys \<Longrightarrow> length ys = length xs"
  by (induction xs arbitrary: ys) (auto simp: rbind_eq_Inr_iff)

lemma rmap_all_Inr: "(\<And>x. x \<in> set xs \<Longrightarrow> f x = Inr (g x)) \<Longrightarrow> rmap f xs = Inr (map g xs)"
  by (induction xs) simp_all

text \<open>Indexing a C++ array or vector: an index out of range is a bad access.\<close>

definition at_idx :: "'a list \<Rightarrow> nat \<Rightarrow> 'a result" where
  "at_idx xs i = (if i < length xs then Inr (xs ! i) else Inl BadAccess)"

lemma at_idx_ok [simp]: "i < length xs \<Longrightarrow> at_idx xs i = Inr (xs ! i)"
  by (simp add: at_idx_def)

lemma at_idx_eq_Inr_iff: "at_idx xs i = Inr x \<longleftrightarrow> i < length xs \<and> xs ! i = x"
  by (auto simp: at_idx_def)

lemmas result_simps = rbind_eq_Inr_iff rbind_eq_Inl_iff

section \<open>Byte buffers\<close>

text \<open>
  \<open>splice_at xs i ys\<close> is what \<^verbatim>\<open>memcpy(xs + i, ys, length ys)\<close> does to the buffer \<open>xs\<close>;
  \<open>slice xs i n\<close> is the \<open>n\<close> bytes that \<^verbatim>\<open>memcpy(dst, xs + i, n)\<close> reads.
\<close>

definition splice_at :: "'a list \<Rightarrow> nat \<Rightarrow> 'a list \<Rightarrow> 'a list" where
  "splice_at xs i ys = take i xs @ ys @ drop (i + length ys) xs"

definition slice :: "'a list \<Rightarrow> nat \<Rightarrow> nat \<Rightarrow> 'a list" where
  "slice xs i n = take n (drop i xs)"

lemma length_splice_at [simp]:
  "i + length ys \<le> length xs \<Longrightarrow> length (splice_at xs i ys) = length xs"
  by (simp add: splice_at_def)

lemma length_slice [simp]: "i + n \<le> length xs \<Longrightarrow> length (slice xs i n) = n"
  by (simp add: slice_def)

lemma nth_splice_at:
  "i + length ys \<le> length xs \<Longrightarrow> k < length xs \<Longrightarrow>
   splice_at xs i ys ! k = (if i \<le> k \<and> k < i + length ys then ys ! (k - i) else xs ! k)"
  by (auto simp: splice_at_def nth_append not_less less_diff_conv2)

lemma nth_slice: "k < n \<Longrightarrow> i + n \<le> length xs \<Longrightarrow> slice xs i n ! k = xs ! (i + k)"
  by (simp add: slice_def)

lemma slice_splice_same [simp]:
  "i + length ys \<le> length xs \<Longrightarrow> length ys = n \<Longrightarrow> slice (splice_at xs i ys) i n = ys"
  by (simp add: slice_def splice_at_def)

lemma slice_splice_disjoint:
  assumes "i + length ys \<le> length xs" and "j + n \<le> length xs"
    and "j + n \<le> i \<or> i + length ys \<le> j"
  shows "slice (splice_at xs i ys) j n = slice xs j n"
proof (rule nth_equalityI)
  show "length (slice (splice_at xs i ys) j n) = length (slice xs j n)"
    using assms by simp
  fix k assume "k < length (slice (splice_at xs i ys) j n)"
  then have "k < n" using assms by simp
  then show "slice (splice_at xs i ys) j n ! k = slice xs j n ! k"
    using assms by (auto simp: nth_slice nth_splice_at)
qed

lemma slice_append_exact: "length xs = i \<Longrightarrow> slice (xs @ ys @ zs) i (length ys) = ys"
  by (simp add: slice_def)

section \<open>Machine words\<close>

lemma unat_64_less: "unat (x :: 64 word) < 18446744073709551616"
  using unsigned_less [of x] by simp

lemma word64_max [simp]: "(x :: 64 word) \<le> UINT64_MAX"
  by (rule word_n1_ge)

lemma word64_zero_less_max [simp]: "(0 :: 64 word) < UINT64_MAX"
  by (simp add: word_neq_0_conv [symmetric])

lemma unat_add_no_wrap:
  "unat (a :: 64 word) + unat b < 2 ^ 64 \<Longrightarrow> unat (a + b) = unat a + unat b"
  by (simp add: unat_word_ariths)

lemma unat_sub_no_wrap: "(b :: 'a::len word) \<le> a \<Longrightarrow> unat (a - b) = unat a - unat b"
  by (simp add: unat_sub word_le_nat_alt)

section \<open>The cuckoo hash map of libcuckoo\<close>

text \<open>
  \<^verbatim>\<open>libcuckoo::cuckoohash_map\<close> is an external package. Its operations are arguments of the
  definitions that call it; \<open>cuckoo_laws\<close> collects what its documentation promises of
  them: \<open>find\<close> looks a key up (the C++ \<open>find\<close> throws \<^verbatim>\<open>std::out_of_range\<close> where the model
  returns None), \<open>insert\<close> adds a pair only if the key is absent and says whether it did,
  \<open>update\<close> overwrites only a present key and says whether it did, \<open>clear\<close> empties the
  table and \<open>empty\<close> says whether it holds no key.
\<close>

record ('h, 'k, 'v) cuckoo =
  ck_new :: 'h
  ck_find :: "'h \<Rightarrow> 'k \<Rightarrow> 'v option"
  ck_insert :: "'h \<Rightarrow> 'k \<Rightarrow> 'v \<Rightarrow> bool \<times> 'h"
  ck_update :: "'h \<Rightarrow> 'k \<Rightarrow> 'v \<Rightarrow> bool \<times> 'h"
  ck_clear :: "'h \<Rightarrow> 'h"
  ck_empty :: "'h \<Rightarrow> bool"

definition ck_contains :: "('h, 'k, 'v) cuckoo \<Rightarrow> 'h \<Rightarrow> 'k \<Rightarrow> bool" where
  "ck_contains C h k = (ck_find C h k \<noteq> None)"

definition cuckoo_laws :: "('h, 'k, 'v) cuckoo \<Rightarrow> bool" where
  "cuckoo_laws C \<longleftrightarrow>
     (\<forall>k. ck_find C (ck_new C) k = None) \<and>
     (\<forall>h k v. fst (ck_insert C h k v) = (ck_find C h k = None)) \<and>
     (\<forall>h k v k'. ck_find C (snd (ck_insert C h k v)) k' =
        (if k' = k \<and> ck_find C h k = None then Some v else ck_find C h k')) \<and>
     (\<forall>h k v. fst (ck_update C h k v) = (ck_find C h k \<noteq> None)) \<and>
     (\<forall>h k v k'. ck_find C (snd (ck_update C h k v)) k' =
        (if k' = k \<and> ck_find C h k \<noteq> None then Some v else ck_find C h k')) \<and>
     (\<forall>h k. ck_find C (ck_clear C h) k = None) \<and>
     (\<forall>h. ck_empty C h \<longleftrightarrow> (\<forall>k. ck_find C h k = None))"

definition map_cuckoo :: "('k \<rightharpoonup> 'v, 'k, 'v) cuckoo" where
  "map_cuckoo =
     \<lparr>ck_new = Map.empty,
      ck_find = (\<lambda>h k. h k),
      ck_insert = (\<lambda>h k v. if h k = None then (True, h(k \<mapsto> v)) else (False, h)),
      ck_update = (\<lambda>h k v. if h k = None then (False, h) else (True, h(k \<mapsto> v))),
      ck_clear = (\<lambda>h. Map.empty),
      ck_empty = (\<lambda>h. h = Map.empty)\<rparr>"

lemma cuckoo_laws_map_cuckoo: "cuckoo_laws map_cuckoo"
  by (auto simp: cuckoo_laws_def map_cuckoo_def fun_eq_iff)

lemma cuckoo_simps:
  assumes "cuckoo_laws C"
  shows ck_find_new: "ck_find C (ck_new C) k = None"
    and ck_find_clear: "ck_find C (ck_clear C h) k = None"
    and ck_insert_fst: "fst (ck_insert C h k v) = (ck_find C h k = None)"
    and ck_find_insert: "ck_find C (snd (ck_insert C h k v)) k' =
          (if k' = k \<and> ck_find C h k = None then Some v else ck_find C h k')"
    and ck_update_fst: "fst (ck_update C h k v) = (ck_find C h k \<noteq> None)"
    and ck_find_update: "ck_find C (snd (ck_update C h k v)) k' =
          (if k' = k \<and> ck_find C h k \<noteq> None then Some v else ck_find C h k')"
    and ck_empty_iff: "ck_empty C h \<longleftrightarrow> (\<forall>k. ck_find C h k = None)"
  using assms by (auto simp: cuckoo_laws_def)

end
