(* ===== verification/StorageUtils.thy ===== *)
theory StorageUtils
  imports Prelude
begin

text \<open>
  The bit layouts of \<^verbatim>\<open>core/oltp/include/oltp/storage/storage-utils.hpp\<close>: a row
  identifier packs a 40-bit slot offset, an 8-bit partition and an 8-bit master version;
  a row uuid replaces the master version by the table; a column uuid packs table and
  column. The theorems are the round trips between packing and unpacking, and that two
  rows with the same uuid are the same row of the same table.
\<close>

section \<open>Packing and unpacking\<close>

definition create_vid :: "rowid_t \<Rightarrow> partition_id_t \<Rightarrow> master_version_t \<Rightarrow> rowid_t" where
  "create_vid vid partition_id master_ver =
     (vid AND 0x000000FFFFFFFFFF) OR push_bit 40 (ucast partition_id)
       OR push_bit 48 (ucast master_ver)"

definition create_vid2 :: "rowid_t \<Rightarrow> partition_id_t \<Rightarrow> rowid_t" where
  "create_vid2 vid partition_id =
     (vid AND 0x000000FFFFFFFFFF) OR push_bit 40 (ucast partition_id)"

definition update_mVer :: "rowid_t \<Rightarrow> master_version_t \<Rightarrow> rowid_t" where
  "update_mVer vid master_version =
     (vid AND 0xFF00FFFFFFFFFFFF) OR push_bit 48 (ucast master_version)"

definition get_offset :: "rowid_t \<Rightarrow> rowid_t" where
  "get_offset vid = vid AND 0x000000FFFFFFFFFF"

definition get_pid :: "rowid_t \<Rightarrow> partition_id_t" where
  "get_pid vid = ucast (drop_bit 40 (vid AND 0x0000FF0000000000))"

definition get_m_version :: "rowid_t \<Rightarrow> master_version_t" where
  "get_m_version vid = ucast (drop_bit 48 (vid AND 0x00FF000000000000))"

definition get_column_uuid :: "table_id_t \<Rightarrow> column_id_t \<Rightarrow> column_uuid_t" where
  "get_column_uuid tableId columnId = ucast columnId OR push_bit 16 (ucast tableId)"

definition get_tableId_from_columnUuid :: "column_uuid_t \<Rightarrow> table_id_t" where
  "get_tableId_from_columnUuid columnUuid = ucast (drop_bit 16 columnUuid)"

definition get_columnId_from_columnUuid :: "column_uuid_t \<Rightarrow> column_id_t" where
  "get_columnId_from_columnUuid columnUuid = ucast (columnUuid AND 0x0000FFFF)"

definition get_row_uuid :: "table_id_t \<Rightarrow> rowid_t \<Rightarrow> row_uuid_t" where
  "get_row_uuid tableId vid =
     (vid AND 0x0000FFFFFFFFFFFF) OR push_bit 48 (ucast tableId)"

definition get_tableId_from_rowUuid :: "row_uuid_t \<Rightarrow> table_id_t" where
  "get_tableId_from_rowUuid row_uuid = ucast (drop_bit 48 row_uuid)"

definition get_rowId_from_rowUuid :: "row_uuid_t \<Rightarrow> rowid_t" where
  "get_rowId_from_rowUuid row_uuid = row_uuid AND 0x0000FFFFFFFFFFFF"

definition get_pid_from_rowUuid :: "row_uuid_t \<Rightarrow> partition_id_t" where
  "get_pid_from_rowUuid row_uuid = get_pid (get_rowId_from_rowUuid row_uuid)"

section \<open>The masks as bit ranges\<close>

lemma mask_lits:
  "(0x000000FFFFFFFFFF :: 64 word) = mask 40"
  "(0x0000FFFFFFFFFFFF :: 64 word) = mask 48"
  "(0x0000FF0000000000 :: 64 word) = push_bit 40 (mask 8)"
  "(0x00FF000000000000 :: 64 word) = push_bit 48 (mask 8)"
  "(0xFF00FFFFFFFFFFFF :: 64 word) = mask 48 OR push_bit 56 (mask 8)"
  "(0x0000FFFF :: 32 word) = mask 16"
  by (simp_all add: mask_eq_exp_minus_1 push_bit_eq_mult)

lemmas vid_defs = create_vid_def create_vid2_def update_mVer_def get_offset_def get_pid_def
  get_m_version_def get_column_uuid_def get_tableId_from_columnUuid_def
  get_columnId_from_columnUuid_def get_row_uuid_def get_tableId_from_rowUuid_def
  get_rowId_from_rowUuid_def get_pid_from_rowUuid_def

lemma word_eq_mask_fixed: "unat (w :: 64 word) < 2 ^ n \<Longrightarrow> w AND mask n = w"
  by (simp add: take_bit_eq_mask [symmetric] word_unat_eq_iff unsigned_take_bit_eq
      take_bit_nat_eq_self)

section \<open>Unpacking after packing\<close>

lemma get_offset_create_vid [simp]: "get_offset (create_vid v p m) = v AND mask 40"
  unfolding vid_defs mask_lits by (rule bit_word_eqI) (auto simp: bit_simps dest: bit_imp_le_length)

lemma get_pid_create_vid [simp]: "get_pid (create_vid v p m) = p"
  unfolding vid_defs mask_lits by (rule bit_word_eqI) (auto simp: bit_simps dest: bit_imp_le_length)

lemma get_m_version_create_vid [simp]: "get_m_version (create_vid v p m) = m"
  unfolding vid_defs mask_lits by (rule bit_word_eqI) (auto simp: bit_simps dest: bit_imp_le_length)

lemma create_vid2_eq: "create_vid2 v p = create_vid v p 0"
  by (simp add: create_vid2_def create_vid_def)

lemma get_offset_update_mVer [simp]: "get_offset (update_mVer v m) = get_offset v"
  unfolding vid_defs mask_lits by (rule bit_word_eqI) (auto simp: bit_simps dest: bit_imp_le_length)

lemma get_pid_update_mVer [simp]: "get_pid (update_mVer v m) = get_pid v"
  unfolding vid_defs mask_lits by (rule bit_word_eqI) (auto simp: bit_simps dest: bit_imp_le_length)

lemma get_m_version_update_mVer [simp]: "get_m_version (update_mVer v m) = m"
  unfolding vid_defs mask_lits by (rule bit_word_eqI) (auto simp: bit_simps dest: bit_imp_le_length)

lemma get_tableId_column_uuid [simp]: "get_tableId_from_columnUuid (get_column_uuid t c) = t"
  unfolding vid_defs mask_lits by (rule bit_word_eqI) (auto simp: bit_simps dest: bit_imp_le_length)

lemma get_columnId_column_uuid [simp]: "get_columnId_from_columnUuid (get_column_uuid t c) = c"
  unfolding vid_defs mask_lits by (rule bit_word_eqI) (auto simp: bit_simps dest: bit_imp_le_length)

lemma get_tableId_row_uuid [simp]: "get_tableId_from_rowUuid (get_row_uuid t v) = t"
  unfolding vid_defs mask_lits by (rule bit_word_eqI) (auto simp: bit_simps dest: bit_imp_le_length)

lemma get_rowId_row_uuid: "get_rowId_from_rowUuid (get_row_uuid t v) = v AND mask 48"
  unfolding vid_defs mask_lits by (rule bit_word_eqI) (auto simp: bit_simps dest: bit_imp_le_length)

lemma get_offset_row_uuid [simp]:
  "get_offset (get_rowId_from_rowUuid (get_row_uuid t v)) = get_offset v"
  unfolding vid_defs mask_lits by (rule bit_word_eqI) (auto simp: bit_simps dest: bit_imp_le_length)

lemma get_pid_row_uuid [simp]: "get_pid_from_rowUuid (get_row_uuid t v) = get_pid v"
  unfolding vid_defs mask_lits by (rule bit_word_eqI) (auto simp: bit_simps dest: bit_imp_le_length)

lemma low48_split:
  "v AND mask 48 = (get_offset v) OR push_bit 40 (ucast (get_pid v))" for v :: "64 word"
  unfolding vid_defs mask_lits by (rule bit_word_eqI) (auto simp: bit_simps dest: bit_imp_le_length)

lemma create_vid_of_parts: "drop_bit 56 v = 0 \<Longrightarrow>
  create_vid (get_offset v) (get_pid v) (get_m_version v) = v"
  for v :: "64 word"
proof -
  assume top: "drop_bit 56 v = 0"
  have high: "\<not> bit v n" if "56 \<le> n" for n
  proof -
    have "bit (drop_bit 56 v) (n - 56) = bit v n" using that by (simp add: bit_simps)
    then show ?thesis using top by simp
  qed
  show ?thesis
  proof (rule bit_word_eqI)
    fix n assume "n < LENGTH(64)"
    then consider "n < 40" | "40 \<le> n" "n < 48" | "48 \<le> n" "n < 56" | "56 \<le> n" by linarith
    then show "bit (create_vid (get_offset v) (get_pid v) (get_m_version v)) n = bit v n"
      unfolding vid_defs mask_lits by cases (auto simp: bit_simps high)
  qed
qed

section \<open>Properties\<close>

text \<open>
  C12. A row identifier round trips: unpacking what \<open>create_vid\<close> packed gives back the slot
  offset (if it fits the 40 bits the layout reserves), the partition and the master
  version; and packing the parts of an identifier whose top byte is unused gives it back.
\<close>
theorem vid_roundtrip:
  assumes "unat off < 2 ^ 40"
  shows "get_offset (create_vid off pid mver) = off
    \<and> get_pid (create_vid off pid mver) = pid
    \<and> get_m_version (create_vid off pid mver) = mver
    \<and> (\<forall>vid. drop_bit 56 vid = 0 \<longrightarrow>
         create_vid (get_offset vid) (get_pid vid) (get_m_version vid) = vid)"
  using word_eq_mask_fixed [OF assms] create_vid_of_parts by simp

theorem vid_roundtrip_witness:
  "get_offset (create_vid 70000 3 2) = 70000 \<and> get_pid (create_vid 70000 3 2) = 3
    \<and> get_m_version (create_vid 70000 3 2) = 2"
  using vid_roundtrip [of 70000 3 2] by simp

text \<open>
  A row uuid identifies a row: two uuids are equal exactly when the tables, the
  partitions and the slot offsets are equal, so the undo log and the garbage collector,
  which carry only uuids, never confuse two rows.
\<close>
lemma row_uuid_injective:
  "get_row_uuid t v = get_row_uuid t' v' \<longleftrightarrow>
     t = t' \<and> get_pid v = get_pid v' \<and> get_offset v = get_offset v'"
proof
  assume eq: "get_row_uuid t v = get_row_uuid t' v'"
  have "t = t'" using arg_cong [OF eq, of get_tableId_from_rowUuid] by simp
  moreover have "get_pid v = get_pid v'" using arg_cong [OF eq, of get_pid_from_rowUuid] by simp
  moreover have "get_offset v = get_offset v'"
    using arg_cong [OF eq, of "\<lambda>u. get_offset (get_rowId_from_rowUuid u)"] by simp
  ultimately show "t = t' \<and> get_pid v = get_pid v' \<and> get_offset v = get_offset v'" by simp
next
  assume "t = t' \<and> get_pid v = get_pid v' \<and> get_offset v = get_offset v'"
  then show "get_row_uuid t v = get_row_uuid t' v'"
    using low48_split [of v] low48_split [of v'] by (simp add: get_row_uuid_def mask_lits)
qed

end
