(* ===== verification/DeltaPtr.thy ===== *)
theory DeltaPtr
  imports StorageUtils
begin

text \<open>
  The two encodings of a reference into delta memory in
  \<^verbatim>\<open>core/oltp/include/oltp/storage/multi-version/delta-memory-ptr.hpp\<close>. A
  \<^verbatim>\<open>ClassicPtrWrapper\<close> is a machine address with a partition number in its top bits. A
  \<^verbatim>\<open>DeltaDataPtr\<close> packs a 4-bit delta store, a 4-bit partition, a 20-bit tag and a 36-bit
  offset; it can be followed only while its tag is the current tag of its delta store,
  which is how a store that was garbage collected invalidates every reference into it.
\<close>

section \<open>ClassicPtrWrapper\<close>

definition classic_get_ptrOffset :: "uintptr \<Rightarrow> uintptr" where
  "classic_get_ptrOffset val = val AND 0x00FFFFFFFFFFFFFF"

definition classic_isValid :: "uintptr \<Rightarrow> bool" where
  "classic_isValid val = (classic_get_ptrOffset val \<noteq> 0)"

definition classic_getPid :: "uintptr \<Rightarrow> partition_id_t" where
  "classic_getPid val = ucast (drop_bit 60 val)"

definition ClassicPtrWrapper :: "uintptr \<Rightarrow> partition_id_t \<Rightarrow> uintptr" where
  "ClassicPtrWrapper val pid = (val AND 0x00FFFFFFFFFFFFFF) OR push_bit 60 (ucast pid)"

definition classic_get_ptr :: "uintptr \<Rightarrow> uintptr" where
  "classic_get_ptr val = (if val = 0 then 0 else classic_get_ptrOffset val)"

section \<open>DeltaDataPtr: fields\<close>

definition get_delta_idx :: "uintptr \<Rightarrow> delta_id_t" where
  "get_delta_idx val = ucast (drop_bit 60 val)"

definition get_partition_idx :: "uintptr \<Rightarrow> 8 word" where
  "get_partition_idx val = ucast (drop_bit 56 val) AND 0x0f"

definition get_tag :: "uintptr \<Rightarrow> 32 word" where
  "get_tag val = ucast (drop_bit 36 val) AND 0x000fffff"

definition ptr_get_offset :: "uintptr \<Rightarrow> uintptr" where
  "ptr_get_offset val = val AND 0x0000000fffffffff"

definition get_delta_idx_pid_pair :: "uintptr \<Rightarrow> 8 word" where
  "get_delta_idx_pid_pair val = ucast (drop_bit 56 val)"

definition create_delta_idx_pid_pair :: "delta_id_t \<Rightarrow> partition_id_t \<Rightarrow> 8 word" where
  "create_delta_idx_pid_pair delta_id pid = push_bit 4 (delta_id AND 0x0f) OR (pid AND 0x0f)"

section \<open>DeltaDataPtr: construction, validation, dereference\<close>

text \<open>
  \<open>bases\<close> is the static map \<^verbatim>\<open>data_memory_base\<close> (a missing key reads as 0, the value
  \<^verbatim>\<open>operator[]\<close> default-inserts); \<open>tags\<close> gives, for each entry of the static map
  \<^verbatim>\<open>deltaStore_map\<close>, the current tag of that store (a missing key is the null store
  pointer that \<^verbatim>\<open>operator[]\<close> inserts and the code then dereferences).
\<close>

definition data_base :: "(8 word \<rightharpoonup> uintptr) \<Rightarrow> 8 word \<Rightarrow> uintptr" where
  "data_base bases k = (case bases k of None \<Rightarrow> 0 | Some b \<Rightarrow> b)"

definition ptr_update ::
  "(8 word \<rightharpoonup> uintptr) \<Rightarrow> uintptr \<Rightarrow> 32 word \<Rightarrow> delta_id_t \<Rightarrow> partition_id_t \<Rightarrow> uintptr" where
  "ptr_update bases data_ptr tag delta_idx pid =
     (let offset = data_ptr - data_base bases (create_delta_idx_pid_pair delta_idx pid)
      in (offset AND 0x0000000fffffffff)
         OR push_bit 36 (ucast (tag AND 0x000fffff))
         OR push_bit 56 (ucast (pid AND 0x0f))
         OR push_bit 60 (ucast (delta_idx AND 0x0f)))"

definition verifyTag :: "(delta_id_t \<rightharpoonup> 32 word) \<Rightarrow> uintptr \<Rightarrow> bool result" where
  "verifyTag tags val =
     (case tags (get_delta_idx val) of
        None \<Rightarrow> Inl NullDeref
      | Some dTag \<Rightarrow> Inr ((dTag AND 0x000FFFFF) = get_tag val))"

definition isValid :: "(delta_id_t \<rightharpoonup> 32 word) \<Rightarrow> uintptr \<Rightarrow> bool result" where
  "isValid tags val = verifyTag tags val"

definition get_ptr ::
  "(8 word \<rightharpoonup> uintptr) \<Rightarrow> (delta_id_t \<rightharpoonup> 32 word) \<Rightarrow> uintptr \<Rightarrow> uintptr result" where
  "get_ptr bases tags val =
     rbind (verifyTag tags val) (\<lambda>ok.
       if ok then Inr (data_base bases (get_delta_idx_pid_pair val) + ptr_get_offset val)
       else Inr 0)"

section \<open>Field lemmas\<close>

lemma ptr_mask_lits:
  "(0x00FFFFFFFFFFFFFF :: 64 word) = mask 56"
  "(0x0000000fffffffff :: 64 word) = mask 36"
  "(0x000fffff :: 32 word) = mask 20"
  "(0x0f :: 8 word) = mask 4"
  by (simp_all add: mask_eq_exp_minus_1)

lemmas ptr_defs = get_delta_idx_def get_partition_idx_def get_tag_def ptr_get_offset_def
  get_delta_idx_pid_pair_def create_delta_idx_pid_pair_def ptr_update_def Let_def
  classic_get_ptrOffset_def classic_getPid_def ClassicPtrWrapper_def

lemma get_tag_update [simp]: "get_tag (ptr_update bases a tag d p) = tag AND mask 20"
  unfolding ptr_defs ptr_mask_lits
  by (rule bit_word_eqI) (auto simp: bit_simps dest: bit_imp_le_length)

lemma get_delta_idx_update: "get_delta_idx (ptr_update bases a tag d p) = d AND mask 4"
  unfolding ptr_defs ptr_mask_lits
  by (rule bit_word_eqI) (auto simp: bit_simps dest: bit_imp_le_length)

lemma get_partition_idx_update: "get_partition_idx (ptr_update bases a tag d p) = p AND mask 4"
  unfolding ptr_defs ptr_mask_lits
  by (rule bit_word_eqI) (auto simp: bit_simps dest: bit_imp_le_length)

lemma get_pair_update [simp]:
  "get_delta_idx_pid_pair (ptr_update bases a tag d p) = create_delta_idx_pid_pair d p"
  unfolding ptr_defs ptr_mask_lits
  by (rule bit_word_eqI) (auto simp: bit_simps dest: bit_imp_le_length)

lemma ptr_get_offset_update: "ptr_get_offset (ptr_update bases a tag d p) =
   (a - data_base bases (create_delta_idx_pid_pair d p)) AND mask 36"
  unfolding ptr_defs ptr_mask_lits
  by (rule bit_word_eqI) (auto simp: bit_simps dest: bit_imp_le_length)

lemma and_mask_fixed: "unat (w :: 'a::len word) < 2 ^ n \<Longrightarrow> w AND mask n = w"
  by (simp add: take_bit_eq_mask [symmetric] word_unat_eq_iff unsigned_take_bit_eq
      take_bit_nat_eq_self)

lemma pair_injective:
  assumes "unat d < 16" "unat p < 16" "unat d' < 16" "unat p' < 16"
  shows "create_delta_idx_pid_pair d p = create_delta_idx_pid_pair d' p' \<longleftrightarrow> d = d' \<and> p = p'"
proof
  assume eq: "create_delta_idx_pid_pair d p = create_delta_idx_pid_pair d' p'"
  have d_of: "drop_bit 4 (create_delta_idx_pid_pair d p) = d AND mask 4" for d p
    unfolding ptr_defs ptr_mask_lits
    by (rule bit_word_eqI) (auto simp: bit_simps dest: bit_imp_le_length)
  have p_of: "create_delta_idx_pid_pair d p AND mask 4 = p AND mask 4" for d p
    unfolding ptr_defs ptr_mask_lits by (rule bit_word_eqI) (auto simp: bit_simps)
  from eq have "d AND mask 4 = d' AND mask 4" "p AND mask 4 = p' AND mask 4"
    by (metis d_of) (metis p_of eq)
  then show "d = d' \<and> p = p'"
    using assms and_mask_fixed [of d 4] and_mask_fixed [of d' 4] and_mask_fixed [of p 4]
      and_mask_fixed [of p' 4] by simp
qed simp

lemma tag_mask_unat: "unat ((t :: 32 word) AND mask 20) = unat t mod 2 ^ 20"
  by (simp only: take_bit_eq_mask [symmetric] unsigned_take_bit_eq) (simp add: take_bit_eq_mod)

lemma isValid_update:
  assumes "tags (d AND mask 4) = Some cur"
  shows "isValid tags (ptr_update bases a tag d p) =
           Inr (unat cur mod 2 ^ 20 = unat tag mod 2 ^ 20)"
  using assms tag_mask_unat [of cur] tag_mask_unat [of tag]
  by (auto simp: isValid_def verifyTag_def get_delta_idx_update ptr_mask_lits word_unat_eq_iff)

lemma get_ptr_update:
  assumes "tags (d AND mask 4) = Some tag"
    and "unat (a - data_base bases (create_delta_idx_pid_pair d p)) < 2 ^ 36"
  shows "get_ptr bases tags (ptr_update bases a tag d p) = Inr a"
  using assms and_mask_fixed [OF assms(2)]
  by (simp add: get_ptr_def verifyTag_def get_delta_idx_update ptr_get_offset_update
      ptr_mask_lits)

section \<open>The interface the version chains use\<close>

text \<open>
  A version chain only asks two things of a reference: whether it is valid, and the
  address it stands for. \<open>delta_ref\<close> is that contract; both encodings provide it. The
  facts proved inside hold for either garbage collection mechanism.
\<close>

locale delta_ref =
  fixes valid :: "uintptr \<Rightarrow> bool result"
    and deref :: "uintptr \<Rightarrow> uintptr result"
  assumes deref_valid: "valid p = Inr True \<Longrightarrow> \<exists>a. deref p = Inr a"
    and deref_error: "valid p = Inl e \<Longrightarrow> deref p = Inl e"
begin

lemma deref_cases: "valid p = Inr True \<Longrightarrow> (\<And>a. deref p = Inr a \<Longrightarrow> R) \<Longrightarrow> R"
  using deref_valid by blast

lemma valid_defined: "deref p = Inr a \<Longrightarrow> \<exists>b. valid p = Inr b"
  using deref_error by (cases "valid p") auto

end

interpretation one_shot: delta_ref "isValid tags" "get_ptr bases tags"
  by unfold_locales (auto simp: isValid_def get_ptr_def)

interpretation classic: delta_ref "\<lambda>p. Inr (classic_isValid p)" "\<lambda>p. Inr (classic_get_ptr p)"
  by unfold_locales auto

section \<open>Properties\<close>

text \<open>
  C17. A tagged reference round trips: what \<open>ptr_update\<close> packed for a delta store and a
  partition below 16 and an address within 64 GB of the partition's base, unpacks to that
  store, that partition and the 20 low tag bits, and while the store's tag is the one
  packed, following the reference yields the address.
\<close>
theorem delta_ptr_roundtrip:
  assumes "unat d < 16" "unat p < 16" "tags d = Some tag"
    and "unat (a - data_base bases (create_delta_idx_pid_pair d p)) < 2 ^ 36"
  shows "get_delta_idx (ptr_update bases a tag d p) = d
    \<and> get_partition_idx (ptr_update bases a tag d p) = p
    \<and> unat (get_tag (ptr_update bases a tag d p)) = unat tag mod 2 ^ 20
    \<and> get_ptr bases tags (ptr_update bases a tag d p) = Inr a"
proof -
  have dp: "d AND mask 4 = d" "p AND mask 4 = p" using assms(1,2) by (simp_all add: and_mask_fixed)
  show ?thesis
    using assms(3,4) get_ptr_update [of tags d tag a bases p]
    by (simp add: dp get_delta_idx_update get_partition_idx_update tag_mask_unat)
qed

theorem delta_ptr_roundtrip_witness:
  "get_ptr (Map.empty(create_delta_idx_pid_pair 2 1 \<mapsto> 4096)) (Map.empty(2 \<mapsto> 7))
     (ptr_update (Map.empty(create_delta_idx_pid_pair 2 1 \<mapsto> 4096)) 5000 7 2 1) = Inr 5000"
  using delta_ptr_roundtrip [of 2 1 "Map.empty(2 \<mapsto> 7)" 7 5000
      "Map.empty(create_delta_idx_pid_pair 2 1 \<mapsto> 4096)"]
  by (simp add: data_base_def)

text \<open>
  C18. Garbage collection invalidates references, up to tag wrap-around: if a delta store
  has advanced its tag \<open>n\<close> times since a reference into it was made, the reference is
  valid exactly when \<open>n\<close> is a multiple of \<open>2^20\<close> (only 20 of the tag's 32 bits are kept
  in the reference); until then following it yields the null pointer.
\<close>
theorem stale_pointer_detection:
  assumes "unat d < 16" and "tags d = Some (tag + of_nat n)"
  shows "isValid tags (ptr_update bases a tag d p) = Inr (n mod 2 ^ 20 = 0)
    \<and> (n mod 2 ^ 20 \<noteq> 0 \<longrightarrow> get_ptr bases tags (ptr_update bases a tag d p) = Inr 0)"
proof -
  have dd: "d AND mask 4 = d" using assms(1) by (simp add: and_mask_fixed)
  have "unat (tag + of_nat n) mod 2 ^ 20 = (unat tag + n) mod 2 ^ 20"
    by (simp add: unat_word_ariths unsigned_of_nat take_bit_eq_mod mod_add_eq mod_mod_cancel
        mod_simps)
  moreover have "(unat tag + n) mod 2 ^ 20 = unat tag mod 2 ^ 20 \<longleftrightarrow> n mod 2 ^ 20 = 0"
    by (simp add: mod_eq_dvd_iff_nat mod_eq_0_iff_dvd)
  ultimately have *: "isValid tags (ptr_update bases a tag d p) = Inr (n mod 2 ^ 20 = 0)"
    using isValid_update [of tags d "tag + of_nat n" bases a tag p] assms(2) dd by simp
  then show ?thesis by (auto simp: get_ptr_def isValid_def)
qed

theorem stale_pointer_detection_witness:
  "isValid (Map.empty(1 \<mapsto> 9)) (ptr_update Map.empty 64 8 1 0) = Inr False"
  using stale_pointer_detection [of 1 "Map.empty(1 \<mapsto> 9)" 8 1 Map.empty 64 0] by simp

end
