(* ===== verification/TxnTable.thy ===== *)
theory TxnTable
  imports StorageUtils
begin

text \<open>
  Transactions and the bookkeeping of live transactions:
  \<^verbatim>\<open>transaction.hpp/.cpp\<close> (\<^verbatim>\<open>TxnTs\<close>, \<^verbatim>\<open>Txn\<close>), \<^verbatim>\<open>txn-table.hpp/.cpp\<close>
  (\<^verbatim>\<open>ThreadLocal_TransactionTable\<close>) and the parts of \<^verbatim>\<open>transaction_manager.hpp\<close> that
  do not touch storage: the timestamp generator, the registry of transaction tables and
  the minima over it that decide what garbage collection may reclaim. The theorems: the
  generator hands out strictly increasing start times and commit stamps, and the minimum
  over the registry is a lower bound of every running transaction.
\<close>

section \<open>Configuration\<close>

datatype GcTypes = NoGC | OneShot | SteamGC

definition delta_switch_bit :: nat where
  "delta_switch_bit = 5"

definition num_delta_storages :: "GcTypes \<Rightarrow> 8 word" where
  "num_delta_storages gc = (if gc \<noteq> OneShot then 1 else 4)"

definition num_master_versions :: "master_version_t" where
  "num_master_versions = 1"

section \<open>Transactions\<close>

record TxnTs =
  txn_start_time :: xid_t
  txn_id :: xid_t

record Txn =
  txnTs :: TxnTs
  read_only :: bool
  worker_id :: worker_id_t
  partition_id :: partition_id_t
  master_version :: master_version_t
  delta_version :: delta_id_t
  commit_ts :: xid_t
  undoLogVector :: "row_uuid_t list"

definition get_delta_ver :: "GcTypes \<Rightarrow> xid_t \<Rightarrow> delta_id_t" where
  "get_delta_ver gc xid =
     (if gc = OneShot
      then ucast (drop_bit delta_switch_bit xid mod ucast (num_delta_storages gc))
      else 0)"

section \<open>Transaction tables\<close>

record txn_table =
  workerID :: worker_id_t
  thread_id :: nat
  min_active :: xid_t
  max_last_alive :: xid_t
  committedTxn :: "Txn list"

definition new_txn_table :: "worker_id_t \<Rightarrow> nat \<Rightarrow> txn_table" where
  "new_txn_table workerId tid =
     \<lparr>workerID = workerId, thread_id = tid, min_active = UINT64_MAX, max_last_alive = 0,
      committedTxn = []\<rparr>"

text \<open>
  The registry is a vector of pointers to tables; a table is identified by the number of
  the thread that owns it.
\<close>

record txn_manager =
  current_master :: master_version_t
  epoch_to_master_ver_map :: "xid_t \<rightharpoonup> master_version_t"
  registry :: "(nat \<times> txn_table) list"
  gen :: xid_t

definition new_txn_manager :: txn_manager where
  "new_txn_manager =
     \<lparr>current_master = 0, epoch_to_master_ver_map = Map.empty, registry = [], gen = 1\<rparr>"

definition baseShift :: nat where
  "baseShift = 27"

definition get_txnID_startTime_Pair :: "txn_manager \<Rightarrow> TxnTs \<times> txn_manager" where
  "get_txnID_startTime_Pair m =
     (let x = gen m
      in (\<lparr>txn_start_time = x, txn_id = push_bit baseShift x\<rparr>, m\<lparr>gen := x + 1\<rparr>))"

definition get_commit_ts :: "txn_manager \<Rightarrow> xid_t \<times> txn_manager" where
  "get_commit_ts m = (gen m, m\<lparr>gen := gen m + 1\<rparr>)"

definition get_next_xid :: "txn_manager \<Rightarrow> xid_t \<times> txn_manager" where
  "get_next_xid m = get_commit_ts m"

definition registerTxnTable :: "nat \<times> txn_table \<Rightarrow> txn_manager \<Rightarrow> txn_manager" where
  "registerTxnTable tbl m = m\<lparr>registry := registry m @ [tbl]\<rparr>"

definition deregisterTxnTable :: "nat \<Rightarrow> txn_manager \<Rightarrow> txn_manager" where
  "deregisterTxnTable tid m = m\<lparr>registry := filter (\<lambda>e. fst e \<noteq> tid) (registry m)\<rparr>"

definition set_table :: "nat \<Rightarrow> txn_table \<Rightarrow> txn_manager \<Rightarrow> txn_manager" where
  "set_table tid t m =
     m\<lparr>registry := map (\<lambda>e. if fst e = tid then (tid, t) else e) (registry m)\<rparr>"

text \<open>The five-argument constructor, and \<^verbatim>\<open>Txn::getTxn\<close>, which draws the timestamp pair.\<close>

definition mk_Txn ::
  "GcTypes \<Rightarrow> TxnTs \<Rightarrow> worker_id_t \<Rightarrow> partition_id_t \<Rightarrow> master_version_t \<Rightarrow> bool \<Rightarrow> Txn" where
  "mk_Txn gc ts workerId partitionId mver ro =
     \<lparr>txnTs = ts, read_only = ro, worker_id = workerId, partition_id = partitionId,
      master_version = mver, delta_version = get_delta_ver gc (txn_start_time ts),
      commit_ts = 0, undoLogVector = []\<rparr>"

definition getTxn ::
  "GcTypes \<Rightarrow> worker_id_t \<Rightarrow> partition_id_t \<Rightarrow> bool \<Rightarrow> txn_manager \<Rightarrow> Txn \<times> txn_manager" where
  "getTxn gc workerId partitionId readOnly m =
     (let (ts, m') = get_txnID_startTime_Pair m
      in (mk_Txn gc ts workerId partitionId (current_master m') readOnly, m'))"

definition beginTxn ::
  "GcTypes \<Rightarrow> worker_id_t \<Rightarrow> partition_id_t \<Rightarrow> bool \<Rightarrow> txn_table \<Rightarrow> txn_manager
     \<Rightarrow> Txn \<times> txn_table \<times> txn_manager" where
  "beginTxn gc workerId partitionId readOnly t m =
     (let (tx, m') = getTxn gc workerId partitionId readOnly m
      in (tx, t\<lparr>min_active := txn_start_time (txnTs tx)\<rparr>, m'))"

definition endTxn :: "GcTypes \<Rightarrow> Txn \<Rightarrow> txn_table \<Rightarrow> txn_table" where
  "endTxn gc txn t =
     (let t1 = t\<lparr>min_active := UINT64_MAX\<rparr>;
          t2 = (if max_last_alive t1 < txn_start_time (txnTs txn)
                then t1\<lparr>max_last_alive := txn_start_time (txnTs txn)\<rparr> else t1)
      in if gc = SteamGC then t2\<lparr>committedTxn := committedTxn t2 @ [txn]\<rparr> else t2)"

section \<open>Minima over the registry\<close>

text \<open>The loop shared by the three queries: \<^verbatim>\<open>if (x < min) min = x\<close> over the registry.\<close>

definition min_loop :: "xid_t list \<Rightarrow> xid_t" where
  "min_loop xs = fold (\<lambda>x mn. if x < mn then x else mn) xs UINT64_MAX"

definition get_last_alive :: "txn_manager \<Rightarrow> xid_t" where
  "get_last_alive m = min_loop (map (max_last_alive \<circ> snd) (registry m))"

definition get_min_activeTxn :: "txn_manager \<Rightarrow> xid_t" where
  "get_min_activeTxn m = min_loop (map (min_active \<circ> snd) (registry m))"

definition get_all_CurrentActiveTxn :: "txn_manager \<Rightarrow> xid_t list \<times> xid_t" where
  "get_all_CurrentActiveTxn m =
     (let xs = map (min_active \<circ> snd) (registry m) in (xs, min_loop xs))"

definition get_all_activeTxn :: "txn_manager \<Rightarrow> xid_t list" where
  "get_all_activeTxn m =
     sort (filter (\<lambda>x. x \<noteq> UINT64_MAX) (map (max_last_alive \<circ> snd) (registry m)))"

section \<open>Master versions and snapshots of the manager\<close>

definition switch_master :: "txn_manager \<Rightarrow> master_version_t \<times> txn_manager" where
  "switch_master m =
     (let curr = current_master m; tmp = (curr + 1) mod num_master_versions
      in (curr, m\<lparr>current_master := tmp\<rparr>))"

definition get_snapshot_masterVersion :: "txn_manager \<Rightarrow> xid_t \<Rightarrow> master_version_t result" where
  "get_snapshot_masterVersion m epoch =
     (case epoch_to_master_ver_map m epoch of
        None \<Rightarrow> Inl (Assertion ''epoch_to_master_ver_map.contains(epoch)'')
      | Some v \<Rightarrow> Inr v)"

section \<open>Lemmas\<close>

lemma fold_min_le_start: "fold (\<lambda>x mn. if x < mn then x else mn) xs (a :: xid_t) \<le> a"
proof (induction xs arbitrary: a)
  case (Cons x xs)
  have "fold (\<lambda>x mn. if x < mn then x else mn) xs (if x < a then x else a) \<le> (if x < a then x else a)"
    by (rule Cons.IH)
  then show ?case by (auto split: if_splits)
qed simp

lemma fold_min_le_elem:
  "x \<in> set xs \<Longrightarrow> fold (\<lambda>x mn. if x < mn then x else mn) xs (a :: xid_t) \<le> x"
proof (induction xs arbitrary: a)
  case (Cons y ys)
  show ?case
  proof (cases "x = y")
    case True
    have "fold (\<lambda>x mn. if x < mn then x else mn) ys (if y < a then y else a)
        \<le> (if y < a then y else a)" by (rule fold_min_le_start)
    also have "\<dots> \<le> y" by (simp add: not_less)
    finally show ?thesis using True by simp
  next
    case False
    with Cons show ?thesis by simp
  qed
qed simp

lemma fold_min_mem:
  "fold (\<lambda>x mn. if x < mn then x else mn) xs (a :: xid_t) \<in> insert a (set xs)"
proof (induction xs arbitrary: a)
  case (Cons x xs)
  from Cons [of "if x < a then x else a"] show ?case by (auto split: if_splits)
qed simp

lemma min_loop_le: "x \<in> set xs \<Longrightarrow> min_loop xs \<le> x"
  by (simp add: min_loop_def fold_min_le_elem)

lemma min_loop_mem: "min_loop xs \<in> insert UINT64_MAX (set xs)"
  unfolding min_loop_def by (rule fold_min_mem)

lemma min_loop_greater_iff:
  "b < min_loop xs \<longleftrightarrow> b < UINT64_MAX \<and> (\<forall>x\<in>set xs. b < x)"
proof
  assume "b < min_loop xs"
  then show "b < UINT64_MAX \<and> (\<forall>x\<in>set xs. b < x)"
    using min_loop_le [of _ xs] word64_max [of "min_loop xs"] by (meson order_less_le_trans)
next
  assume "b < UINT64_MAX \<and> (\<forall>x\<in>set xs. b < x)"
  then show "b < min_loop xs" using min_loop_mem [of xs] by auto
qed

lemma beginTxn_min_active:
  "beginTxn gc w p ro t m = (tx, t', m') \<Longrightarrow> min_active t' = txn_start_time (txnTs tx)"
  by (auto simp: beginTxn_def Let_def split: prod.splits)

lemma get_delta_ver_bound: "get_delta_ver gc xid < num_delta_storages gc"
proof (cases gc)
  case OneShot
  have "unat (drop_bit 5 xid mod 4) < 4"
    by (simp add: unat_mod)
  then show ?thesis using OneShot
    by (simp add: get_delta_ver_def num_delta_storages_def delta_switch_bit_def
        word_less_nat_alt unsigned_ucast_eq take_bit_nat_eq_self)
qed (simp_all add: get_delta_ver_def num_delta_storages_def)

section \<open>Runs of the manager\<close>

text \<open>A sequence of draws from the generator: \<open>True\<close> begins a transaction, \<open>False\<close> takes a commit stamp.\<close>

fun draws :: "bool list \<Rightarrow> txn_manager \<Rightarrow> xid_t list" where
  "draws [] m = []"
| "draws (is_begin # ds) m =
     (if is_begin
      then (case get_txnID_startTime_Pair m of (ts, m') \<Rightarrow> txn_start_time ts # draws ds m')
      else (case get_commit_ts m of (x, m') \<Rightarrow> x # draws ds m'))"

lemma draws_eq:
  "draws ds m = map (\<lambda>i. gen m + of_nat i) [0..<length ds]"
proof (induction ds arbitrary: m)
  case (Cons d ds)
  have shift: "map (\<lambda>i. g + of_nat i) [0..<Suc n] = g # map (\<lambda>i. (g + 1) + of_nat i) [0..<n]"
    for g :: xid_t and n
    by (simp add: upt_conv_Cons map_Suc_upt [symmetric] algebra_simps del: upt_Suc)
  show ?case using Cons [of "m\<lparr>gen := gen m + 1\<rparr>"]
    by (simp add: get_txnID_startTime_Pair_def get_commit_ts_def Let_def shift del: upt_Suc)
qed simp

text \<open>
  Threads come and go, begin and end transactions; \<open>running\<close> records the transaction each
  thread is executing. One step is one call of a member function under its own lock or on
  the thread's own table.
\<close>

record txn_world =
  tw_mgr :: txn_manager
  tw_running :: "nat \<rightharpoonup> Txn"

inductive txn_step :: "GcTypes \<Rightarrow> txn_world \<Rightarrow> txn_world \<Rightarrow> bool" for gc where
  register: "tid \<notin> fst ` set (registry (tw_mgr w)) \<Longrightarrow> tw_running w tid = None \<Longrightarrow>
     txn_step gc w (w\<lparr>tw_mgr := registerTxnTable (tid, new_txn_table wid tid) (tw_mgr w)\<rparr>)"
| deregister: "tw_running w tid = None \<Longrightarrow>
     txn_step gc w (w\<lparr>tw_mgr := deregisterTxnTable tid (tw_mgr w)\<rparr>)"
| begin_txn: "map_of (registry (tw_mgr w)) tid = Some t \<Longrightarrow> tw_running w tid = None \<Longrightarrow>
     beginTxn gc wid pid ro t (tw_mgr w) = (tx, t', m') \<Longrightarrow>
     txn_step gc w (w\<lparr>tw_mgr := set_table tid t' m', tw_running := (tw_running w)(tid \<mapsto> tx)\<rparr>)"
| end_txn: "map_of (registry (tw_mgr w)) tid = Some t \<Longrightarrow> tw_running w tid = Some tx \<Longrightarrow>
     txn_step gc w (w\<lparr>tw_mgr := set_table tid (endTxn gc tx t) (tw_mgr w),
                      tw_running := (tw_running w)(tid := None)\<rparr>)"

inductive txn_reachable :: "GcTypes \<Rightarrow> txn_world \<Rightarrow> bool" for gc where
  txn_start: "txn_reachable gc \<lparr>tw_mgr = new_txn_manager, tw_running = Map.empty\<rparr>"
| txn_next: "txn_reachable gc w \<Longrightarrow> txn_step gc w w' \<Longrightarrow> txn_reachable gc w'"

inductive_cases txn_stepE: "txn_step gc w w'"

definition registered_active :: "txn_world \<Rightarrow> bool" where
  "registered_active w \<longleftrightarrow>
     distinct (map fst (registry (tw_mgr w))) \<and>
     (\<forall>tid tx. tw_running w tid = Some tx \<longrightarrow>
        (\<exists>t. (tid, t) \<in> set (registry (tw_mgr w)) \<and> min_active t = txn_start_time (txnTs tx)))"

lemma registry_beginTxn: "beginTxn gc w p ro t m = (tx, t', m') \<Longrightarrow> registry m' = registry m"
  by (auto simp: beginTxn_def getTxn_def get_txnID_startTime_Pair_def Let_def)

lemma map_fst_set_table [simp]:
  "map fst (registry (set_table tid t m)) = map fst (registry m)"
  by (simp add: set_table_def)

lemma set_table_other:
  "(tid', u) \<in> set (registry m) \<Longrightarrow> tid' \<noteq> tid \<Longrightarrow> (tid', u) \<in> set (registry (set_table tid t m))"
  by (force simp: set_table_def)

lemma set_table_same:
  "(tid, u) \<in> set (registry m) \<Longrightarrow> (tid, t) \<in> set (registry (set_table tid t m))"
  by (force simp: set_table_def)

lemma active_set_table:
  assumes "registered_active w" and "tw_running w i = Some x" and "i \<noteq> tid"
    and "registry m = registry (tw_mgr w)"
  shows "\<exists>u. (i, u) \<in> set (registry (set_table tid t m)) \<and> min_active u = txn_start_time (txnTs x)"
  using assms set_table_other [of i _ m tid t] by (fastforce simp: registered_active_def)

lemma registered_active_min:
  assumes "registered_active w" and "tw_running w tid = Some tx"
  shows "get_min_activeTxn (tw_mgr w) \<le> txn_start_time (txnTs tx)"
proof -
  obtain t where "(tid, t) \<in> set (registry (tw_mgr w))"
    and "min_active t = txn_start_time (txnTs tx)"
    using assms by (auto simp: registered_active_def)
  then show ?thesis
    unfolding get_min_activeTxn_def by (intro min_loop_le) force
qed

lemma registered_active_step:
  assumes "txn_step gc w w'" and "registered_active w"
  shows "registered_active w'"
  using assms
proof cases
  case (register tid wid)
  then show ?thesis using assms(2)
    by (fastforce simp: registered_active_def registerTxnTable_def)
next
  case (deregister tid)
  then show ?thesis using assms(2)
    by (force simp: registered_active_def deregisterTxnTable_def distinct_map_filter)
next
  case (begin_txn tid t wid pid ro tx t' m')
  have reg: "registry m' = registry (tw_mgr w)"
    using begin_txn(4) by (rule registry_beginTxn)
  have here: "(tid, t') \<in> set (registry (set_table tid t' m'))"
    using begin_txn(2) reg by (intro set_table_same) (auto dest: map_of_SomeD)
  show ?thesis
    using begin_txn(1,4) assms(2) here reg active_set_table [OF assms(2), of _ _ tid m' t']
    by (auto simp: registered_active_def beginTxn_min_active split: if_splits)
next
  case (end_txn tid t tx)
  then show ?thesis using assms(2) active_set_table [OF assms(2), of _ _ tid "tw_mgr w"]
    by (auto simp: registered_active_def)
qed

lemma reachable_registered_active: "txn_reachable gc w \<Longrightarrow> registered_active w"
proof (induction rule: txn_reachable.induct)
  case txn_start
  show ?case by (simp add: registered_active_def new_txn_manager_def)
next
  case (txn_next w w')
  then show ?case by (blast intro: registered_active_step)
qed

text \<open>A small run: thread 7 registers its table and begins a transaction.\<close>

definition one_txn_world :: txn_world where
  "one_txn_world =
     (let m = registerTxnTable (7, new_txn_table 1 7) new_txn_manager;
          (tx, t', m') = beginTxn OneShot 1 0 False (new_txn_table 1 7) m
      in \<lparr>tw_mgr = set_table 7 t' m', tw_running = [7 \<mapsto> tx]\<rparr>)"

lemma one_txn_world_reachable: "txn_reachable OneShot one_txn_world"
proof -
  let ?w0 = "\<lparr>tw_mgr = new_txn_manager, tw_running = Map.empty\<rparr>"
  let ?w1 = "?w0\<lparr>tw_mgr := registerTxnTable (7, new_txn_table 1 7) (tw_mgr ?w0)\<rparr>"
  have "txn_step OneShot ?w0 ?w1"
    by (rule txn_step.register) (simp_all add: new_txn_manager_def)
  then have r1: "txn_reachable OneShot ?w1" by (blast intro: txn_reachable.intros)
  obtain tx t' m' where b: "beginTxn OneShot 1 0 False (new_txn_table 1 7) (tw_mgr ?w1) = (tx, t', m')"
    by (metis prod_cases3)
  have "txn_step OneShot ?w1 (?w1\<lparr>tw_mgr := set_table 7 t' m', tw_running := (tw_running ?w1)(7 \<mapsto> tx)\<rparr>)"
    by (rule txn_step.begin_txn [OF _ _ b])
       (simp_all add: registerTxnTable_def new_txn_manager_def)
  then show ?thesis
    using r1 b by (auto simp: one_txn_world_def intro: txn_reachable.intros)
qed

section \<open>Properties\<close>

text \<open>
  C19. Start times and commit stamps come from one counter and never repeat: in any mix of
  draws every later stamp is strictly greater than every earlier one, as long as the
  64-bit counter does not wrap.
\<close>
theorem timestamps_increase:
  assumes "unat (gen m) + length ds \<le> 2 ^ 64"
  shows "sorted_wrt (<) (draws ds m) \<and> (\<forall>s\<in>set (draws ds m). gen m \<le> s)"
proof -
  have u: "unat (gen m + of_nat i) = unat (gen m) + i" if "i < length ds" for i
    using assms that by (simp add: unat_word_ariths unsigned_of_nat take_bit_nat_eq_self)
  have "sorted_wrt (<) (draws ds m)"
    unfolding draws_eq sorted_wrt_map
    by (rule sorted_wrt_mono_rel [OF _ sorted_wrt_upt])
       (simp add: word_less_nat_alt u)
  moreover have "\<forall>s\<in>set (draws ds m). gen m \<le> s"
    by (auto simp: draws_eq word_le_nat_alt u)
  ultimately show ?thesis by simp
qed

theorem timestamps_increase_witness:
  "sorted_wrt (<) (draws [True, False, True] new_txn_manager)"
  using timestamps_increase [of new_txn_manager "[True, False, True]"]
  by (simp add: new_txn_manager_def)

text \<open>
  C11. The watermark of garbage collection is sound: in every reachable state of the
  transaction manager, the minimum over the registered tables is no greater than the
  start time of any running transaction.
\<close>
theorem min_active_lower_bound:
  assumes "txn_reachable gc w" and "tw_running w tid = Some tx"
  shows "get_min_activeTxn (tw_mgr w) \<le> txn_start_time (txnTs tx)"
  using reachable_registered_active [OF assms(1)] assms(2) by (rule registered_active_min)

theorem min_active_lower_bound_witness:
  "\<exists>tx. tw_running one_txn_world 7 = Some tx \<and>
        get_min_activeTxn (tw_mgr one_txn_world) \<le> txn_start_time (txnTs tx)"
proof -
  obtain tx where "tw_running one_txn_world 7 = Some tx"
    by (simp add: one_txn_world_def beginTxn_def getTxn_def get_txnID_startTime_Pair_def Let_def)
  with min_active_lower_bound [OF one_txn_world_reachable this] show ?thesis by blast
qed

end
