(* ===== verification/BlockAllocator.thy ===== *)
theory BlockAllocator
  imports Prelude
begin

text \<open>
  The contract shared by the allocators of version memory (the slack allocator of a delta
  partition and the bucket pool): a block that is handed out is disjoint from every block
  still in use. The laws are stated for one call; the locales derive what a client relies
  on, for whole sequences of calls.
\<close>

section \<open>Sequences of calls\<close>

fun alloc_run ::
  "('q \<Rightarrow> 's \<Rightarrow> ('a \<times> 's) result) \<Rightarrow> 'q list \<Rightarrow> 's \<Rightarrow> (('q \<times> 'a) list \<times> 's) result" where
  "alloc_run alloc [] s = Inr ([], s)"
| "alloc_run alloc (q # qs) s =
     rbind (alloc q s) (\<lambda>(a, s').
       rbind (alloc_run alloc qs s') (\<lambda>(bs, s''). Inr ((q, a) # bs, s'')))"

text \<open>Calls of a pool: allocate, or give back the \<open>n\<close>-th block still held.\<close>

datatype 'q pool_call = Alloc 'q | Free nat

fun pool_run ::
  "('q \<Rightarrow> 's \<Rightarrow> ('a \<times> 's) result) \<Rightarrow> ('q \<Rightarrow> 'a \<Rightarrow> 's \<Rightarrow> 's result) \<Rightarrow> 'q pool_call list
     \<Rightarrow> ('q \<times> 'a) list \<Rightarrow> 's \<Rightarrow> (('q \<times> 'a) list \<times> 's) result" where
  "pool_run alloc free [] live s = Inr (live, s)"
| "pool_run alloc free (Alloc q # cs) live s =
     rbind (alloc q s) (\<lambda>(a, s'). pool_run alloc free cs ((q, a) # live) s')"
| "pool_run alloc free (Free n # cs) live s =
     (if n < length live
      then rbind (free (fst (live ! n)) (snd (live ! n)) s)
             (pool_run alloc free cs (take n live @ drop (Suc n) live))
      else pool_run alloc free cs live s)"

text \<open>Reading off part of the outcome of a run.\<close>

definition probe :: "'s result \<Rightarrow> ('s \<Rightarrow> 'b) \<Rightarrow> 'b option" where
  "probe r f = (case r of Inl _ \<Rightarrow> None | Inr s \<Rightarrow> Some (f s))"

lemma probeE:
  assumes "probe r f = Some b"
  obtains s where "r = Inr s" "f s = b"
  using assms by (cases r) (auto simp: probe_def)

definition run_blocks :: "('b \<times> 's) result \<Rightarrow> 'b option" where
  "run_blocks r = (case r of Inl _ \<Rightarrow> None | Inr (bs, _) \<Rightarrow> Some bs)"

lemma run_blocks_rbind:
  assumes "run_blocks (rbind r f) = Some bs"
  obtains p p' where "r = Inr p" "f p = Inr (bs, p')"
  using assms by (cases r) (auto simp: run_blocks_def split: sum.splits)

section \<open>The allocation law\<close>

locale block_allocator =
  fixes inv :: "'s \<Rightarrow> nat set \<Rightarrow> bool"
    and alloc :: "'q \<Rightarrow> 's \<Rightarrow> ('a \<times> 's) result"
    and extent :: "'q \<Rightarrow> 'a \<Rightarrow> nat set"
    and ok :: "'q \<Rightarrow> bool"
    and arena :: "nat set"
  assumes alloc_fresh: "inv s U \<Longrightarrow> ok q \<Longrightarrow> alloc q s = Inr (a, s') \<Longrightarrow> extent q a \<inter> U = {}"
    and alloc_inv: "inv s U \<Longrightarrow> ok q \<Longrightarrow> alloc q s = Inr (a, s') \<Longrightarrow> inv s' (U \<union> extent q a)"
    and inv_arena: "inv s U \<Longrightarrow> U \<subseteq> arena"
begin

lemma alloc_run_inv:
  "inv s U \<Longrightarrow> list_all ok qs \<Longrightarrow> alloc_run alloc qs s = Inr (bs, s') \<Longrightarrow>
   inv s' (U \<union> (\<Union>(q, a)\<in>set bs. extent q a))"
proof (induction qs arbitrary: s U bs)
  case (Cons q qs)
  then obtain a s1 bs' where step: "alloc q s = Inr (a, s1)"
    and rest: "alloc_run alloc qs s1 = Inr (bs', s')" and bs: "bs = (q, a) # bs'"
    by (auto simp: rbind_eq_Inr_iff)
  have "inv s1 (U \<union> extent q a)" using Cons.prems step by (auto intro: alloc_inv)
  from Cons.IH [OF this _ rest] Cons.prems(2) show ?case by (simp add: bs Un_assoc)
qed simp

lemma alloc_run_fresh:
  "inv s U \<Longrightarrow> list_all ok qs \<Longrightarrow> alloc_run alloc qs s = Inr (bs, s') \<Longrightarrow>
   (\<forall>(q, a)\<in>set bs. extent q a \<inter> U = {}) \<and>
   sorted_wrt (\<lambda>(q, a) (q', a'). extent q a \<inter> extent q' a' = {}) bs"
proof (induction qs arbitrary: s U bs)
  case (Cons q qs)
  then obtain a s1 bs' where step: "alloc q s = Inr (a, s1)"
    and rest: "alloc_run alloc qs s1 = Inr (bs', s')" and bs: "bs = (q, a) # bs'"
    by (auto simp: rbind_eq_Inr_iff)
  have "inv s1 (U \<union> extent q a)" using Cons.prems step by (auto intro: alloc_inv)
  from Cons.IH [OF this _ rest] Cons.prems(2) alloc_fresh [OF Cons.prems(1) _ step]
  show ?case by (auto simp: bs)
qed simp

lemma alloc_run_arena:
  assumes "inv s U" "list_all ok qs" "alloc_run alloc qs s = Inr (bs, s')" "(q, a) \<in> set bs"
  shows "extent q a \<subseteq> arena"
  using inv_arena [OF alloc_run_inv [OF assms(1-3)]] assms(4) by blast

end

section \<open>Allocation with release\<close>

locale block_pool = block_allocator +
  fixes free :: "'b \<Rightarrow> 'c \<Rightarrow> 'a \<Rightarrow> 'a result"
  assumes free_inv: "inv s (U \<union> extent q a) \<Longrightarrow> ok q \<Longrightarrow> extent q a \<inter> U = {} \<Longrightarrow>
    free q a s = Inr s' \<Longrightarrow> inv s' U"
begin

definition live_ok :: "'a \<Rightarrow> ('b \<times> 'c) list \<Rightarrow> bool" where
  "live_ok s live \<longleftrightarrow>
     inv s (\<Union>(q, a)\<in>set live. extent q a) \<and> list_all (ok \<circ> fst) live \<and>
     sorted_wrt (\<lambda>(q, a) (q', a'). extent q a \<inter> extent q' a' = {}) live"

lemma live_ok_free:
  assumes "live_ok s live" and "n < length live" and "free (fst (live ! n)) (snd (live ! n)) s = Inr s'"
  shows "live_ok s' (take n live @ drop (Suc n) live)"
proof -
  obtain q a where b: "live ! n = (q, a)" by force
  let ?rest = "take n live @ drop (Suc n) live"
  have split: "live = take n live @ (q, a) # drop (Suc n) live"
    using assms(2) b by (metis id_take_nth_drop)
  have sw: "sorted_wrt (\<lambda>(q, a) (q', a'). extent q a \<inter> extent q' a' = {})
              (take n live @ (q, a) # drop (Suc n) live)"
    using assms(1) split by (metis live_ok_def)
  have disj: "extent q a \<inter> (\<Union>(q, a)\<in>set ?rest. extent q a) = {}"
    using sw by (fastforce simp: sorted_wrt_append)
  have "(\<Union>(q, a)\<in>set live. extent q a) = (\<Union>(q, a)\<in>set ?rest. extent q a) \<union> extent q a"
    by (subst split) auto
  then have held: "inv s ((\<Union>(q, a)\<in>set ?rest. extent q a) \<union> extent q a)"
    using assms(1) unfolding live_ok_def by metis
  have "ok q"
    using assms(1) b nth_mem [OF assms(2)] unfolding live_ok_def list_all_iff by (metis comp_apply fst_conv)
  then have "inv s' (\<Union>(q, a)\<in>set ?rest. extent q a)"
    using free_inv [OF held _ disj] assms(3) b by simp
  moreover have "list_all (ok \<circ> fst) ?rest"
    using assms(1) by (auto simp: live_ok_def list_all_iff dest: in_set_takeD in_set_dropD)
  ultimately show ?thesis
    using sw b by (simp add: live_ok_def sorted_wrt_append)
qed

lemma pool_run_live:
  "live_ok s live \<Longrightarrow> (\<And>q. Alloc q \<in> set cs \<Longrightarrow> ok q) \<Longrightarrow>
   pool_run alloc free cs live s = Inr (live', s') \<Longrightarrow> live_ok s' live'"
proof (induction cs arbitrary: s live)
  case (Cons c cs)
  show ?case
  proof (cases c)
    case (Alloc q)
    then obtain a s1 where step: "alloc q s = Inr (a, s1)"
      and rest: "pool_run alloc free cs ((q, a) # live) s1 = Inr (live', s')"
      using Cons.prems(3) by (auto simp: rbind_eq_Inr_iff)
    have ok: "ok q" using Cons.prems(2) Alloc by simp
    have "live_ok s1 ((q, a) # live)"
      using Cons.prems(1) alloc_fresh [OF _ ok step] alloc_inv [OF _ ok step] ok
      by (fastforce simp: live_ok_def Un_commute)
    then show ?thesis using Cons.IH rest Cons.prems(2) by simp
  next
    case (Free n)
    show ?thesis
    proof (cases "n < length live")
      case True
      with Free Cons.prems(3) obtain s1 where "free (fst (live ! n)) (snd (live ! n)) s = Inr s1"
        and rest: "pool_run alloc free cs (take n live @ drop (Suc n) live) s1 = Inr (live', s')"
        by (auto simp: rbind_eq_Inr_iff)
      from live_ok_free [OF Cons.prems(1) True this(1)] show ?thesis
        using Cons.IH rest Cons.prems(2) by simp
    next
      case False
      then show ?thesis using Cons Free by simp
    qed
  qed
qed simp

end

end
