(* ===== verification/DeltaStore.thy ===== *)
theory DeltaStore
  imports BlockAllocator DeltaPtr StorageUtils TxnTable
begin

text \<open>
  The circular delta store (\<^verbatim>\<open>storage/multi-version/delta_storage.{hpp,cpp}\<close>): partitions of
  version memory with a slack cache per thread, the per-thread epochs, the reader count and
  the one-shot garbage collection that resets all partitions and bumps the tag.
  The calling thread is an argument, the memory the constructor obtains from
  \<^verbatim>\<open>MemoryManager\<close> is an argument, and the consolidation table is the cuckoo map of the
  prelude. The reader count protocol is also given as a step relation with one atomic
  operation per step.
\<close>

section \<open>Partitions\<close>

record mem_chunk =
  mc_data :: uintptr
  mc_size :: size_t
  mc_numa :: nat

definition slack_size :: size_t where
  "slack_size = 8192"

record DeltaSlackCache =
  sc_ptr :: uintptr
  remaining_slack :: "32 word"

definition new_DeltaSlackCache :: DeltaSlackCache where
  "new_DeltaSlackCache = \<lparr>sc_ptr = 0, remaining_slack = 0\<rparr>"

record 'h DeltaPartition =
  threadLocal_cache :: "thread_id \<rightharpoonup> DeltaSlackCache"
  ver_data_cursor :: uintptr
  part_delta_id :: delta_id_t
  part_pid :: partition_id_t
  delta_uuid :: "16 word"
  ver_data_mem :: mem_chunk
  touched :: bool
  data_cursor_max :: uintptr
  consolidateHT :: 'h

definition create_delta_uuid :: "delta_id_t \<Rightarrow> partition_id_t \<Rightarrow> 16 word" where
  "create_delta_uuid d_id partitionId = push_bit 8 (0 OR ucast d_id) OR ucast partitionId"

definition get_delta_id :: "16 word \<Rightarrow> size_t" where
  "get_delta_id uuid = ucast (drop_bit 8 uuid)"

definition get_delta_pid :: "16 word \<Rightarrow> size_t" where
  "get_delta_pid uuid = ucast (uuid AND 0x00FF)"

type_synonym ('h) ptr_table = "('h, row_uuid_t, uintptr list) cuckoo"

definition mk_DeltaPartition ::
  "'h ptr_table \<Rightarrow> uintptr \<Rightarrow> mem_chunk \<Rightarrow> partition_id_t \<Rightarrow> delta_id_t \<Rightarrow> 'h DeltaPartition" where
  "mk_DeltaPartition C cursor mem pid d_id =
     \<lparr>threadLocal_cache = Map.empty, ver_data_cursor = cursor, part_delta_id = d_id,
      part_pid = pid, delta_uuid = create_delta_uuid d_id pid, ver_data_mem = mem,
      touched = False, data_cursor_max = cursor + mc_size mem, consolidateHT = ck_new C\<rparr>"

definition getVersionDataChunk ::
  "size_t \<Rightarrow> 'h DeltaPartition \<Rightarrow> (uintptr \<times> 'h DeltaPartition) result" where
  "getVersionDataChunk sz p =
     (let tmp = ver_data_cursor p; p1 = p\<lparr>ver_data_cursor := tmp + sz\<rparr>
      in if tmp + sz > data_cursor_max p1 then Inl (Fatal ''DeltaFull'')
         else Inr (tmp, p1\<lparr>touched := True\<rparr>))"

text \<open>
  \<^verbatim>\<open>remaining_slack\<close> is an \<^verbatim>\<open>int\<close>: the comparison with the \<^verbatim>\<open>size_t\<close> argument sign extends it, and
  the subtraction is done in 64 bits and cut back to 32.
\<close>

definition getVersionDataChunk_ThreadLocal2 ::
  "thread_id \<Rightarrow> size_t \<Rightarrow> 'h DeltaPartition \<Rightarrow> (uintptr \<times> 'h DeltaPartition) result" where
  "getVersionDataChunk_ThreadLocal2 tid rec_size p =
     (case threadLocal_cache p tid of
        None \<Rightarrow> Inl OutOfRange
      | Some c \<Rightarrow>
          rbind
            (if rec_size > scast (remaining_slack c)
             then let c1 = c\<lparr>sc_ptr := ver_data_cursor p, remaining_slack := ucast slack_size\<rparr>;
                      p1 = p\<lparr>ver_data_cursor := ver_data_cursor p + slack_size\<rparr>
                  in if sc_ptr c1 \<ge> mc_data (ver_data_mem p1) \<and> sc_ptr c1 < data_cursor_max p1
                     then Inr (c1, p1)
                     else Inl (Assertion ''slack_cache.ptr < data_cursor_max'')
             else Inr (c, p))
            (\<lambda>(c, p).
               let tmp = sc_ptr c;
                   c' = c\<lparr>sc_ptr := sc_ptr c + rec_size,
                          remaining_slack := ucast (scast (remaining_slack c) - rec_size :: size_t)\<rparr>
               in Inr (tmp, p\<lparr>threadLocal_cache := (threadLocal_cache p)(tid \<mapsto> c'),
                              touched := True\<rparr>)))"

definition initSlackCache :: "thread_id \<Rightarrow> 'h DeltaPartition \<Rightarrow> 'h DeltaPartition result" where
  "initSlackCache tid p =
     (let p1 = (if threadLocal_cache p tid = None
                then p\<lparr>threadLocal_cache := (threadLocal_cache p)(tid \<mapsto> new_DeltaSlackCache)\<rparr>
                else p)
      in rbind (getVersionDataChunk_ThreadLocal2 tid 8 p1)
           (\<lambda>(_, p2). Inr (p2\<lparr>touched := True\<rparr>)))"

definition part_reset :: "'h ptr_table \<Rightarrow> 'h DeltaPartition \<Rightarrow> 'h DeltaPartition" where
  "part_reset C p =
     (let p1 = (if touched p
                then let p0 = p\<lparr>ver_data_cursor := mc_data (ver_data_mem p),
                                threadLocal_cache :=
                                  (\<lambda>tid. map_option (\<lambda>c. c\<lparr>remaining_slack := 0\<rparr>)
                                           (threadLocal_cache p tid))\<rparr>
                     in if \<not> ck_empty C (consolidateHT p0)
                        then p0\<lparr>consolidateHT := ck_clear C (consolidateHT p0)\<rparr> else p0
                else p)
      in p1\<lparr>touched := False\<rparr>)"

section \<open>The store\<close>

record meta2 =
  max_active_epoch :: xid_t
  min_version_ts :: xid_t

definition new_meta2 :: meta2 where
  "new_meta2 = \<lparr>max_active_epoch = 0, min_version_ts = UINT64_MAX\<rparr>"

text \<open>
  \<^verbatim>\<open>meta_per_thread\<close> owns the epoch records and \<^verbatim>\<open>_threadlocal_meta\<close> points into it: the map
  holds indices of the list.
\<close>

record 'h CircularDeltaStore =
  store_delta_id :: delta_id_t
  tag :: "32 word"
  partitions :: "'h DeltaPartition list"
  meta_per_thread :: "meta2 list"
  threadlocal_meta :: "thread_id \<rightharpoonup> nat"
  readers :: "64 word"
  gc_reset_success :: "32 word"
  total_mem_reserved :: size_t

definition mk_CircularDeltaStore ::
  "'h ptr_table \<Rightarrow> mem_chunk list \<Rightarrow> delta_id_t \<Rightarrow> size_t \<Rightarrow> 'h CircularDeltaStore result" where
  "mk_CircularDeltaStore C mems d_id capacity =
     rbind (rassert (unat capacity < 2 ^ 36) ''ver_data_capacity < 2^offset_bits'') (\<lambda>_.
     rbind (rassert (\<forall>m\<in>set mems. mc_data m \<noteq> 0) ''mem_data != nullptr'') (\<lambda>_.
     Inr \<lparr>store_delta_id = d_id, tag = 1,
          partitions = map (\<lambda>(i, m). mk_DeltaPartition C (mc_data m) (m\<lparr>mc_size := capacity\<rparr>)
                                      (of_nat i) d_id)
                         (enumerate 0 mems),
          meta_per_thread = [], threadlocal_meta = Map.empty, readers = 0,
          gc_reset_success = 0, total_mem_reserved = capacity * of_nat (length mems)\<rparr>))"

text \<open>\<^verbatim>\<open>emplace\<close> leaves an existing entry of the thread map alone, but the new record is appended.\<close>

definition initThreadLocalPools ::
  "thread_id \<Rightarrow> 'h CircularDeltaStore \<Rightarrow> 'h CircularDeltaStore result" where
  "initThreadLocalPools tid d =
     (let d1 = d\<lparr>meta_per_thread := meta_per_thread d @ [new_meta2],
                 threadlocal_meta :=
                   (if threadlocal_meta d tid = None
                    then (threadlocal_meta d)(tid \<mapsto> length (meta_per_thread d))
                    else threadlocal_meta d)\<rparr>
      in rbind (rmap (initSlackCache tid) (partitions d1)) (\<lambda>ps. Inr (d1\<lparr>partitions := ps\<rparr>)))"

definition getMeta_threadLocal :: "thread_id \<Rightarrow> 'h CircularDeltaStore \<Rightarrow> nat result" where
  "getMeta_threadLocal tid d =
     (case threadlocal_meta d tid of None \<Rightarrow> Inl NullDeref | Some i \<Rightarrow> Inr i)"

definition getMaxActiveEpoch :: "'h CircularDeltaStore \<Rightarrow> xid_t" where
  "getMaxActiveEpoch d =
     fold (\<lambda>m mx. if max_active_epoch m > mx then max_active_epoch m else mx) (meta_per_thread d) 0"

definition resetMinVersionTs :: "'h CircularDeltaStore \<Rightarrow> 'h CircularDeltaStore" where
  "resetMinVersionTs d =
     d\<lparr>meta_per_thread := map (\<lambda>m. m\<lparr>min_version_ts := UINT64_MAX\<rparr>) (meta_per_thread d)\<rparr>"

definition getMinVersionTs :: "'h CircularDeltaStore \<Rightarrow> xid_t" where
  "getMinVersionTs d = min_loop (map min_version_ts (meta_per_thread d))"

definition update_active_epoch ::
  "thread_id \<Rightarrow> xid_t \<Rightarrow> 'h CircularDeltaStore \<Rightarrow> 'h CircularDeltaStore result" where
  "update_active_epoch tid epoch d =
     rbind (getMeta_threadLocal tid d) (\<lambda>i.
       Inr (d\<lparr>meta_per_thread := (meta_per_thread d)
                [i := (meta_per_thread d ! i)\<lparr>max_active_epoch := epoch\<rparr>]\<rparr>))"

definition ds_allocate ::
  "(8 word \<rightharpoonup> uintptr) \<Rightarrow> thread_id \<Rightarrow> size_t \<Rightarrow> partition_id_t \<Rightarrow> 'h CircularDeltaStore
     \<Rightarrow> (uintptr \<times> 'h CircularDeltaStore) result" where
  "ds_allocate bases tid sz pid d =
     (if unat pid < length (partitions d)
      then rbind (getVersionDataChunk_ThreadLocal2 tid sz (partitions d ! unat pid)) (\<lambda>(cnk, p).
             Inr (ptr_update bases cnk (tag d) (store_delta_id d) pid,
                  d\<lparr>partitions := (partitions d)[unat pid := p]\<rparr>))
      else Inl BadAccess)"

text \<open>The three-argument overload; the epoch bookkeeping is compiled in only with consolidation.\<close>

definition ds_allocate_ts ::
  "bool \<Rightarrow> (8 word \<rightharpoonup> uintptr) \<Rightarrow> thread_id \<Rightarrow> size_t \<Rightarrow> partition_id_t \<Rightarrow> xid_t
     \<Rightarrow> 'h CircularDeltaStore \<Rightarrow> (uintptr \<times> 'h CircularDeltaStore) result" where
  "ds_allocate_ts consolidation bases tid sz pid version_ts d =
     rbind
       (if consolidation
        then rbind (getMeta_threadLocal tid d) (\<lambda>i.
               let m = meta_per_thread d ! i
               in Inr (if version_ts < min_version_ts m
                       then d\<lparr>meta_per_thread :=
                                (meta_per_thread d)[i := m\<lparr>min_version_ts := version_ts\<rparr>]\<rparr>
                       else d))
        else Inr d)
       (ds_allocate bases tid sz pid)"

definition ds_release :: "uintptr \<Rightarrow> uintptr" where
  "ds_release ptr = 0"

definition saveInstanceCrossingPtr ::
  "'h ptr_table \<Rightarrow> row_uuid_t \<Rightarrow> uintptr \<Rightarrow> 'h CircularDeltaStore \<Rightarrow> 'h CircularDeltaStore result" where
  "saveInstanceCrossingPtr C row_uuid ptr d =
     (let pid = unat (get_pid_from_rowUuid row_uuid)
      in if pid < length (partitions d)
         then let p = partitions d ! pid; ht = consolidateHT p;
                  (found, ht1) = (case ck_find C ht row_uuid of
                                    None \<Rightarrow> (False, ht)
                                  | Some v \<Rightarrow> ck_update C ht row_uuid (v @ [ptr]));
                  ht2 = (if \<not> found then snd (ck_insert C ht1 row_uuid [ptr]) else ht1)
              in Inr (d\<lparr>partitions := (partitions d)[pid := p\<lparr>consolidateHT := ht2\<rparr>]\<rparr>)
         else Inl BadAccess)"

section \<open>Garbage collection\<close>

text \<open>With \<^verbatim>\<open>GC_CAPACITY_MIN_PERCENT\<close> 0, the configured value, \<^verbatim>\<open>should_gc\<close> is constant.\<close>

definition should_gc :: bool where
  "should_gc = True"

definition impl_gc_simple :: "txn_manager \<Rightarrow> 'h CircularDeltaStore \<Rightarrow> bool" where
  "impl_gc_simple tm d = (should_gc \<and> get_min_activeTxn tm > getMaxActiveEpoch d)"

definition impl_gc_withConsolidation :: "txn_manager \<Rightarrow> 'h CircularDeltaStore \<Rightarrow> bool" where
  "impl_gc_withConsolidation tm d =
     (let (activeTxns, mn) = get_all_CurrentActiveTxn tm; mx = getMaxActiveEpoch d
      in if mn > mx then True
         else let mv = getMinVersionTs d
              in \<not> list_ex (\<lambda>txTs. txTs \<le> mx \<and> txTs \<ge> mv) activeTxns)"

definition INT64_MIN :: "64 word" where
  "INT64_MIN = 0x8000000000000000"

definition gc_reset :: "'h ptr_table \<Rightarrow> 'h CircularDeltaStore \<Rightarrow> 'h CircularDeltaStore" where
  "gc_reset C d =
     resetMinVersionTs
       (d\<lparr>tag := tag d + 1, partitions := map (part_reset C) (partitions d),
          gc_reset_success := gc_reset_success d + 1\<rparr>)"

text \<open>\<^verbatim>\<open>compare_exchange_weak\<close> may fail although the count is 0: \<open>spurious\<close>.\<close>

definition GC ::
  "'h ptr_table \<Rightarrow> bool \<Rightarrow> bool \<Rightarrow> txn_manager \<Rightarrow> 'h CircularDeltaStore \<Rightarrow> 'h CircularDeltaStore" where
  "GC C consolidation spurious tm d =
     (if readers d = 0 \<and> \<not> spurious
      then let d1 = d\<lparr>readers := INT64_MIN\<rparr>;
               gc_allowed = (if consolidation then impl_gc_withConsolidation tm d1
                             else impl_gc_simple tm d1);
               d2 = (if gc_allowed then gc_reset C d1 else d1)
           in d2\<lparr>readers := 0\<rparr>
      else d)"

text \<open>
  \<^verbatim>\<open>increment_reader\<close> when no collection is running; with a negative count the caller spins,
  which the step relation below models. Then the epoch of the thread is raised.
\<close>

definition increment_reader ::
  "thread_id \<Rightarrow> xid_t \<Rightarrow> 'h CircularDeltaStore \<Rightarrow> 'h CircularDeltaStore result" where
  "increment_reader tid epoch d =
     (let x = readers d; d1 = d\<lparr>readers := x + 1\<rparr>
      in if x <s 0 then Inl Diverges
         else rbind (getMeta_threadLocal tid d1) (\<lambda>i.
                let m = meta_per_thread d1 ! i
                in Inr (if max_active_epoch m < epoch
                        then d1\<lparr>meta_per_thread :=
                                  (meta_per_thread d1)[i := m\<lparr>max_active_epoch := epoch\<rparr>]\<rparr>
                        else d1)))"

definition decrement_reader ::
  "'h ptr_table \<Rightarrow> bool \<Rightarrow> bool \<Rightarrow> txn_manager \<Rightarrow> 'h CircularDeltaStore \<Rightarrow> 'h CircularDeltaStore" where
  "decrement_reader C consolidation spurious tm d =
     (let old = readers d; d1 = d\<lparr>readers := old - 1\<rparr>
      in if old = 1 then GC C consolidation spurious tm d1 else d1)"

section \<open>The allocation invariant of a partition\<close>

text \<open>
  Addresses as natural numbers. A cache owns the \<open>remaining_slack\<close> bytes after its pointer;
  \<open>part_inv base sz p U\<close> says that the used bytes \<open>U\<close> and the free bytes of every cache lie
  between the base and the cursor and are pairwise disjoint.
\<close>

definition extent :: "uintptr \<Rightarrow> size_t \<Rightarrow> nat set" where
  "extent a sz = {unat a ..< unat a + unat sz}"

definition slack_free :: "DeltaSlackCache \<Rightarrow> nat set" where
  "slack_free c = {unat (sc_ptr c) ..< unat (sc_ptr c) + unat (remaining_slack c)}"

definition part_shape :: "nat \<Rightarrow> nat \<Rightarrow> 'h DeltaPartition \<Rightarrow> bool" where
  "part_shape base sz p \<longleftrightarrow>
     unat (mc_data (ver_data_mem p)) = base \<and> unat (data_cursor_max p) = base + sz \<and>
     base + sz + 8192 < 2 ^ 64 \<and> 8192 dvd sz \<and>
     base \<le> unat (ver_data_cursor p) \<and> unat (ver_data_cursor p) \<le> base + sz \<and>
     8192 dvd unat (ver_data_cursor p) - base"

definition part_inv :: "nat \<Rightarrow> nat \<Rightarrow> 'h DeltaPartition \<Rightarrow> nat set \<Rightarrow> bool" where
  "part_inv base sz p U \<longleftrightarrow>
     part_shape base sz p \<and>
     U \<subseteq> {base ..< unat (ver_data_cursor p)} \<and>
     (\<forall>tid c. threadLocal_cache p tid = Some c \<longrightarrow>
        unat (remaining_slack c) \<le> 8192 \<and>
        slack_free c \<subseteq> {base ..< unat (ver_data_cursor p)} \<and> slack_free c \<inter> U = {}) \<and>
     (\<forall>tid tid' c c'. tid \<noteq> tid' \<longrightarrow> threadLocal_cache p tid = Some c \<longrightarrow>
        threadLocal_cache p tid' = Some c' \<longrightarrow> slack_free c \<inter> slack_free c' = {})"

lemma scast_slack: "unat (r :: 32 word) < 2 ^ 31 \<Longrightarrow> (scast r :: 64 word) = ucast r"
proof -
  assume "unat r < 2 ^ 31"
  then have "r AND mask 31 = r" by (rule and_mask_fixed)
  then have high: "\<not> bit r 31" by (metis bit_and_iff bit_mask_iff less_irrefl)
  show ?thesis
    by (rule bit_word_eqI)
       (use high in \<open>auto simp: bit_simps min_def less_Suc_eq_le [symmetric] less_Suc_eq
          dest: bit_imp_le_length\<close>)
qed

lemma unat_ucast_slack: "unat (ucast (r :: 32 word) :: 64 word) = unat r"
proof -
  have "unat r < 2 ^ 64" using unsigned_less [of r, where 'a = nat] by simp
  then show ?thesis by (simp add: unsigned_ucast_eq take_bit_nat_eq_self)
qed

lemma part_inv_cacheD:
  assumes "part_inv base sz p U" and "threadLocal_cache p tid = Some c"
  shows "unat (remaining_slack c) \<le> 8192"
    and "slack_free c \<subseteq> {base ..< unat (ver_data_cursor p)}"
    and "slack_free c \<inter> U = {}"
    and "\<And>t' c'. t' \<noteq> tid \<Longrightarrow> threadLocal_cache p t' = Some c' \<Longrightarrow> slack_free c' \<inter> slack_free c = {}"
  using assms unfolding part_inv_def by blast+

lemma part_inv_arena: "part_inv base sz p U \<Longrightarrow> U \<subseteq> {base ..< base + sz}"
proof -
  assume "part_inv base sz p U"
  then have "U \<subseteq> {base ..< unat (ver_data_cursor p)}" "unat (ver_data_cursor p) \<le> base + sz"
    by (simp_all add: part_inv_def part_shape_def)
  then show ?thesis by fastforce
qed

lemma part_inv_refill:
  fixes p :: "'h DeltaPartition"
  assumes inv: "part_inv base sz p U" and below: "ver_data_cursor p < data_cursor_max p"
  shows "part_inv base sz
           (p\<lparr>ver_data_cursor := ver_data_cursor p + slack_size,
              threadLocal_cache := (threadLocal_cache p)
                (tid \<mapsto> \<lparr>sc_ptr = ver_data_cursor p, remaining_slack = ucast slack_size\<rparr>)\<rparr>) U"
proof -
  let ?cur = "unat (ver_data_cursor p)"
  have shape: "part_shape base sz p" using inv by (simp add: part_inv_def)
  have lt: "?cur < base + sz"
    using below shape by (simp add: part_shape_def word_less_nat_alt)
  have step: "unat (ver_data_cursor p + slack_size) = ?cur + 8192"
    using lt shape by (subst unat_add_no_wrap) (auto simp: slack_size_def part_shape_def)
  have "8192 dvd (base + sz) - ?cur"
    using shape lt dvd_diff_nat [of 8192 sz "?cur - base"]
    by (simp add: part_shape_def add.commute)
  then have "8192 \<le> (base + sz) - ?cur" using lt by (intro dvd_imp_le) auto
  moreover have "8192 dvd (?cur + 8192) - base"
    using shape dvd_add [of 8192 "?cur - base" 8192] by (simp add: part_shape_def)
  ultimately have shape': "part_shape base sz (p\<lparr>ver_data_cursor := ver_data_cursor p + slack_size\<rparr>)"
    using shape step lt by (simp add: part_shape_def)
  have free: "slack_free \<lparr>sc_ptr = ver_data_cursor p, remaining_slack = ucast slack_size\<rparr>
                = {?cur ..< ?cur + 8192}"
    by (simp add: slack_free_def slack_size_def)
  have "slack_free c \<subseteq> {base ..< ?cur}" if "threadLocal_cache p t = Some c" for t c
    using part_inv_cacheD(2) [OF inv that] .
  note old = this
  have U: "U \<subseteq> {base ..< ?cur}" using inv by (simp add: part_inv_def)
  have base: "base \<le> ?cur" using shape by (simp add: part_shape_def)
  let ?c = "\<lparr>sc_ptr = ver_data_cursor p, remaining_slack = ucast slack_size\<rparr> :: DeltaSlackCache"
  let ?p = "p\<lparr>ver_data_cursor := ver_data_cursor p + slack_size,
              threadLocal_cache := (threadLocal_cache p)(tid \<mapsto> ?c)\<rparr>"
  have new: "unat (ver_data_cursor ?p) = ?cur + 8192" using step by simp
  show ?thesis
    unfolding part_inv_def new
  proof (intro conjI allI impI)
    show "part_shape base sz ?p" using shape' by (simp add: part_shape_def)
    show "U \<subseteq> {base ..< ?cur + 8192}" using U by (rule order_trans) simp
  next
    fix t c assume d: "threadLocal_cache ?p t = Some c"
    then consider "c = ?c" | "threadLocal_cache p t = Some c" by (cases "t = tid") simp_all
    then have "unat (remaining_slack c) \<le> 8192 \<and> slack_free c \<subseteq> {base ..< ?cur + 8192} \<and>
        slack_free c \<inter> U = {}"
    proof cases
      case 1
      have "{?cur ..< ?cur + 8192} \<inter> {base ..< ?cur} = {}" by (simp add: ivl_disj_int)
      then have "{?cur ..< ?cur + 8192} \<inter> U = {}" using U by blast
      then show ?thesis using base by (simp add: 1 free) (simp add: slack_size_def)
    next
      case 2
      note D = part_inv_cacheD(1-3) [OF inv 2]
      have "slack_free c \<subseteq> {base ..< ?cur + 8192}" using D(2) by (rule order_trans) simp
      then show ?thesis using D by blast
    qed
    then show "unat (remaining_slack c) \<le> 8192" and "slack_free c \<subseteq> {base ..< ?cur + 8192}"
      and "slack_free c \<inter> U = {}" by blast+
  next
    fix t t' c c' assume ne: "t \<noteq> t'" and d: "threadLocal_cache ?p t = Some c" "threadLocal_cache ?p t' = Some c'"
    have far: "slack_free e \<inter> {?cur ..< ?cur + 8192} = {}" if "threadLocal_cache p i = Some e" for i e
      using old [OF that] ivl_disj_int_two(3) [of base ?cur "?cur + 8192"] by blast
    consider "t = tid" "c = ?c" "threadLocal_cache p t' = Some c'"
      | "t' = tid" "c' = ?c" "threadLocal_cache p t = Some c"
      | "threadLocal_cache p t = Some c" "threadLocal_cache p t' = Some c'"
      using ne d by (cases "t = tid"; cases "t' = tid") simp_all
    then show "slack_free c \<inter> slack_free c' = {}"
      by cases (use far free part_inv_cacheD(4) [OF inv, of t' c' t c] ne in \<open>simp_all add: Int_commute\<close>)
  qed
qed

lemma part_inv_replace:
  fixes p :: "'h DeltaPartition"
  assumes inv: "part_inv base sz p U" and c: "threadLocal_cache p tid = Some c"
    and rem: "unat (remaining_slack c') \<le> 8192"
    and free: "slack_free c' \<subseteq> slack_free c - E" and E: "E \<subseteq> slack_free c"
  shows "part_inv base sz (p\<lparr>threadLocal_cache := (threadLocal_cache p)(tid \<mapsto> c')\<rparr>) (U \<union> E)"
proof -
  note cD = part_inv_cacheD [OF inv c]
  have other: "slack_free d \<inter> (slack_free c \<union> U) = {}" "slack_free d \<inter> slack_free c' = {}"
    if "threadLocal_cache p t = Some d" "t \<noteq> tid" for t d
    using part_inv_cacheD(3) [OF inv that(1)] cD(4) [OF that(2,1)] free by blast+
  have self: "slack_free c' \<inter> (U \<union> E) = {}" using free cD(3) by blast
  have within: "slack_free c' \<subseteq> {base ..< unat (ver_data_cursor p)}"
    "U \<union> E \<subseteq> {base ..< unat (ver_data_cursor p)}"
    using free E cD(2) inv by (auto simp: part_inv_def)
  show ?thesis
    unfolding part_inv_def
  proof (intro conjI allI impI)
    show "part_shape base sz (p\<lparr>threadLocal_cache := (threadLocal_cache p)(tid \<mapsto> c')\<rparr>)"
      using inv by (simp add: part_inv_def part_shape_def)
  next
    fix t d assume "threadLocal_cache (p\<lparr>threadLocal_cache := (threadLocal_cache p)(tid \<mapsto> c')\<rparr>) t = Some d"
    then show "slack_free d \<inter> (U \<union> E) = {}"
      using self E other(1) by (fastforce split: if_splits)
  next
    fix t t' d d' assume "t \<noteq> t'"
      and "threadLocal_cache (p\<lparr>threadLocal_cache := (threadLocal_cache p)(tid \<mapsto> c')\<rparr>) t = Some d"
      and "threadLocal_cache (p\<lparr>threadLocal_cache := (threadLocal_cache p)(tid \<mapsto> c')\<rparr>) t' = Some d'"
    then show "slack_free d \<inter> slack_free d' = {}"
      using other(2) part_inv_cacheD(4) [OF inv] by (simp split: if_splits) blast+
  next
    fix t d assume d: "threadLocal_cache (p\<lparr>threadLocal_cache := (threadLocal_cache p)(tid \<mapsto> c')\<rparr>) t = Some d"
    show "unat (remaining_slack d) \<le> 8192"
      using d rem part_inv_cacheD(1) [OF inv, of t d] by (simp split: if_splits)
    show "slack_free d \<subseteq> {base ..< unat (ver_data_cursor (p\<lparr>threadLocal_cache := (threadLocal_cache p)(tid \<mapsto> c')\<rparr>))}"
      using d within(1) part_inv_cacheD(2) [OF inv, of t d] by (simp split: if_splits)
  qed (use within in simp)
qed

lemma part_inv_take:
  fixes p :: "'h DeltaPartition"
  assumes inv: "part_inv base sz p U" and c: "threadLocal_cache p tid = Some c"
    and n: "unat n \<le> unat (remaining_slack c)"
  defines "c' \<equiv> c\<lparr>sc_ptr := sc_ptr c + n, remaining_slack := ucast (scast (remaining_slack c) - n :: size_t)\<rparr>"
  shows "extent (sc_ptr c) n \<inter> U = {}"
    and "part_inv base sz (p\<lparr>threadLocal_cache := (threadLocal_cache p)(tid \<mapsto> c')\<rparr>)
           (U \<union> extent (sc_ptr c) n)"
proof -
  let ?rem = "unat (remaining_slack c)" and ?ptr = "unat (sc_ptr c)"
  note cD = part_inv_cacheD [OF inv c]
  have sub: "(scast (remaining_slack c) :: size_t) = ucast (remaining_slack c)"
    using cD(1) by (intro scast_slack) simp
  have le: "n \<le> ucast (remaining_slack c)"
    using n by (simp add: word_le_nat_alt unat_ucast_slack)
  have rem': "unat (remaining_slack c') = ?rem - unat n"
    using unat_sub_no_wrap [OF le] cD(1)
    by (simp add: c'_def sub unat_ucast_slack unsigned_ucast_eq take_bit_nat_eq_self)
  have ext: "extent (sc_ptr c) n \<subseteq> slack_free c"
    using n by (auto simp: extent_def slack_free_def)
  have ptr': "unat (sc_ptr c') = ?ptr + unat n" if "?rem > 0"
  proof -
    have "?ptr + ?rem \<le> unat (ver_data_cursor p)"
      using cD(2) that unfolding slack_free_def by (subst (asm) ivl_subset) auto
    then have "?ptr + unat n < 2 ^ 64"
      using n inv by (simp add: part_inv_def part_shape_def)
    then show ?thesis by (simp add: c'_def unat_add_no_wrap)
  qed
  have free': "slack_free c' \<subseteq> slack_free c - extent (sc_ptr c) n"
  proof (cases "?rem > 0")
    case True
    then show ?thesis using n by (auto simp: slack_free_def extent_def rem' ptr')
  qed (simp add: slack_free_def rem')
  show "extent (sc_ptr c) n \<inter> U = {}" using ext cD(3) by blast
  show "part_inv base sz (p\<lparr>threadLocal_cache := (threadLocal_cache p)(tid \<mapsto> c')\<rparr>)
          (U \<union> extent (sc_ptr c) n)"
    using part_inv_replace [OF inv c _ free' ext] rem' cD(1) by simp
qed

lemma part_inv_touched [simp]: "part_inv base sz (p\<lparr>touched := b\<rparr>) U = part_inv base sz p U"
  by (simp add: part_inv_def part_shape_def)

lemma chunk_hit:
  "threadLocal_cache p tid = Some c \<Longrightarrow> \<not> scast (remaining_slack c) < n \<Longrightarrow>
   getVersionDataChunk_ThreadLocal2 tid n p = Inr (sc_ptr c,
     p\<lparr>threadLocal_cache := (threadLocal_cache p)(tid \<mapsto>
             c\<lparr>sc_ptr := sc_ptr c + n,
               remaining_slack := ucast (scast (remaining_slack c) - n :: size_t)\<rparr>),
       touched := True\<rparr>)"
  by (simp add: getVersionDataChunk_ThreadLocal2_def Let_def)

lemma chunk_refill:
  assumes "threadLocal_cache p tid = Some c" and "scast (remaining_slack c) < n"
  shows "getVersionDataChunk_ThreadLocal2 tid n p =
     (if mc_data (ver_data_mem p) \<le> ver_data_cursor p \<and> ver_data_cursor p < data_cursor_max p
      then Inr (ver_data_cursor p,
        p\<lparr>ver_data_cursor := ver_data_cursor p + slack_size,
          threadLocal_cache := (threadLocal_cache p)(tid \<mapsto>
             \<lparr>sc_ptr = ver_data_cursor p + n,
               remaining_slack = ucast (scast (ucast slack_size :: 32 word) - n :: size_t)\<rparr>),
          touched := True\<rparr>)
      else Inl (Assertion ''slack_cache.ptr < data_cursor_max''))"
  using assms by (cases c) (simp add: getVersionDataChunk_ThreadLocal2_def Let_def)

lemma getVersionDataChunk_ThreadLocal2_cases:
  assumes "getVersionDataChunk_ThreadLocal2 tid n p = Inr (a, p')" and "part_inv base sz p U"
    and "unat n \<le> 8192"
  obtains q c where "part_inv base sz q U" "threadLocal_cache q tid = Some c"
    "unat n \<le> unat (remaining_slack c)" "a = sc_ptr c"
    "p' = q\<lparr>threadLocal_cache := (threadLocal_cache q)(tid \<mapsto>
             c\<lparr>sc_ptr := sc_ptr c + n,
               remaining_slack := ucast (scast (remaining_slack c) - n :: size_t)\<rparr>),
           touched := True\<rparr>"
proof -
  from assms(1) obtain c where c: "threadLocal_cache p tid = Some c"
    by (auto simp: getVersionDataChunk_ThreadLocal2_def split: option.splits)
  have sc: "(scast (remaining_slack c) :: size_t) = ucast (remaining_slack c)"
    using part_inv_cacheD(1) [OF assms(2) c] by (intro scast_slack) simp
  show thesis
  proof (cases "n > scast (remaining_slack c)")
    case True
    let ?c = "\<lparr>sc_ptr = ver_data_cursor p, remaining_slack = ucast slack_size\<rparr> :: DeltaSlackCache"
    let ?q = "p\<lparr>ver_data_cursor := ver_data_cursor p + slack_size,
                threadLocal_cache := (threadLocal_cache p)(tid \<mapsto> ?c)\<rparr>"
    note refill = chunk_refill [OF c True]
    have below: "ver_data_cursor p < data_cursor_max p" "mc_data (ver_data_mem p) \<le> ver_data_cursor p"
      using assms(1) by (simp_all add: refill split: if_splits)
    have "getVersionDataChunk_ThreadLocal2 tid n p =
        Inr (sc_ptr ?c, ?q\<lparr>threadLocal_cache := (threadLocal_cache ?q)(tid \<mapsto>
             ?c\<lparr>sc_ptr := sc_ptr ?c + n,
               remaining_slack := ucast (scast (remaining_slack ?c) - n :: size_t)\<rparr>),
           touched := True\<rparr>)"
      using below by (simp add: refill)
    note res = this [unfolded assms(1), THEN Inr_inject, unfolded prod.inject]
    have "unat n \<le> unat (remaining_slack ?c)" using assms(3) by (simp add: slack_size_def)
    then show thesis
      by (intro that [OF part_inv_refill [OF assms(2) below(1), of tid] _ _ conjunct1 [OF res] conjunct2 [OF res]])
         simp_all
  next
    case False
    then have "unat n \<le> unat (remaining_slack c)"
      by (simp add: sc not_less word_le_nat_alt unat_ucast_slack)
    note goal = that [OF assms(2) c this]
    note res = chunk_hit [OF c False, unfolded assms(1), THEN Inr_inject, unfolded prod.inject]
    show thesis by (rule goal [OF conjunct1 [OF res] conjunct2 [OF res]])
  qed
qed

lemma chunk_law:
  assumes "getVersionDataChunk_ThreadLocal2 tid n p = Inr (a, p')" and "part_inv base sz p U"
    and "unat n \<le> 8192"
  shows "extent a n \<inter> U = {}" and "part_inv base sz p' (U \<union> extent a n)"
proof -
  obtain q c where "part_inv base sz q U" "threadLocal_cache q tid = Some c"
    "unat n \<le> unat (remaining_slack c)" and res: "a = sc_ptr c"
    "p' = q\<lparr>threadLocal_cache := (threadLocal_cache q)(tid \<mapsto>
             c\<lparr>sc_ptr := sc_ptr c + n,
               remaining_slack := ucast (scast (remaining_slack c) - n :: size_t)\<rparr>),
           touched := True\<rparr>"
    using assms by (rule getVersionDataChunk_ThreadLocal2_cases)
  note take = part_inv_take [OF this(1-3)]
  show "extent a n \<inter> U = {}" using take(1) res(1) by simp
  show "part_inv base sz p' (U \<union> extent a n)" using take(2) unfolding res part_inv_touched .
qed

text \<open>The slack allocator keeps the contract of \<open>block_allocator\<close>, for requests of at most 8192 bytes.\<close>

interpretation slack: block_allocator
  "part_inv base sz" "\<lambda>(tid, n). getVersionDataChunk_ThreadLocal2 tid n"
  "\<lambda>(tid, n) a. extent a n" "\<lambda>(tid, n). unat n \<le> 8192" "{base ..< base + sz}"
proof (unfold_locales, goal_cases)
  case (1 s U q a s')
  then show ?case by (cases q) (simp add: chunk_law(1))
next
  case (2 s U q a s')
  then show ?case by (cases q) (simp add: chunk_law(2))
next
  case (3 s U)
  then show ?case by (rule part_inv_arena)
qed

section \<open>Construction and reset of a partition\<close>

lemma part_inv_new:
  assumes "8192 dvd unat (mc_size mem)" and "unat (mc_data mem) + unat (mc_size mem) + 8192 < 2 ^ 64"
  shows "part_inv (unat (mc_data mem)) (unat (mc_size mem))
           (mk_DeltaPartition C (mc_data mem) mem pid d) {}"
  using assms unat_add_no_wrap [of "mc_data mem" "mc_size mem"]
  by (simp add: part_inv_def part_shape_def mk_DeltaPartition_def)

lemma part_inv_mono: "part_inv base sz p U \<Longrightarrow> V \<subseteq> U \<Longrightarrow> part_inv base sz p V"
  unfolding part_inv_def by blast

lemma part_inv_add_cache:
  assumes inv: "part_inv base sz p U" and none: "threadLocal_cache p tid = None"
  shows "part_inv base sz (p\<lparr>threadLocal_cache := (threadLocal_cache p)(tid \<mapsto> new_DeltaSlackCache)\<rparr>) U"
proof -
  let ?p = "p\<lparr>threadLocal_cache := (threadLocal_cache p)(tid \<mapsto> new_DeltaSlackCache)\<rparr>"
  have new: "slack_free new_DeltaSlackCache = {}" "unat (remaining_slack new_DeltaSlackCache) = 0"
    by (simp_all add: new_DeltaSlackCache_def slack_free_def)
  have old: "(t = tid \<and> c = new_DeltaSlackCache) \<or> threadLocal_cache p t = Some c"
    if "threadLocal_cache ?p t = Some c" for t c
    using that by (cases "t = tid") simp_all
  show ?thesis
    unfolding part_inv_def
  proof (intro conjI allI impI)
    show "part_shape base sz ?p" using inv by (simp add: part_inv_def part_shape_def)
    show "U \<subseteq> {base ..< unat (ver_data_cursor ?p)}" using inv by (simp add: part_inv_def)
  next
    fix t c assume "threadLocal_cache ?p t = Some c"
    from old [OF this] part_inv_cacheD [OF inv, of t c]
    show "unat (remaining_slack c) \<le> 8192" "slack_free c \<subseteq> {base ..< unat (ver_data_cursor ?p)}"
      "slack_free c \<inter> U = {}"
      by (elim disjE; simp add: new)+
  next
    fix t t' c c' assume ne: "t \<noteq> t'" and d: "threadLocal_cache ?p t = Some c" "threadLocal_cache ?p t' = Some c'"
    show "slack_free c \<inter> slack_free c' = {}"
      using old [OF d(1)] old [OF d(2)] part_inv_cacheD(4) [OF inv, of t' c' t c] ne new(1) by blast
  qed
qed

lemma part_inv_initSlackCache:
  assumes "initSlackCache tid p = Inr p'" and inv: "part_inv base sz p {}"
  shows "part_inv base sz p' {}"
proof -
  let ?p1 = "if threadLocal_cache p tid = None
             then p\<lparr>threadLocal_cache := (threadLocal_cache p)(tid \<mapsto> new_DeltaSlackCache)\<rparr> else p"
  obtain a p2 where step: "getVersionDataChunk_ThreadLocal2 tid 8 ?p1 = Inr (a, p2)"
    and p': "p' = p2\<lparr>touched := True\<rparr>"
    using assms(1) by (auto simp: initSlackCache_def Let_def rbind_eq_Inr_iff)
  have "part_inv base sz ?p1 {}" using part_inv_add_cache [OF inv] inv by simp
  from chunk_law(2) [OF step this] have "part_inv base sz p2 (extent a 8)" by simp
  then show ?thesis using p' part_inv_mono by fastforce
qed

lemma part_inv_warm:
  assumes "8192 dvd unat (mc_size mem)" and "unat (mc_data mem) + unat (mc_size mem) + 8192 < 2 ^ 64"
    and "rfold initSlackCache tids (mk_DeltaPartition C (mc_data mem) mem pid d) = Inr p"
  shows "part_inv (unat (mc_data mem)) (unat (mc_size mem)) p {}"
  by (rule rfold_invariant [where P = "\<lambda>p. part_inv (unat (mc_data mem)) (unat (mc_size mem)) p {}", OF assms(3)])
     (rule part_inv_new [OF assms(1,2)], rule part_inv_initSlackCache)

lemma part_inv_reset:
  assumes inv: "part_inv base sz p U" and "touched p"
  shows "part_inv base sz (part_reset C p) {}"
proof -
  have cur: "unat (ver_data_cursor (part_reset C p)) = base"
    using inv assms(2) by (simp add: part_reset_def Let_def part_inv_def part_shape_def)
  have shape: "part_shape base sz (part_reset C p)"
    using inv assms(2) by (simp add: part_reset_def Let_def part_inv_def part_shape_def)
  have zero: "unat (remaining_slack c) = 0" if "threadLocal_cache (part_reset C p) tid = Some c" for tid c
    using that assms(2) by (auto simp: part_reset_def Let_def split: if_splits)
  then show ?thesis using shape by (simp add: part_inv_def slack_free_def)
qed

section \<open>Epochs and collection\<close>

lemma fold_max_ge:
  "(a :: xid_t) \<le> fold (\<lambda>m mx. if f m > mx then f m else mx) ms a \<and>
   (\<forall>m\<in>set ms. f m \<le> fold (\<lambda>m mx. if f m > mx then f m else mx) ms a)"
proof (induction ms arbitrary: a)
  case (Cons m ms)
  from Cons.IH [of "if f m > a then f m else a"] show ?case
    by (auto split: if_splits intro: order_trans less_imp_le)
qed simp

lemma getMaxActiveEpoch_ge: "m \<in> set (meta_per_thread d) \<Longrightarrow> max_active_epoch m \<le> getMaxActiveEpoch d"
  unfolding getMaxActiveEpoch_def
  using fold_max_ge [where a = 0 and f = max_active_epoch and ms = "meta_per_thread d"] by blast

definition meta_ok :: "'h CircularDeltaStore \<Rightarrow> bool" where
  "meta_ok d \<longleftrightarrow> (\<forall>tid i. threadlocal_meta d tid = Some i \<longrightarrow> i < length (meta_per_thread d))"

lemma meta_ok_new: "mk_CircularDeltaStore C mems d_id cap = Inr d \<Longrightarrow> meta_ok d"
  by (auto simp: mk_CircularDeltaStore_def meta_ok_def rbind_eq_Inr_iff)

lemma meta_ok_init: "initThreadLocalPools tid d = Inr d' \<Longrightarrow> meta_ok d \<Longrightarrow> meta_ok d'"
  by (auto simp: initThreadLocalPools_def meta_ok_def Let_def rbind_eq_Inr_iff less_Suc_eq
      split: if_splits)

lemma meta_ok_allocate: "ds_allocate bases tid sz pid d = Inr (ptr, d') \<Longrightarrow> meta_ok d \<Longrightarrow> meta_ok d'"
  by (auto simp: ds_allocate_def meta_ok_def rbind_eq_Inr_iff split: if_splits)

lemma meta_ok_increment: "increment_reader tid e d = Inr d' \<Longrightarrow> meta_ok d \<Longrightarrow> meta_ok d'"
  by (auto simp: increment_reader_def meta_ok_def Let_def rbind_eq_Inr_iff split: if_splits)

lemma meta_ok_GC: "meta_ok d \<Longrightarrow> meta_ok (GC C cons sp tm d)"
  by (simp add: GC_def gc_reset_def resetMinVersionTs_def meta_ok_def Let_def)

lemma meta_ok_decrement: "meta_ok d \<Longrightarrow> meta_ok (decrement_reader C cons sp tm d)"
proof -
  assume "meta_ok d"
  then have "meta_ok (d\<lparr>readers := r\<rparr>)" for r by (simp add: meta_ok_def)
  then show ?thesis by (simp add: decrement_reader_def Let_def meta_ok_GC)
qed

lemmas meta_ok_intros = meta_ok_new meta_ok_init meta_ok_allocate meta_ok_increment meta_ok_GC
  meta_ok_decrement

lemma increment_reader_epoch:
  assumes "increment_reader tid e d = Inr d'" and "meta_ok d"
  shows "e \<le> getMaxActiveEpoch d'"
proof -
  obtain i where i: "threadlocal_meta d tid = Some i"
    and d': "d' = (let m = meta_per_thread d ! i; d1 = d\<lparr>readers := readers d + 1\<rparr>
       in if max_active_epoch m < e
          then d1\<lparr>meta_per_thread := (meta_per_thread d)[i := m\<lparr>max_active_epoch := e\<rparr>]\<rparr> else d1)"
    using assms(1)
    by (auto simp: increment_reader_def getMeta_threadLocal_def Let_def rbind_eq_Inr_iff
        split: if_splits option.splits)
  have "i < length (meta_per_thread d)" using assms(2) i by (simp add: meta_ok_def)
  then have "meta_per_thread d' ! i \<in> set (meta_per_thread d') \<and>
      e \<le> max_active_epoch (meta_per_thread d' ! i)"
    by (simp add: d' Let_def not_less)
  then show ?thesis using getMaxActiveEpoch_ge order_trans by blast
qed

lemma GC_blocked:
  "get_min_activeTxn tm \<le> getMaxActiveEpoch d \<Longrightarrow> GC C False sp tm d = d"
  by (simp add: GC_def impl_gc_simple_def Let_def getMaxActiveEpoch_def not_less [symmetric])

lemma tag_GC:
  "tag (GC C cons sp tm d) =
     (if readers d = 0 \<and> \<not> sp \<and> (if cons then impl_gc_withConsolidation tm d else impl_gc_simple tm d)
      then tag d + 1 else tag d)"
  by (simp add: GC_def gc_reset_def resetMinVersionTs_def Let_def impl_gc_withConsolidation_def
      impl_gc_simple_def getMaxActiveEpoch_def getMinVersionTs_def)

section \<open>The store while transactions run\<close>

text \<open>
  The calls that the engine makes on a store, between steps of the transactions: allocations, entries of
  the consolidation table, new threads, readers that come and go, new epochs of a thread, which do not
  decrease because start times do not, and attempts to collect.
\<close>

inductive store_step ::
  "'h ptr_table \<Rightarrow> (8 word \<rightharpoonup> uintptr) \<Rightarrow> GcTypes \<Rightarrow> txn_world \<times> 'h CircularDeltaStore \<Rightarrow> txn_world \<times> 'h CircularDeltaStore \<Rightarrow> bool"
  for C bases gc where
  step_txn: "txn_step gc w w' \<Longrightarrow> store_step C bases gc (w, d) (w', d)"
| step_allocate: "ds_allocate_ts False bases t sz pid ts d = Inr (ptr, d') \<Longrightarrow> store_step C bases gc (w, d) (w, d')"
| step_crossing: "saveInstanceCrossingPtr C row ptr d = Inr d' \<Longrightarrow> store_step C bases gc (w, d) (w, d')"
| step_thread: "initThreadLocalPools t d = Inr d' \<Longrightarrow> store_step C bases gc (w, d) (w, d')"
| step_enter: "increment_reader t e d = Inr d' \<Longrightarrow> store_step C bases gc (w, d) (w, d')"
| step_leave: "store_step C bases gc (w, d) (w, decrement_reader C False sp (tw_mgr w) d)"
| step_epoch: "threadlocal_meta d t = Some i \<Longrightarrow> max_active_epoch (meta_per_thread d ! i) \<le> e \<Longrightarrow>
     update_active_epoch t e d = Inr d' \<Longrightarrow> store_step C bases gc (w, d) (w, d')"
| step_collect: "store_step C bases gc (w, d) (w, GC C False sp (tw_mgr w) d)"

text \<open>Any number of steps during which the transaction \<open>tx\<close> of the thread \<open>tid\<close> goes on running.\<close>

inductive while_running ::
  "'h ptr_table \<Rightarrow> (8 word \<rightharpoonup> uintptr) \<Rightarrow> GcTypes \<Rightarrow> nat \<Rightarrow> Txn \<Rightarrow>
     txn_world \<times> 'h CircularDeltaStore \<Rightarrow> txn_world \<times> 'h CircularDeltaStore \<Rightarrow> bool"
  for C bases gc tid tx a where
  running_start: "while_running C bases gc tid tx a a"
| running_next: "while_running C bases gc tid tx a b \<Longrightarrow> store_step C bases gc b c \<Longrightarrow>
     tw_running (fst c) tid = Some tx \<Longrightarrow> while_running C bases gc tid tx a c"

text \<open>Some thread of the store has seen the epoch.\<close>

definition epoch_seen :: "xid_t \<Rightarrow> 'h CircularDeltaStore \<Rightarrow> bool" where
  "epoch_seen e d \<longleftrightarrow> meta_ok d \<and> (\<exists>m\<in>set (meta_per_thread d). e \<le> max_active_epoch m)"

lemma epoch_seen_max: "epoch_seen e d \<Longrightarrow> e \<le> getMaxActiveEpoch d"
  unfolding epoch_seen_def using getMaxActiveEpoch_ge order_trans by blast

lemma epoch_seen_raise:
  assumes "epoch_seen e d" "max_active_epoch (meta_per_thread d ! i) \<le> max_active_epoch m"
    "meta_per_thread d' = (meta_per_thread d)[i := m]" "threadlocal_meta d' = threadlocal_meta d"
  shows "epoch_seen e d'"
proof -
  obtain j where j: "j < length (meta_per_thread d)" "e \<le> max_active_epoch (meta_per_thread d ! j)"
    using assms(1) by (auto simp: epoch_seen_def in_set_conv_nth)
  then have "e \<le> max_active_epoch (meta_per_thread d' ! j)" "j < length (meta_per_thread d')"
    using assms(2,3) by (cases "i = j"; simp; order)+
  then have "\<exists>m\<in>set (meta_per_thread d'). e \<le> max_active_epoch m" using nth_mem by blast
  then show ?thesis using assms(1,3,4) by (auto simp: epoch_seen_def meta_ok_def)
qed

lemma epoch_seen_same:
  "epoch_seen e d \<Longrightarrow> meta_per_thread d' = meta_per_thread d \<Longrightarrow> threadlocal_meta d' = threadlocal_meta d \<Longrightarrow> epoch_seen e d'"
  by (simp add: epoch_seen_def meta_ok_def)

lemma epoch_seen_increment:
  assumes "increment_reader t x d = Inr d'" "epoch_seen e d"
  shows "epoch_seen e d' \<and> tag d' = tag d"
proof -
  obtain i where "threadlocal_meta d t = Some i" and d': "d' = (let m = meta_per_thread d ! i; d1 = d\<lparr>readers := readers d + 1\<rparr>
      in if max_active_epoch m < x then d1\<lparr>meta_per_thread := (meta_per_thread d)[i := m\<lparr>max_active_epoch := x\<rparr>]\<rparr> else d1)"
    using assms(1) by (auto simp: increment_reader_def getMeta_threadLocal_def Let_def rbind_eq_Inr_iff split: if_splits option.splits)
  define m where "m = meta_per_thread d ! i"
  show ?thesis
  proof (cases "max_active_epoch m < x")
    case True
    then have d': "d' = d\<lparr>readers := readers d + 1, meta_per_thread := (meta_per_thread d)[i := m\<lparr>max_active_epoch := x\<rparr>]\<rparr>"
      using d' by (simp add: m_def Let_def)
    have "epoch_seen e d'"
      by (rule epoch_seen_raise [OF assms(2), of i "m\<lparr>max_active_epoch := x\<rparr>"]) (use True in \<open>simp_all add: d' m_def [symmetric]\<close>)
    then show ?thesis by (simp add: d')
  next
    case False
    then have d': "d' = d\<lparr>readers := readers d + 1\<rparr>" using d' by (simp add: m_def Let_def)
    have "epoch_seen e d'" by (rule epoch_seen_same [OF assms(2)]) (simp_all add: d')
    then show ?thesis by (simp add: d')
  qed
qed

lemma epoch_seen_thread: "initThreadLocalPools t d = Inr d' \<Longrightarrow> epoch_seen e d \<Longrightarrow> epoch_seen e d' \<and> tag d' = tag d"
  using meta_ok_init [of t d d'] by (auto simp: epoch_seen_def initThreadLocalPools_def Let_def rbind_eq_Inr_iff)

lemma blocked_leave:
  assumes "get_min_activeTxn tm \<le> e" "epoch_seen e d"
  shows "epoch_seen e (decrement_reader C False sp tm d) \<and> tag (decrement_reader C False sp tm d) = tag d"
proof -
  have s: "epoch_seen e (d\<lparr>readers := readers d - 1\<rparr>)" using assms(2) by (rule epoch_seen_same) simp_all
  then have "GC C False sp tm (d\<lparr>readers := readers d - 1\<rparr>) = d\<lparr>readers := readers d - 1\<rparr>"
    by (intro GC_blocked order_trans [OF assms(1) epoch_seen_max])
  then show ?thesis using s by (cases "readers d = 1") (simp_all add: decrement_reader_def Let_def)
qed

lemma store_step_seen:
  assumes "store_step C bases gc (w, d) (w', d')" "epoch_seen e d" "get_min_activeTxn (tw_mgr w) \<le> e"
  shows "epoch_seen e d' \<and> tag d' = tag d"
  using assms(1)
proof cases
  case (step_collect sp)
  have "get_min_activeTxn (tw_mgr w) \<le> getMaxActiveEpoch d" using assms(3) epoch_seen_max [OF assms(2)] by (rule order_trans)
  then show ?thesis using step_collect assms(2) by (simp add: GC_blocked)
next
  case (step_leave sp)
  then show ?thesis using blocked_leave [OF assms(3,2)] by simp
next
  case (step_epoch t i x)
  then show ?thesis using assms(2)
    by (auto simp: update_active_epoch_def getMeta_threadLocal_def rbind_eq_Inr_iff
        intro!: epoch_seen_raise [OF assms(2), where i = i and m = "(meta_per_thread d ! i)\<lparr>max_active_epoch := x\<rparr>"])
next
  case (step_allocate t sz pid ts ptr)
  then show ?thesis using assms(2)
    by (auto simp: ds_allocate_ts_def ds_allocate_def rbind_eq_Inr_iff split: if_splits intro!: epoch_seen_same [OF assms(2)])
next
  case (step_crossing row ptr)
  then show ?thesis using assms(2)
    by (auto simp: saveInstanceCrossingPtr_def Let_def split: if_splits prod.splits intro!: epoch_seen_same [OF assms(2)])
next
  case (step_enter t x)
  then show ?thesis using assms(2) epoch_seen_increment by blast
next
  case (step_thread t)
  then show ?thesis using assms(2) epoch_seen_thread by blast
qed (use assms(2) in simp)

lemma while_running_seen:
  assumes "while_running C bases gc tid tx (w, d) (w', d')"
    and "txn_reachable gc w" "tw_running w tid = Some tx" "epoch_seen (txn_start_time (txnTs tx)) d"
  shows "txn_reachable gc w' \<and> tw_running w' tid = Some tx \<and> epoch_seen (txn_start_time (txnTs tx)) d' \<and> tag d' = tag d"
  using assms(1)
proof (induction "(w', d')" arbitrary: w' d' rule: while_running.induct)
  case running_start
  then show ?case using assms by simp
next
  case (running_next b)
  obtain wb db where b: "b = (wb, db)" by fastforce
  note IH = running_next(2) [OF b]
  have "registered_active wb" using IH reachable_registered_active by blast
  then have "get_min_activeTxn (tw_mgr wb) \<le> txn_start_time (txnTs tx)" using IH registered_active_min by blast
  then have "epoch_seen (txn_start_time (txnTs tx)) d' \<and> tag d' = tag db"
    using store_step_seen [OF running_next(3) [unfolded b], of "txn_start_time (txnTs tx)"] IH by simp
  moreover have "txn_reachable gc w'" using running_next(3) IH unfolding b by cases (auto intro: txn_next)
  ultimately show ?case using IH running_next(4) by simp
qed

section \<open>Examples used by the witnesses\<close>

definition demo_chunk :: mem_chunk where
  "demo_chunk = \<lparr>mc_data = 4096, mc_size = 81920, mc_numa = 0\<rparr>"

definition demo_part :: "(row_uuid_t \<rightharpoonup> uintptr list) DeltaPartition" where
  "demo_part = mk_DeltaPartition map_cuckoo (mc_data demo_chunk) demo_chunk 0 0"

lemmas slack_exec = demo_part_def demo_chunk_def mk_DeltaPartition_def initSlackCache_def
  getVersionDataChunk_ThreadLocal2_def new_DeltaSlackCache_def slack_size_def Let_def rbind_def

lemma demo_run:
  obtains p p' where "rfold initSlackCache [1, 2] demo_part = Inr p"
    "alloc_run (\<lambda>(tid, n). getVersionDataChunk_ThreadLocal2 tid n) [(1, 100), (2, 200), (1, 8192)] p
       = Inr ([((1, 100), 4104), ((2, 200), 12296), ((1, 8192), 20480)], p')"
proof -
  have "run_blocks (rbind (rfold initSlackCache [1, 2] demo_part)
      (alloc_run (\<lambda>(tid, n). getVersionDataChunk_ThreadLocal2 tid n) [(1, 100), (2, 200), (1, 8192)]))
    = Some [((1, 100), 4104), ((2, 200), 12296), ((1, 8192), 20480)]"
    by (simp add: run_blocks_def slack_exec)
  from run_blocks_rbind [OF this] that show thesis by metis
qed

lemma demo_overrun:
  obtains p p1 p2 where "rfold initSlackCache [1, 2] demo_part = Inr p"
    "threadLocal_cache p 2 = Some \<lparr>sc_ptr = 12296, remaining_slack = 8184\<rparr>"
    "getVersionDataChunk_ThreadLocal2 1 9000 p = Inr (20480, p1)"
    "getVersionDataChunk_ThreadLocal2 2 8192 p1 = Inr (28672, p2)"
proof -
  have "probe (rfold initSlackCache [1, 2] demo_part)
      (\<lambda>p. (threadLocal_cache p 2,
            probe (getVersionDataChunk_ThreadLocal2 1 9000 p) (\<lambda>(a, p1).
              (a, probe (getVersionDataChunk_ThreadLocal2 2 8192 p1) fst))))
    = Some (Some \<lparr>sc_ptr = 12296, remaining_slack = 8184\<rparr>, Some (20480, Some 28672))"
    by (simp add: probe_def slack_exec)
  then obtain p where p: "rfold initSlackCache [1, 2] demo_part = Inr p"
    and q: "threadLocal_cache p 2 = Some \<lparr>sc_ptr = 12296, remaining_slack = 8184\<rparr>"
    "probe (getVersionDataChunk_ThreadLocal2 1 9000 p) (\<lambda>(a, p1).
              (a, probe (getVersionDataChunk_ThreadLocal2 2 8192 p1) fst)) = Some (20480, Some 28672)"
    by (rule probeE) (simp only: prod.inject)
  from q(2) obtain a p1 where p1: "getVersionDataChunk_ThreadLocal2 1 9000 p = Inr (a, p1)"
    and r: "a = 20480" "probe (getVersionDataChunk_ThreadLocal2 2 8192 p1) fst = Some 28672"
    by (rule probeE) (simp split: prod.splits)
  from r(2) obtain b p2 where "getVersionDataChunk_ThreadLocal2 2 8192 p1 = Inr (b, p2)" "b = 28672"
    by (rule probeE) (metis prod.collapse)
  with p q(1) p1 r(1) show thesis by (intro that) simp_all
qed

section \<open>Properties\<close>

text \<open>
  C9. Version memory is never handed out twice: on a partition whose size is a multiple of
  the slack size, warmed up by any threads, any sequence of allocations by those threads of
  at most 8192 bytes each, with no reset in between, returns pairwise disjoint blocks, all inside the
  partition's memory.
\<close>
theorem allocations_disjoint:
  assumes "8192 dvd unat (mc_size mem)" and "unat (mc_data mem) + unat (mc_size mem) + 8192 < 2 ^ 64"
    and "rfold initSlackCache tids (mk_DeltaPartition C (mc_data mem) mem pid d) = Inr p"
    and "list_all (\<lambda>(tid, n). unat n \<le> 8192) qs"
    and "alloc_run (\<lambda>(tid, n). getVersionDataChunk_ThreadLocal2 tid n) qs p = Inr (bs, p')"
  shows "sorted_wrt (\<lambda>((t, n), a) ((t', n'), a'). extent a n \<inter> extent a' n' = {}) bs \<and>
    (\<forall>((t, n), a)\<in>set bs.
       extent a n \<subseteq> {unat (mc_data mem) ..< unat (mc_data mem) + unat (mc_size mem)})"
proof -
  note inv = part_inv_warm [OF assms(1-3)]
  have "sorted_wrt (\<lambda>((t, n), a) ((t', n'), a'). extent a n \<inter> extent a' n' = {}) bs"
    using conjunct2 [OF slack.alloc_run_fresh [OF inv assms(4,5)]]
    by (rule sorted_wrt_mono_rel [rotated]) auto
  moreover have "\<forall>((t, n), a)\<in>set bs.
       extent a n \<subseteq> {unat (mc_data mem) ..< unat (mc_data mem) + unat (mc_size mem)}"
    using slack.alloc_run_arena [OF inv assms(4,5)] by fastforce
  ultimately show ?thesis by blast
qed

theorem allocations_disjoint_witness:
  "\<exists>p p'. rfold initSlackCache [1, 2] demo_part = Inr p \<and>
     alloc_run (\<lambda>(tid, n). getVersionDataChunk_ThreadLocal2 tid n) [(1, 100), (2, 200), (1, 8192)] p
       = Inr ([((1, 100), 4104), ((2, 200), 12296), ((1, 8192), 20480)], p') \<and>
     sorted_wrt (\<lambda>((t, n), a) ((t', n'), a'). extent a n \<inter> extent a' n' = {})
       [((1 :: nat, 100), 4104), ((2, 200), 12296), ((1, 8192), 20480)]"
proof -
  obtain p p' where p: "rfold initSlackCache [1, 2] demo_part = Inr p"
    and run: "alloc_run (\<lambda>(tid, n). getVersionDataChunk_ThreadLocal2 tid n)
      [(1, 100), (2, 200), (1, 8192)] p
      = Inr ([((1, 100), 4104), ((2, 200), 12296), ((1, 8192), 20480)], p')"
    by (rule demo_run)
  have warm: "rfold initSlackCache [1, 2] (mk_DeltaPartition map_cuckoo (mc_data demo_chunk) demo_chunk 0 0) = Inr p"
    using p unfolding demo_part_def .
  have "sorted_wrt (\<lambda>((t, n), a) ((t', n'), a'). extent a n \<inter> extent a' n' = {})
       [((1 :: nat, 100), 4104), ((2, 200), 12296), ((1, 8192), 20480)]"
    by (rule conjunct1 [OF allocations_disjoint [OF _ _ warm _ run]]) (simp_all add: demo_chunk_def)
  with p run show ?thesis by (intro exI conjI)
qed

text \<open>
  C20. A request above the slack size breaks that promise: the block of a thread that asks for
  more than 8192 bytes overlaps the block that the next refill of any other thread returns.
\<close>
theorem oversized_request_overlaps:
  assumes inv: "part_inv base sz p U" and "t \<noteq> t'"
    and "8192 < unat n" "getVersionDataChunk_ThreadLocal2 t n p = Inr (a, p1)"
    and "threadLocal_cache p t' = Some c" "unat (remaining_slack c) < unat m"
    and "getVersionDataChunk_ThreadLocal2 t' m p1 = Inr (b, p2)"
  shows "extent a n \<inter> extent b m \<noteq> {}"
proof -
  obtain c1 where c1: "threadLocal_cache p t = Some c1"
    using assms(4) by (auto simp: getVersionDataChunk_ThreadLocal2_def split: option.splits)
  have sc: "unat (scast (remaining_slack d) :: size_t) = unat (remaining_slack d)"
    if "threadLocal_cache p i = Some d" for i d
    using scast_slack [of "remaining_slack d"] part_inv_cacheD(1) [OF inv that]
    by (simp add: unat_ucast_slack)
  have "scast (remaining_slack c1) < n"
    using sc [OF c1] part_inv_cacheD(1) [OF inv c1] assms(3) by (simp add: word_less_nat_alt)
  note r1 = chunk_refill [OF c1 this]
  have first: "ver_data_cursor p < data_cursor_max p" "a = ver_data_cursor p"
    "ver_data_cursor p1 = ver_data_cursor p + slack_size" "threadLocal_cache p1 t' = Some c"
    using assms(2,4,5) by (auto simp: r1 split: if_splits)
  have "scast (remaining_slack c) < m"
    using sc [OF assms(5)] assms(6) by (simp add: word_less_nat_alt)
  from chunk_refill [OF first(4) this] assms(7) have "b = ver_data_cursor p1"
    by (simp split: if_splits)
  moreover have "unat (ver_data_cursor p + slack_size) = unat (ver_data_cursor p) + 8192"
    using first(1) inv
    by (subst unat_add_no_wrap) (auto simp: slack_size_def part_inv_def part_shape_def)
  ultimately have "unat b \<in> extent a n \<inter> extent b m"
    using first assms(3,6) by (auto simp: extent_def)
  then show ?thesis by blast
qed

theorem oversized_request_overlaps_witness:
  "\<exists>p p1 p2. rfold initSlackCache [1, 2] demo_part = Inr p \<and>
     getVersionDataChunk_ThreadLocal2 1 9000 p = Inr (20480, p1) \<and>
     getVersionDataChunk_ThreadLocal2 2 8192 p1 = Inr (28672, p2) \<and>
     extent 20480 9000 \<inter> extent 28672 8192 \<noteq> {}"
proof -
  obtain p p1 p2 where run: "rfold initSlackCache [1, 2] demo_part = Inr p"
    "threadLocal_cache p 2 = Some \<lparr>sc_ptr = 12296, remaining_slack = 8184\<rparr>"
    "getVersionDataChunk_ThreadLocal2 1 9000 p = Inr (20480, p1)"
    "getVersionDataChunk_ThreadLocal2 2 8192 p1 = Inr (28672, p2)"
    by (rule demo_overrun)
  have "part_inv (unat (mc_data demo_chunk)) (unat (mc_size demo_chunk)) p {}"
    by (rule part_inv_warm [OF _ _ run(1) [unfolded demo_part_def]]) (simp_all add: demo_chunk_def)
  from oversized_request_overlaps [OF this _ _ run(3) run(2) _ run(4)]
  have "extent 20480 9000 \<inter> extent 28672 8192 \<noteq> {}" by simp
  with run(1,3,4) show ?thesis by (intro exI conjI)
qed

text \<open>
  C10. A collection that resets the store makes every reference handed out before it invalid,
  and only such a collection does: after a call of \<open>GC\<close> a reference allocated under the
  previous tag is valid exactly if no reset took place.
\<close>
theorem gc_invalidates_references:
  assumes "ds_allocate bases tid sz pid d = Inr (ptr, d')" and "tag d2 = tag d"
    and "store_delta_id d2 = store_delta_id d" and "unat (store_delta_id d) < 16"
    and "tags (store_delta_id d) = Some (tag (GC C cons sp tm d2))"
  shows "isValid tags ptr =
     Inr (\<not> (readers d2 = 0 \<and> \<not> sp \<and>
             (if cons then impl_gc_withConsolidation tm d2 else impl_gc_simple tm d2)))"
proof -
  obtain cnk where ptr: "ptr = ptr_update bases cnk (tag d) (store_delta_id d) pid"
    using assms(1) by (auto simp: ds_allocate_def rbind_eq_Inr_iff split: if_splits)
  have fix_id: "store_delta_id d AND mask 4 = store_delta_id d"
    using assms(4) by (intro and_mask_fixed) simp
  have ne: "unat (x + 1) mod 1048576 \<noteq> unat x mod 1048576" for x :: "32 word"
  proof -
    have "unat (x + 1) mod 1048576 = Suc (unat x) mod 1048576"
      by (simp add: unat_word_ariths mod_mod_cancel)
    then show ?thesis by (auto simp: mod_Suc)
  qed
  show ?thesis
    using assms(5) ne [of "tag d"]
    by (simp add: ptr isValid_update [of tags _ "tag (GC C cons sp tm d2)"] fix_id tag_GC assms(2))
qed

text \<open>
  C7. A delta that a running transaction may still read is never collected: from the moment when a thread
  has registered as a reader of the store with the start time of the transaction, and for as long as the
  transaction runs, whatever other transactions, allocations, readers and attempts to collect there are
  in between, every attempt to collect leaves the store as it is, and the tag that makes references
  valid has not changed. This is the collection without consolidation, the one compiled in.
\<close>
theorem running_transaction_blocks_gc:
  assumes "txn_reachable gc w" and "tw_running w tid = Some tx"
    and "increment_reader tid' (txn_start_time (txnTs tx)) d = Inr d1" and "meta_ok d"
    and "while_running C bases gc tid tx (w, d1) (w', d')"
  shows "GC C False sp (tw_mgr w') d' = d' \<and> tag d' = tag d"
proof -
  obtain i where i: "threadlocal_meta d tid' = Some i"
    using assms(3) by (auto simp: increment_reader_def getMeta_threadLocal_def Let_def rbind_eq_Inr_iff split: if_splits option.splits)
  have "i < length (meta_per_thread d)" using assms(4) i by (simp add: meta_ok_def)
  then have seen: "epoch_seen (txn_start_time (txnTs tx)) d1" "tag d1 = tag d"
    using assms(3) meta_ok_increment [OF assms(3,4)] i
    by (auto simp: epoch_seen_def increment_reader_def getMeta_threadLocal_def Let_def rbind_eq_Inr_iff not_less set_update_memI
        split: if_splits intro: bexI [of _ "meta_per_thread d ! i"]
          bexI [of _ "(meta_per_thread d ! i)\<lparr>max_active_epoch := txn_start_time (txnTs tx)\<rparr>"])
  note run = while_running_seen [OF assms(5,1,2) seen(1)]
  then have "get_min_activeTxn (tw_mgr w') \<le> txn_start_time (txnTs tx)"
    using reachable_registered_active registered_active_min by blast
  also have "\<dots> \<le> getMaxActiveEpoch d'" using run by (blast intro: epoch_seen_max)
  finally show ?thesis using run seen(2) by (simp add: GC_blocked)
qed

text \<open>A one-partition store used by thread 7, which reads on behalf of the transaction of \<open>one_txn_world\<close>.\<close>

definition demo_store :: "(row_uuid_t \<rightharpoonup> uintptr list) CircularDeltaStore" where
  "demo_store =
     \<lparr>store_delta_id = 0, tag = 1, partitions = [demo_part], meta_per_thread = [new_meta2],
      threadlocal_meta = [7 \<mapsto> 0], readers = 0, gc_reset_success = 0, total_mem_reserved = 81920\<rparr>"

lemma demo_store_alloc:
  obtains p ptr d where "initSlackCache 7 demo_part = Inr p"
    "ds_allocate Map.empty 7 64 0 (demo_store\<lparr>partitions := [p]\<rparr>) = Inr (ptr, d)"
proof -
  have "probe (initSlackCache 7 demo_part)
      (\<lambda>p. probe (ds_allocate Map.empty 7 64 0 (demo_store\<lparr>partitions := [p]\<rparr>)) (\<lambda>x. ())) = Some (Some ())"
    by (simp add: probe_def demo_store_def ds_allocate_def slack_exec)
  then show thesis
    by (elim probeE) (metis prod.collapse that)
qed

theorem gc_invalidates_references_witness:
  "\<exists>p ptr d. ds_allocate Map.empty 7 64 0 (demo_store\<lparr>partitions := [p]\<rparr>) = Inr (ptr, d) \<and>
     isValid (\<lambda>i. if i = 0 then Some (tag (GC map_cuckoo False False new_txn_manager demo_store)) else None) ptr
       = Inr False"
proof -
  obtain p ptr d where alloc: "ds_allocate Map.empty 7 64 0 (demo_store\<lparr>partitions := [p]\<rparr>) = Inr (ptr, d)"
    by (rule demo_store_alloc)
  let ?tags = "\<lambda>i. if i = 0 then Some (tag (GC map_cuckoo False False new_txn_manager demo_store)) else None"
  have "isValid ?tags ptr = Inr False"
    using gc_invalidates_references [OF alloc, of demo_store ?tags map_cuckoo False False new_txn_manager]
    by (simp add: demo_store_def impl_gc_simple_def should_gc_def get_min_activeTxn_def min_loop_def
        new_txn_manager_def getMaxActiveEpoch_def new_meta2_def)
  with alloc show ?thesis by blast
qed

theorem running_transaction_blocks_gc_witness:
  "\<exists>tx d1. tw_running one_txn_world 7 = Some tx \<and>
     increment_reader 7 (txn_start_time (txnTs tx)) demo_store = Inr d1 \<and>
     GC map_cuckoo False False (tw_mgr one_txn_world) (decrement_reader map_cuckoo False False (tw_mgr one_txn_world) d1) =
       decrement_reader map_cuckoo False False (tw_mgr one_txn_world) d1"
proof -
  obtain tx where tx: "tw_running one_txn_world 7 = Some tx"
    by (simp add: one_txn_world_def beginTxn_def getTxn_def get_txnID_startTime_Pair_def Let_def)
  obtain d1 where d1: "increment_reader 7 (txn_start_time (txnTs tx)) demo_store = Inr d1"
    by (simp add: increment_reader_def demo_store_def getMeta_threadLocal_def Let_def)
  have meta: "meta_ok demo_store" by (simp add: meta_ok_def demo_store_def)
  have run: "while_running map_cuckoo Map.empty OneShot 7 tx (one_txn_world, d1)
      (one_txn_world, decrement_reader map_cuckoo False False (tw_mgr one_txn_world) d1)"
    by (rule running_next [OF running_start step_leave]) (simp add: tx)
  show ?thesis
    using tx d1 conjunct1 [OF running_transaction_blocks_gc [OF one_txn_world_reachable tx d1 meta run]] by blast
qed

end
