(* ===== verification/ReaderProtocol.thy ===== *)
theory ReaderProtocol
  imports DeltaStore
begin

text \<open>
  The atomic steps of \<^verbatim>\<open>increment_reader\<close>, \<^verbatim>\<open>decrement_reader\<close> and \<^verbatim>\<open>GC\<close> of
  \<^verbatim>\<open>CircularDeltaStore\<close> (\<^verbatim>\<open>delta_storage.hpp\<close>, \<^verbatim>\<open>delta_storage.cpp\<close>) as a step relation over
  any interleaving of finitely many threads. The reader count keeps its 64-bit width.
\<close>

section \<open>States and steps\<close>

text \<open>
  Where a thread is: outside; spinning in the inner loop of \<open>increment_reader\<close> after seeing a
  negative count; past the inner loop, about to increment again; registered as a reader; past
  a \<^verbatim>\<open>fetch_sub\<close> that returned 1, about to try the exchange of \<open>GC\<close>; inside the collection.
\<close>

datatype rpc = Outside | Spinning | Retrying | Reading | Trying | Collecting

record rworld =
  rw_readers :: "64 word"
  rw_pc :: "nat \<Rightarrow> rpc"

inductive rstep :: "nat \<Rightarrow> rworld \<Rightarrow> rworld \<Rightarrow> bool" for n where
  increment: "t < n \<Longrightarrow> rw_pc w t = Outside \<or> rw_pc w t = Retrying \<Longrightarrow>
    rstep n w (w\<lparr>rw_readers := rw_readers w + 1,
                 rw_pc := (rw_pc w)(t := if rw_readers w <s 0 then Spinning else Reading)\<rparr>)"
| spin_exit: "t < n \<Longrightarrow> rw_pc w t = Spinning \<Longrightarrow> \<not> rw_readers w <s 0 \<Longrightarrow>
    rstep n w (w\<lparr>rw_pc := (rw_pc w)(t := Retrying)\<rparr>)"
| decrement: "t < n \<Longrightarrow> rw_pc w t = Reading \<Longrightarrow>
    rstep n w (w\<lparr>rw_readers := rw_readers w - 1,
                 rw_pc := (rw_pc w)(t := if rw_readers w = 1 then Trying else Outside)\<rparr>)"
| exchange_ok: "t < n \<Longrightarrow> rw_pc w t = Trying \<Longrightarrow> rw_readers w = 0 \<Longrightarrow>
    rstep n w (w\<lparr>rw_readers := INT64_MIN, rw_pc := (rw_pc w)(t := Collecting)\<rparr>)"
| exchange_fails: "t < n \<Longrightarrow> rw_pc w t = Trying \<Longrightarrow>
    rstep n w (w\<lparr>rw_pc := (rw_pc w)(t := Outside)\<rparr>)"
| collected: "t < n \<Longrightarrow> rw_pc w t = Collecting \<Longrightarrow>
    rstep n w (w\<lparr>rw_readers := 0, rw_pc := (rw_pc w)(t := Outside)\<rparr>)"

inductive rreach :: "nat \<Rightarrow> rworld \<Rightarrow> bool" for n where
  rstart: "rreach n \<lparr>rw_readers = 0, rw_pc = (\<lambda>_. Outside)\<rparr>"
| rnext: "rreach n w \<Longrightarrow> rstep n w w' \<Longrightarrow> rreach n w'"

section \<open>Counting threads\<close>

definition num :: "nat \<Rightarrow> (nat \<Rightarrow> rpc) \<Rightarrow> rpc \<Rightarrow> nat" where
  "num n pc x = card {t. t < n \<and> pc t = x}"

lemma num_le: "num n pc x \<le> n"
  using card_mono [of "{..<n}" "{t. t < n \<and> pc t = x}"] by (auto simp: num_def)

lemma num_pos: "t < n \<Longrightarrow> pc t = x \<Longrightarrow> 0 < num n pc x"
  by (auto simp: num_def card_gt_0_iff)

lemma num_upd:
  assumes "t < n" and "pc t \<noteq> x"
  shows "num n (pc(t := x)) y =
    (if y = x then Suc (num n pc y) else if y = pc t then num n pc y - 1 else num n pc y)"
proof -
  have eq: "{s. s < n \<and> (pc(t := x)) s = y} =
    (if y = x then insert t {s. s < n \<and> pc s = y}
     else if y = pc t then {s. s < n \<and> pc s = y} - {t} else {s. s < n \<and> pc s = y})"
    using assms by auto
  have fin: "finite {s. s < n \<and> pc s = y}" by simp
  show ?thesis unfolding num_def eq using assms fin by (simp add: card_Diff_singleton)
qed

section \<open>The invariant\<close>

text \<open>
  Without a collector the count is the number of readers. During a collection there is one
  collector, no reader, and the count is the smallest 64-bit integer plus at most one for
  every spinning thread.
\<close>

definition rinv :: "nat \<Rightarrow> rworld \<Rightarrow> bool" where
  "rinv n w \<longleftrightarrow>
     (if num n (rw_pc w) Collecting = 0
      then rw_readers w = of_nat (num n (rw_pc w) Reading)
      else num n (rw_pc w) Collecting = 1 \<and> num n (rw_pc w) Reading = 0 \<and>
           (\<exists>k \<le> num n (rw_pc w) Spinning. rw_readers w = INT64_MIN + of_nat k))"

lemma of_nat_not_neg: "k < 2 ^ 62 \<Longrightarrow> \<not> (of_nat k :: 64 word) <s 0"
proof -
  assume "k < 2 ^ 62"
  then have "sint (of_nat k :: 64 word) = int k"
    by (simp add: signed_take_bit_int_eq_self_iff signed_of_nat)
  then show ?thesis by (simp add: word_sless_alt)
qed

lemma collecting_neg: "k < 2 ^ 62 \<Longrightarrow> INT64_MIN + of_nat k <s 0"
proof -
  assume "k < 2 ^ 62"
  have "INT64_MIN = - (2 ^ 63)" by (simp add: INT64_MIN_def eq_neg_iff_add_eq_0)
  then have "sint (INT64_MIN + of_nat k) = sint (word_of_int (- (2 ^ 63) + int k) :: 64 word)"
    by (simp only: of_int_add of_int_minus of_int_power of_int_numeral of_int_of_nat_eq)
  also have "\<dots> = - (2 ^ 63) + int k"
    using \<open>k < 2 ^ 62\<close> by (subst signed_of_int) (simp add: signed_take_bit_int_eq_self_iff)
  finally show ?thesis using \<open>k < 2 ^ 62\<close> by (simp add: word_sless_alt)
qed

lemma rinv_readers:
  assumes "rinv n w" and "n < 2 ^ 62"
  shows "rw_readers w <s 0 \<longleftrightarrow> 0 < num n (rw_pc w) Collecting"
proof (cases "num n (rw_pc w) Collecting = 0")
  case True
  then show ?thesis
    using assms of_nat_not_neg [of "num n (rw_pc w) Reading"] num_le [of n "rw_pc w" Reading]
    by (simp add: rinv_def)
next
  case False
  then obtain k where "k \<le> num n (rw_pc w) Spinning" "rw_readers w = INT64_MIN + of_nat k"
    using assms(1) by (auto simp: rinv_def)
  then show ?thesis
    using False collecting_neg [of k] num_le [of n "rw_pc w" Spinning] assms(2) by simp
qed

lemma rinv_increment:
  assumes "rinv n w" and "n < 2 ^ 62" and "t < n" and "rw_pc w t = Outside \<or> rw_pc w t = Retrying"
  shows "rinv n (w\<lparr>rw_readers := rw_readers w + 1,
      rw_pc := (rw_pc w)(t := if rw_readers w <s 0 then Spinning else Reading)\<rparr>)"
proof (cases "num n (rw_pc w) Collecting = 0")
  case True
  then have "\<not> rw_readers w <s 0" using rinv_readers [OF assms(1,2)] by simp
  then show ?thesis
    using assms True num_upd [of t n "rw_pc w" Reading] by (auto simp: rinv_def)
next
  case False
  then have neg: "rw_readers w <s 0" using rinv_readers [OF assms(1,2)] by simp
  from False assms(1) obtain k where k: "k \<le> num n (rw_pc w) Spinning" "rw_readers w = INT64_MIN + of_nat k"
    by (auto simp: rinv_def)
  have "\<exists>j \<le> Suc (num n (rw_pc w) Spinning). rw_readers w + 1 = INT64_MIN + of_nat j"
    using k by (intro exI [of _ "Suc k"]) simp
  then show ?thesis
    using assms False neg num_upd [of t n "rw_pc w" Spinning] by (auto simp: rinv_def)
qed

lemma rinv_decrement:
  assumes "rinv n w" and "n < 2 ^ 62" and "t < n" and "rw_pc w t = Reading"
  shows "rinv n (w\<lparr>rw_readers := rw_readers w - 1,
      rw_pc := (rw_pc w)(t := if rw_readers w = 1 then Trying else Outside)\<rparr>)"
proof -
  have pos: "0 < num n (rw_pc w) Reading" using assms(3,4) by (rule num_pos)
  then have "num n (rw_pc w) Collecting = 0" using assms(1) by (auto simp: rinv_def split: if_splits)
  then show ?thesis
    using assms pos num_upd [of t n "rw_pc w" Trying] num_upd [of t n "rw_pc w" Outside]
    by (auto simp: rinv_def of_nat_diff)
qed

lemma rinv_exchange:
  assumes "rinv n w" and "n < 2 ^ 62" and "t < n" and "rw_pc w t = Trying" and "rw_readers w = 0"
  shows "rinv n (w\<lparr>rw_readers := INT64_MIN, rw_pc := (rw_pc w)(t := Collecting)\<rparr>)"
proof -
  have none: "num n (rw_pc w) Collecting = 0"
    using rinv_readers [OF assms(1,2)] assms(5) by (simp add: word_sless_alt)
  moreover have "num n (rw_pc w) Reading = 0"
  proof -
    have "unat (of_nat (num n (rw_pc w) Reading) :: 64 word) = num n (rw_pc w) Reading"
      using num_le [of n "rw_pc w" Reading] assms(2)
      by (simp add: unsigned_of_nat take_bit_nat_eq_self)
    then show ?thesis using none assms(1,5) by (simp add: rinv_def)
  qed
  ultimately show ?thesis
    using assms num_upd [of t n "rw_pc w" Collecting] by (auto simp: rinv_def)
qed

lemma rinv_step:
  assumes "rinv n w" and "n < 2 ^ 62" and "rstep n w w'"
  shows "rinv n w'"
  using assms(3)
proof cases
  case (spin_exit t)
  then have "num n (rw_pc w) Collecting = 0" using rinv_readers [OF assms(1,2)] by simp
  then show ?thesis
    using spin_exit assms(1) num_upd [of t n "rw_pc w" Retrying] by (auto simp: rinv_def)
next
  case (exchange_fails t)
  then show ?thesis
    using assms(1) num_upd [of t n "rw_pc w" Outside] by (auto simp: rinv_def)
next
  case (collected t)
  have "0 < num n (rw_pc w) Collecting" using collected(2,3) by (rule num_pos)
  then show ?thesis
    using collected assms(1) num_upd [of t n "rw_pc w" Outside] by (auto simp: rinv_def split: if_splits)
qed (use assms rinv_increment rinv_decrement rinv_exchange in auto)

lemma rinv_reach: "rreach n w \<Longrightarrow> n < 2 ^ 62 \<Longrightarrow> rinv n w"
proof (induction rule: rreach.induct)
  case rstart
  show ?case by (simp add: rinv_def num_def)
next
  case (rnext w w')
  then show ?case by (blast intro: rinv_step)
qed

section \<open>Properties\<close>

text \<open>
  C8. A delta is never reset under a reader: in every interleaving of the atomic steps of
  readers and collectors, while one thread is inside the collection no thread is registered
  as a reader and no other thread is collecting; and while readers are registered the count
  equals their number.
\<close>
theorem collection_excludes_readers:
  assumes "rreach n w" and "n < 2 ^ 62" and "t < n"
  shows "(rw_pc w t = Collecting \<longrightarrow> (\<forall>s<n. rw_pc w s \<noteq> Reading \<and> (s \<noteq> t \<longrightarrow> rw_pc w s \<noteq> Collecting))) \<and>
         (rw_pc w t = Reading \<longrightarrow> rw_readers w = of_nat (card {s. s < n \<and> rw_pc w s = Reading}))"
proof (intro conjI impI allI)
  note inv = rinv_reach [OF assms(1,2)]
  {
    assume c: "rw_pc w t = Collecting"
    then have pos: "0 < num n (rw_pc w) Collecting" using assms(3) by (intro num_pos)
    then have one: "num n (rw_pc w) Collecting = 1" and none: "num n (rw_pc w) Reading = 0"
      using inv by (auto simp: rinv_def split: if_splits)
    fix s assume s: "s < n"
    show "rw_pc w s \<noteq> Reading" using none num_pos [OF s] by fastforce
    assume "s \<noteq> t"
    show "rw_pc w s \<noteq> Collecting"
    proof
      assume "rw_pc w s = Collecting"
      then have "card {s, t} \<le> num n (rw_pc w) Collecting"
        unfolding num_def using c s assms(3) by (intro card_mono) auto
      then show False using \<open>s \<noteq> t\<close> one by simp
    qed
  }
  assume "rw_pc w t = Reading"
  then have "0 < num n (rw_pc w) Reading" using assms(3) by (intro num_pos)
  then show "rw_readers w = of_nat (card {s. s < n \<and> rw_pc w s = Reading})"
    using inv unfolding num_def [symmetric] by (simp add: rinv_def split: if_splits)
qed

theorem collection_excludes_readers_witness:
  "\<exists>w. rreach 2 w \<and> rw_pc w 0 = Collecting \<and> (\<forall>s<2. rw_pc w s \<noteq> Reading)"
proof -
  let ?w0 = "\<lparr>rw_readers = 0, rw_pc = (\<lambda>_. Outside)\<rparr>"
  let ?w1 = "?w0\<lparr>rw_readers := 1, rw_pc := (rw_pc ?w0)(0 := Reading)\<rparr>"
  let ?w2 = "?w1\<lparr>rw_readers := 0, rw_pc := (rw_pc ?w1)(0 := Trying)\<rparr>"
  let ?w3 = "?w2\<lparr>rw_readers := INT64_MIN, rw_pc := (rw_pc ?w2)(0 := Collecting)\<rparr>"
  have s1: "rstep 2 ?w0 ?w1" using rstep.increment [of 0 2 ?w0] by (simp add: word_sless_alt)
  have s2: "rstep 2 ?w1 ?w2" using rstep.decrement [of 0 2 ?w1] by simp
  have s3: "rstep 2 ?w2 ?w3" using rstep.exchange_ok [of 0 2 ?w2] by simp
  have r: "rreach 2 ?w3" by (rule rnext [OF rnext [OF rnext [OF rstart s1] s2] s3])
  have "rw_pc ?w3 0 = Collecting" by simp
  with collection_excludes_readers [OF r, of 0] r show ?thesis by auto
qed

end
