(* ===== verification/MemoryPool.thy ===== *)
theory MemoryPool
  imports BlockAllocator DeltaPtr
begin

text \<open>
  The bucket memory pool (\<^verbatim>\<open>storage/memory-pool.hpp\<close>) and the delta store built on it,
  \<^verbatim>\<open>DeltaStoreMalloc\<close> (\<^verbatim>\<open>storage/multi-version/delta_storage.{hpp,cpp}\<close>), used with
  non-circular garbage collection. The chunk size \<open>N\<close> is the template argument of the pool.
  What \<^verbatim>\<open>MemoryManager::mallocPinned\<close> will return is part of the state: the list of addresses
  of the following requests, each a region of \<open>pool_size\<close> bytes; an exhausted list stands for
  a null pointer.
\<close>

section \<open>A pool\<close>

definition pool_size_mb :: size_t where
  "pool_size_mb = 4096"

definition pool_size :: size_t where
  "pool_size = pool_size_mb * 1024 * 1024"

record bucket_pool =
  bp_pool :: "uintptr list"
  basePtr :: "uintptr list"
  bp_destructed :: bool

definition new_bucket_pool :: bucket_pool where
  "new_bucket_pool = \<lparr>bp_pool = [], basePtr = [], bp_destructed = False\<rparr>"

text \<open>The loop of \<^verbatim>\<open>expand\<close>; the head of the list is the top of the stack.\<close>

fun push_chunks :: "nat \<Rightarrow> size_t \<Rightarrow> uintptr \<Rightarrow> uintptr \<Rightarrow> uintptr list \<Rightarrow> uintptr list result" where
  "push_chunks 0 N ptr baseRef st = Inr st"
| "push_chunks (Suc k) N ptr baseRef st =
     (if ptr \<le> baseRef then push_chunks k N (ptr + N) baseRef (ptr # st)
      else Inl (Assertion ''ptr <= baseRef''))"

definition bp_expand :: "size_t \<Rightarrow> uintptr list \<times> bucket_pool \<Rightarrow> (uintptr list \<times> bucket_pool) result" where
  "bp_expand N hp =
     (case hp of
        ([], p) \<Rightarrow> Inl (Assertion ''x'')
      | (x # heap, p) \<Rightarrow>
          if x = 0 then Inl (Assertion ''x'')
          else rbind (push_chunks (unat (pool_size div N)) N x (x + pool_size) (bp_pool p)) (\<lambda>st.
                 Inr (heap, p\<lparr>basePtr := basePtr p @ [x], bp_pool := st\<rparr>)))"

definition bp_get :: "bucket_pool \<Rightarrow> (uintptr \<times> bucket_pool) result" where
  "bp_get p = (case bp_pool p of [] \<Rightarrow> Inl BadAccess | a # st \<Rightarrow> Inr (a, p\<lparr>bp_pool := st\<rparr>))"

definition bp_allocate ::
  "size_t \<Rightarrow> uintptr list \<times> bucket_pool \<Rightarrow> (uintptr \<times> uintptr list \<times> bucket_pool) result" where
  "bp_allocate N hp =
     (let (heap, p) = hp
      in rbind (rassert (\<not> bp_destructed p) ''!destructed'') (\<lambda>_.
         rbind (if bp_pool p \<noteq> [] then Inr (heap, p) else bp_expand N (heap, p)) (\<lambda>(heap', p').
         rbind (bp_get p') (\<lambda>(a, p''). Inr (a, heap', p'')))))"

definition bp_free :: "uintptr \<Rightarrow> bucket_pool \<Rightarrow> bucket_pool result" where
  "bp_free pt p =
     rbind (rassert (\<not> bp_destructed p) ''!destructed'') (\<lambda>_. Inr (p\<lparr>bp_pool := pt # bp_pool p\<rparr>))"

text \<open>\<^verbatim>\<open>destruct\<close> gives the regions of \<^verbatim>\<open>basePtr\<close> back to the memory manager.\<close>

definition bp_destruct :: "bucket_pool \<Rightarrow> uintptr list \<times> bucket_pool" where
  "bp_destruct p = (basePtr p, p\<lparr>bp_destructed := True\<rparr>)"

section \<open>The delta store on pools\<close>

text \<open>
  \<^verbatim>\<open>memory_pool_per_part\<close> is false: a pool per thread. The registry of the singleton
  \<^verbatim>\<open>BucketMemoryPool\<close> lists the threads whose pool has registered itself.
\<close>

record DeltaStoreMalloc =
  memPools :: "thread_id \<rightharpoonup> bucket_pool"
  pool_registry :: "thread_id list"
  heap_source :: "uintptr list"

definition pool_chunk_sz :: size_t where
  "pool_chunk_sz = 832"

definition mk_DeltaStoreMalloc :: "uintptr list \<Rightarrow> DeltaStoreMalloc" where
  "mk_DeltaStoreMalloc heap = \<lparr>memPools = Map.empty, pool_registry = [], heap_source = heap\<rparr>"

definition registerThreadLocalPool :: "thread_id \<Rightarrow> DeltaStoreMalloc \<Rightarrow> DeltaStoreMalloc" where
  "registerThreadLocalPool tid s = s\<lparr>pool_registry := pool_registry s @ [tid]\<rparr>"

definition deregisterThreadLocalPool :: "thread_id \<Rightarrow> DeltaStoreMalloc \<Rightarrow> DeltaStoreMalloc" where
  "deregisterThreadLocalPool tid s = s\<lparr>pool_registry := filter (\<lambda>t. t \<noteq> tid) (pool_registry s)\<rparr>"

text \<open>\<^verbatim>\<open>operator[]\<close> creates an empty pool for a thread that has none.\<close>

definition pool_of :: "thread_id \<Rightarrow> DeltaStoreMalloc \<Rightarrow> bucket_pool" where
  "pool_of tid s = (case memPools s tid of None \<Rightarrow> new_bucket_pool | Some p \<Rightarrow> p)"

definition bp_init :: "size_t \<Rightarrow> thread_id \<Rightarrow> DeltaStoreMalloc \<Rightarrow> DeltaStoreMalloc result" where
  "bp_init N tid s =
     rbind (bp_expand N (heap_source s, pool_of tid s)) (\<lambda>(heap, p).
     rbind (rassert (bp_pool p \<noteq> []) ''!_pool.empty()'') (\<lambda>_.
     Inr (registerThreadLocalPool tid
            (s\<lparr>memPools := (memPools s)(tid \<mapsto> p), heap_source := heap\<rparr>))))"

definition dsm_allocate ::
  "size_t \<Rightarrow> thread_id \<Rightarrow> size_t \<Rightarrow> partition_id_t \<Rightarrow> DeltaStoreMalloc \<Rightarrow> (uintptr \<times> DeltaStoreMalloc) result" where
  "dsm_allocate N tid sz pid s =
     (if sz > N then Inl (Fatal ''Alloc requested'')
      else rbind (bp_allocate N (heap_source s, pool_of tid s)) (\<lambda>(cnk, heap, p).
           rbind (rassert (cnk \<noteq> 0) ''cnk'') (\<lambda>_.
           Inr (ClassicPtrWrapper cnk pid,
                s\<lparr>memPools := (memPools s)(tid \<mapsto> p), heap_source := heap\<rparr>))))"

definition dsm_release :: "thread_id \<Rightarrow> uintptr \<Rightarrow> DeltaStoreMalloc \<Rightarrow> DeltaStoreMalloc result" where
  "dsm_release tid ptr s =
     rbind (bp_free (classic_get_ptr ptr) (pool_of tid s)) (\<lambda>p.
       Inr (s\<lparr>memPools := (memPools s)(tid \<mapsto> p)\<rparr>))"

definition dsm_initThreadLocalPools ::
  "size_t \<Rightarrow> thread_id \<Rightarrow> DeltaStoreMalloc \<Rightarrow> DeltaStoreMalloc result" where
  "dsm_initThreadLocalPools N tid s =
     rbind (bp_init N tid s) (\<lambda>s1.
     rbind (bp_allocate N (heap_source s1, pool_of tid s1)) (\<lambda>(x, heap, p).
     rbind (rassert (x \<noteq> 0) ''x'') (\<lambda>_.
     rbind (bp_free x p) (\<lambda>p'.
     Inr (s1\<lparr>memPools := (memPools s1)(tid \<mapsto> p'), heap_source := heap\<rparr>)))))"

definition destruct_all :: "DeltaStoreMalloc \<Rightarrow> uintptr list \<times> DeltaStoreMalloc" where
  "destruct_all s =
     (let (freed, mp) =
        fold (\<lambda>tid (freed, mp).
                case mp tid of
                  None \<Rightarrow> (freed, mp)
                | Some p \<Rightarrow> (let (fs, p') = bp_destruct p in (freed @ fs, mp(tid \<mapsto> p'))))
             (pool_registry s) ([], memPools s)
      in (freed, s\<lparr>memPools := mp, pool_registry := []\<rparr>))"

section \<open>The invariant\<close>

definition block :: "size_t \<Rightarrow> uintptr \<Rightarrow> nat set" where
  "block N a = {unat a ..< unat a + unat N}"

definition region :: "uintptr \<Rightarrow> nat set" where
  "region x = {unat x ..< unat x + 4294967296}"

text \<open>
  What is relied on of the memory manager: it returns regions that are not null, below the
  56 address bits a reference keeps, and pairwise disjoint.
\<close>

definition heap_ok :: "uintptr list \<Rightarrow> bool" where
  "heap_ok heap \<longleftrightarrow>
     (\<forall>x\<in>set heap. x \<noteq> 0 \<and> unat x + 4294967296 \<le> 2 ^ 56) \<and>
     sorted_wrt (\<lambda>x y. region x \<inter> region y = {}) heap"

definition free_chunks :: "DeltaStoreMalloc \<Rightarrow> uintptr set" where
  "free_chunks s = (\<Union>tid. set (bp_pool (pool_of tid s)))"

definition heap_regions :: "DeltaStoreMalloc \<Rightarrow> nat set" where
  "heap_regions s = (\<Union>x\<in>set (heap_source s). region x)"

definition dsm_inv :: "size_t \<Rightarrow> nat set \<Rightarrow> DeltaStoreMalloc \<Rightarrow> nat set \<Rightarrow> bool" where
  "dsm_inv N A s U \<longleftrightarrow>
     A \<subseteq> {1 ..< 2 ^ 56} \<and>
     heap_ok (heap_source s) \<and> heap_regions s \<subseteq> A \<and> heap_regions s \<inter> U = {} \<and> U \<subseteq> A \<and>
     (\<forall>tid. \<not> bp_destructed (pool_of tid s) \<and> distinct (bp_pool (pool_of tid s))) \<and>
     (\<forall>tid tid'. tid \<noteq> tid' \<longrightarrow> set (bp_pool (pool_of tid s)) \<inter> set (bp_pool (pool_of tid' s)) = {}) \<and>
     (\<forall>a\<in>free_chunks s. block N a \<subseteq> A - U - heap_regions s) \<and>
     (\<forall>a\<in>free_chunks s. \<forall>b\<in>free_chunks s. a \<noteq> b \<longrightarrow> block N a \<inter> block N b = {})"

definition set_pool :: "thread_id \<Rightarrow> bucket_pool \<Rightarrow> uintptr list \<Rightarrow> DeltaStoreMalloc \<Rightarrow> DeltaStoreMalloc" where
  "set_pool tid p heap s = s\<lparr>memPools := (memPools s)(tid \<mapsto> p), heap_source := heap\<rparr>"

lemma pool_of_set_pool [simp]:
  "pool_of t (set_pool tid p heap s) = (if t = tid then p else pool_of t s)"
  by (simp add: pool_of_def set_pool_def)

lemma heap_source_set_pool [simp]: "heap_source (set_pool tid p heap s) = heap"
  by (simp add: set_pool_def)

lemma free_chunks_set_pool:
  assumes "\<And>t. t \<noteq> tid \<Longrightarrow> set (bp_pool (pool_of t s)) \<inter> set (bp_pool (pool_of tid s)) = {}"
  shows "free_chunks (set_pool tid p heap s) =
    (free_chunks s - set (bp_pool (pool_of tid s))) \<union> set (bp_pool p)"
  using assms unfolding free_chunks_def by (force split: if_splits)

lemma dsm_inv_pools:
  assumes "dsm_inv N A s U"
  shows "\<not> bp_destructed (pool_of tid s)" "distinct (bp_pool (pool_of tid s))"
    "t \<noteq> tid \<Longrightarrow> set (bp_pool (pool_of t s)) \<inter> set (bp_pool (pool_of tid s)) = {}"
    "set (bp_pool (pool_of tid s)) \<subseteq> free_chunks s"
  using assms by (auto simp: dsm_inv_def free_chunks_def)

text \<open>One pool and the heap change; the free chunks, the used set and the regions stay apart.\<close>

lemma dsm_inv_set_pool:
  assumes inv: "dsm_inv N A s U"
    and "\<not> bp_destructed p" "distinct (bp_pool p)"
    and heap: "heap_ok heap" "(\<Union>x\<in>set heap. region x) \<subseteq> heap_regions s"
    and F: "set (bp_pool p) \<subseteq> set (bp_pool (pool_of tid s)) \<union> G" "G \<inter> free_chunks s = {}"
    and U': "U' \<subseteq> A" "U' \<inter> (\<Union>x\<in>set heap. region x) = {}"
    and others: "\<And>a. a \<in> free_chunks s - set (bp_pool (pool_of tid s)) \<Longrightarrow> block N a \<inter> U' = {}"
    and mine: "\<And>a. a \<in> set (bp_pool p) \<Longrightarrow> block N a \<subseteq> A - U' - (\<Union>x\<in>set heap. region x)"
    and apart: "\<And>a b. a \<in> set (bp_pool p) \<Longrightarrow> b \<in> free_chunks s \<union> set (bp_pool p) \<Longrightarrow> a \<noteq> b \<Longrightarrow>
        block N a \<inter> block N b = {}"
  shows "dsm_inv N A (set_pool tid p heap s) U'"
proof -
  let ?s = "set_pool tid p heap s"
  note P = dsm_inv_pools [OF inv, where tid = tid]
  have fc: "free_chunks ?s = (free_chunks s - set (bp_pool (pool_of tid s))) \<union> set (bp_pool p)"
    using P(3) by (rule free_chunks_set_pool)
  have hr: "heap_regions ?s = (\<Union>x\<in>set heap. region x)" by (simp add: heap_regions_def)
  have old: "block N a \<subseteq> A - heap_regions s" if "a \<in> free_chunks s" for a
    using inv that unfolding dsm_inv_def by blast
  have cross: "set (bp_pool (pool_of t s)) \<inter> set (bp_pool p) = {}" if "t \<noteq> tid" for t
  proof -
    have "set (bp_pool (pool_of t s)) \<subseteq> free_chunks s" by (auto simp: free_chunks_def)
    then show ?thesis using F P(3) [OF that] by blast
  qed
  show ?thesis
    unfolding dsm_inv_def hr heap_source_set_pool
  proof (intro conjI allI ballI impI)
    show "(\<Union>x\<in>set heap. region x) \<subseteq> A" using heap(2) inv by (auto simp: dsm_inv_def)
    show "(\<Union>x\<in>set heap. region x) \<inter> U' = {}" using U'(2) by blast
    show "\<not> bp_destructed (pool_of t ?s)" "distinct (bp_pool (pool_of t ?s))" for t
      using assms(2,3) dsm_inv_pools(1,2) [OF inv, of t] by simp_all
  next
    fix t t' :: thread_id assume "t \<noteq> t'"
    then show "set (bp_pool (pool_of t ?s)) \<inter> set (bp_pool (pool_of t' ?s)) = {}"
      using cross [of t] cross [of t'] dsm_inv_pools(3) [OF inv, of t t'] by (auto simp: Int_commute)
  next
    fix a assume a: "a \<in> free_chunks ?s"
    show "block N a \<subseteq> A - U' - (\<Union>x\<in>set heap. region x)"
      using a mine old others heap(2) unfolding fc by blast
    fix b assume b: "b \<in> free_chunks ?s" "a \<noteq> b"
    show "block N a \<inter> block N b = {}"
    proof (cases "a \<in> set (bp_pool p) \<or> b \<in> set (bp_pool p)")
      case True
      then show ?thesis using apart [of a b] apart [of b a] a b unfolding fc by blast
    next
      case False
      then show ?thesis using a b inv unfolding fc dsm_inv_def by blast
    qed
  qed (use heap(1) U' inv in \<open>auto simp: dsm_inv_def\<close>)
qed

section \<open>Every operation keeps the invariant\<close>

definition chunk_list :: "size_t \<Rightarrow> uintptr \<Rightarrow> nat \<Rightarrow> uintptr list" where
  "chunk_list N x k = map (\<lambda>i. x + of_nat i * N) [0..<k]"

lemma chunk_list_Suc: "chunk_list N x (Suc k) = x # chunk_list N (x + N) k"
  by (simp add: chunk_list_def upt_conv_Cons map_Suc_upt [symmetric] algebra_simps del: upt_Suc)

lemma push_chunks_eq:
  "unat x + k * unat N \<le> unat baseRef \<Longrightarrow>
   push_chunks k N x baseRef st = Inr (rev (chunk_list N x k) @ st)"
proof (induction k arbitrary: x st)
  case 0
  then show ?case by (simp add: chunk_list_def)
next
  case (Suc k)
  have "unat x + unat N < 2 ^ 64"
    using Suc.prems unat_64_less [of baseRef] by simp
  then have step: "unat (x + N) = unat x + unat N" by (rule unat_add_no_wrap)
  have "x \<le> baseRef" using Suc.prems by (simp add: word_le_nat_alt)
  then show ?case using Suc step by (simp add: chunk_list_Suc)
qed

lemma unat_chunk:
  fixes x :: uintptr and N :: size_t
  assumes "unat x + k * unat N \<le> 2 ^ 56" and "i < k"
  shows "unat (x + of_nat i * N) = unat x + i * unat N"
proof -
  have "i * unat N \<le> k * unat N" using assms(2) by (intro mult_le_mono1) simp
  moreover have "(2 :: nat) ^ 56 < 2 ^ 64" by simp
  ultimately have lt: "i * unat N < 2 ^ 64" "unat x + i * unat N < 2 ^ 64" using assms(1) by linarith+
  show ?thesis
  proof (cases "N = 0")
    case False
    then have "1 \<le> unat N" by (simp add: Suc_leI unat_gt_0)
    then have "i \<le> i * unat N" by simp
    then have "i < 2 ^ 64" using lt(1) by (rule le_less_trans)
    then have "unat (of_nat i * N) = i * unat N"
      using lt(1) by (simp add: unat_word_ariths unsigned_of_nat take_bit_nat_eq_self)
    then show ?thesis using lt(2) by (simp add: unat_add_no_wrap)
  qed simp
qed

lemma chunk_list_facts:
  assumes "unat x + k * unat N \<le> 2 ^ 56" and "N \<noteq> 0"
  shows "a \<in> set (chunk_list N x k) \<Longrightarrow> block N a \<subseteq> {unat x ..< unat x + k * unat N}"
    and "distinct (chunk_list N x k)"
    and "a \<in> set (chunk_list N x k) \<Longrightarrow> b \<in> set (chunk_list N x k) \<Longrightarrow> a \<noteq> b \<Longrightarrow>
      block N a \<inter> block N b = {}"
proof -
  have N: "0 < unat N" using assms(2) by (simp add: unat_gt_0)
  have up: "i * unat N + unat N \<le> j * unat N" if "i < j" for i j
    using mult_le_mono1 [of "Suc i" j "unat N"] that by simp
  show "block N a \<subseteq> {unat x ..< unat x + k * unat N}" if a: "a \<in> set (chunk_list N x k)"
  proof -
    obtain i where i: "i < k" "a = x + of_nat i * N" using a by (auto simp: chunk_list_def)
    then show ?thesis
      using unat_chunk [OF assms(1) i(1)] up [OF i(1)] by (simp add: block_def)
  qed
  show "distinct (chunk_list N x k)"
    unfolding chunk_list_def distinct_map
  proof (intro conjI inj_onI)
    fix i j assume ij: "i \<in> set [0..<k]" "j \<in> set [0..<k]" and eq: "x + of_nat i * N = x + of_nat j * N"
    have "unat x + i * unat N = unat (x + of_nat i * N)"
      using ij(1) unat_chunk [OF assms(1), of i] by simp
    also have "\<dots> = unat (x + of_nat j * N)" using eq by (rule arg_cong)
    also have "\<dots> = unat x + j * unat N" using ij(2) unat_chunk [OF assms(1), of j] by simp
    finally show "i = j" using N by simp
  qed simp
  show "block N a \<inter> block N b = {}" if ab: "a \<in> set (chunk_list N x k)" "b \<in> set (chunk_list N x k)" "a \<noteq> b"
  proof -
    obtain i j where ij: "i < k" "a = x + of_nat i * N" "j < k" "b = x + of_nat j * N"
      using ab(1,2) by (auto simp: chunk_list_def)
    then have "i \<noteq> j" using ab(3) by blast
    then consider "i < j" | "j < i" by linarith
    then show ?thesis
      by cases (use up [of i j] up [of j i] unat_chunk [OF assms(1) ij(1)] unat_chunk [OF assms(1) ij(3)] ij
        in \<open>auto simp: block_def\<close>)
  qed
qed

lemma dsm_inv_expand:
  assumes inv: "dsm_inv N A s U" and "N \<noteq> 0"
    and "bp_expand N (heap_source s, pool_of tid s) = Inr (heap, p)"
  shows "dsm_inv N A (set_pool tid p heap s) U"
proof -
  from assms(3) obtain x where h: "heap_source s = x # heap" and "x \<noteq> 0"
    and res: "rbind (push_chunks (unat (pool_size div N)) N x (x + pool_size) (bp_pool (pool_of tid s)))
        (\<lambda>st. Inr (heap, (pool_of tid s)\<lparr>basePtr := basePtr (pool_of tid s) @ [x], bp_pool := st\<rparr>)) = Inr (heap, p)"
    by (auto simp: bp_expand_def rbind_eq_Inr_iff split: list.splits if_splits)
  let ?k = "unat (pool_size div N)"
  have ps: "unat pool_size = 4294967296" by (simp add: pool_size_def pool_size_mb_def)
  have heap_ok: "heap_ok (x # heap)" using inv h by (simp add: dsm_inv_def)
  have kN: "?k * unat N \<le> 4294967296" using ps by (simp add: unat_div)
  have x56: "unat x + 4294967296 \<le> 2 ^ 56" using heap_ok by (simp add: heap_ok_def)
  then have bound: "unat x + ?k * unat N \<le> 2 ^ 56" using kN by linarith
  have "unat (x + pool_size) = unat x + 4294967296"
    using x56 ps by (subst unat_add_no_wrap) simp_all
  then have "push_chunks ?k N x (x + pool_size) (bp_pool (pool_of tid s))
      = Inr (rev (chunk_list N x ?k) @ bp_pool (pool_of tid s))"
    using kN by (intro push_chunks_eq) simp
  then have p: "bp_pool p = rev (chunk_list N x ?k) @ bp_pool (pool_of tid s)"
    "bp_destructed p = bp_destructed (pool_of tid s)"
    using res by auto
  note C = chunk_list_facts [OF bound assms(2)]
  have in_x: "block N a \<subseteq> region x" if "a \<in> set (chunk_list N x ?k)" for a
    using C(1) [OF that] kN by (fastforce simp: region_def)
  have hr: "heap_regions s = region x \<union> (\<Union>y\<in>set heap. region y)" by (simp add: heap_regions_def h)
  have x_heap: "region x \<inter> (\<Union>y\<in>set heap. region y) = {}" using heap_ok by (auto simp: heap_ok_def)
  have old: "block N a \<subseteq> A - U - heap_regions s" if "a \<in> free_chunks s" for a
    using inv that unfolding dsm_inv_def by blast
  have xA: "region x \<subseteq> A - U" using inv hr unfolding dsm_inv_def by blast
  have ne: "block N a \<noteq> {}" for a using assms(2) by (simp add: block_def unat_gt_0)
  have newold: "block N a \<inter> block N b = {}" if "a \<in> set (chunk_list N x ?k)" "b \<in> free_chunks s" for a b
    using in_x [OF that(1)] old [OF that(2)] hr by blast
  then have fresh: "set (chunk_list N x ?k) \<inter> free_chunks s = {}" using ne by fastforce
  note P = dsm_inv_pools [OF inv, where tid = tid]
  show ?thesis
  proof (rule dsm_inv_set_pool [OF inv, where G = "set (chunk_list N x ?k)"])
    show "distinct (bp_pool p)" using p C(2) P(2,4) fresh by auto
    show "heap_ok heap" using heap_ok by (simp add: heap_ok_def)
    show "U \<inter> (\<Union>x\<in>set heap. region x) = {}" using inv hr unfolding dsm_inv_def by blast
    show "block N a \<subseteq> A - U - (\<Union>x\<in>set heap. region x)" if a: "a \<in> set (bp_pool p)" for a
    proof (cases "a \<in> set (chunk_list N x ?k)")
      case True
      then show ?thesis using C(1) in_x xA x_heap by blast
    next
      case False
      then have "a \<in> free_chunks s" using a p(1) P(4) by auto
      then show ?thesis using old hr by blast
    qed
    show "block N a \<inter> block N b = {}"
      if "a \<in> set (bp_pool p)" "b \<in> free_chunks s \<union> set (bp_pool p)" "a \<noteq> b" for a b
    proof -
      have "a \<in> set (chunk_list N x ?k) \<or> a \<in> free_chunks s" "b \<in> set (chunk_list N x ?k) \<or> b \<in> free_chunks s"
        using that(1,2) p(1) P(4) by auto
      moreover have "a \<in> free_chunks s \<Longrightarrow> b \<in> free_chunks s \<Longrightarrow> ?thesis"
        using inv that(3) by (simp add: dsm_inv_def)
      ultimately show ?thesis
        using C(3) [of a b] newold [of a b] newold [of b a] that(3) by (simp add: Int_commute) blast
    qed
  qed (use p P fresh hr inv old in \<open>auto simp: dsm_inv_def\<close>)
qed

lemma dsm_inv_pop:
  assumes inv: "dsm_inv N A s U" and pool: "bp_pool (pool_of tid s) = a # st"
  shows "block N a \<inter> U = {}" and "block N a \<subseteq> A"
    and "dsm_inv N A (set_pool tid ((pool_of tid s)\<lparr>bp_pool := st\<rparr>) (heap_source s) s) (U \<union> block N a)"
proof -
  note P = dsm_inv_pools [OF inv, where tid = tid]
  have a: "a \<in> free_chunks s" using P(4) pool by auto
  have F: "block N b \<subseteq> A - U - heap_regions s" if "b \<in> free_chunks s" for b
    using inv that by (simp add: dsm_inv_def)
  have FF: "block N b \<inter> block N c = {}" if "b \<in> free_chunks s" "c \<in> free_chunks s" "b \<noteq> c" for b c
    using inv that by (simp add: dsm_inv_def)
  show "block N a \<inter> U = {}" "block N a \<subseteq> A" using F [OF a] by blast+
  have st: "set st \<subseteq> free_chunks s - {a}" using P(2,4) pool by auto
  have h: "U \<subseteq> A" "heap_regions s \<inter> U = {}" "heap_ok (heap_source s)" using inv by (simp_all add: dsm_inv_def)
  show "dsm_inv N A (set_pool tid ((pool_of tid s)\<lparr>bp_pool := st\<rparr>) (heap_source s) s) (U \<union> block N a)"
  proof (rule dsm_inv_set_pool [OF inv, where G = "{}"])
    show "U \<union> block N a \<subseteq> A" using h(1) F [OF a] by blast
    show "(U \<union> block N a) \<inter> (\<Union>x\<in>set (heap_source s). region x) = {}"
      using h(2) F [OF a] unfolding heap_regions_def by blast
    show "block N b \<inter> (U \<union> block N a) = {}" if "b \<in> free_chunks s - set (bp_pool (pool_of tid s))" for b
      using that F [of b] FF [of b a] a pool by auto
    show "block N b \<subseteq> A - (U \<union> block N a) - (\<Union>x\<in>set (heap_source s). region x)"
      if "b \<in> set (bp_pool ((pool_of tid s)\<lparr>bp_pool := st\<rparr>))" for b
      using that st F [of b] FF [of b a] a unfolding heap_regions_def by auto
    show "block N b \<inter> block N c = {}" if "b \<in> set (bp_pool ((pool_of tid s)\<lparr>bp_pool := st\<rparr>))"
      "c \<in> free_chunks s \<union> set (bp_pool ((pool_of tid s)\<lparr>bp_pool := st\<rparr>))" "b \<noteq> c" for b c
      using that st FF [of b c] by auto
  qed (use P(1,2) pool h(3) in \<open>auto simp: heap_regions_def\<close>)
qed

lemma dsm_inv_push:
  assumes inv: "dsm_inv N A s (U \<union> block N a)" and "block N a \<inter> U = {}" and "N \<noteq> 0"
  shows "dsm_inv N A (set_pool tid ((pool_of tid s)\<lparr>bp_pool := a # bp_pool (pool_of tid s)\<rparr>) (heap_source s) s) U"
proof -
  note P = dsm_inv_pools [OF inv, where tid = tid]
  have F: "block N b \<subseteq> A - (U \<union> block N a) - heap_regions s" if "b \<in> free_chunks s" for b
    using inv that by (simp add: dsm_inv_def)
  have FF: "block N b \<inter> block N c = {}" if "b \<in> free_chunks s" "c \<in> free_chunks s" "b \<noteq> c" for b c
    using inv that by (simp add: dsm_inv_def)
  have ne: "block N a \<noteq> {}" using assms(3) by (simp add: block_def unat_gt_0)
  have fresh: "a \<notin> free_chunks s" using F [of a] ne by blast
  have h: "U \<union> block N a \<subseteq> A" "heap_regions s \<inter> (U \<union> block N a) = {}" "heap_ok (heap_source s)"
    using inv by (simp_all add: dsm_inv_def)
  show ?thesis
  proof (rule dsm_inv_set_pool [OF inv, where G = "{a}"])
    show "block N b \<inter> U = {}" if "b \<in> free_chunks s - set (bp_pool (pool_of tid s))" for b
      using that F [of b] by blast
    show "block N b \<subseteq> A - U - (\<Union>x\<in>set (heap_source s). region x)"
      if "b \<in> set (bp_pool ((pool_of tid s)\<lparr>bp_pool := a # bp_pool (pool_of tid s)\<rparr>))" for b
      using that F [of b] P(4) h(1,2) assms(2) unfolding heap_regions_def by auto
    show "block N b \<inter> block N c = {}"
      if "b \<in> set (bp_pool ((pool_of tid s)\<lparr>bp_pool := a # bp_pool (pool_of tid s)\<rparr>))"
      "c \<in> free_chunks s \<union> set (bp_pool ((pool_of tid s)\<lparr>bp_pool := a # bp_pool (pool_of tid s)\<rparr>))" "b \<noteq> c" for b c
      using that F [of b] F [of c] FF [of b c] P(4) by auto
  qed (use P fresh h in \<open>auto simp: heap_regions_def\<close>)
qed

lemma classic_roundtrip: "unat a < 2 ^ 56 \<Longrightarrow> a \<noteq> 0 \<Longrightarrow> classic_get_ptr (ClassicPtrWrapper a pid) = a"
proof -
  assume a: "unat a < 2 ^ 56" "a \<noteq> 0"
  then have m: "a AND mask 56 = a" by (intro and_mask_fixed)
  have low: "classic_get_ptrOffset (ClassicPtrWrapper a pid) = a AND mask 56"
    unfolding classic_get_ptrOffset_def ClassicPtrWrapper_def ptr_mask_lits
    by (rule bit_word_eqI) (auto simp: bit_simps)
  have "ClassicPtrWrapper a pid \<noteq> 0"
  proof
    assume "ClassicPtrWrapper a pid = 0"
    then show False using low m a(2) by (simp add: classic_get_ptrOffset_def)
  qed
  then show ?thesis using low m by (simp add: classic_get_ptr_def)
qed

lemma set_pool_set_pool [simp]: "set_pool tid p h (set_pool tid p' h' s) = set_pool tid p h s"
  by (simp add: set_pool_def)

lemma bp_allocate_law:
  assumes inv: "dsm_inv N A s U" and N: "N \<noteq> 0"
    and "bp_allocate N (heap_source s, pool_of tid s) = Inr (a, heap, p)"
  shows "block N a \<inter> U = {}" "block N a \<subseteq> A" "dsm_inv N A (set_pool tid p heap s) (U \<union> block N a)"
proof -
  obtain h1 p1 where
    mid: "(if bp_pool (pool_of tid s) \<noteq> [] then Inr (heap_source s, pool_of tid s)
           else bp_expand N (heap_source s, pool_of tid s)) = Inr (h1, p1)"
    and got: "bp_get p1 = Inr (a, p)" and h: "heap = h1"
    using assms(3) by (auto simp: bp_allocate_def rbind_eq_Inr_iff)
  let ?s1 = "set_pool tid p1 h1 s"
  have inv1: "dsm_inv N A ?s1 U"
  proof (cases "bp_pool (pool_of tid s) = []")
    case True
    then show ?thesis using mid dsm_inv_expand [OF inv N] by simp
  next
    case False
    then have "p1 = pool_of tid s" "h1 = heap_source s" using mid by simp_all
    moreover have "dsm_inv N A (set_pool tid (pool_of tid s) (heap_source s) s) U"
    proof -
      have "pool_of t (set_pool tid (pool_of tid s) (heap_source s) s) = pool_of t s" for t by simp
      then show ?thesis
        using inv by (simp add: dsm_inv_def free_chunks_def heap_regions_def del: pool_of_set_pool)
    qed
    ultimately show ?thesis by simp
  qed
  obtain st where st: "bp_pool p1 = a # st" "p = p1\<lparr>bp_pool := st\<rparr>"
    using got by (auto simp: bp_get_def split: list.splits)
  have pool1: "bp_pool (pool_of tid ?s1) = a # st" using st(1) by simp
  note pop = dsm_inv_pop [OF inv1 pool1]
  show "block N a \<inter> U = {}" "block N a \<subseteq> A" using pop(1,2) by simp_all
  show "dsm_inv N A (set_pool tid p heap s) (U \<union> block N a)" using pop(3) st(2) h by simp
qed

lemma dsm_allocate_law:
  assumes inv: "dsm_inv N A s U" and N: "N \<noteq> 0" and "dsm_allocate N tid sz pid s = Inr (ptr, s')"
  shows "block N (classic_get_ptr ptr) \<inter> U = {}" "dsm_inv N A s' (U \<union> block N (classic_get_ptr ptr))"
    "unat sz \<le> unat N"
proof -
  obtain a heap p where got: "bp_allocate N (heap_source s, pool_of tid s) = Inr (a, heap, p)"
    and ptr: "ptr = ClassicPtrWrapper a pid" and s': "s' = set_pool tid p heap s" and "a \<noteq> 0"
    using assms(3) by (auto simp: dsm_allocate_def rbind_eq_Inr_iff set_pool_def split: if_splits)
  note law = bp_allocate_law [OF inv N got]
  have "unat a \<in> block N a" using N by (simp add: block_def unat_gt_0)
  then have "unat a < 2 ^ 56" using law(2) inv by (auto simp: dsm_inv_def)
  then have eq: "classic_get_ptr ptr = a" using ptr \<open>a \<noteq> 0\<close> by (simp add: classic_roundtrip)
  show "block N (classic_get_ptr ptr) \<inter> U = {}" "dsm_inv N A s' (U \<union> block N (classic_get_ptr ptr))"
    using law s' eq by simp_all
  show "unat sz \<le> unat N"
    using assms(3) by (simp add: dsm_allocate_def not_less word_le_nat_alt split: if_splits)
qed

lemma dsm_release_law:
  assumes "dsm_inv N A s (U \<union> block N (classic_get_ptr ptr))" and "N \<noteq> 0"
    and "block N (classic_get_ptr ptr) \<inter> U = {}" and "dsm_release tid ptr s = Inr s'"
  shows "dsm_inv N A s' U"
proof -
  have "s' = set_pool tid ((pool_of tid s)\<lparr>bp_pool := classic_get_ptr ptr # bp_pool (pool_of tid s)\<rparr>)
      (heap_source s) s"
    using assms(4) by (auto simp: dsm_release_def bp_free_def rbind_eq_Inr_iff set_pool_def)
  then show ?thesis using dsm_inv_push [OF assms(1,3,2)] by simp
qed

text \<open>A request names the allocating thread, the releasing thread, the size and the partition.\<close>

interpretation pools: block_pool
  "dsm_inv N A" "\<lambda>(t, t', sz, pid). dsm_allocate N t sz pid"
  "\<lambda>q ptr. block N (classic_get_ptr ptr)" "\<lambda>q. N \<noteq> 0" A
  "\<lambda>(t, t', sz, pid). dsm_release t'"
proof (unfold_locales, goal_cases)
  case (1 s U q a s')
  then show ?case using dsm_allocate_law(1) by (cases q) simp
next
  case (2 s U q a s')
  then show ?case using dsm_allocate_law(2) by (cases q) simp
next
  case (3 s U)
  then show ?case by (simp add: dsm_inv_def)
next
  case (4 s U q a s')
  then show ?case using dsm_release_law by (cases q) simp
qed

lemma dsm_inv_new:
  assumes "heap_ok heap"
  shows "dsm_inv N (\<Union>x\<in>set heap. region x) (mk_DeltaStoreMalloc heap) {}"
proof -
  have "region x \<subseteq> {1 ..< 2 ^ 56}" if "x \<in> set heap" for x
  proof -
    have "x \<noteq> 0" "unat x + 4294967296 \<le> 2 ^ 56" using assms that by (auto simp: heap_ok_def)
    moreover from this(1) have "1 \<le> unat x" by (simp add: Suc_leI unat_gt_0)
    ultimately show ?thesis by (auto simp: region_def)
  qed
  then show ?thesis
    using assms
    by (simp add: dsm_inv_def mk_DeltaStoreMalloc_def pool_of_def new_bucket_pool_def
        free_chunks_def heap_regions_def UN_least)
qed

section \<open>Properties\<close>

text \<open>
  C21. The pool-backed delta store never gives a chunk to two owners: starting from a fresh
  store, after any sequence of allocations and releases by any threads (a chunk may be
  released by another thread than the one that allocated it), the chunks still held are
  pairwise disjoint and lie in the regions obtained from the memory manager.
\<close>
theorem pool_chunks_disjoint:
  assumes "heap_ok heap" and "N \<noteq> 0"
    and "pool_run (\<lambda>(t, t', sz, pid). dsm_allocate N t sz pid) (\<lambda>(t, t', sz, pid). dsm_release t')
           cs [] (mk_DeltaStoreMalloc heap) = Inr (live, s')"
  shows "sorted_wrt (\<lambda>(q, a) (q', a'). block N (classic_get_ptr a) \<inter> block N (classic_get_ptr a') = {}) live \<and>
    (\<forall>(q, a)\<in>set live. block N (classic_get_ptr a) \<subseteq> (\<Union>x\<in>set heap. region x))"
proof -
  let ?A = "\<Union>x\<in>set heap. region x"
  have "pools.live_ok N ?A (mk_DeltaStoreMalloc heap) []"
    using dsm_inv_new [OF assms(1)] by (simp add: pools.live_ok_def)
  from pools.pool_run_live [OF this _ assms(3)] assms(2)
  have live: "pools.live_ok N ?A s' live" by blast
  then have "dsm_inv N ?A s' (\<Union>(q, a)\<in>set live. block N (classic_get_ptr a))"
    unfolding pools.live_ok_def by (rule conjunct1)
  then have "(\<Union>(q, a)\<in>set live. block N (classic_get_ptr a)) \<subseteq> ?A"
    by (rule pools.inv_arena)
  then show ?thesis using live unfolding pools.live_ok_def by blast
qed

theorem pool_chunks_disjoint_witness:
  "\<exists>live s'. pool_run (\<lambda>(t, t', sz, pid). dsm_allocate 2147483648 t sz pid) (\<lambda>(t, t', sz, pid). dsm_release t')
       [Alloc (1, 2, 100, 0), Alloc (1, 1, 60, 0), Free 1, Alloc (2, 2, 50, 0)]
       [] (mk_DeltaStoreMalloc [4294967296]) = Inr (live, s') \<and>
     map snd live = [6442450944, 4294967296] \<and>
     sorted_wrt (\<lambda>(q, a) (q', a'). block 2147483648 (classic_get_ptr a) \<inter> block 2147483648 (classic_get_ptr a') = {}) live"
proof -
  let ?run = "pool_run (\<lambda>(t, t', sz, pid). dsm_allocate 2147483648 t sz pid) (\<lambda>(t, t', sz, pid). dsm_release t')
       [Alloc (1, 2, 100, 0), Alloc (1, 1, 60, 0), Free 1, Alloc (2, 2, 50, 0)]
       [] (mk_DeltaStoreMalloc [4294967296])"
  have two: "push_chunks 2 N x b st =
      (if x \<le> b then if x + N \<le> b then Inr ((x + N) # x # st) else Inl (Assertion ''ptr <= baseRef'')
       else Inl (Assertion ''ptr <= baseRef''))" for N x b st
    by (simp add: numeral_2_eq_2)
  have "probe ?run (map snd \<circ> fst) = Some [6442450944, 4294967296]"
    by (simp add: probe_def dsm_allocate_def dsm_release_def bp_allocate_def bp_expand_def bp_get_def
        bp_free_def mk_DeltaStoreMalloc_def pool_of_def new_bucket_pool_def pool_size_def pool_size_mb_def
        ClassicPtrWrapper_def classic_get_ptr_def classic_get_ptrOffset_def two)
  then obtain live s' where run: "?run = Inr (live, s')" "map snd live = [6442450944, 4294967296]"
    by (rule probeE) (metis comp_apply prod.collapse fst_conv)
  have "heap_ok [4294967296]" by (simp add: heap_ok_def)
  have N: "(2147483648 :: size_t) \<noteq> 0" by simp
  note sep = conjunct1 [OF pool_chunks_disjoint [OF \<open>heap_ok [4294967296]\<close> N run(1)]]
  show ?thesis by (intro exI conjI) (rule run(1), rule run(2), rule sep)
qed

end
