(* ===== verification/AtomicBitSet.thy ===== *)
theory AtomicBitSet
  imports Prelude
begin

text \<open>
  The fixed-size bit set of \<^verbatim>\<open>core/platform/include/platform/util/atomic_bit_set.hpp\<close>, used for
  the dirty masks of columns: an array of 64-bit blocks. Every operation touches one block at
  a time. The set of indices whose bit is 1 is the abstraction; each operation refines the
  operation on sets.
\<close>

section \<open>Operations\<close>

type_synonym bitset = "64 word list"

definition kBitsPerBlock :: nat where
  "kBitsPerBlock = 64"

definition blockIndex :: "nat \<Rightarrow> nat" where
  "blockIndex b = b div kBitsPerBlock"

definition bitOffset :: "nat \<Rightarrow> nat" where
  "bitOffset b = b mod kBitsPerBlock"

definition numberOfBlocks :: "nat \<Rightarrow> nat" where
  "numberOfBlocks N = N div kBitsPerBlock"

definition bs_new :: "nat \<Rightarrow> bitset" where
  "bs_new N = replicate (numberOfBlocks N) 0"

text \<open>The assertion admits indices up to \<open>N * 64\<close>; an index behind the last block is a bad access.\<close>

definition bs_access :: "nat \<Rightarrow> nat \<Rightarrow> bitset \<Rightarrow> nat result" where
  "bs_access N idx s =
     rbind (rassert (idx < N * kBitsPerBlock) ''idx < N * kBitsPerBlock'') (\<lambda>_.
       if blockIndex idx < length s then Inr (blockIndex idx) else Inl BadAccess)"

definition bs_set :: "nat \<Rightarrow> nat \<Rightarrow> bitset \<Rightarrow> (bool \<times> bitset) result" where
  "bs_set N idx s =
     rbind (bs_access N idx s) (\<lambda>b.
       let m = push_bit (bitOffset idx) 1; old = s ! b
       in Inr (old AND m \<noteq> 0, s[b := old OR m]))"

definition bs_reset_bit :: "nat \<Rightarrow> nat \<Rightarrow> bitset \<Rightarrow> (bool \<times> bitset) result" where
  "bs_reset_bit N idx s =
     rbind (bs_access N idx s) (\<lambda>b.
       let m = push_bit (bitOffset idx) 1; old = s ! b
       in Inr (old AND m \<noteq> 0, s[b := old AND NOT m]))"

definition bs_set_value :: "nat \<Rightarrow> nat \<Rightarrow> bool \<Rightarrow> bitset \<Rightarrow> (bool \<times> bitset) result" where
  "bs_set_value N idx v s = (if v then bs_set N idx s else bs_reset_bit N idx s)"

definition bs_test :: "nat \<Rightarrow> nat \<Rightarrow> bitset \<Rightarrow> bool result" where
  "bs_test N idx s =
     rbind (bs_access N idx s) (\<lambda>b. Inr (s ! b AND push_bit (bitOffset idx) 1 \<noteq> 0))"

definition popcount :: "64 word \<Rightarrow> nat" where
  "popcount w = length (filter (bit w) [0..<64])"

definition bs_any :: "bitset \<Rightarrow> bool" where
  "bs_any s = list_ex (\<lambda>b. popcount b > 0) s"

definition bs_all :: "bitset \<Rightarrow> bool" where
  "bs_all s = list_all (\<lambda>b. b = UINT64_MAX) s"

definition bs_reset :: "bitset \<Rightarrow> bitset" where
  "bs_reset s = map (\<lambda>_. 0) s"

definition bs_count :: "bitset \<Rightarrow> nat" where
  "bs_count s = fold (\<lambda>b r. r + popcount b) s 0"

section \<open>The set of a bit set\<close>

definition bits_of :: "bitset \<Rightarrow> nat set" where
  "bits_of s = {i. i < 64 * length s \<and> bit (s ! (i div 64)) (i mod 64)}"

lemmas bs_defs = kBitsPerBlock_def blockIndex_def bitOffset_def bs_access_def

lemma and_one_bit: "(w AND push_bit n 1 \<noteq> 0) = bit w n" for w :: "64 word"
proof (cases "bit w n")
  case True
  then have "bit (w AND push_bit n 1) n"
    using bit_imp_le_length [OF True] by (simp add: bit_simps)
  then show ?thesis using True by auto
next
  case False
  have "w AND push_bit n 1 = 0"
    by (rule bit_word_eqI) (use False in \<open>auto simp: bit_simps\<close>)
  then show ?thesis using False by simp
qed

lemma and_pow_bit: "(w AND 2 ^ n \<noteq> 0) = bit w n" for w :: "64 word"
  using and_one_bit [of w n] by simp

lemma div64_less: "i < 64 * n \<Longrightarrow> i div 64 < n" for i n :: nat
  by (simp add: less_mult_imp_div_less mult.commute)

lemma div64_less_iff: "i div 64 < n \<longleftrightarrow> i < 64 * n" for i n :: nat
  by (simp add: div_less_iff_less_mult mult.commute)

lemma bs_test_eq: "idx < 64 * length s \<Longrightarrow> length s \<le> N \<Longrightarrow> bs_test N idx s = Inr (idx \<in> bits_of s)"
  by (simp add: bs_test_def bs_defs and_pow_bit bits_of_def div64_less mult.commute)

lemma bits_of_upd:
  assumes "idx < 64 * length s" "\<And>j. bit w j \<longleftrightarrow> (if j = idx mod 64 then v else bit (s ! (idx div 64)) j)"
  shows "bits_of (s[idx div 64 := w]) = (if v then insert idx (bits_of s) else bits_of s - {idx})"
proof -
  have "i \<in> bits_of (s[idx div 64 := w]) \<longleftrightarrow> i < 64 * length s \<and> (if i = idx then v else i \<in> bits_of s)" for i
  proof (cases "i div 64 = idx div 64")
    case True
    have "i = idx \<longleftrightarrow> i mod 64 = idx mod 64" using True by (metis div_mult_mod_eq)
    then show ?thesis
      using True assms div64_less [OF assms(1)] by (auto simp: bits_of_def)
  next
    case False
    then show ?thesis by (auto simp: bits_of_def)
  qed
  moreover have "i \<in> bits_of s \<Longrightarrow> i < 64 * length s" for i by (simp add: bits_of_def)
  ultimately show ?thesis using assms(1) by (auto split: if_splits)
qed

lemma bs_set_eq:
  assumes "idx < 64 * length s" "length s \<le> N"
  obtains s' where "bs_set N idx s = Inr (idx \<in> bits_of s, s')"
    "bits_of s' = insert idx (bits_of s)" "length s' = length s"
proof
  let ?s' = "s[idx div 64 := s ! (idx div 64) OR push_bit (idx mod 64) 1]"
  show "bs_set N idx s = Inr (idx \<in> bits_of s, ?s')"
    using assms by (simp add: bs_set_def bs_defs and_pow_bit bits_of_def div64_less mult.commute Let_def)
  show "bits_of ?s' = insert idx (bits_of s)"
    by (subst bits_of_upd [OF assms(1), where v = True]) (auto simp: bit_simps)
qed simp

lemma bs_reset_bit_eq:
  assumes "idx < 64 * length s" "length s \<le> N"
  obtains s' where "bs_reset_bit N idx s = Inr (idx \<in> bits_of s, s')"
    "bits_of s' = bits_of s - {idx}" "length s' = length s"
proof
  let ?s' = "s[idx div 64 := s ! (idx div 64) AND NOT (push_bit (idx mod 64) 1)]"
  show "bs_reset_bit N idx s = Inr (idx \<in> bits_of s, ?s')"
    using assms by (simp add: bs_reset_bit_def bs_defs and_pow_bit bits_of_def div64_less mult.commute Let_def)
  show "bits_of ?s' = bits_of s - {idx}"
    by (subst bits_of_upd [OF assms(1), where v = False]) (auto simp: bit_simps dest: bit_imp_le_length)
qed simp

lemma bits_of_new [simp]: "bits_of (bs_new N) = {}"
  by (auto simp: bits_of_def bs_new_def div64_less)

lemma bits_of_reset [simp]: "bits_of (bs_reset s) = {}"
  by (auto simp: bits_of_def bs_reset_def div64_less)

lemma bits_of_Cons: "bits_of (b # s) = {i. i < 64 \<and> bit b i} \<union> (\<lambda>i. i + 64) ` bits_of s"
proof (intro set_eqI iffI)
  fix i assume i: "i \<in> bits_of (b # s)"
  show "i \<in> {i. i < 64 \<and> bit b i} \<union> (\<lambda>i. i + 64) ` bits_of s"
  proof (cases "i < 64")
    case True
    then show ?thesis using i by (simp add: bits_of_def)
  next
    case False
    then have "i - 64 \<in> bits_of s"
      using i le_div_geq [of 64 i] le_mod_geq [of 64 i] by (simp add: bits_of_def less_diff_conv2)
    moreover have "i = (i - 64) + 64" using False by simp
    ultimately show ?thesis by blast
  qed
next
  have shift: "(i + 64) div 64 = Suc (i div 64)" for i :: nat by simp
  fix i assume "i \<in> {i. i < 64 \<and> bit b i} \<union> (\<lambda>i. i + 64) ` bits_of s"
  then show "i \<in> bits_of (b # s)" by (auto simp: bits_of_def shift)
qed

lemma finite_bits_of [simp]: "finite (bits_of s)"
  by (simp add: bits_of_def)

lemma popcount_card: "popcount w = card {i. i < 64 \<and> bit w i}"
proof -
  have "popcount w = card (set (filter (bit w) [0..<64]))"
    unfolding popcount_def by (subst distinct_card) simp_all
  also have "set (filter (bit w) [0..<64]) = {i. i < 64 \<and> bit w i}" by auto
  finally show ?thesis .
qed

lemma bs_count_fold: "fold (\<lambda>b r. r + popcount b) s r = r + card (bits_of s)"
proof (induction s arbitrary: r)
  case Nil
  then show ?case by (simp add: bits_of_def)
next
  case (Cons b s)
  have "card (bits_of (b # s)) = popcount b + card (bits_of s)"
    unfolding bits_of_Cons popcount_card
    by (subst card_Un_disjoint) (auto simp: card_image)
  then show ?case using Cons by simp
qed

lemma bs_any_iff: "bs_any s \<longleftrightarrow> bits_of s \<noteq> {}"
proof (induction s)
  case (Cons b s)
  have "popcount b > 0 \<longleftrightarrow> {i. i < 64 \<and> bit b i} \<noteq> {}" by (simp add: popcount_card card_gt_0_iff)
  then show ?case using Cons by (simp add: bs_any_def bits_of_Cons)
qed (simp add: bs_any_def bits_of_def)

lemma bs_all_iff: "bs_all s \<longleftrightarrow> bits_of s = {..<64 * length s}"
proof -
  have full: "b = UINT64_MAX \<longleftrightarrow> {i. i < 64 \<and> bit b i} = {..<64}" for b :: "64 word"
    by (auto simp: bit_eq_iff dest: bit_imp_le_length)
  show ?thesis
    unfolding bs_all_def
  proof (induction s)
    case (Cons b s)
    have "bits_of (b # s) = {..<64 * length (b # s)} \<longleftrightarrow>
        {i. i < 64 \<and> bit b i} = {..<64} \<and> bits_of s = {..<64 * length s}"
    proof
      assume eq: "bits_of (b # s) = {..<64 * length (b # s)}"
      have "i < 64 \<Longrightarrow> bit b i" for i
        using eq by (auto simp: bits_of_Cons set_eq_iff dest!: spec [of _ i])
      moreover have "i \<in> bits_of s" if "i < 64 * length s" for i
      proof -
        have "i + 64 \<in> bits_of (b # s)" using eq that by simp
        then show ?thesis by (auto simp: bits_of_Cons)
      qed
      moreover have "i \<in> bits_of s \<Longrightarrow> i < 64 * length s" for i by (simp add: bits_of_def)
      ultimately show "{i. i < 64 \<and> bit b i} = {..<64} \<and> bits_of s = {..<64 * length s}" by auto
    next
      assume full: "{i. i < 64 \<and> bit b i} = {..<64} \<and> bits_of s = {..<64 * length s}"
      have "{..<64 * length (b # s)} = {..<64} \<union> (\<lambda>i. i + 64) ` {..<64 * length s}"
      proof (intro set_eqI iffI)
        fix i assume i: "i \<in> {..<64 * length (b # s)}"
        show "i \<in> {..<64} \<union> (\<lambda>i. i + 64) ` {..<64 * length s}"
        proof (cases "i < 64")
          case False
          then have "i = (i - 64) + 64" "i - 64 < 64 * length s" using i by auto
          then show ?thesis by blast
        qed simp
      qed auto
      then show "bits_of (b # s) = {..<64 * length (b # s)}"
        using full by (simp only: bits_of_Cons)
    qed
    then show ?case using Cons full by simp
  qed (simp add: bits_of_def)
qed

section \<open>Interface\<close>

text \<open>What the columns rely on of a dirty mask: a finite set of row numbers below its capacity.\<close>

locale dirty_set =
  fixes test :: "nat \<Rightarrow> 's \<Rightarrow> bool result"
    and mark :: "nat \<Rightarrow> 's \<Rightarrow> (bool \<times> 's) result"
    and clear :: "'s \<Rightarrow> 's"
    and elems :: "'s \<Rightarrow> nat set"
    and wf :: "'s \<Rightarrow> bool"
    and capacity :: nat
  assumes test_elems: "wf s \<Longrightarrow> i < capacity \<Longrightarrow> test i s = Inr (i \<in> elems s)"
    and mark_elems: "wf s \<Longrightarrow> i < capacity \<Longrightarrow>
      \<exists>s'. mark i s = Inr (i \<in> elems s, s') \<and> elems s' = insert i (elems s) \<and> wf s'"
    and clear_elems: "wf s \<Longrightarrow> elems (clear s) = {} \<and> wf (clear s)"
begin

lemma test_after_mark:
  assumes "wf s" "i < capacity" "j < capacity"
  obtains s' where "mark i s = Inr (i \<in> elems s, s')" "wf s'" "test j s' = Inr (j = i \<or> j \<in> elems s)"
proof -
  obtain s' where s': "mark i s = Inr (i \<in> elems s, s')" "elems s' = insert i (elems s)" "wf s'"
    using mark_elems [OF assms(1,2)] by blast
  then have "test j s' = Inr (j = i \<or> j \<in> elems s)" using test_elems [OF s'(3) assms(3)] by simp
  with s' show thesis by (intro that)
qed

lemma marked_fold:
  assumes "wf s" "set is \<subseteq> {..<capacity}"
  shows "\<exists>s'. rfold (\<lambda>i s. rbind (mark i s) (\<lambda>(_, s'). Inr s')) is s = Inr s' \<and>
    elems s' = elems s \<union> set is \<and> wf s'"
  using assms
proof (induction "is" arbitrary: s)
  case (Cons i "is")
  obtain s1 where s1: "mark i s = Inr (i \<in> elems s, s1)" "elems s1 = insert i (elems s)" "wf s1"
    using mark_elems [of s i] Cons.prems by auto
  from Cons.IH [OF s1(3)] Cons.prems(2) s1 show ?case by fastforce
qed simp

end

interpretation mask: dirty_set "bs_test N" "bs_set N" bs_reset bits_of "\<lambda>s. length s = numberOfBlocks N"
  "64 * numberOfBlocks N"
proof (unfold_locales, goal_cases)
  case (1 s i)
  then show ?case
    using bs_test_eq [of i s N] by (simp add: numberOfBlocks_def kBitsPerBlock_def)
next
  case (2 s i)
  then obtain s' where "bs_set N i s = Inr (i \<in> bits_of s, s')" "bits_of s' = insert i (bits_of s)"
    "length s' = length s"
    using bs_set_eq [of i s N] by (auto simp: numberOfBlocks_def kBitsPerBlock_def)
  then show ?case using 2 by auto
next
  case (3 s)
  then show ?case by (simp add: bs_reset_def) (metis bits_of_reset bs_reset_def)
qed

section \<open>Properties\<close>

text \<open>
  C22. The bit set implements a set of indices: on a bit set of \<open>N\<close> bits (a multiple of 64),
  for every index below \<open>N\<close>, reading, setting and clearing a bit is membership, insertion and
  deletion and returns the previous membership; \<open>count\<close>, \<open>any\<close> and \<open>all\<close> are the cardinality,
  non-emptiness and fullness of the set, and \<open>reset\<close> empties it.
\<close>
theorem bitset_refines_set:
  assumes "64 dvd N" and "length s = numberOfBlocks N" and "idx < N"
  shows "bs_test N idx s = Inr (idx \<in> bits_of s) \<and>
     (\<exists>s'. bs_set N idx s = Inr (idx \<in> bits_of s, s') \<and> bits_of s' = insert idx (bits_of s) \<and>
              length s' = length s) \<and>
     (\<exists>s'. bs_reset_bit N idx s = Inr (idx \<in> bits_of s, s') \<and> bits_of s' = bits_of s - {idx} \<and>
              length s' = length s) \<and>
     bs_count s = card (bits_of s) \<and> bs_any s = (bits_of s \<noteq> {}) \<and>
     bs_all s = (bits_of s = {..<N}) \<and> bits_of (bs_reset s) = {}"
proof (intro conjI)
  have len: "64 * length s = N" using assms(1,2) by (simp add: numberOfBlocks_def kBitsPerBlock_def)
  have i: "idx < 64 * length s" "length s \<le> N" using assms(3) len by simp_all
  show "bs_test N idx s = Inr (idx \<in> bits_of s)" using i by (rule bs_test_eq)
  show "\<exists>s'. bs_set N idx s = Inr (idx \<in> bits_of s, s') \<and> bits_of s' = insert idx (bits_of s) \<and> length s' = length s"
    using bs_set_eq [OF i] by metis
  show "\<exists>s'. bs_reset_bit N idx s = Inr (idx \<in> bits_of s, s') \<and> bits_of s' = bits_of s - {idx} \<and> length s' = length s"
    using bs_reset_bit_eq [OF i] by metis
qed (simp_all add: bs_count_def bs_count_fold bs_any_iff bs_all_iff assms numberOfBlocks_def kBitsPerBlock_def)

theorem bitset_refines_set_witness:
  "bs_test 128 70 [0, 64] = Inr (70 \<in> bits_of [0, 64]) \<and> bs_test 128 70 [0, 64] = Inr True \<and>
   bs_count [0, 64] = card (bits_of [0, 64])"
  using bitset_refines_set [of 128 "[0, 64]" 70]
  by (simp add: numberOfBlocks_def kBitsPerBlock_def bs_test_def bs_defs)

text \<open>
  The bound that the assertions check is too weak: an index from \<open>N\<close> up to \<open>64 * N\<close> passes
  them and makes the operation access memory behind the last block.
\<close>
lemma bitset_assertion_too_weak:
  assumes "length s = numberOfBlocks N" and "N \<le> idx" and "idx < 64 * N"
  shows "bs_set N idx s = Inl BadAccess \<and> bs_test N idx s = Inl BadAccess"
proof -
  have "N div 64 \<le> idx div 64" using assms(2) by (rule div_le_mono)
  then show ?thesis
    using assms by (simp add: bs_set_def bs_test_def bs_defs numberOfBlocks_def mult.commute)
qed

lemma bitset_assertion_too_weak_witness: "bs_set 64 100 [0] = Inl BadAccess"
  using bitset_assertion_too_weak [of "[0]" 64 100] by (simp add: numberOfBlocks_def kBitsPerBlock_def)

end
