(* ===== verification/Columns.thy ===== *)
theory Columns
  imports StorageUtils
begin

text \<open>
  The base column of the column store (\<^verbatim>\<open>storage/layout/column-store/column.cpp\<close>, class
  \<^verbatim>\<open>Column\<close> in \<^verbatim>\<open>column_store.hpp\<close>). A column keeps, per partition, a vector of memory chunks;
  an element is \<open>unit_size\<close> bytes at its row offset. Sizes and offsets are 64-bit words, as in
  the code, so that the arithmetic of the bounds checks wraps as it does there; a read or
  write outside the bytes of a chunk is a bad access.
\<close>

section \<open>Chunks\<close>

record data_chunk =
  dc_data :: uintptr
  dc_bytes :: "byte list"

definition dc_size :: "data_chunk \<Rightarrow> size_t" where
  "dc_size c = of_nat (length (dc_bytes c))"

definition read_chunk :: "data_chunk \<Rightarrow> size_t \<Rightarrow> size_t \<Rightarrow> byte list result" where
  "read_chunk c off n =
     (if unat off + unat n \<le> length (dc_bytes c)
      then Inr (slice (dc_bytes c) (unat off) (unat n)) else Inl BadAccess)"

definition write_chunk :: "data_chunk \<Rightarrow> size_t \<Rightarrow> byte list \<Rightarrow> data_chunk result" where
  "write_chunk c off bs =
     (if unat off + length bs \<le> length (dc_bytes c)
      then Inr (c\<lparr>dc_bytes := splice_at (dc_bytes c) (unat off) bs\<rparr>) else Inl BadAccess)"

text \<open>The bytes a \<^verbatim>\<open>memcpy\<close> of \<open>n\<close> bytes takes from a source buffer.\<close>

definition read_src :: "byte list \<Rightarrow> size_t \<Rightarrow> byte list result" where
  "read_src src n = (if unat n \<le> length src then Inr (take (unat n) src) else Inl BadAccess)"

section \<open>Columns\<close>

datatype data_type = META | MV | INTEGER | STRING | FLOAT | VARCHAR | DATE | DSTRING

datatype SnapshotTypes = NoSnapshot | CircularMaster | LazyMaster | MVCC

definition MAX_PARTITIONS :: nat where
  "MAX_PARTITIONS = 8"

record Column =
  column_id :: column_id_t
  col_name :: string
  col_type :: data_type
  unit_size :: size_t
  byteOffset_record :: size_t
  n_partitions :: partition_id_t
  single_version_only :: bool
  snapshotType :: SnapshotTypes
  total_size :: size_t
  total_size_per_partition :: size_t
  capacity :: size_t
  capacity_per_partition :: size_t
  primaryData :: "data_chunk list list"

text \<open>Access to an array with one entry per possible partition.\<close>

definition at_part :: "'a list \<Rightarrow> partition_id_t \<Rightarrow> 'a result" where
  "at_part xs pid = (if unat pid < length xs then Inr (xs ! unat pid) else Inl BadAccess)"

text \<open>
  The warm-up loop writes zeros as 8-byte words; the bytes after the last whole word keep what
  the memory manager returned.
\<close>

definition warm_up :: "byte list \<Rightarrow> byte list" where
  "warm_up mem = replicate (8 * (length mem div 8)) 0 @ drop (8 * (length mem div 8)) mem"

definition partition_capacity :: "size_t \<Rightarrow> partition_id_t \<Rightarrow> size_t" where
  "partition_capacity reserved parts = reserved div ucast parts + reserved mod ucast parts"

text \<open>
  The constructor of a single-version column. \<open>mems\<close> is what \<^verbatim>\<open>mallocPinnedOnNode\<close> returns for
  the partitions in turn: an address and the bytes found there.
\<close>

definition mk_Column ::
  "partition_id_t \<Rightarrow> nat \<Rightarrow> data_chunk list \<Rightarrow> column_id_t \<Rightarrow> string \<Rightarrow> data_type \<Rightarrow> size_t \<Rightarrow> size_t
     \<Rightarrow> bool \<Rightarrow> size_t \<Rightarrow> SnapshotTypes \<Rightarrow> Column result" where
  "mk_Column g_num_partitions numa_nodes mems cid name ty usize offset numa_partitioned reserved snap =
     (let parts = (if numa_partitioned then g_num_partitions else 1);
          cap = partition_capacity reserved parts;
          tsp = cap * usize
      in rbind (rassert (unat g_num_partitions \<le> numa_nodes) ''g_num_partitions <= CpuNumaNodeCount'') (\<lambda>_.
         rbind (rassert (unat parts \<le> length mems \<and> list_all (\<lambda>m. dc_data m \<noteq> 0) (take (unat parts) mems))
                  ''mem != nullptr'') (\<lambda>_.
         Inr \<lparr>column_id = cid, col_name = name, col_type = ty, unit_size = usize,
              byteOffset_record = offset, n_partitions = parts, single_version_only = True,
              snapshotType = snap, total_size = tsp * ucast parts,
              total_size_per_partition = tsp, capacity = reserved, capacity_per_partition = cap,
              primaryData =
                map (\<lambda>m. [m\<lparr>dc_bytes := warm_up (dc_bytes m)\<rparr>]) (take (unat parts) mems) @
                replicate (MAX_PARTITIONS - unat parts) []\<rparr>)))"

section \<open>Updating in place\<close>

text \<open>A null source is the YCSB shortcut of the code: it stores the 64-bit number 25.\<close>

definition ycsb_bytes :: "byte list" where
  "ycsb_bytes = [25, 0, 0, 0, 0, 0, 0, 0]"

fun update_chunks ::
  "data_chunk list \<Rightarrow> size_t \<Rightarrow> size_t \<Rightarrow> byte list option \<Rightarrow> (bool \<times> data_chunk list) result" where
  "update_chunks [] offset usize data = Inr (False, [])"
| "update_chunks (c # cs) offset usize data =
     (if dc_size c \<ge> offset + usize
      then rbind (rassert (dc_data c \<le> dc_data c + offset) ''src_t <= dst_t'') (\<lambda>_.
           rbind (rassert (dc_data c + dc_size c \<ge> dc_data c + offset + usize)
                    ''src_t + chunk.size >= dst_t + unit_size'') (\<lambda>_.
           rbind (case data of None \<Rightarrow> Inr ycsb_bytes | Some src \<Rightarrow> read_src src usize) (\<lambda>bs.
           rbind (write_chunk c offset bs) (\<lambda>c'. Inr (True, c' # cs)))))
      else rbind (update_chunks cs (offset - dc_size c) usize data) (\<lambda>(ok, cs'). Inr (ok, c # cs')))"

definition UpdateInPlace ::
  "data_chunk list \<Rightarrow> size_t \<Rightarrow> size_t \<Rightarrow> byte list option \<Rightarrow> (bool \<times> data_chunk list) result" where
  "UpdateInPlace cs offset usize data = update_chunks cs (offset * usize) usize data"

section \<open>Element access\<close>

text \<open>The loop over the chunks that subtracts the size of each chunk it passes.\<close>

fun read_chunks :: "data_chunk list \<Rightarrow> size_t \<Rightarrow> size_t \<Rightarrow> byte list result" where
  "read_chunks [] data_idx usize = Inl (Assertion ''Out-of-Bound-Access'')"
| "read_chunks (c # cs) data_idx usize =
     (if dc_size c \<ge> data_idx + usize then read_chunk c data_idx usize
      else read_chunks cs (data_idx - dc_size c) usize)"

text \<open>
  \<^verbatim>\<open>getElem(vid)\<close> returns an address: the chunk number and the offset in the chunk. It stops
  after the first chunk.
\<close>

definition getElem_ref :: "('a) Column_scheme \<Rightarrow> rowid_t \<Rightarrow> (nat \<times> size_t) result" where
  "getElem_ref col vid =
     (if col_type col \<noteq> META then Inl (Fatal ''direct memory reference should be used for meta-column only'')
      else if get_m_version vid \<noteq> 0 then Inl (Fatal ''meta-column cannot have more than one master-version'')
      else let data_idx = get_offset vid * unit_size col
           in rbind (at_part (primaryData col) (get_pid vid)) (\<lambda>chunks.
                case chunks of
                  [] \<Rightarrow> Inl (Assertion ''!primaryData[pid].empty()'')
                | c # _ \<Rightarrow>
                    if dc_size c \<ge> data_idx + unit_size col then Inr (0, data_idx)
                    else Inl (Assertion ''currently unexpandable'')))"

definition getElem :: "('a) Column_scheme \<Rightarrow> rowid_t \<Rightarrow> byte list result" where
  "getElem col vid =
     rbind (at_part (primaryData col) (get_pid vid)) (\<lambda>chunks.
       read_chunks chunks (get_offset vid * unit_size col) (unit_size col))"

definition store_elem ::
  "string \<Rightarrow> rowid_t \<Rightarrow> byte list option \<Rightarrow> ('a) Column_scheme \<Rightarrow> ('a) Column_scheme result" where
  "store_elem msg vid elem col =
     (let pid = get_pid vid; offset = get_offset vid
      in rbind (rassert (pid < n_partitions col) ''pid < n_partitions'') (\<lambda>_.
         rbind (rassert (offset < capacity_per_partition col) ''offset < capacity_per_partition'') (\<lambda>_.
         rbind (at_part (primaryData col) pid) (\<lambda>chunks.
         rbind (UpdateInPlace chunks offset (unit_size col) elem) (\<lambda>(ok, chunks').
         if ok then Inr (col\<lparr>primaryData := (primaryData col)[unat pid := chunks']\<rparr>)
         else Inl (Assertion msg))))))"

definition updateElem ::
  "rowid_t \<Rightarrow> byte list option \<Rightarrow> ('a) Column_scheme \<Rightarrow> ('a) Column_scheme result" where
  "updateElem vid elem col = store_elem ''Out Of Memory Error'' vid elem col"

definition insertElem ::
  "rowid_t \<Rightarrow> byte list option \<Rightarrow> ('a) Column_scheme \<Rightarrow> ('a) Column_scheme result" where
  "insertElem vid elem col = store_elem ''Out Of Memory Error'' vid elem col"

text \<open>The loop of \<^verbatim>\<open>insertElem(vid)\<close>: an address.\<close>

fun ref_chunks :: "nat \<Rightarrow> data_chunk list \<Rightarrow> size_t \<Rightarrow> size_t \<Rightarrow> (nat \<times> size_t) result" where
  "ref_chunks i [] data_idx usize = Inl (Assertion ''Out Of Memory Error'')"
| "ref_chunks i (c # cs) data_idx usize =
     (if dc_size c \<ge> data_idx + usize then Inr (i, data_idx)
      else ref_chunks (Suc i) cs (data_idx - dc_size c) usize)"

definition insertElem_ref :: "partition_id_t \<Rightarrow> ('a) Column_scheme \<Rightarrow> rowid_t \<Rightarrow> (nat \<times> size_t) result" where
  "insertElem_ref g_num_partitions col vid =
     (let pid = get_pid vid; data_idx = get_offset vid * unit_size col
      in rbind (rassert (col_type col = META) ''type == META'') (\<lambda>_.
         rbind (rassert (pid < g_num_partitions) ''pid < g_num_partitions'') (\<lambda>_.
         rbind (rassert (data_idx div unit_size col < capacity_per_partition col) ''data_idx / unit_size < capacity'') (\<lambda>_.
         rbind (rassert (data_idx < total_size_per_partition col) ''data_idx < total_size_per_partition'') (\<lambda>_.
         rbind (at_part (primaryData col) pid) (\<lambda>chunks.
           ref_chunks 0 chunks data_idx (unit_size col)))))))"

text \<open>Batches: the loops over the chunks do not subtract, and want room for one element more.\<close>

definition batch_checks ::
  "partition_id_t \<Rightarrow> ('a) Column_scheme \<Rightarrow> partition_id_t \<Rightarrow> size_t \<Rightarrow> unit result" where
  "batch_checks g_num_partitions col pid data_idx_en =
     rbind (rassert (pid < g_num_partitions) ''pid < g_num_partitions'') (\<lambda>_.
     rbind (rassert (data_idx_en div unit_size col < capacity_per_partition col)
              ''data_idx_en / unit_size < capacity_per_partition'') (\<lambda>_.
     rassert (data_idx_en < total_size_per_partition col) ''data_idx_en < total_size_per_partition''))"

fun first_fit :: "nat \<Rightarrow> data_chunk list \<Rightarrow> size_t \<Rightarrow> nat option" where
  "first_fit i [] need = None"
| "first_fit i (c # cs) need = (if dc_size c \<ge> need then Some i else first_fit (Suc i) cs need)"

definition insertElemBatch_ref ::
  "partition_id_t \<Rightarrow> ('a) Column_scheme \<Rightarrow> rowid_t \<Rightarrow> 16 word \<Rightarrow> (nat \<times> size_t) result" where
  "insertElemBatch_ref g_num_partitions col vid num_elem =
     (let pid = get_pid vid; st = get_offset vid * unit_size col;
          en = st + ucast num_elem * unit_size col
      in rbind (rassert (col_type col = META) ''type == META'') (\<lambda>_.
         rbind (batch_checks g_num_partitions col pid en) (\<lambda>_.
         rbind (at_part (primaryData col) pid) (\<lambda>chunks.
         case first_fit 0 chunks (en + unit_size col) of
           None \<Rightarrow> Inl (Assertion ''Out Of Memory Error'')
         | Some i \<Rightarrow> Inr (i, st)))))"

definition insertElemBatch ::
  "partition_id_t \<Rightarrow> rowid_t \<Rightarrow> 16 word \<Rightarrow> byte list \<Rightarrow> ('a) Column_scheme \<Rightarrow> ('a) Column_scheme result" where
  "insertElemBatch g_num_partitions vid num_elem source_data col =
     (let pid = get_pid vid; st = get_offset vid * unit_size col;
          copy_size = ucast num_elem * unit_size col; en = st + copy_size
      in rbind (batch_checks g_num_partitions col pid en) (\<lambda>_.
         rbind (at_part (primaryData col) pid) (\<lambda>chunks.
         case first_fit 0 chunks (en + unit_size col) of
           None \<Rightarrow> Inl (Assertion ''Out Of Memory Error'')
         | Some i \<Rightarrow>
             rbind (read_src source_data copy_size) (\<lambda>bs.
             rbind (write_chunk (chunks ! i) st bs) (\<lambda>c'.
             Inr (col\<lparr>primaryData := (primaryData col)[unat pid := chunks[i := c']]\<rparr>))))))"

section \<open>Vectors of one chunk\<close>

text \<open>
  The constructors make one chunk per partition, of \<open>n\<close> elements of \<open>u\<close> bytes. \<open>cell u cs i\<close> is
  the \<open>i\<close>-th element.
\<close>

definition chunk_vec :: "nat \<Rightarrow> nat \<Rightarrow> data_chunk list \<Rightarrow> bool" where
  "chunk_vec u n cs \<longleftrightarrow>
     (\<exists>c. cs = [c] \<and> length (dc_bytes c) = n * u \<and> unat (dc_data c) + n * u < 2 ^ 63)"

definition cell :: "nat \<Rightarrow> data_chunk list \<Rightarrow> nat \<Rightarrow> byte list" where
  "cell u cs i = slice (dc_bytes (hd cs)) (i * u) u"

lemma elem_bound: "i < n \<Longrightarrow> i * u + u \<le> n * u" for i n u :: nat
  using mult_le_mono1 [of "Suc i" n u] by simp

lemma chunk_arith:
  fixes usize offset :: size_t
  assumes "chunk_vec (unat usize) n [c]" and "unat offset < n"
  shows "unat (offset * usize) = unat offset * unat usize"
    and "unat (offset * usize + usize) = unat offset * unat usize + unat usize"
    and "unat (dc_size c) = n * unat usize"
    and "unat x \<le> n * unat usize \<Longrightarrow> unat (dc_data c + x) = unat (dc_data c) + unat x"
proof -
  have len: "length (dc_bytes c) = n * unat usize" "unat (dc_data c) + n * unat usize < 2 ^ 63"
    using assms(1) by (simp_all add: chunk_vec_def)
  have b: "unat offset * unat usize + unat usize \<le> n * unat usize" using elem_bound [OF assms(2)] .
  show m: "unat (offset * usize) = unat offset * unat usize"
    using b len by (simp add: unat_word_ariths)
  show "unat (offset * usize + usize) = unat offset * unat usize + unat usize"
    using b len m by (subst unat_add_no_wrap) simp_all
  show "unat (dc_size c) = n * unat usize"
  proof -
    have "length (dc_bytes c) < 2 ^ 64" using len by simp
    then show ?thesis by (simp add: dc_size_def unsigned_of_nat take_bit_nat_eq_self del: of_nat_mult) (simp add: len(1))
  qed
  show "unat (dc_data c + x) = unat (dc_data c) + unat x" if "unat x \<le> n * unat usize"
    using len that by (subst unat_add_no_wrap) simp_all
qed

lemma read_chunks_cell:
  assumes "chunk_vec (unat usize) n cs" and "unat offset < n"
  shows "read_chunks cs (offset * usize) usize = Inr (cell (unat usize) cs (unat offset))"
proof -
  obtain c where cs: "cs = [c]" using assms(1) by (auto simp: chunk_vec_def)
  note A = chunk_arith [OF assms(1) [unfolded cs] assms(2)]
  have "length (dc_bytes c) = n * unat usize" using assms(1) cs by (simp add: chunk_vec_def)
  then show ?thesis
    using A elem_bound [OF assms(2), of "unat usize"]
    by (simp add: cs read_chunk_def cell_def word_le_nat_alt)
qed

lemma UpdateInPlace_cell:
  assumes "chunk_vec (unat usize) n cs" and "unat offset < n" and "length bs = unat usize"
  obtains cs' where "UpdateInPlace cs offset usize (Some bs) = Inr (True, cs')"
    "chunk_vec (unat usize) n cs'"
    "\<And>j. j < n \<Longrightarrow> cell (unat usize) cs' j = (if j = unat offset then bs else cell (unat usize) cs j)"
    "dc_data (hd cs') = dc_data (hd cs)"
proof -
  obtain c where cs: "cs = [c]" using assms(1) by (auto simp: chunk_vec_def)
  note vec = assms(1) [unfolded cs]
  note A = chunk_arith [OF vec assms(2)]
  have len: "length (dc_bytes c) = n * unat usize" using vec by (simp add: chunk_vec_def)
  note b = elem_bound [OF assms(2), of "unat usize"]
  let ?c' = "c\<lparr>dc_bytes := splice_at (dc_bytes c) (unat offset * unat usize) bs\<rparr>"
  have le1: "offset * usize + usize \<le> dc_size c" using A(2,3) b by (simp add: word_le_nat_alt)
  have le2: "dc_data c \<le> dc_data c + offset * usize"
  proof -
    have "unat (offset * usize) \<le> n * unat usize" using A(1) b by linarith
    from A(4) [OF this] show ?thesis by (simp add: word_le_nat_alt)
  qed
  have le3: "dc_data c + offset * usize + usize \<le> dc_data c + dc_size c"
  proof -
    have "unat (offset * usize + usize) \<le> n * unat usize" "unat (dc_size c) \<le> n * unat usize"
      using A(2,3) b by linarith+
    from A(4) [OF this(1)] A(4) [OF this(2)] this(1) A(3) show ?thesis
      by (simp add: word_le_nat_alt add.assoc)
  qed
  have wr: "write_chunk c (offset * usize) bs = Inr ?c'"
    using A(1) b len assms(3) by (simp add: write_chunk_def)
  have upd: "UpdateInPlace cs offset usize (Some bs) = Inr (True, [?c'])"
    using le1 le2 le3 wr assms(3) by (simp add: cs UpdateInPlace_def read_src_def)
  have vec': "chunk_vec (unat usize) n [?c']"
    using vec b assms(3) by (simp add: chunk_vec_def)
  have "cell (unat usize) [?c'] j = (if j = unat offset then bs else cell (unat usize) cs j)" if "j < n" for j
  proof (cases "j = unat offset")
    case True
    then show ?thesis using b len assms(3) by (simp add: cell_def)
  next
    case False
    then have "j * unat usize + unat usize \<le> unat offset * unat usize \<or>
        unat offset * unat usize + unat usize \<le> j * unat usize"
      using elem_bound [of j "unat offset" "unat usize"] elem_bound [of "unat offset" j "unat usize"]
      by linarith
    then show ?thesis
      using False b len assms(3) elem_bound [OF that, of "unat usize"]
      by (simp add: cell_def cs slice_splice_disjoint)
  qed
  with upd vec' show thesis by (intro that [of "[?c']"]) (simp_all add: cs)
qed

section \<open>The interface of a column\<close>

text \<open>
  What the table relies on of any kind of column: reading and writing one element behaves like
  a map from row positions to elements, and writing keeps the shape of the column.
\<close>

locale column_store_law =
  fixes inv :: "'c \<Rightarrow> bool"
    and width :: "'c \<Rightarrow> nat"
    and valid :: "'c \<Rightarrow> rowid_t \<Rightarrow> bool"
    and get :: "'c \<Rightarrow> rowid_t \<Rightarrow> byte list result"
    and put :: "rowid_t \<Rightarrow> byte list option \<Rightarrow> 'c \<Rightarrow> 'c result"
    and same_slot :: "'c \<Rightarrow> rowid_t \<Rightarrow> rowid_t \<Rightarrow> bool"
  assumes get_ok: "inv c \<Longrightarrow> valid c v \<Longrightarrow> \<exists>bs. get c v = Inr bs \<and> length bs = width c"
    and put_ok: "inv c \<Longrightarrow> valid c v \<Longrightarrow> length bs = width c \<Longrightarrow>
      \<exists>c'. put v (Some bs) c = Inr c' \<and> inv c' \<and> width c' = width c \<and>
           (\<forall>v'. valid c' v' = valid c v') \<and> (\<forall>v' w. same_slot c' v' w = same_slot c v' w) \<and>
           (\<forall>v'. valid c v' \<longrightarrow> get c' v' = (if same_slot c v v' then Inr bs else get c v'))"
    and same_refl: "inv c \<Longrightarrow> valid c v \<Longrightarrow> same_slot c v v"
begin

lemma put_get_same:
  assumes "inv c" "valid c v" "length bs = width c" "put v (Some bs) c = Inr c'"
  shows "get c' v = Inr bs"
  using put_ok [OF assms(1-3)] assms(4) same_refl [OF assms(1,2)] assms(2) by auto

lemma put_get_other:
  assumes "inv c" "valid c v" "length bs = width c" "put v (Some bs) c = Inr c'"
    and "valid c w" "\<not> same_slot c v w"
  shows "get c' w = get c w"
  using put_ok [OF assms(1-3)] assms(4-) by auto

lemma put_inv:
  assumes "inv c" "valid c v" "length bs = width c" "put v (Some bs) c = Inr c'"
  shows "inv c'" "width c' = width c" "valid c' w = valid c w"
  using put_ok [OF assms(1-3)] assms(4) by auto

end

definition col_inv :: "('a) Column_scheme \<Rightarrow> bool" where
  "col_inv col \<longleftrightarrow>
     unat (n_partitions col) \<le> length (primaryData col) \<and>
     (\<forall>j < unat (n_partitions col).
        chunk_vec (unat (unit_size col)) (unat (capacity_per_partition col)) (primaryData col ! j))"

definition row_ok :: "('a) Column_scheme \<Rightarrow> rowid_t \<Rightarrow> bool" where
  "row_ok col vid \<longleftrightarrow> get_pid vid < n_partitions col \<and> get_offset vid < capacity_per_partition col"

definition same_row :: "rowid_t \<Rightarrow> rowid_t \<Rightarrow> bool" where
  "same_row v w \<longleftrightarrow> get_pid v = get_pid w \<and> get_offset v = get_offset w"

lemma col_inv_vec:
  assumes "col_inv col" "row_ok col vid"
  shows "unat (get_pid vid) < length (primaryData col)"
    and "chunk_vec (unat (unit_size col)) (unat (capacity_per_partition col)) (primaryData col ! unat (get_pid vid))"
    and "unat (get_offset vid) < unat (capacity_per_partition col)"
  using assms by (auto simp: col_inv_def row_ok_def word_less_nat_alt)

lemma getElem_cell:
  assumes "col_inv col" "row_ok col vid"
  shows "getElem col vid =
    Inr (cell (unat (unit_size col)) (primaryData col ! unat (get_pid vid)) (unat (get_offset vid)))"
  using col_inv_vec [OF assms] by (simp add: getElem_def at_part_def read_chunks_cell)

lemma length_cell: "chunk_vec u n cs \<Longrightarrow> i < n \<Longrightarrow> length (cell u cs i) = u"
  using elem_bound [of i n u] by (auto simp: chunk_vec_def cell_def)

lemma store_elem_cell:
  assumes "col_inv col" "row_ok col vid" "length bs = unat (unit_size col)"
  obtains cs' where
    "store_elem msg vid (Some bs) col = Inr (col\<lparr>primaryData := (primaryData col)[unat (get_pid vid) := cs']\<rparr>)"
    "col_inv (col\<lparr>primaryData := (primaryData col)[unat (get_pid vid) := cs']\<rparr>)"
    "\<And>w. row_ok col w \<Longrightarrow> getElem (col\<lparr>primaryData := (primaryData col)[unat (get_pid vid) := cs']\<rparr>) w =
       (if same_row vid w then Inr bs else getElem col w)"
proof -
  note V = col_inv_vec [OF assms(1,2)]
  obtain cs' where upd: "UpdateInPlace (primaryData col ! unat (get_pid vid)) (get_offset vid) (unit_size col) (Some bs) = Inr (True, cs')"
    and vec': "chunk_vec (unat (unit_size col)) (unat (capacity_per_partition col)) cs'"
    and cells: "\<And>j. j < unat (capacity_per_partition col) \<Longrightarrow> cell (unat (unit_size col)) cs' j =
      (if j = unat (get_offset vid) then bs
       else cell (unat (unit_size col)) (primaryData col ! unat (get_pid vid)) j)"
    using UpdateInPlace_cell [OF V(2,3) assms(3)] by metis
  let ?col = "col\<lparr>primaryData := (primaryData col)[unat (get_pid vid) := cs']\<rparr>"
  have inv': "col_inv ?col"
    using assms(1) vec' V(1) by (auto simp: col_inv_def nth_list_update)
  show thesis
  proof (rule that [of cs'])
    show "store_elem msg vid (Some bs) col = Inr ?col"
      using assms(2) upd V(1) by (simp add: store_elem_def row_ok_def at_part_def)
    show "getElem ?col w = (if same_row vid w then Inr bs else getElem col w)" if w: "row_ok col w" for w
    proof -
      have "row_ok ?col w" using w by (simp add: row_ok_def)
      from getElem_cell [OF inv' this] getElem_cell [OF assms(1) w] cells col_inv_vec(3) [OF assms(1) w] V(1)
      show ?thesis
        by (auto simp: same_row_def nth_list_update word_unat_eq_iff)
    qed
  qed (rule inv')
qed

interpretation plain: column_store_law col_inv "\<lambda>c. unat (unit_size c)" row_ok getElem updateElem "\<lambda>_. same_row"
proof (unfold_locales, goal_cases)
  case (1 c v)
  then show ?case using getElem_cell length_cell col_inv_vec(2,3) by metis
next
  case (2 c v bs)
  obtain cs' where "store_elem ''Out Of Memory Error'' v (Some bs) c = Inr (c\<lparr>primaryData := (primaryData c)[unat (get_pid v) := cs']\<rparr>)"
    "col_inv (c\<lparr>primaryData := (primaryData c)[unat (get_pid v) := cs']\<rparr>)"
    "\<And>w. row_ok c w \<Longrightarrow> getElem (c\<lparr>primaryData := (primaryData c)[unat (get_pid v) := cs']\<rparr>) w =
       (if same_row v w then Inr bs else getElem c w)"
    using store_elem_cell [OF 2] by metis
  then show ?case
    by (intro exI [of _ "c\<lparr>primaryData := (primaryData c)[unat (get_pid v) := cs']\<rparr>"] conjI)
       (simp_all add: updateElem_def row_ok_def)
next
  case (3 c v)
  then show ?case by (simp add: same_row_def)
qed

section \<open>Construction\<close>

lemma length_warm_up [simp]: "length (warm_up mem) = length mem"
  by (simp add: warm_up_def)

definition mems_ok :: "size_t \<Rightarrow> size_t \<Rightarrow> data_chunk list \<Rightarrow> bool" where
  "mems_ok cap usize mems \<longleftrightarrow>
     (\<forall>m\<in>set mems. length (dc_bytes m) = unat cap * unat usize \<and>
        unat (dc_data m) + unat cap * unat usize < 2 ^ 63)"

lemma mk_Column_inv:
  assumes "mk_Column g nodes mems cid name ty usize off numa reserved snap = Inr col"
    and "mems_ok (partition_capacity reserved (if numa then g else 1)) usize mems"
  shows "col_inv col"
proof -
  let ?parts = "if numa then g else 1 :: partition_id_t"
  have col: "n_partitions col = ?parts" "capacity_per_partition col = partition_capacity reserved ?parts"
    "unit_size col = usize" "unat ?parts \<le> length mems"
    "primaryData col = map (\<lambda>m. [m\<lparr>dc_bytes := warm_up (dc_bytes m)\<rparr>]) (take (unat ?parts) mems) @
                replicate (MAX_PARTITIONS - unat ?parts) []"
    using assms(1) by (auto simp: mk_Column_def Let_def rbind_eq_Inr_iff split: if_splits)
  have "chunk_vec (unat usize) (unat (capacity_per_partition col)) (primaryData col ! j)"
    if "j < unat ?parts" for j
  proof -
    have "mems ! j \<in> set mems" using that col(4) by (intro nth_mem) simp
    then show ?thesis
      using that col assms(2) by (simp add: nth_append chunk_vec_def mems_ok_def)
  qed
  then show ?thesis using col by (simp add: col_inv_def)
qed

section \<open>Batches\<close>

lemma cell_splice:
  assumes "w * u + u \<le> length (dc_bytes c)" and "off * u + length src \<le> length (dc_bytes c)"
    and "length src = n * u"
  shows "cell u [c\<lparr>dc_bytes := splice_at (dc_bytes c) (off * u) src\<rparr>] w =
    (if off \<le> w \<and> w < off + n then slice src ((w - off) * u) u else cell u [c] w)"
proof (cases "off \<le> w \<and> w < off + n")
  case True
  then have "w - off < n" by linarith
  then have in_src: "(w - off) * u + u \<le> length src" using elem_bound assms(3) by simp
  have "w * u = off * u + (w - off) * u" using True by (simp add: diff_mult_distrib)
  then show ?thesis
    using True in_src assms(2) by (simp add: cell_def slice_def splice_at_def)
next
  case False
  then have "w * u + u \<le> off * u \<or> off * u + length src \<le> w * u"
    using elem_bound [of w off u] assms(3) mult_le_mono1 [of "off + n" w u]
    by (auto simp: add_mult_distrib)
  then show ?thesis
    using assms(1,2) unfolding if_not_P [OF False] by (simp add: cell_def slice_splice_disjoint)
qed

lemma insertElemBatch_cells:
  assumes inv: "col_inv col" and pid: "get_pid vid < n_partitions col" "get_pid vid < g"
    and room: "unat (get_offset vid) + unat n < unat (capacity_per_partition col)"
    and u: "unit_size col \<noteq> 0" and src: "length src = unat n * unat (unit_size col)"
    and tsp: "unat (total_size_per_partition col) = unat (capacity_per_partition col) * unat (unit_size col)"
  obtains col' where "insertElemBatch g vid n src col = Inr col'" "col_inv col'"
    "\<And>w. row_ok col w \<Longrightarrow> getElem col' w =
       (if get_pid w = get_pid vid \<and> unat (get_offset vid) \<le> unat (get_offset w) \<and>
           unat (get_offset w) < unat (get_offset vid) + unat n
        then Inr (slice src ((unat (get_offset w) - unat (get_offset vid)) * unat (unit_size col)) (unat (unit_size col)))
        else getElem col w)"
proof -
  let ?u = "unat (unit_size col)" and ?cap = "unat (capacity_per_partition col)"
  let ?off = "unat (get_offset vid)" and ?p = "unat (get_pid vid)"
  let ?n = "ucast n :: size_t"
  have ok: "row_ok col vid" using pid room by (simp add: row_ok_def word_less_nat_alt)
  note V = col_inv_vec [OF inv ok]
  obtain c where c: "primaryData col ! ?p = [c]" "length (dc_bytes c) = ?cap * ?u"
    "unat (dc_data c) + ?cap * ?u < 2 ^ 63"
    using V(2) by (auto simp: chunk_vec_def)
  have n: "unat ?n = unat n" using unsigned_less [of n, where 'a = nat] by (simp add: unsigned_ucast_eq take_bit_nat_eq_self)
  have fit: "(?off + unat n) * ?u + ?u \<le> ?cap * ?u" using elem_bound [OF room] .
  note A = chunk_arith [OF V(2) [unfolded c(1)] V(3)]
  have copy: "unat (?n * unit_size col) = unat n * ?u"
    using fit c(3) n by (simp add: unat_word_ariths add_mult_distrib)
  have en: "unat (get_offset vid * unit_size col + ?n * unit_size col) = (?off + unat n) * ?u"
    using A(1) copy fit c(3) by (subst unat_add_no_wrap) (simp_all add: add_mult_distrib)
  have need: "unat (get_offset vid * unit_size col + ?n * unit_size col + unit_size col) = (?off + unat n) * ?u + ?u"
    using en fit c(3) by (subst unat_add_no_wrap) simp_all
  have u0: "0 < ?u" using u by (simp add: unat_gt_0)
  let ?c' = "c\<lparr>dc_bytes := splice_at (dc_bytes c) (?off * ?u) src\<rparr>"
  let ?col = "col\<lparr>primaryData := (primaryData col)[?p := [?c']]\<rparr>"
  have run: "insertElemBatch g vid n src col = Inr ?col"
  proof -
    have "(get_offset vid * unit_size col + ?n * unit_size col) div unit_size col < capacity_per_partition col"
      using en u0 room by (simp add: word_less_nat_alt unat_div)
    moreover have "get_offset vid * unit_size col + ?n * unit_size col < total_size_per_partition col"
      using en room u0 tsp by (simp add: word_less_nat_alt)
    moreover have "dc_size c \<ge> get_offset vid * unit_size col + ?n * unit_size col + unit_size col"
      using need fit A(3) by (simp add: word_le_nat_alt)
    moreover have "read_src src (?n * unit_size col) = Inr src" using copy src by (simp add: read_src_def)
    moreover have "write_chunk c (get_offset vid * unit_size col) src = Inr ?c'"
      using A(1) src fit c(2) by (simp add: write_chunk_def add_mult_distrib)
    ultimately show ?thesis
      using pid V(1) c(1) by (simp add: insertElemBatch_def batch_checks_def Let_def at_part_def)
  qed
  have fit': "?off * ?u + length src \<le> length (dc_bytes c)" using fit src c(2) by (simp add: add_mult_distrib)
  have inv': "col_inv ?col"
    using inv c V(1) fit' by (auto simp: col_inv_def nth_list_update chunk_vec_def)
  show thesis
  proof (rule that [OF run inv'])
    fix w assume w: "row_ok col w"
    let ?w = "unat (get_offset w)"
    have w': "row_ok ?col w" using w by (simp add: row_ok_def)
    have wcap: "?w < ?cap" using col_inv_vec(3) [OF inv w] .
    note G = getElem_cell [OF inv' w'] getElem_cell [OF inv w]
    have wb: "?w * ?u + ?u \<le> length (dc_bytes c)" using elem_bound [OF wcap, of ?u] c(2) by simp
    show "getElem ?col w =
       (if get_pid w = get_pid vid \<and> ?off \<le> ?w \<and> ?w < ?off + unat n
        then Inr (slice src ((?w - ?off) * ?u) ?u) else getElem col w)"
    proof (cases "get_pid w = get_pid vid")
      case True
      have "cell ?u [?c'] ?w = (if ?off \<le> ?w \<and> ?w < ?off + unat n then slice src ((?w - ?off) * ?u) ?u
          else cell ?u [c] ?w)"
        using wb fit' src by (rule cell_splice)
      then show ?thesis using True G V(1) c(1) by simp
    next
      case False
      then show ?thesis using G V(1) by (simp add: nth_list_update word_unat_eq_iff)
    qed
  qed
qed

section \<open>Properties\<close>

text \<open>
  C24. A batch insert into a column is the element-wise insert: when the batch leaves room for at
  least one more element in the partition, every element of the batch reads back as its slice
  of the source buffer and every other element of the column is unchanged.
\<close>
theorem batch_insert_roundtrip:
  assumes "col_inv col" and "get_pid vid < n_partitions col" and "get_pid vid < g"
    and "unat (get_offset vid) + unat n < unat (capacity_per_partition col)"
    and "unit_size col \<noteq> 0" and "length src = unat n * unat (unit_size col)"
    and "unat (total_size_per_partition col) = unat (capacity_per_partition col) * unat (unit_size col)"
  shows "\<exists>col'. insertElemBatch g vid n src col = Inr col' \<and> col_inv col' \<and>
    (\<forall>w. row_ok col w \<longrightarrow> getElem col' w =
       (if get_pid w = get_pid vid \<and> unat (get_offset vid) \<le> unat (get_offset w) \<and>
           unat (get_offset w) < unat (get_offset vid) + unat n
        then Inr (slice src ((unat (get_offset w) - unat (get_offset vid)) * unat (unit_size col)) (unat (unit_size col)))
        else getElem col w))"
  using insertElemBatch_cells [OF assms] by metis

definition demo_column :: "size_t \<Rightarrow> byte list \<Rightarrow> Column" where
  "demo_column usize bytes =
     \<lparr>column_id = 0, col_name = ''c'', col_type = INTEGER, unit_size = usize, byteOffset_record = 0,
      n_partitions = 1, single_version_only = True, snapshotType = NoSnapshot,
      total_size = of_nat (length bytes), total_size_per_partition = of_nat (length bytes),
      capacity = of_nat (length bytes) div usize, capacity_per_partition = of_nat (length bytes) div usize,
      primaryData = [[\<lparr>dc_data = 4096, dc_bytes = bytes\<rparr>]]\<rparr>"

theorem batch_insert_roundtrip_witness:
  "\<exists>col'. insertElemBatch 1 0 2 [1, 2, 3, 4] (demo_column 2 [0, 0, 0, 0, 0, 0]) = Inr col' \<and>
     getElem col' 1 = Inr [3, 4]"
proof -
  let ?col = "demo_column 2 [0, 0, 0, 0, 0, 0]"
  have row: "get_pid 0 = 0" "get_offset 0 = 0" "get_pid 1 = 0" "get_offset 1 = 1"
    by (simp_all add: get_pid_def get_offset_def)
  have "col_inv ?col" by (simp add: col_inv_def demo_column_def chunk_vec_def)
  from batch_insert_roundtrip [OF this, of 0 1 2 "[1, 2, 3, 4]"]
  obtain col' where "insertElemBatch 1 0 2 [1, 2, 3, 4] ?col = Inr col'"
    and "\<forall>w. row_ok ?col w \<longrightarrow> getElem col' w =
       (if get_pid w = 0 \<and> 0 \<le> unat (get_offset w) \<and> unat (get_offset w) < 0 + 2
        then Inr (slice [1, 2, 3, 4] ((unat (get_offset w) - 0) * 2) 2) else getElem ?col w)"
    using row by (auto simp: demo_column_def)
  moreover have "row_ok ?col 1" using row by (simp add: row_ok_def demo_column_def)
  ultimately show ?thesis using row by (auto simp: slice_def)
qed

end
