(* ===== verification/CircularMaster.thy ===== *)
theory CircularMaster
  imports Columns AtomicBitSet TxnTable
begin

text \<open>
  Columns with several master copies (\<^verbatim>\<open>circular-master-column.cpp\<close>) and the snapshot arenas
  they keep (\<^verbatim>\<open>snapshot/arena.hpp\<close>, \<^verbatim>\<open>circular_master_arena.hpp\<close>, \<^verbatim>\<open>lazy_master_arena.hpp\<close>):
  point access with dirty masks, snapshots, propagation of updates between masters and the
  copy for analytical queries. The number of masters is the length of \<open>master_versions\<close>.
\<close>

section \<open>Arenas\<close>

record metadata =
  numOfRecords :: rowid_t
  epoch_id :: xid_t
  arena_master_ver :: master_version_t
  arena_partition_id :: partition_id_t
  upd_since_last_snapshot :: bool

text \<open>Both kinds of arena keep the metadata of the last snapshot and nothing else.\<close>

definition create_snapshot :: "metadata \<Rightarrow> metadata \<Rightarrow> metadata" where
  "create_snapshot save a = save"

definition setUpdated :: "metadata \<Rightarrow> metadata" where
  "setUpdated a = a\<lparr>upd_since_last_snapshot := True\<rparr>"

definition getMetadata :: "metadata \<Rightarrow> metadata" where
  "getMetadata a = a"

section \<open>The column\<close>

definition BIT_PACK_SIZE :: nat where
  "BIT_PACK_SIZE = 8192"

record CircularMasterColumn = Column +
  cm_touched :: "bool list"
  master_versions :: "data_chunk list list list"
  upd_bit_masks :: "bitset list list list"
  snapshot_arenas :: "metadata list"
  etl_arenas :: "metadata list"
  readonly_etl_snapshot :: "data_chunk list list"

definition num_bit_packs :: "nat \<Rightarrow> nat" where
  "num_bit_packs cap = cap div BIT_PACK_SIZE + cap mod BIT_PACK_SIZE"

text \<open>
  The constructor. \<open>mems ! i ! j\<close> is the memory for master \<open>i\<close> and partition \<open>j\<close>; with
  \<open>htap_etl\<close> (the macro \<^verbatim>\<open>HTAP_ETL\<close>) the arenas and the memory of the analytical copy exist too.
\<close>

definition mk_CircularMasterColumn ::
  "bool \<Rightarrow> partition_id_t \<Rightarrow> data_chunk list list \<Rightarrow> data_chunk list \<Rightarrow> column_id_t \<Rightarrow> string \<Rightarrow> data_type
     \<Rightarrow> size_t \<Rightarrow> size_t \<Rightarrow> bool \<Rightarrow> size_t \<Rightarrow> CircularMasterColumn result" where
  "mk_CircularMasterColumn htap_etl g_num_partitions mems etl_mem cid name ty usize offset numa_partitioned reserved =
     (let parts = (if numa_partitioned then g_num_partitions else 1);
          cap = partition_capacity reserved parts;
          tsp = cap * usize;
          packs = num_bit_packs (unat cap);
          g = unat g_num_partitions
      in rbind (rassert (list_all (\<lambda>ms. unat parts \<le> length ms \<and>
                            list_all (\<lambda>m. dc_data m \<noteq> 0) (take (unat parts) ms)) mems) ''mem != nullptr'') (\<lambda>_.
         Inr \<lparr>column_id = cid, col_name = name, col_type = ty, unit_size = usize,
              byteOffset_record = offset, n_partitions = parts, single_version_only = False,
              snapshotType = CircularMaster,
              total_size = tsp * ucast parts * of_nat (length mems),
              total_size_per_partition = tsp, capacity = reserved, capacity_per_partition = cap,
              primaryData = replicate MAX_PARTITIONS [],
              cm_touched = replicate MAX_PARTITIONS False,
              master_versions =
                map (\<lambda>ms. map (\<lambda>m. [m\<lparr>dc_bytes := warm_up (dc_bytes m)\<rparr>]) (take (unat parts) ms) @
                           replicate (MAX_PARTITIONS - unat parts) []) mems,
              upd_bit_masks =
                map (\<lambda>ms. replicate (unat parts) (replicate packs (bs_new BIT_PACK_SIZE)) @
                           replicate (MAX_PARTITIONS - unat parts) []) mems,
              snapshot_arenas =
                map (\<lambda>j. \<lparr>numOfRecords = 0, epoch_id = 0, arena_master_ver = 0,
                          arena_partition_id = of_nat j, upd_since_last_snapshot = False\<rparr>) [0..<g],
              etl_arenas =
                (if htap_etl
                 then map (\<lambda>j. \<lparr>numOfRecords = 0, epoch_id = 0, arena_master_ver = 0,
                               arena_partition_id = of_nat j, upd_since_last_snapshot = True\<rparr>) [0..<g]
                 else []),
              readonly_etl_snapshot =
                (if htap_etl \<and> g_num_partitions = 1 then map (\<lambda>m. [m]) (take (unat parts) etl_mem) else [])\<rparr>))"

section \<open>Element access\<close>

text \<open>The loop of \<^verbatim>\<open>getElem\<close> here does not subtract the size of the chunks it passes.\<close>

fun read_first :: "data_chunk list \<Rightarrow> size_t \<Rightarrow> size_t \<Rightarrow> byte list result" where
  "read_first [] data_idx usize = Inl (Assertion ''Out-of-Bound-Access'')"
| "read_first (c # cs) data_idx usize =
     (if dc_size c \<ge> data_idx + usize then read_chunk c data_idx usize else read_first cs data_idx usize)"

definition cm_getElem :: "CircularMasterColumn \<Rightarrow> rowid_t \<Rightarrow> byte list result" where
  "cm_getElem col vid =
     (let pid = get_pid vid; m_ver = get_m_version vid; data_idx = get_offset vid * unit_size col
      in rbind (at_idx (master_versions col) (unat m_ver)) (\<lambda>parts.
         rbind (at_part parts pid) (\<lambda>chunks.
         rbind (rassert (chunks \<noteq> []) ''!master_versions[m_ver][pid].empty()'') (\<lambda>_.
         read_first chunks data_idx (unit_size col)))))"

definition set_chunks :: "nat \<Rightarrow> nat \<Rightarrow> data_chunk list \<Rightarrow> CircularMasterColumn \<Rightarrow> CircularMasterColumn" where
  "set_chunks m p cs col =
     col\<lparr>master_versions := (master_versions col)[m := (master_versions col ! m)[p := cs]]\<rparr>"

text \<open>\<^verbatim>\<open>upd_bit_masks[mver][pid][offset / BIT_PACK_SIZE].set(offset % BIT_PACK_SIZE)\<close>\<close>

definition mark_dirty :: "nat \<Rightarrow> nat \<Rightarrow> nat \<Rightarrow> CircularMasterColumn \<Rightarrow> CircularMasterColumn result" where
  "mark_dirty m p offset col =
     rbind (at_idx (upd_bit_masks col) m) (\<lambda>parts.
     rbind (at_idx parts p) (\<lambda>packs.
     rbind (at_idx packs (offset div BIT_PACK_SIZE)) (\<lambda>pack.
     rbind (bs_set BIT_PACK_SIZE (offset mod BIT_PACK_SIZE) pack) (\<lambda>(_, pack').
     Inr (col\<lparr>upd_bit_masks := (upd_bit_masks col)[m := parts[p := packs[offset div BIT_PACK_SIZE := pack']]]\<rparr>)))))"

definition cm_updateElem ::
  "rowid_t \<Rightarrow> byte list option \<Rightarrow> CircularMasterColumn \<Rightarrow> CircularMasterColumn result" where
  "cm_updateElem vid elem col =
     (let pid = get_pid vid; mver = get_m_version vid; offset = get_offset vid
      in rbind (rassert (pid < n_partitions col) ''pid < n_partitions'') (\<lambda>_.
         rbind (rassert (offset < capacity_per_partition col) ''offset < capacity_per_partition'') (\<lambda>_.
         rbind (at_idx (master_versions col) (unat mver)) (\<lambda>parts.
         rbind (at_part parts pid) (\<lambda>chunks.
         rbind (UpdateInPlace chunks offset (unit_size col) elem) (\<lambda>(ok, chunks').
         if ok
         then rbind (mark_dirty (unat mver) (unat pid) (unat offset)
                       (set_chunks (unat mver) (unat pid) chunks' col)) (\<lambda>col'.
              if unat pid < length (cm_touched col')
              then Inr (col'\<lparr>cm_touched := (cm_touched col')[unat pid := True]\<rparr>) else Inl BadAccess)
         else Inl (Assertion ''Out Of Memory Error'')))))))"

definition cm_insertElem ::
  "rowid_t \<Rightarrow> byte list option \<Rightarrow> CircularMasterColumn \<Rightarrow> CircularMasterColumn result" where
  "cm_insertElem vid elem col =
     (let pid = get_pid vid; offset = get_offset vid
      in rbind (rassert (pid < n_partitions col) ''pid < n_partitions'') (\<lambda>_.
         rbind (rassert (offset < capacity_per_partition col) ''offset < capacity_per_partition'') (\<lambda>_.
         rbind (rmap (\<lambda>master.
                  rbind (at_part master pid) (\<lambda>chunks.
                  rbind (UpdateInPlace chunks offset (unit_size col) elem) (\<lambda>(ok, chunks').
                  if ok then Inr (master[unat pid := chunks']) else Inl (Assertion ''Out Of Memory Error''))))
                (master_versions col)) (\<lambda>masters.
         Inr (col\<lparr>master_versions := masters\<rparr>)))))"

definition cm_insertElemBatch ::
  "partition_id_t \<Rightarrow> rowid_t \<Rightarrow> 16 word \<Rightarrow> byte list \<Rightarrow> CircularMasterColumn \<Rightarrow> CircularMasterColumn result" where
  "cm_insertElemBatch g_num_partitions vid num_elem data col =
     (let pid = get_pid vid; st = get_offset vid * unit_size col;
          copy_size = ucast num_elem * unit_size col; en = st + copy_size
      in rbind (batch_checks g_num_partitions col pid en) (\<lambda>_.
         rbind (rmap (\<lambda>master.
                  rbind (at_part master pid) (\<lambda>chunks.
                  case first_fit 0 chunks (en + unit_size col) of
                    None \<Rightarrow> Inl (Assertion ''Out Of Memory Error'')
                  | Some i \<Rightarrow>
                      rbind (read_src data copy_size) (\<lambda>bs.
                      rbind (write_chunk (chunks ! i) st bs) (\<lambda>c'.
                      Inr (master[unat pid := chunks[i := c']])))))
                (master_versions col)) (\<lambda>masters.
         Inr (col\<lparr>master_versions := masters\<rparr>))))"

section \<open>Snapshots\<close>

fun count_masks :: "nat \<Rightarrow> nat \<Rightarrow> bitset list \<Rightarrow> nat" where
  "count_masks limit scanned [] = 0"
| "count_masks limit scanned (c # cs) =
     bs_count c +
     (if scanned + BIT_PACK_SIZE \<ge> limit then 0 else count_masks limit (scanned + BIT_PACK_SIZE) cs)"

definition cm_num_upd_tuples ::
  "partition_id_t \<Rightarrow> master_version_t \<Rightarrow> nat list option \<Rightarrow> CircularMasterColumn \<Rightarrow> nat result" where
  "cm_num_upd_tuples g_num_partitions master_ver num_records col =
     rbind (at_idx (upd_bit_masks col) (unat master_ver)) (\<lambda>masks.
       rfold (\<lambda>j counter.
         rbind (at_idx (cm_touched col) j) (\<lambda>t.
         if \<not> t then Inr counter
         else rbind (at_idx masks j) (\<lambda>packs.
              case num_records of
                Some nr \<Rightarrow> rbind (at_idx nr j) (\<lambda>limit. Inr (counter + count_masks limit 0 packs))
              | None \<Rightarrow> Inr (counter + sum_list (map bs_count packs)))))
       [0..<unat g_num_partitions] 0)"

definition cm_snapshot ::
  "partition_id_t \<Rightarrow> txn_manager \<Rightarrow> bool \<Rightarrow> rowid_t list \<Rightarrow> xid_t \<Rightarrow> CircularMasterColumn
     \<Rightarrow> CircularMasterColumn result" where
  "cm_snapshot g_num_partitions tm htap_etl num_rec_per_part epoch col =
     rbind (get_snapshot_masterVersion tm epoch) (\<lambda>mver.
       rfold (\<lambda>i col.
         rbind (at_idx (snapshot_arenas col) i) (\<lambda>arena.
         rbind (at_idx num_rec_per_part i) (\<lambda>nrec.
         rbind (at_idx (cm_touched col) i) (\<lambda>t.
         let col1 = col\<lparr>snapshot_arenas := (snapshot_arenas col)[i :=
                         create_snapshot \<lparr>numOfRecords = nrec, epoch_id = epoch, arena_master_ver = mver,
                                          arena_partition_id = of_nat i, upd_since_last_snapshot = t\<rparr> arena]\<rparr>
         in rbind (if htap_etl \<and> t
                   then rbind (at_idx (etl_arenas col1) i) (\<lambda>e.
                          Inr (col1\<lparr>etl_arenas := (etl_arenas col1)[i := setUpdated e]\<rparr>))
                   else Inr col1) (\<lambda>col2.
            Inr (col2\<lparr>cm_touched := (cm_touched col2)[i := False]\<rparr>))))))
       [0..<unat g_num_partitions] col)"

definition cm_snapshot_get_data ::
  "bool \<Rightarrow> bool \<Rightarrow> CircularMasterColumn \<Rightarrow> (data_chunk \<times> rowid_t) list result" where
  "cm_snapshot_get_data htap_etl olap_local col =
     rmap (\<lambda>i.
       rbind (at_idx (master_versions col) 0) (\<lambda>m0.
       rbind (at_idx m0 i) (\<lambda>chunks0.
       rbind (rassert (length chunks0 = 1) ''master_versions[0][i].size() == 1'') (\<lambda>_.
       if olap_local
       then rbind (rassert htap_etl ''OLAP local mode is not turned on'') (\<lambda>_.
            rbind (at_idx (etl_arenas col) i) (\<lambda>olap.
            rbind (at_idx (readonly_etl_snapshot col) i) (\<lambda>etl.
            rbind (at_idx etl 0) (\<lambda>c.
            Inr (c\<lparr>dc_bytes := take (unat (numOfRecords olap * unit_size col)) (dc_bytes c)\<rparr>,
                 numOfRecords olap)))))
       else rbind (at_idx (snapshot_arenas col) i) (\<lambda>snap.
            rbind (at_idx (master_versions col) (unat (arena_master_ver snap))) (\<lambda>m.
            rbind (at_idx m i) (\<lambda>chunks.
            rbind (rassert (length chunks = 1) ''Memory expansion not supported yet.'') (\<lambda>_.
            Inr (chunks ! 0, numOfRecords snap))))))))) [0..<unat (n_partitions col)]"

text \<open>
  \<^verbatim>\<open>elastic_partition\<close>: which memory an analytical scan reads. The result is the list of pieces
  with their record counts, and the updated set of segment boundaries.
\<close>

definition cm_elastic_partition ::
  "bool \<Rightarrow> partition_id_t \<Rightarrow> nat \<Rightarrow> nat set \<Rightarrow> CircularMasterColumn
     \<Rightarrow> ((data_chunk \<times> rowid_t) list \<times> nat set) result" where
  "cm_elastic_partition htap_etl g_num_partitions pid boundaries col =
     rbind (at_idx (master_versions col) 0) (\<lambda>m0.
     rbind (at_idx m0 pid) (\<lambda>chunks0.
     rbind (rassert (length chunks0 = 1) ''master_versions[0][pid].size() == 1'') (\<lambda>_.
     rbind (rassert (g_num_partitions = 1) ''g_num_partitions == 1'') (\<lambda>_.
     rbind (at_idx (snapshot_arenas col) pid) (\<lambda>snap.
     rbind (at_idx (etl_arenas col) pid) (\<lambda>olap.
     rbind (at_idx (master_versions col) (unat (arena_master_ver snap))) (\<lambda>m.
     rbind (at_idx m pid) (\<lambda>chunks.
     if upd_since_last_snapshot snap \<or> upd_since_last_snapshot olap
     then rbind (rassert (length chunks = 1) ''Memory expansion not supported yet.'') (\<lambda>_.
          Inr ([(chunks ! 0, numOfRecords snap)], boundaries))
     else if numOfRecords snap < numOfRecords olap
     then Inl (Assertion ''Delete now supported, how it can be here??'')
     else rbind (rassert htap_etl ''OLAP local mode is not turned on'') (\<lambda>_.
          rbind (at_idx (readonly_etl_snapshot col) pid) (\<lambda>etl.
          rbind (at_idx etl 0) (\<lambda>c.
          let olap_bytes = numOfRecords olap * unit_size col;
              local_part = (c\<lparr>dc_bytes := take (unat olap_bytes) (dc_bytes c)\<rparr>, numOfRecords olap)
          in if numOfRecords snap = numOfRecords olap then Inr ([local_part], boundaries)
             else let diff = numOfRecords snap - numOfRecords olap
                  in rbind (at_idx chunks 0) (\<lambda>src.
                     rbind (rassert (diff \<le> dc_size src) ''diff <= chunk.size'') (\<lambda>_.
                     Inr ([local_part,
                           (\<lparr>dc_data = dc_data src + olap_bytes,
                             dc_bytes = slice (dc_bytes src) (unat olap_bytes) (unat (diff * unit_size col))\<rparr>,
                            diff)],
                          insert (unat (numOfRecords olap)) boundaries))))))))))))))"

section \<open>The analytical copy\<close>

text \<open>One \<^verbatim>\<open>memcpy\<close> of \<open>n\<close> bytes at the same position of two chunks.\<close>

definition copy_range :: "data_chunk \<Rightarrow> size_t \<Rightarrow> size_t \<Rightarrow> data_chunk \<Rightarrow> data_chunk result" where
  "copy_range src st n dst = rbind (read_chunk src st n) (write_chunk dst st)"

text \<open>The loop over the dirty masks: copy every dirty pack below the old record count, clear its mask.\<close>

fun etl_masks ::
  "size_t \<Rightarrow> rowid_t \<Rightarrow> data_chunk \<Rightarrow> nat \<Rightarrow> bitset list \<Rightarrow> data_chunk \<Rightarrow> (bitset list \<times> data_chunk) result" where
  "etl_masks usize olap_num_rec chunk msk [] dst = Inr ([], dst)"
| "etl_masks usize olap_num_rec chunk msk (m # ms) dst =
     (if of_nat (msk * BIT_PACK_SIZE) \<ge> olap_num_rec then Inr (m # ms, dst)
      else rbind
        (if bs_any m
         then let to_cpy = of_nat BIT_PACK_SIZE * usize; st = of_nat msk * to_cpy
              in rbind (if st + to_cpy \<le> dc_size chunk then copy_range chunk st to_cpy dst
                        else copy_range chunk st (dc_size chunk - st) dst) (\<lambda>dst'.
                 Inr (bs_reset m, dst'))
         else Inr (m, dst))
        (\<lambda>(m', dst').
           rbind (etl_masks usize olap_num_rec chunk (Suc msk) ms dst') (\<lambda>(ms', dst'').
             Inr (m' # ms', dst''))))"

definition etl_partition :: "nat \<Rightarrow> CircularMasterColumn \<Rightarrow> CircularMasterColumn result" where
  "etl_partition i col =
     rbind (at_idx (snapshot_arenas col) i) (\<lambda>snap.
     rbind (at_idx (etl_arenas col) i) (\<lambda>olap.
     let olap_num_rec = numOfRecords olap; mv = unat (arena_master_ver snap);
         col1 = col\<lparr>etl_arenas := (etl_arenas col)[i :=
                  create_snapshot \<lparr>numOfRecords = numOfRecords snap, epoch_id = epoch_id snap,
                                   arena_master_ver = arena_master_ver snap,
                                   arena_partition_id = arena_partition_id snap,
                                   upd_since_last_snapshot = False\<rparr> olap]\<rparr>
     in rbind (at_idx (master_versions col1) mv) (\<lambda>m.
        rbind (at_idx m i) (\<lambda>chunks.
        rbind (at_idx chunks 0) (\<lambda>chunk.
        rbind (at_idx (upd_bit_masks col1) mv) (\<lambda>um.
        rbind (at_idx um i) (\<lambda>masks.
        rbind (at_idx (readonly_etl_snapshot col1) i) (\<lambda>etl.
        rbind (at_idx etl 0) (\<lambda>dst.
        rbind (if upd_since_last_snapshot snap then etl_masks (unit_size col1) olap_num_rec chunk 0 masks dst
               else Inr (masks, dst)) (\<lambda>(masks', dst').
        rbind (if numOfRecords snap > olap_num_rec
               then copy_range chunk (olap_num_rec * unit_size col1)
                      ((numOfRecords snap - olap_num_rec) * unit_size col1) dst'
               else Inr dst') (\<lambda>dst''.
        Inr (col1\<lparr>upd_bit_masks := (upd_bit_masks col1)[mv := um[i := masks']],
                  readonly_etl_snapshot := (readonly_etl_snapshot col1)[i := etl[0 := dst'']]\<rparr>))))))))))))"

definition cm_ETL :: "CircularMasterColumn \<Rightarrow> CircularMasterColumn result" where
  "cm_ETL col = rfold etl_partition [0..<unat (n_partitions col)] col"

section \<open>Propagation between masters\<close>

text \<open>
  The compare-and-swap of one element, for the supported widths. Without interference it
  stores the value of the source.
\<close>

definition sync_elem :: "size_t \<Rightarrow> data_chunk \<Rightarrow> nat \<Rightarrow> data_chunk \<Rightarrow> data_chunk result" where
  "sync_elem usize src data_idx dst =
     (let mem_idx = of_nat data_idx * usize
      in rbind (rassert (mem_idx < dc_size dst) ''mem_idx < dst.size'') (\<lambda>_.
         rbind (rassert (mem_idx < dc_size src) ''mem_idx < src.size'') (\<lambda>_.
         if usize \<in> {1, 2, 4, 8} then copy_range src mem_idx usize dst
         else Inl (RuntimeError ''Unsupported column width for snapshotting''))))"

text \<open>
  The counters \<^verbatim>\<open>msk\<close> and \<^verbatim>\<open>bb\<close> are numbers of type \<^verbatim>\<open>int\<close>, so \<^verbatim>\<open>msk * BIT_PACK_SIZE\<close> overflows
  from record 2^31 on; below that, adding \<^verbatim>\<open>bb\<close> does not.
\<close>

fun sync_bits ::
  "size_t \<Rightarrow> rowid_t \<Rightarrow> data_chunk \<Rightarrow> nat \<Rightarrow> bitset \<Rightarrow> bitset \<Rightarrow> nat list \<Rightarrow> data_chunk \<Rightarrow> data_chunk result" where
  "sync_bits usize nrec src msk src_msk actv_msk [] dst = Inr dst"
| "sync_bits usize nrec src msk src_msk actv_msk (bb # bbs) dst =
     (let data_idx = msk * BIT_PACK_SIZE + bb
      in if of_nat data_idx > nrec then Inr dst
         else rbind (bs_test BIT_PACK_SIZE bb src_msk) (\<lambda>s.
              rbind (bs_test BIT_PACK_SIZE bb actv_msk) (\<lambda>a.
              rbind (if s \<and> \<not> a then sync_elem usize src data_idx dst else Inr dst) (\<lambda>dst'.
              sync_bits usize nrec src msk src_msk actv_msk bbs dst'))))"

fun sync_masks ::
  "size_t \<Rightarrow> rowid_t \<Rightarrow> data_chunk \<Rightarrow> nat \<Rightarrow> bitset list \<Rightarrow> bitset list \<Rightarrow> data_chunk \<Rightarrow> data_chunk result" where
  "sync_masks usize nrec src msk [] actv dst = Inr dst"
| "sync_masks usize nrec src msk (s # ss) actv dst =
     rbind (at_idx actv 0) (\<lambda>a.
       if 2 ^ 31 \<le> msk * BIT_PACK_SIZE then Inl SignedOverflow
       else if of_nat (msk * BIT_PACK_SIZE) > nrec then Inr dst
       else rbind (if \<not> bs_any s \<or> bs_all a then Inr dst
                   else sync_bits usize nrec src msk s a [0..<BIT_PACK_SIZE] dst) (\<lambda>dst'.
            sync_masks usize nrec src (Suc msk) ss (drop 1 actv) dst'))"

definition sync_partition :: "nat \<Rightarrow> nat \<Rightarrow> nat \<Rightarrow> CircularMasterColumn \<Rightarrow> CircularMasterColumn result" where
  "sync_partition inactive i j col =
     rbind (at_idx (master_versions col) inactive) (\<lambda>msrc.
     rbind (at_idx msrc j) (\<lambda>csrc.
     rbind (at_idx (master_versions col ! i) j) (\<lambda>cdst.
     rbind (rassert (length csrc = length cdst) ''sizes of the chunk vectors agree'') (\<lambda>_.
     rbind (rassert (length cdst = 1) ''Expandable memory not supported'') (\<lambda>_.
     rbind (rassert (dc_size (cdst ! 0) = dc_size (csrc ! 0)) ''dst.size == src.size'') (\<lambda>_.
     rbind (at_idx (snapshot_arenas col) j) (\<lambda>snap.
     if numOfRecords snap = 0 \<or> \<not> upd_since_last_snapshot snap then Inr col
     else rbind (at_idx (upd_bit_masks col) inactive) (\<lambda>us.
          rbind (at_idx us j) (\<lambda>smasks.
          rbind (at_idx (upd_bit_masks col) i) (\<lambda>ua.
          rbind (at_idx ua j) (\<lambda>amasks.
          rbind (sync_masks (unit_size col) (numOfRecords snap) (csrc ! 0) 0 smasks amasks (cdst ! 0)) (\<lambda>dst'.
          Inr (set_chunks i j [dst'] col)))))))))))))"

definition cm_syncSnapshot :: "master_version_t \<Rightarrow> CircularMasterColumn \<Rightarrow> CircularMasterColumn result" where
  "cm_syncSnapshot inactive_master_idx col =
     rbind (rassert (length (master_versions col) > 1) ''num_master_versions > 1'') (\<lambda>_.
       rfold (\<lambda>i col.
         if i = unat inactive_master_idx then Inr col
         else rfold (sync_partition (unat inactive_master_idx) i) [0..<unat (n_partitions col)] col)
       [0..<length (master_versions col)] col)"

section \<open>Invariant and dirty sets\<close>

definition packs_ok :: "nat \<Rightarrow> bitset list \<Rightarrow> bool" where
  "packs_ok cap packs \<longleftrightarrow>
     cap \<le> BIT_PACK_SIZE * length packs \<and> (\<forall>b\<in>set packs. length b = numberOfBlocks BIT_PACK_SIZE)"

definition dirty :: "bitset list \<Rightarrow> nat set" where
  "dirty packs = {i. i < BIT_PACK_SIZE * length packs \<and>
                     i mod BIT_PACK_SIZE \<in> bits_of (packs ! (i div BIT_PACK_SIZE))}"

definition cm_inv :: "CircularMasterColumn \<Rightarrow> bool" where
  "cm_inv col \<longleftrightarrow>
     unat (n_partitions col) \<le> length (cm_touched col) \<and>
     length (upd_bit_masks col) = length (master_versions col) \<and>
     (\<forall>m < length (master_versions col).
        unat (n_partitions col) \<le> length (master_versions col ! m) \<and>
        unat (n_partitions col) \<le> length (upd_bit_masks col ! m) \<and>
        (\<forall>j < unat (n_partitions col).
           chunk_vec (unat (unit_size col)) (unat (capacity_per_partition col)) (master_versions col ! m ! j) \<and>
           packs_ok (unat (capacity_per_partition col)) (upd_bit_masks col ! m ! j)))"

definition cm_row_ok :: "CircularMasterColumn \<Rightarrow> rowid_t \<Rightarrow> bool" where
  "cm_row_ok col vid \<longleftrightarrow> row_ok col vid \<and> unat (get_m_version vid) < length (master_versions col)"

definition same_master_row :: "rowid_t \<Rightarrow> rowid_t \<Rightarrow> bool" where
  "same_master_row v w \<longleftrightarrow> same_row v w \<and> get_m_version v = get_m_version w"

lemma BIT_PACK_pos [simp]: "0 < BIT_PACK_SIZE"
  by (simp add: BIT_PACK_SIZE_def)

lemma numberOfBlocks_pack [simp]: "numberOfBlocks BIT_PACK_SIZE = 128"
  by (simp add: numberOfBlocks_def BIT_PACK_SIZE_def kBitsPerBlock_def)

lemma pack_idx: "i < BIT_PACK_SIZE * n \<Longrightarrow> i div BIT_PACK_SIZE < n"
  by (simp add: less_mult_imp_div_less mult.commute)

lemma pack_off: "i mod BIT_PACK_SIZE < 64 * 128"
  using mod_less_divisor [of BIT_PACK_SIZE i] by (simp add: BIT_PACK_SIZE_def)

lemma num_bit_packs_enough: "cap \<le> BIT_PACK_SIZE * num_bit_packs cap"
proof -
  have "cap mod BIT_PACK_SIZE \<le> BIT_PACK_SIZE * (cap mod BIT_PACK_SIZE)" by (simp add: BIT_PACK_SIZE_def)
  then have "BIT_PACK_SIZE * (cap div BIT_PACK_SIZE) + cap mod BIT_PACK_SIZE \<le> BIT_PACK_SIZE * num_bit_packs cap"
    unfolding num_bit_packs_def add_mult_distrib2 by (intro add_mono) simp_all
  then show ?thesis by simp
qed

lemma cm_inv_at:
  assumes "cm_inv col" "m < length (master_versions col)" "j < unat (n_partitions col)"
  shows "j < length (master_versions col ! m)" "j < length (upd_bit_masks col ! m)"
    "m < length (upd_bit_masks col)" "j < length (cm_touched col)"
    "chunk_vec (unat (unit_size col)) (unat (capacity_per_partition col)) (master_versions col ! m ! j)"
    "packs_ok (unat (capacity_per_partition col)) (upd_bit_masks col ! m ! j)"
  using assms by (auto simp: cm_inv_def)

lemma cm_row_at:
  assumes "cm_row_ok col vid"
  shows "unat (get_m_version vid) < length (master_versions col)"
    "unat (get_pid vid) < unat (n_partitions col)"
    "unat (get_offset vid) < unat (capacity_per_partition col)"
  using assms by (simp_all add: cm_row_ok_def row_ok_def word_less_nat_alt)

lemma read_first_cell:
  assumes "chunk_vec (unat usize) n cs" and "unat offset < n"
  shows "read_first cs (offset * usize) usize = Inr (cell (unat usize) cs (unat offset))"
proof -
  obtain c where "cs = [c]" using assms(1) by (auto simp: chunk_vec_def)
  moreover from this have "read_first cs (offset * usize) usize = read_chunks cs (offset * usize) usize"
    by simp
  ultimately show ?thesis using read_chunks_cell [OF assms] by simp
qed

lemma cm_getElem_cell:
  assumes "cm_inv col" "cm_row_ok col vid"
  shows "cm_getElem col vid = Inr (cell (unat (unit_size col))
    (master_versions col ! unat (get_m_version vid) ! unat (get_pid vid)) (unat (get_offset vid)))"
proof -
  note R = cm_row_at [OF assms(2)]
  note I = cm_inv_at [OF assms(1) R(1,2)]
  have "master_versions col ! unat (get_m_version vid) ! unat (get_pid vid) \<noteq> []"
    using I(5) by (auto simp: chunk_vec_def)
  then show ?thesis
    using R(1) I(1) read_first_cell [OF I(5) R(3)] by (simp add: cm_getElem_def at_part_def Let_def)
qed

lemma mark_dirty_ok:
  assumes "m < length (upd_bit_masks col)" "p < length (upd_bit_masks col ! m)"
    "packs_ok cap (upd_bit_masks col ! m ! p)" "offset < cap"
  obtains packs' where
    "mark_dirty m p offset col =
       Inr (col\<lparr>upd_bit_masks := (upd_bit_masks col)[m := (upd_bit_masks col ! m)[p := packs']]\<rparr>)"
    "packs_ok cap packs'" "dirty packs' = insert offset (dirty (upd_bit_masks col ! m ! p))"
proof -
  let ?packs = "upd_bit_masks col ! m ! p"
  let ?q = "offset div BIT_PACK_SIZE" and ?r = "offset mod BIT_PACK_SIZE"
  have q: "?q < length ?packs"
    using assms(3,4) by (intro pack_idx) (simp add: packs_ok_def)
  have len: "length (?packs ! ?q) = 128" using assms(3) nth_mem [OF q] by (simp add: packs_ok_def)
  obtain b where b: "bs_set BIT_PACK_SIZE ?r (?packs ! ?q) = Inr (?r \<in> bits_of (?packs ! ?q), b)"
    "bits_of b = insert ?r (bits_of (?packs ! ?q))" "length b = length (?packs ! ?q)"
    using bs_set_eq [of ?r "?packs ! ?q" BIT_PACK_SIZE] len pack_off [of offset]
    by (auto simp: BIT_PACK_SIZE_def)
  let ?packs' = "?packs[?q := b]"
  have same: "i div BIT_PACK_SIZE = ?q \<Longrightarrow> (i mod BIT_PACK_SIZE = ?r) = (i = offset)" for i
    by (metis div_mult_mod_eq)
  have d: "dirty ?packs' = insert offset (dirty ?packs)"
  proof (intro set_eqI)
    fix i
    show "i \<in> dirty ?packs' \<longleftrightarrow> i \<in> insert offset (dirty ?packs)"
    proof (cases "i div BIT_PACK_SIZE = ?q")
      case True
      have "i \<in> dirty ?packs' \<longleftrightarrow> i < BIT_PACK_SIZE * length ?packs \<and>
          (i = offset \<or> i mod BIT_PACK_SIZE \<in> bits_of (?packs ! ?q))"
        using True q b(2) same by (auto simp: dirty_def)
      also have "\<dots> \<longleftrightarrow> i \<in> insert offset (dirty ?packs)"
        using True assms(3,4) by (auto simp: dirty_def packs_ok_def)
      finally show ?thesis .
    next
      case False
      then show ?thesis by (auto simp: dirty_def)
    qed
  qed
  have "packs_ok cap ?packs'"
    using assms(3) b(3) len by (auto simp: packs_ok_def dest!: set_update_subset_insert [THEN subsetD])
  moreover have "mark_dirty m p offset col =
      Inr (col\<lparr>upd_bit_masks := (upd_bit_masks col)[m := (upd_bit_masks col ! m)[p := ?packs']]\<rparr>)"
    using assms(1,2) q b(1) by (simp add: mark_dirty_def)
  ultimately show thesis using d by (intro that)
qed

lemma cm_updateElem_ok:
  assumes inv: "cm_inv col" and row: "cm_row_ok col vid" and len: "length bs = unat (unit_size col)"
  defines "m \<equiv> unat (get_m_version vid)" and "p \<equiv> unat (get_pid vid)" and "off \<equiv> unat (get_offset vid)"
  obtains cs' packs' where
    "cm_updateElem vid (Some bs) col =
      Inr (col\<lparr>master_versions := (master_versions col)[m := (master_versions col ! m)[p := cs']],
               upd_bit_masks := (upd_bit_masks col)[m := (upd_bit_masks col ! m)[p := packs']],
               cm_touched := (cm_touched col)[p := True]\<rparr>)"
    "chunk_vec (unat (unit_size col)) (unat (capacity_per_partition col)) cs'"
    "packs_ok (unat (capacity_per_partition col)) packs'"
    "dirty packs' = insert off (dirty (upd_bit_masks col ! m ! p))"
    "\<And>j. j < unat (capacity_per_partition col) \<Longrightarrow> cell (unat (unit_size col)) cs' j =
      (if j = off then bs else cell (unat (unit_size col)) (master_versions col ! m ! p) j)"
proof -
  note R = cm_row_at [OF row, folded m_def p_def off_def]
  note I = cm_inv_at [OF inv R(1,2)]
  obtain cs' where upd: "UpdateInPlace (master_versions col ! m ! p) (get_offset vid) (unit_size col) (Some bs) = Inr (True, cs')"
    "chunk_vec (unat (unit_size col)) (unat (capacity_per_partition col)) cs'"
    "\<And>j. j < unat (capacity_per_partition col) \<Longrightarrow> cell (unat (unit_size col)) cs' j =
      (if j = off then bs else cell (unat (unit_size col)) (master_versions col ! m ! p) j)"
    using UpdateInPlace_cell [OF I(5) R(3) [unfolded off_def] len] by (metis off_def)
  let ?col1 = "set_chunks m p cs' col"
  have masks: "upd_bit_masks ?col1 = upd_bit_masks col" by (simp add: set_chunks_def)
  obtain packs' where mk: "mark_dirty m p off ?col1 =
      Inr (?col1\<lparr>upd_bit_masks := (upd_bit_masks col)[m := (upd_bit_masks col ! m)[p := packs']]\<rparr>)"
    "packs_ok (unat (capacity_per_partition col)) packs'"
    "dirty packs' = insert off (dirty (upd_bit_masks col ! m ! p))"
    using mark_dirty_ok [of m ?col1 p "unat (capacity_per_partition col)" off] I(2,3,6) R(3) masks by metis
  have "get_pid vid < n_partitions col" "get_offset vid < capacity_per_partition col"
    using row by (simp_all add: cm_row_ok_def row_ok_def)
  then have "cm_updateElem vid (Some bs) col =
      Inr (col\<lparr>master_versions := (master_versions col)[m := (master_versions col ! m)[p := cs']],
               upd_bit_masks := (upd_bit_masks col)[m := (upd_bit_masks col ! m)[p := packs']],
               cm_touched := (cm_touched col)[p := True]\<rparr>)"
    using R(1) I(1,4) upd(1) mk(1)
    by (simp add: cm_updateElem_def at_part_def Let_def m_def [symmetric] p_def [symmetric] off_def [symmetric]
        set_chunks_def)
  with upd(2,3) mk(2,3) show thesis by (intro that)
qed

lemma cm_inv_upd:
  assumes inv: "cm_inv col" and m: "m < length (master_versions col)" and p: "p < unat (n_partitions col)"
    and "chunk_vec (unat (unit_size col)) (unat (capacity_per_partition col)) cs'"
    and "packs_ok (unat (capacity_per_partition col)) packs'"
  shows "cm_inv (col\<lparr>master_versions := (master_versions col)[m := (master_versions col ! m)[p := cs']],
               upd_bit_masks := (upd_bit_masks col)[m := (upd_bit_masks col ! m)[p := packs']],
               cm_touched := (cm_touched col)[p := b]\<rparr>)"
proof -
  note I = cm_inv_at [OF inv]
  show ?thesis
    unfolding cm_inv_def
  proof (intro conjI allI impI, goal_cases)
    case (3 m') then show ?case using I(1) [OF m] inv by (cases "m' = m") (simp_all add: cm_inv_def)
  next
    case (4 m') then show ?case using inv by (cases "m' = m") (simp_all add: cm_inv_def)
  next
    case (5 m' j)
    then show ?case using I(1,5) [of m' j] I(1) [OF m p] assms(4) m by (cases "m' = m"; cases "j = p") simp_all
  next
    case (6 m' j)
    then show ?case using I(2,3,6) [of m' j] I(2,3) [OF m p] assms(5) m by (cases "m' = m"; cases "j = p") simp_all
  qed (use inv in \<open>simp_all add: cm_inv_def\<close>)
qed

interpretation circular: column_store_law cm_inv "\<lambda>c. unat (unit_size c)" cm_row_ok cm_getElem cm_updateElem
  "\<lambda>_. same_master_row"
proof (unfold_locales, goal_cases)
  case (1 c v)
  note R = cm_row_at [OF 1(2)]
  show ?case using cm_getElem_cell [OF 1] length_cell [OF cm_inv_at(5) [OF 1(1) R(1,2)] R(3)] by simp
next
  case (2 c v bs)
  note R = cm_row_at [OF 2(2)]
  let ?m = "unat (get_m_version v)" and ?p = "unat (get_pid v)"
  obtain cs' packs' where upd: "cm_updateElem v (Some bs) c =
      Inr (c\<lparr>master_versions := (master_versions c)[?m := (master_versions c ! ?m)[?p := cs']],
             upd_bit_masks := (upd_bit_masks c)[?m := (upd_bit_masks c ! ?m)[?p := packs']],
             cm_touched := (cm_touched c)[?p := True]\<rparr>)" (is "_ = Inr ?c'")
    and vec: "chunk_vec (unat (unit_size c)) (unat (capacity_per_partition c)) cs'"
    and packs: "packs_ok (unat (capacity_per_partition c)) packs'"
    and cells: "\<And>j. j < unat (capacity_per_partition c) \<Longrightarrow> cell (unat (unit_size c)) cs' j =
      (if j = unat (get_offset v) then bs else cell (unat (unit_size c)) (master_versions c ! ?m ! ?p) j)"
    using cm_updateElem_ok [OF 2] by metis
  note inv' = cm_inv_upd [OF 2(1) R(1,2) vec packs]
  have valid: "cm_row_ok ?c' w = cm_row_ok c w" for w by (simp add: cm_row_ok_def row_ok_def)
  have get: "cm_getElem ?c' w = (if same_master_row v w then Inr bs else cm_getElem c w)" if w: "cm_row_ok c w" for w
  proof -
    note Rw = cm_row_at [OF w]
    have "cm_getElem ?c' w = Inr (cell (unat (unit_size c))
        (master_versions ?c' ! unat (get_m_version w) ! unat (get_pid w)) (unat (get_offset w)))"
      using cm_getElem_cell [OF inv'] w valid by simp
    then show ?thesis
      using cm_getElem_cell [OF 2(1) w] cells [OF Rw(3)] R Rw cm_inv_at(1) [OF 2(1) R(1,2)]
      by (auto simp: same_master_row_def same_row_def nth_list_update word_unat_eq_iff)
  qed
  show ?case by (intro exI [of _ ?c'] conjI upd inv' allI impI get) (simp_all add: valid)
next
  case (3 c v)
  then show ?case by (simp add: same_master_row_def same_row_def)
qed

end
