(* ===== verification/MasterSync.thy ===== *)
theory MasterSync
  imports CircularMaster
begin

text \<open>
  What the propagation loops of \<^verbatim>\<open>circular-master-column.cpp\<close> achieve: after \<open>cm_ETL\<close> the
  analytical copy holds the snapshotted records of the snapshot master, and \<open>cm_syncSnapshot\<close>
  copies to the other masters exactly the records updated in the source and not in the
  destination.
\<close>

section \<open>Copying a range of elements\<close>

lemma copy_range_cells:
  assumes src: "chunk_vec u n [src]" and dst: "chunk_vec u n [dst]" and ab: "a \<le> b" "b \<le> n"
    and st: "unat st = a * u" and len: "unat len = (b - a) * u"
  obtains dst' where "copy_range src st len dst = Inr dst'" "chunk_vec u n [dst']"
    "\<And>j. j < n \<Longrightarrow> cell u [dst'] j = (if a \<le> j \<and> j < b then cell u [src] j else cell u [dst] j)"
proof -
  let ?bs = "slice (dc_bytes src) (a * u) ((b - a) * u)"
  let ?dst' = "dst\<lparr>dc_bytes := splice_at (dc_bytes dst) (a * u) ?bs\<rparr>"
  have ls: "length (dc_bytes src) = n * u" and ld: "length (dc_bytes dst) = n * u"
    using src dst by (simp_all add: chunk_vec_def)
  have sum: "a * u + (b - a) * u = b * u" using ab(1) by (metis add_mult_distrib le_add_diff_inverse)
  have le: "b * u \<le> n * u" using ab(2) by simp
  have lb: "length ?bs = (b - a) * u" using sum le ls by simp
  have copy: "copy_range src st len dst = Inr ?dst'"
    using st len sum le ls ld lb by (simp add: copy_range_def read_chunk_def write_chunk_def)
  have vec: "chunk_vec u n [?dst']" using dst lb sum le by (simp add: chunk_vec_def)
  have nth: "dc_bytes ?dst' ! k = (if a * u \<le> k \<and> k < b * u then dc_bytes src ! k else dc_bytes dst ! k)"
    if "k < n * u" for k
    using that lb sum le ls ld by (auto simp: nth_splice_at nth_slice)
  have "cell u [?dst'] j = (if a \<le> j \<and> j < b then cell u [src] j else cell u [dst] j)" if j: "j < n" for j
  proof (rule nth_equalityI)
    note bj = elem_bound [OF j, of u]
    have ld': "length (dc_bytes ?dst') = n * u" using vec by (simp add: chunk_vec_def)
    show "length (cell u [?dst'] j) = length (if a \<le> j \<and> j < b then cell u [src] j else cell u [dst] j)"
      using bj ls ld ld' by (simp add: cell_def)
    fix k assume "k < length (cell u [?dst'] j)"
    then have k: "k < u" using bj ld' by (simp add: cell_def)
    have "a * u \<le> j * u + k \<and> j * u + k < b * u \<longleftrightarrow> a \<le> j \<and> j < b"
    proof
      assume *: "a * u \<le> j * u + k \<and> j * u + k < b * u"
      have "a * u < Suc j * u" using * k by simp
      moreover have "j * u < b * u" using * by linarith
      ultimately show "a \<le> j \<and> j < b" by (simp only: mult_less_cancel2 less_Suc_eq_le)
    next
      assume "a \<le> j \<and> j < b"
      then have "a * u \<le> j * u" "j * u + u \<le> b * u" using elem_bound [of j b u] by auto
      with k show "a * u \<le> j * u + k \<and> j * u + k < b * u" by linarith
    qed
    then show "cell u [?dst'] j ! k = (if a \<le> j \<and> j < b then cell u [src] j else cell u [dst] j) ! k"
      using nth [of "j * u + k"] k bj ls ld ld' by (auto simp: cell_def nth_slice)
  qed
  with copy vec show thesis by (intro that)
qed

section \<open>The analytical copy\<close>

lemma bs_any_dirty:
  assumes "length b = 128"
  shows "bs_any b \<longleftrightarrow> (\<exists>k<BIT_PACK_SIZE. k \<in> bits_of b)"
  using assms by (auto simp: bs_any_iff bits_of_def BIT_PACK_SIZE_def)

lemma pack_word: "k \<le> 2 ^ 63 \<Longrightarrow> unat (of_nat k :: size_t) = k"
  by (simp add: unsigned_of_nat take_bit_nat_eq_self)

lemma etl_pack:
  fixes usize :: size_t
  assumes src: "chunk_vec (unat usize) n [src]" and dst: "chunk_vec (unat usize) n [dst]"
    and u: "usize \<noteq> 0" "unat usize < 2 ^ 50" and msk: "msk * BIT_PACK_SIZE < n"
  defines "to_cpy \<equiv> of_nat BIT_PACK_SIZE * usize"
  defines "st \<equiv> of_nat msk * to_cpy"
  obtains dst' where
    "(if st + to_cpy \<le> dc_size src then copy_range src st to_cpy dst
      else copy_range src st (dc_size src - st) dst) = Inr dst'"
    "chunk_vec (unat usize) n [dst']"
    "\<And>j. j < n \<Longrightarrow> cell (unat usize) [dst'] j =
       (if j div BIT_PACK_SIZE = msk then cell (unat usize) [src] j else cell (unat usize) [dst] j)"
proof -
  let ?u = "unat usize" and ?B = BIT_PACK_SIZE
  let ?b = "min (msk * ?B + ?B) n"
  have len: "length (dc_bytes src) = n * ?u" "n * ?u < 2 ^ 63" using src by (simp_all add: chunk_vec_def)
  have mu: "msk * ?B * ?u \<le> n * ?u" using msk by simp
  have to: "unat to_cpy = ?B * ?u"
    using u(2) by (simp add: to_cpy_def unat_word_ariths BIT_PACK_SIZE_def)
  have "msk * ?B * 1 \<le> msk * ?B * ?u" using u(1) by (intro mult_le_mono2) (simp add: Suc_le_eq unat_gt_0)
  then have "msk * ?B < 2 ^ 63" using mu len by linarith
  then have "unat (of_nat msk :: size_t) = msk" by (intro pack_word) (simp add: BIT_PACK_SIZE_def)
  moreover have "msk * (?B * ?u) < 2 ^ 64" using le_less_trans [OF mu len(2)] by (simp add: mult.assoc)
  ultimately have st: "unat st = msk * ?B * ?u"
    using to by (simp add: st_def unat_word_ariths mult.assoc)
  have size: "unat (dc_size src) = n * ?u"
    using len by (simp add: dc_size_def pack_word del: of_nat_mult)
  have sum: "unat (st + to_cpy) = (msk * ?B + ?B) * ?u"
    using st to le_less_trans [OF mu len(2)] u(2) by (subst unat_add_no_wrap) (simp_all add: BIT_PACK_SIZE_def add_mult_distrib)
  have fit: "st + to_cpy \<le> dc_size src \<longleftrightarrow> msk * ?B + ?B \<le> n"
    unfolding word_le_nat_alt sum size using u(1) by (simp add: unat_gt_0)
  have rest: "unat (dc_size src - st) = (n - msk * ?B) * ?u"
    using size st mu by (subst unat_sub_no_wrap) (simp_all add: word_le_nat_alt diff_mult_distrib)
  have l: "unat (if st + to_cpy \<le> dc_size src then to_cpy else dc_size src - st) = (?b - msk * ?B) * ?u"
    using fit to rest by simp
  obtain dst' where d: "copy_range src st (if st + to_cpy \<le> dc_size src then to_cpy else dc_size src - st) dst = Inr dst'"
    "chunk_vec ?u n [dst']"
    "\<And>j. j < n \<Longrightarrow> cell ?u [dst'] j = (if msk * ?B \<le> j \<and> j < ?b then cell ?u [src] j else cell ?u [dst] j)"
    using copy_range_cells [OF src dst _ _ st l] msk by (metis min.bounded_iff le_add1 less_imp_le min.cobounded2)
  have iff: "msk * ?B \<le> j \<and> j < ?b \<longleftrightarrow> j div ?B = msk" if "j < n" for j
    using that by (auto simp: div_nat_eqI mult.commute) (metis dividend_less_times_div BIT_PACK_pos add.commute mult.commute)+
  have "(if st + to_cpy \<le> dc_size src then copy_range src st to_cpy dst
      else copy_range src st (dc_size src - st) dst) = Inr dst'" using d(1) by (simp split: if_splits)
  then show thesis by (rule that [OF _ d(2)]) (simp only: d(3) iff)
qed

lemma length_bs_reset [simp]: "length (bs_reset s) = length s"
  by (simp add: bs_reset_def)

lemma etl_masks_cells:
  fixes usize :: size_t
  assumes src: "chunk_vec (unat usize) n [src]" and u: "usize \<noteq> 0" "unat usize < 2 ^ 50"
    and olap: "unat olap \<le> n" and n: "n < 2 ^ 63"
  assumes "chunk_vec (unat usize) n [dst]" and "msk * BIT_PACK_SIZE < 2 ^ 63 + BIT_PACK_SIZE"
    and "\<forall>b\<in>set ms. length b = 128"
  shows "\<exists>ms' dst'. etl_masks usize olap src msk ms dst = Inr (ms', dst') \<and> chunk_vec (unat usize) n [dst'] \<and>
     length ms' = length ms \<and> (\<forall>b\<in>set ms'. length b = 128) \<and>
     (\<forall>j<n. cell (unat usize) [dst'] j =
       (let k = j div BIT_PACK_SIZE in
        if msk \<le> k \<and> k < msk + length ms \<and> k * BIT_PACK_SIZE < unat olap \<and> bs_any (ms ! (k - msk))
        then cell (unat usize) [src] j else cell (unat usize) [dst] j)) \<and>
     (\<forall>k<length ms. (msk + k) * BIT_PACK_SIZE < unat olap \<longrightarrow> bits_of (ms' ! k) = {})"
  using assms(6-8)
proof (induction ms arbitrary: msk dst)
  case Nil
  then show ?case by (auto simp: Let_def)
next
  case (Cons m ms)
  let ?u = "unat usize" and ?B = BIT_PACK_SIZE
  have w: "unat (of_nat (msk * ?B) :: size_t) = msk * ?B"
    using Cons.prems(2) by (simp add: unsigned_of_nat take_bit_nat_eq_self BIT_PACK_SIZE_def del: of_nat_mult)
  show ?case
  proof (cases "unat olap \<le> msk * ?B")
    case True
    then have stop: "etl_masks usize olap src msk (m # ms) dst = Inr (m # ms, dst)"
      using w by (simp add: word_le_nat_alt del: of_nat_mult)
    have "msk * ?B \<le> k * ?B" if "msk \<le> k" for k using that by simp
    then have "\<not> k * ?B < unat olap" if "msk \<le> k" for k using True that by (meson le_trans not_le)
    with stop Cons.prems show ?thesis by (auto simp: Let_def)
  next
    case False
    then have go: "msk * ?B < n" "msk * ?B < unat olap" using olap by simp_all
    obtain m' d' where step: "(if bs_any m
         then let to_cpy = of_nat ?B * usize; st = of_nat msk * to_cpy
              in rbind (if st + to_cpy \<le> dc_size src then copy_range src st to_cpy dst
                        else copy_range src st (dc_size src - st) dst) (\<lambda>dst'. Inr (bs_reset m, dst'))
         else Inr (m, dst)) = Inr (m', d')"
      and d': "chunk_vec ?u n [d']" "bits_of m' = {}" "length m' = 128"
      and c': "\<And>j. j < n \<Longrightarrow> cell ?u [d'] j =
         (if j div ?B = msk \<and> bs_any m then cell ?u [src] j else cell ?u [dst] j)"
    proof (cases "bs_any m")
      case True
      obtain d where "(let to_cpy = of_nat ?B * usize; st = of_nat msk * to_cpy
          in if st + to_cpy \<le> dc_size src then copy_range src st to_cpy dst
             else copy_range src st (dc_size src - st) dst) = Inr d" "chunk_vec ?u n [d]"
        "\<And>j. j < n \<Longrightarrow> cell ?u [d] j = (if j div ?B = msk then cell ?u [src] j else cell ?u [dst] j)"
        using etl_pack [OF src Cons.prems(1) u go(1)] unfolding Let_def by metis
      then show thesis using True Cons.prems(3) by (intro that [of "bs_reset m" d]) (simp_all add: Let_def)
    next
      case False
      then show thesis using Cons.prems by (intro that [of m dst]) (simp_all add: bs_any_iff)
    qed
    have "Suc msk * ?B < 2 ^ 63 + ?B" using go n by simp
    from Cons.IH [OF d'(1) this] Cons.prems(3) obtain ms' dst' where
      IH: "etl_masks usize olap src (Suc msk) ms d' = Inr (ms', dst')" "chunk_vec ?u n [dst']"
        "length ms' = length ms" "\<forall>b\<in>set ms'. length b = 128"
      and cells: "\<forall>j<n. cell ?u [dst'] j = (let k = j div ?B in
        if Suc msk \<le> k \<and> k < Suc msk + length ms \<and> k * ?B < unat olap \<and> bs_any (ms ! (k - Suc msk))
        then cell ?u [src] j else cell ?u [d'] j)"
      and clr: "\<forall>k<length ms. (Suc msk + k) * ?B < unat olap \<longrightarrow> bits_of (ms' ! k) = {}"
      by auto
    have run: "etl_masks usize olap src msk (m # ms) dst = Inr (m' # ms', dst')"
      using False w step IH(1) by (simp add: word_le_nat_alt del: of_nat_mult)
    have "cell ?u [dst'] j = (let k = j div ?B in
        if msk \<le> k \<and> k < msk + length (m # ms) \<and> k * ?B < unat olap \<and> bs_any ((m # ms) ! (k - msk))
        then cell ?u [src] j else cell ?u [dst] j)" if j: "j < n" for j
    proof (cases "j div ?B = msk")
      case True
      then show ?thesis using j cells c' [OF j] go(2) by (simp add: Let_def)
    next
      case False
      then show ?thesis using j cells c' [OF j] by (cases "msk \<le> j div ?B") (auto simp: Let_def nth_Cons' Suc_le_eq)
    qed
    moreover have "\<forall>k<length (m # ms). (msk + k) * ?B < unat olap \<longrightarrow> bits_of ((m' # ms') ! k) = {}"
      using clr d'(2) by (auto simp: nth_Cons' less_Suc_eq_0_disj)
    ultimately show ?thesis using run IH(2-4) d'(3) by auto
  qed
qed

lemma pack_of_dirty:
  assumes "packs_ok cap packs" and "j \<in> dirty packs"
  shows "j div BIT_PACK_SIZE < length packs" "bs_any (packs ! (j div BIT_PACK_SIZE))"
  using assms pack_idx [of j "length packs"] by (auto simp: dirty_def bs_any_iff)

definition snapshot_master :: "CircularMasterColumn \<Rightarrow> nat \<Rightarrow> data_chunk list" where
  "snapshot_master col i = master_versions col ! unat (arena_master_ver (snapshot_arenas col ! i)) ! i"

definition snapshot_masks :: "CircularMasterColumn \<Rightarrow> nat \<Rightarrow> bitset list" where
  "snapshot_masks col i = upd_bit_masks col ! unat (arena_master_ver (snapshot_arenas col ! i)) ! i"

text \<open>
  When the copy of partition \<open>i\<close> can be refreshed: its memory is as large as a master, the
  record counts grow, and a record it got earlier still agrees with the master or is marked
  as updated.
\<close>

definition etl_ready :: "nat \<Rightarrow> CircularMasterColumn \<Rightarrow> bool" where
  "etl_ready i col \<longleftrightarrow>
     i < length (snapshot_arenas col) \<and> i < length (etl_arenas col) \<and> i < length (readonly_etl_snapshot col) \<and>
     unat (arena_master_ver (snapshot_arenas col ! i)) < length (master_versions col) \<and>
     chunk_vec (unat (unit_size col)) (unat (capacity_per_partition col)) (readonly_etl_snapshot col ! i) \<and>
     numOfRecords (etl_arenas col ! i) \<le> numOfRecords (snapshot_arenas col ! i) \<and>
     numOfRecords (snapshot_arenas col ! i) \<le> capacity_per_partition col \<and>
     (\<forall>j < unat (numOfRecords (etl_arenas col ! i)).
        cell (unat (unit_size col)) (readonly_etl_snapshot col ! i) j =
          cell (unat (unit_size col)) (snapshot_master col i) j \<or>
        upd_since_last_snapshot (snapshot_arenas col ! i) \<and> j \<in> dirty (snapshot_masks col i))"

text \<open>The copy of partition \<open>i\<close> is the snapshot.\<close>

definition etl_fresh :: "nat \<Rightarrow> CircularMasterColumn \<Rightarrow> bool" where
  "etl_fresh i col \<longleftrightarrow>
     etl_arenas col ! i = (snapshot_arenas col ! i)\<lparr>upd_since_last_snapshot := False\<rparr> \<and>
     (\<forall>j < unat (numOfRecords (snapshot_arenas col ! i)).
        cell (unat (unit_size col)) (readonly_etl_snapshot col ! i) j =
          cell (unat (unit_size col)) (snapshot_master col i) j)"

lemma etl_fill:
  fixes usize nrec olap :: size_t
  assumes src: "chunk_vec (unat usize) n [src]" and dst: "chunk_vec (unat usize) n [dst]"
    and le: "olap \<le> nrec" "unat nrec \<le> n"
    and old: "\<forall>j<unat olap. cell (unat usize) [dst] j = cell (unat usize) [src] j"
  shows "\<exists>dst'. (if nrec > olap then copy_range src (olap * usize) ((nrec - olap) * usize) dst else Inr dst) = Inr dst' \<and>
     chunk_vec (unat usize) n [dst'] \<and>
     (\<forall>j<unat nrec. cell (unat usize) [dst'] j = cell (unat usize) [src] j)"
proof (cases "nrec > olap")
  case False
  then show ?thesis using le dst old by simp
next
  case True
  let ?u = "unat usize"
  have nu: "n * ?u < 2 ^ 64" using src by (simp add: chunk_vec_def)
  have le': "unat olap \<le> unat nrec" using le(1) by (simp add: word_le_nat_alt)
  have b: "unat nrec * ?u \<le> n * ?u" "unat olap * ?u \<le> unat nrec * ?u" using le(2) le' by simp_all
  have diff: "unat (nrec - olap) = unat nrec - unat olap" using le(1) by (simp add: unat_sub_no_wrap)
  have st: "unat (olap * usize) = unat olap * ?u"
    using le_less_trans [OF b(2) le_less_trans [OF b(1) nu]] by (simp add: unat_word_ariths)
  have "(unat nrec - unat olap) * ?u \<le> unat nrec * ?u" by (simp add: diff_mult_distrib)
  from le_less_trans [OF this le_less_trans [OF b(1) nu]]
  have len: "unat ((nrec - olap) * usize) = (unat nrec - unat olap) * ?u"
    using diff by (simp add: unat_word_ariths)
  obtain dst' where "copy_range src (olap * usize) ((nrec - olap) * usize) dst = Inr dst'" "chunk_vec ?u n [dst']"
    "\<And>j. j < n \<Longrightarrow> cell ?u [dst'] j = (if unat olap \<le> j \<and> j < unat nrec then cell ?u [src] j else cell ?u [dst] j)"
    using copy_range_cells [OF src dst le' le(2) st len] by blast
  then show ?thesis using True old le(2) by (intro exI [of _ dst']) auto
qed

lemma etl_refresh:
  fixes usize nrec olap :: size_t
  assumes src: "chunk_vec (unat usize) n [src]" and dst: "chunk_vec (unat usize) n [dst]"
    and u: "usize \<noteq> 0" "unat usize < 2 ^ 50" and le: "olap \<le> nrec" "unat nrec \<le> n" and packs: "packs_ok n masks"
    and old: "\<forall>j<unat olap. cell (unat usize) [dst] j = cell (unat usize) [src] j \<or> upd \<and> j \<in> dirty masks"
  shows "\<exists>masks' dst' dst''.
     (if upd then etl_masks usize olap src 0 masks dst else Inr (masks, dst)) = Inr (masks', dst') \<and>
     (if nrec > olap then copy_range src (olap * usize) ((nrec - olap) * usize) dst' else Inr dst') = Inr dst'' \<and>
     packs_ok n masks' \<and> chunk_vec (unat usize) n [dst''] \<and>
     (\<forall>j<unat nrec. cell (unat usize) [dst''] j = cell (unat usize) [src] j)"
proof -
  let ?u = "unat usize"
  have olap: "unat olap \<le> n" using le by (simp add: word_le_nat_alt)
  have "n * 1 \<le> n * ?u" using u(1) by (intro mult_le_mono2) (simp add: Suc_le_eq unat_gt_0)
  moreover have "n * ?u < 2 ^ 63" using src by (simp add: chunk_vec_def)
  ultimately have n: "n < 2 ^ 63" by linarith
  have "\<exists>masks' dst'. (if upd then etl_masks usize olap src 0 masks dst else Inr (masks, dst)) = Inr (masks', dst') \<and>
     packs_ok n masks' \<and> chunk_vec ?u n [dst'] \<and> (\<forall>j<unat olap. cell ?u [dst'] j = cell ?u [src] j)"
  proof (cases upd)
    case False
    then show ?thesis using old dst packs by simp
  next
    case True
    have b: "\<forall>b\<in>set masks. length b = 128" using packs by (simp add: packs_ok_def)
    obtain masks' dst' where e: "etl_masks usize olap src 0 masks dst = Inr (masks', dst')" "chunk_vec ?u n [dst']"
      "length masks' = length masks" "\<forall>b\<in>set masks'. length b = 128"
      and c: "\<forall>j<n. cell ?u [dst'] j = (let k = j div BIT_PACK_SIZE in
        if 0 \<le> k \<and> k < 0 + length masks \<and> k * BIT_PACK_SIZE < unat olap \<and> bs_any (masks ! (k - 0))
        then cell ?u [src] j else cell ?u [dst] j)"
      using etl_masks_cells [OF src u olap n dst _ b, of 0] by auto
    have "cell ?u [dst'] j = cell ?u [src] j" if j: "j < unat olap" for j
    proof -
      have "j div BIT_PACK_SIZE * BIT_PACK_SIZE < unat olap" using j div_times_less_eq_dividend le_less_trans by blast
      then show ?thesis using c old j olap pack_of_dirty [OF packs, of j] by (auto simp: Let_def)
    qed
    moreover have "packs_ok n masks'" using packs e(3,4) by (simp add: packs_ok_def)
    ultimately show ?thesis using True e(1,2) by auto
  qed
  then obtain masks' dst' where m: "(if upd then etl_masks usize olap src 0 masks dst else Inr (masks, dst)) = Inr (masks', dst')"
    "packs_ok n masks'" and d: "chunk_vec ?u n [dst']" "\<forall>j<unat olap. cell ?u [dst'] j = cell ?u [src] j"
    by blast
  from etl_fill [OF src d(1) le d(2)] m show ?thesis by blast
qed

lemma metadata_clear:
  "(s :: metadata)\<lparr>upd_since_last_snapshot := False\<rparr> =
     \<lparr>numOfRecords = numOfRecords s, epoch_id = epoch_id s, arena_master_ver = arena_master_ver s,
      arena_partition_id = arena_partition_id s, upd_since_last_snapshot = False\<rparr>"
  by (cases s) simp

lemma etl_partition_fresh:
  assumes inv: "cm_inv col" and i: "i < unat (n_partitions col)" and rdy: "etl_ready i col"
    and u: "unit_size col \<noteq> 0" "unat (unit_size col) < 2 ^ 50"
  obtains masks' cs' where
    "etl_partition i col = Inr (col\<lparr>
       etl_arenas := (etl_arenas col)[i := (snapshot_arenas col ! i)\<lparr>upd_since_last_snapshot := False\<rparr>],
       upd_bit_masks := (let m = unat (arena_master_ver (snapshot_arenas col ! i))
                         in (upd_bit_masks col)[m := (upd_bit_masks col ! m)[i := masks']]),
       readonly_etl_snapshot := (readonly_etl_snapshot col)[i := cs']\<rparr>)"
    "packs_ok (unat (capacity_per_partition col)) masks'"
    "chunk_vec (unat (unit_size col)) (unat (capacity_per_partition col)) cs'"
    "\<forall>j < unat (numOfRecords (snapshot_arenas col ! i)).
        cell (unat (unit_size col)) cs' j = cell (unat (unit_size col)) (snapshot_master col i) j"
proof -
  let ?snap = "snapshot_arenas col ! i" and ?olap = "etl_arenas col ! i"
  let ?m = "unat (arena_master_ver ?snap)" and ?u = "unat (unit_size col)" and ?n = "unat (capacity_per_partition col)"
  have R: "i < length (snapshot_arenas col)" "i < length (etl_arenas col)" "i < length (readonly_etl_snapshot col)"
    "?m < length (master_versions col)" "chunk_vec ?u ?n (readonly_etl_snapshot col ! i)"
    "numOfRecords ?olap \<le> numOfRecords ?snap" "unat (numOfRecords ?snap) \<le> ?n"
    using rdy by (simp_all add: etl_ready_def word_le_nat_alt)
  note I = cm_inv_at [OF inv R(4) i]
  obtain src where src: "master_versions col ! ?m ! i = [src]" using I(5) by (auto simp: chunk_vec_def)
  obtain dst where dst: "readonly_etl_snapshot col ! i = [dst]" using R(5) by (auto simp: chunk_vec_def)
  let ?masks = "upd_bit_masks col ! ?m ! i"
  have old: "\<forall>j<unat (numOfRecords ?olap). cell ?u [dst] j = cell ?u [src] j \<or>
      upd_since_last_snapshot ?snap \<and> j \<in> dirty ?masks"
    using rdy src dst by (simp add: etl_ready_def snapshot_master_def snapshot_masks_def)
  obtain masks' dst' dst'' where
    e: "(if upd_since_last_snapshot ?snap then etl_masks (unit_size col) (numOfRecords ?olap) src 0 ?masks dst
         else Inr (?masks, dst)) = Inr (masks', dst')"
      "(if numOfRecords ?snap > numOfRecords ?olap
        then copy_range src (numOfRecords ?olap * unit_size col)
          ((numOfRecords ?snap - numOfRecords ?olap) * unit_size col) dst' else Inr dst') = Inr dst''"
      "packs_ok ?n masks'" "chunk_vec ?u ?n [dst'']"
      "\<forall>j<unat (numOfRecords ?snap). cell ?u [dst''] j = cell ?u [src] j"
    using etl_refresh [OF I(5) [unfolded src] R(5) [unfolded dst] u R(6,7) I(6) old] by blast
  have "etl_partition i col = Inr (col\<lparr>
       etl_arenas := (etl_arenas col)[i := ?snap\<lparr>upd_since_last_snapshot := False\<rparr>],
       upd_bit_masks := (let m = ?m in (upd_bit_masks col)[m := (upd_bit_masks col ! m)[i := masks']]),
       readonly_etl_snapshot := (readonly_etl_snapshot col)[i := [dst'']]\<rparr>)"
    using R(1-4) I(1-3) src dst e(1,2)
    by (simp add: etl_partition_def Let_def create_snapshot_def metadata_clear cong: if_cong)
  moreover have "\<forall>j<unat (numOfRecords ?snap). cell ?u [dst''] j = cell ?u (snapshot_master col i) j"
    using e(5) src by (simp add: snapshot_master_def)
  ultimately show thesis using e(3,4) by (intro that [of "[dst'']" masks'])
qed

lemma etl_partition_step:
  assumes inv: "cm_inv col" and i: "i < unat (n_partitions col)" and rdy: "etl_ready i col"
    and u: "unit_size col \<noteq> 0" "unat (unit_size col) < 2 ^ 50"
  shows "\<exists>col'. etl_partition i col = Inr col' \<and> cm_inv col' \<and> etl_fresh i col' \<and>
     n_partitions col' = n_partitions col \<and> unit_size col' = unit_size col \<and>
     master_versions col' = master_versions col \<and> snapshot_arenas col' = snapshot_arenas col \<and>
     (\<forall>k. k \<noteq> i \<longrightarrow> etl_ready k col' = etl_ready k col \<and> etl_fresh k col' = etl_fresh k col)"
proof -
  let ?m = "unat (arena_master_ver (snapshot_arenas col ! i))"
  let ?a = "(snapshot_arenas col ! i)\<lparr>upd_since_last_snapshot := False\<rparr>"
  obtain masks' cs' where e: "etl_partition i col = Inr (col\<lparr>etl_arenas := (etl_arenas col)[i := ?a],
       upd_bit_masks := (upd_bit_masks col)[?m := (upd_bit_masks col ! ?m)[i := masks']],
       readonly_etl_snapshot := (readonly_etl_snapshot col)[i := cs']\<rparr>)" (is "_ = Inr ?col'")
    and masks': "packs_ok (unat (capacity_per_partition col)) masks'"
    and cells: "\<forall>j < unat (numOfRecords (snapshot_arenas col ! i)).
        cell (unat (unit_size col)) cs' j = cell (unat (unit_size col)) (snapshot_master col i) j"
    using etl_partition_fresh [OF inv i rdy u] unfolding Let_def by metis
  have R: "i < length (etl_arenas col)" "i < length (readonly_etl_snapshot col)" "?m < length (master_versions col)"
    using rdy by (simp_all add: etl_ready_def)
  note I = cm_inv_at [OF inv]
  have "cm_inv ?col'"
    unfolding cm_inv_def
  proof (intro conjI allI impI, goal_cases)
    case (4 m') then show ?case using inv by (cases "m' = ?m") (simp_all add: cm_inv_def)
  next
    case (6 m' j)
    then show ?case using I(2,3,6) [of m' j] I(2,3) [OF R(3) i] masks' by (cases "m' = ?m"; cases "j = i") simp_all
  qed (use inv in \<open>simp_all add: cm_inv_def\<close>)
  moreover have "etl_fresh i ?col'"
    using cells R(1,2) by (simp add: etl_fresh_def snapshot_master_def)
  moreover have "snapshot_masks ?col' k = snapshot_masks col k" if "k \<noteq> i" for k
    using that I(3) [OF R(3) i]
    by (cases "unat (arena_master_ver (snapshot_arenas col ! k)) = ?m") (simp_all add: snapshot_masks_def)
  then have "etl_ready k ?col' = etl_ready k col \<and> etl_fresh k ?col' = etl_fresh k col" if "k \<noteq> i" for k
    using that by (simp add: etl_ready_def etl_fresh_def snapshot_master_def)
  ultimately show ?thesis using e by (intro exI [of _ ?col'] conjI allI impI) simp_all
qed

lemma cm_ETL_prefix:
  assumes "cm_inv col" "k \<le> unat (n_partitions col)" "\<forall>i<unat (n_partitions col). etl_ready i col"
    "unit_size col \<noteq> 0" "unat (unit_size col) < 2 ^ 50"
  shows "\<exists>col'. rfold etl_partition [0..<k] col = Inr col' \<and> cm_inv col' \<and> (\<forall>i<k. etl_fresh i col') \<and>
     n_partitions col' = n_partitions col \<and> unit_size col' = unit_size col \<and>
     master_versions col' = master_versions col \<and> snapshot_arenas col' = snapshot_arenas col \<and>
     (\<forall>i\<ge>k. i < unat (n_partitions col) \<longrightarrow> etl_ready i col')"
  using assms(2)
proof (induction k)
  case 0
  then show ?case using assms by simp
next
  case (Suc k)
  then obtain c where c: "rfold etl_partition [0..<k] col = Inr c" "cm_inv c" "\<forall>i<k. etl_fresh i c"
    "n_partitions c = n_partitions col" "unit_size c = unit_size col"
    "master_versions c = master_versions col" "snapshot_arenas c = snapshot_arenas col"
    "\<forall>i\<ge>k. i < unat (n_partitions col) \<longrightarrow> etl_ready i c" by auto
  from etl_partition_step [OF c(2), of k] c(4,5,8) Suc.prems assms(4,5)
  obtain c' where c': "etl_partition k c = Inr c'" "cm_inv c'" "etl_fresh k c'" "n_partitions c' = n_partitions c"
    "unit_size c' = unit_size c" "master_versions c' = master_versions c" "snapshot_arenas c' = snapshot_arenas c"
    "\<forall>i. i \<noteq> k \<longrightarrow> etl_ready i c' = etl_ready i c \<and> etl_fresh i c' = etl_fresh i c" by auto
  have "rfold etl_partition [0..<Suc k] col = Inr c'" using c(1) c'(1) by (simp add: rfold_append)
  moreover have "\<forall>i<Suc k. etl_fresh i c'" using c(3) c'(3,8) by (metis less_SucE nat_neq_iff)
  moreover have "\<forall>i\<ge>Suc k. i < unat (n_partitions col) \<longrightarrow> etl_ready i c'" using c(8) c'(8) by simp
  ultimately show ?case using c c' by auto
qed

text \<open>
  The flag is the one of the last snapshot: updates made before it and after the last refresh
  are not copied when the last snapshot has the flag off.
\<close>

lemma etl_partition_unflagged:
  assumes "etl_partition i col = Inr col'" "\<not> upd_since_last_snapshot (snapshot_arenas col ! i)"
    and "numOfRecords (snapshot_arenas col ! i) \<le> numOfRecords (etl_arenas col ! i)"
  shows "readonly_etl_snapshot col' = readonly_etl_snapshot col"
  using assms
  by (auto simp: etl_partition_def Let_def rbind_eq_Inr_iff at_idx_eq_Inr_iff list_update_same_conv split: if_splits)

text \<open>
  C25. ETL: if every partition is ready, \<open>cm_ETL\<close> succeeds, leaves the masters alone, and afterwards
  the copy of every partition agrees with the snapshot master on all snapshotted records, with the
  metadata of the snapshot. A partition is ready if its analytical copy differs from the snapshot
  master only at records marked as updated, and, if there is any such record, the flag
  \<^verbatim>\<open>upd_since_last_snapshot\<close> of the last snapshot is set; without the flag the marked records are
  not copied.
\<close>

theorem etl_refreshes_copy:
  assumes "cm_inv col" and "\<forall>i<unat (n_partitions col). etl_ready i col"
    and "unit_size col \<noteq> 0" and "unat (unit_size col) < 2 ^ 50"
  shows "\<exists>col'. cm_ETL col = Inr col' \<and> cm_inv col' \<and>
     master_versions col' = master_versions col \<and> snapshot_arenas col' = snapshot_arenas col \<and>
     (\<forall>i<unat (n_partitions col). etl_fresh i col')"
  using cm_ETL_prefix [OF assms(1) order_refl assms(2-4)] unfolding cm_ETL_def by blast

section \<open>Propagation to the other masters\<close>

lemma sync_elem_cell:
  fixes usize :: size_t
  assumes src: "chunk_vec (unat usize) n [src]" and dst: "chunk_vec (unat usize) n [dst]"
    and u: "usize \<in> {1, 2, 4, 8}" and i: "i < n"
  obtains dst' where "sync_elem usize src i dst = Inr dst'" "chunk_vec (unat usize) n [dst']"
    "\<And>j. j < n \<Longrightarrow> cell (unat usize) [dst'] j =
       (if j = i then cell (unat usize) [src] j else cell (unat usize) [dst] j)"
proof -
  let ?u = "unat usize"
  have u1: "1 \<le> ?u" using u by auto
  have len: "length (dc_bytes src) = n * ?u" "length (dc_bytes dst) = n * ?u" "n * ?u < 2 ^ 63"
    using src dst by (simp_all add: chunk_vec_def)
  have b: "i * ?u + ?u \<le> n * ?u" using elem_bound [OF i] .
  have "i * 1 \<le> i * ?u" using u1 by (rule mult_le_mono2)
  then have "i < 2 ^ 63" using b len(3) by linarith
  then have "unat (of_nat i :: size_t) = i" by (simp add: pack_word)
  moreover have "i * ?u < 2 ^ 64" using b len(3) by simp
  ultimately have idx: "unat (of_nat i * usize) = i * ?u" by (simp add: unat_word_ariths)
  have size: "unat (dc_size src) = n * ?u" "unat (dc_size dst) = n * ?u"
    using len by (simp_all add: dc_size_def pack_word del: of_nat_mult)
  have "i * ?u < n * ?u" using b u1 by linarith
  then have "of_nat i * usize < dc_size dst" "of_nat i * usize < dc_size src"
    unfolding word_less_nat_alt idx size by - assumption+
  then have "sync_elem usize src i dst = copy_range src (of_nat i * usize) usize dst"
    using u by (simp add: sync_elem_def Let_def)
  moreover obtain dst' where "copy_range src (of_nat i * usize) usize dst = Inr dst'" "chunk_vec ?u n [dst']"
    "\<And>j. j < n \<Longrightarrow> cell ?u [dst'] j = (if i \<le> j \<and> j < i + 1 then cell ?u [src] j else cell ?u [dst] j)"
    using copy_range_cells [OF src dst, of i "i + 1" "of_nat i * usize" usize] idx i by auto
  ultimately show thesis by (intro that [of dst']) (auto simp: le_less_Suc_eq)
qed

lemma sync_bits_cells:
  fixes usize nrec :: size_t
  assumes src: "chunk_vec (unat usize) n [src]" and u: "usize \<in> {1, 2, 4, 8}"
    and nrec: "msk * BIT_PACK_SIZE < 2 ^ 63"
    and s: "length s = 128" "\<forall>k\<in>bits_of s. msk * BIT_PACK_SIZE + k < n" and a: "length a = 128"
  assumes "chunk_vec (unat usize) n [dst]" and "sorted bbs" "set bbs \<subseteq> {..<BIT_PACK_SIZE}"
  shows "\<exists>dst'. sync_bits usize nrec src msk s a bbs dst = Inr dst' \<and> chunk_vec (unat usize) n [dst'] \<and>
     (\<forall>j<n. cell (unat usize) [dst'] j =
       (if (\<exists>k\<in>set bbs. j = msk * BIT_PACK_SIZE + k \<and> j \<le> unat nrec \<and> k \<in> bits_of s \<and> k \<notin> bits_of a)
        then cell (unat usize) [src] j else cell (unat usize) [dst] j))"
  using assms(7-9)
proof (induction bbs arbitrary: dst)
  case Nil
  then show ?case by simp
next
  case (Cons b bbs)
  let ?u = "unat usize" and ?i = "msk * BIT_PACK_SIZE + b"
  have bB: "b < BIT_PACK_SIZE" using Cons.prems(3) by simp
  then have w: "unat (of_nat ?i :: size_t) = ?i"
    using nrec by (simp add: unsigned_of_nat take_bit_nat_eq_self BIT_PACK_SIZE_def del: of_nat_mult of_nat_add)
  have cmp: "(of_nat ?i > nrec) = (?i > unat nrec)" unfolding word_less_nat_alt w ..
  show ?case
  proof (cases "?i > unat nrec")
    case True
    then have "\<forall>k\<in>set (b # bbs). \<not> msk * BIT_PACK_SIZE + k \<le> unat nrec"
      using Cons.prems(2) by auto
    moreover have "sync_bits usize nrec src msk s a (b # bbs) dst = Inr dst"
      using True cmp by (simp add: Let_def)
    ultimately show ?thesis using Cons.prems(1) by (intro exI [of _ dst]) auto
  next
    case False
    have t: "bs_test BIT_PACK_SIZE b s = Inr (b \<in> bits_of s)" "bs_test BIT_PACK_SIZE b a = Inr (b \<in> bits_of a)"
      using bB s(1) a by (simp_all add: bs_test_eq BIT_PACK_SIZE_def)
    let ?do = "b \<in> bits_of s \<and> b \<notin> bits_of a"
    obtain d where d: "(if ?do then sync_elem usize src ?i dst else Inr dst) = Inr d" "chunk_vec ?u n [d]"
      "\<And>j. j < n \<Longrightarrow> cell ?u [d] j = (if j = ?i \<and> ?do then cell ?u [src] j else cell ?u [dst] j)"
    proof (cases ?do)
      case True
      then have "?i < n" using s(2) by blast
      from sync_elem_cell [OF src Cons.prems(1) u this] obtain d where "sync_elem usize src ?i dst = Inr d"
        "chunk_vec ?u n [d]" "\<And>j. j < n \<Longrightarrow> cell ?u [d] j = (if j = ?i then cell ?u [src] j else cell ?u [dst] j)"
        by blast
      then show thesis using True by (intro that [of d]) auto
    qed (use Cons.prems(1) in \<open>auto intro: that [of dst]\<close>)
    from Cons.IH [OF d(2)] Cons.prems(2,3) obtain dst' where
      IH: "sync_bits usize nrec src msk s a bbs d = Inr dst'" "chunk_vec ?u n [dst']"
      "\<forall>j<n. cell ?u [dst'] j =
       (if (\<exists>k\<in>set bbs. j = msk * BIT_PACK_SIZE + k \<and> j \<le> unat nrec \<and> k \<in> bits_of s \<and> k \<notin> bits_of a)
        then cell ?u [src] j else cell ?u [d] j)" by auto
    have run: "sync_bits usize nrec src msk s a (b # bbs) dst = Inr dst'"
      using False cmp t d(1) IH(1) by (simp add: Let_def)
    have "cell ?u [dst'] j =
       (if (\<exists>k\<in>set (b # bbs). j = msk * BIT_PACK_SIZE + k \<and> j \<le> unat nrec \<and> k \<in> bits_of s \<and> k \<notin> bits_of a)
        then cell ?u [src] j else cell ?u [dst] j)" if "j < n" for j
      using that IH(3) d(3) [OF that] False by (cases "j = ?i \<and> ?do") auto
    with run IH(2) show ?thesis by blast
  qed
qed

lemma sync_masks_cells:
  fixes usize nrec :: size_t
  assumes src: "chunk_vec (unat usize) n [src]" and u: "usize \<in> {1, 2, 4, 8}" and nrec: "unat nrec < 2 ^ 31 - BIT_PACK_SIZE"
  assumes "chunk_vec (unat usize) n [dst]" and "length ss \<le> length as"
    and "\<forall>b\<in>set ss. length b = 128" "\<forall>b\<in>set as. length b = 128"
    and "\<forall>m<length ss. \<forall>k\<in>bits_of (ss ! m). (msk + m) * BIT_PACK_SIZE + k < n"
    and "msk * BIT_PACK_SIZE < 2 ^ 31"
  shows "\<exists>dst'. sync_masks usize nrec src msk ss as dst = Inr dst' \<and> chunk_vec (unat usize) n [dst'] \<and>
     (\<forall>j<n. cell (unat usize) [dst'] j =
       (let m = j div BIT_PACK_SIZE - msk; k = j mod BIT_PACK_SIZE in
        if msk \<le> j div BIT_PACK_SIZE \<and> m < length ss \<and> j \<le> unat nrec \<and>
           k \<in> bits_of (ss ! m) \<and> k \<notin> bits_of (as ! m)
        then cell (unat usize) [src] j else cell (unat usize) [dst] j))"
  using assms(4-9)
proof (induction ss arbitrary: msk dst as)
  case Nil
  then show ?case by (auto simp: Let_def)
next
  case (Cons s ss)
  let ?u = "unat usize" and ?B = BIT_PACK_SIZE
  obtain a as' where as: "as = a # as'" using Cons.prems(2) by (cases as) auto
  have w: "unat (of_nat (msk * ?B) :: size_t) = msk * ?B"
    using Cons.prems(6) by (simp add: pack_word del: of_nat_mult)
  have cmp: "(of_nat (msk * ?B) > nrec) = (msk * ?B > unat nrec)" unfolding word_less_nat_alt w ..
  show ?case
  proof (cases "msk * ?B > unat nrec")
    case True
    then have "sync_masks usize nrec src msk (s # ss) as dst = Inr dst"
      using as cmp Cons.prems(6) by simp
    moreover have "\<not> j \<le> unat nrec" if "msk \<le> j div ?B" for j
      using True that by (meson div_times_less_eq_dividend le_trans mult_le_mono1 not_le)
    ultimately show ?thesis using Cons.prems(1) by (intro exI [of _ dst]) (auto simp: Let_def)
  next
    case False
    have l: "length s = 128" "length a = 128" using Cons.prems(3,4) as by simp_all
    have sb: "bits_of s \<subseteq> {..<?B}" using l by (auto simp: bits_of_def BIT_PACK_SIZE_def)
    have in_n: "\<forall>k\<in>bits_of s. msk * ?B + k < n" using Cons.prems(5) by force
    let ?c = "\<lambda>j. j div ?B = msk \<and> j \<le> unat nrec \<and> j mod ?B \<in> bits_of s \<and> j mod ?B \<notin> bits_of a"
    obtain d where d: "(if \<not> bs_any s \<or> bs_all a then Inr dst
        else sync_bits usize nrec src msk s a [0..<?B] dst) = Inr d" "chunk_vec ?u n [d]"
      "\<And>j. j < n \<Longrightarrow> cell ?u [d] j = (if ?c j then cell ?u [src] j else cell ?u [dst] j)"
    proof (cases "\<not> bs_any s \<or> bs_all a")
      case True
      have "\<not> ?c j" for j
        using True pack_off [of j] l(2) by (auto simp: bs_any_iff bs_all_iff)
      then show thesis using True Cons.prems(1) by (intro that [of dst]) auto
    next
      case False
      have range: "set [0..<?B] \<subseteq> {..<?B}" by auto
      have "msk * ?B < 2 ^ 63" using Cons.prems(6) by simp
      from sync_bits_cells [OF src u this l(1) in_n l(2) Cons.prems(1) sorted_upt range]
      obtain d where d: "sync_bits usize nrec src msk s a [0..<?B] dst = Inr d" "chunk_vec ?u n [d]"
        "\<forall>j<n. cell ?u [d] j = (if (\<exists>k\<in>set [0..<?B]. j = msk * ?B + k \<and> j \<le> unat nrec \<and>
            k \<in> bits_of s \<and> k \<notin> bits_of a) then cell ?u [src] j else cell ?u [dst] j)" by blast
      have "(\<exists>k\<in>set [0..<?B]. j = msk * ?B + k \<and> j \<le> unat nrec \<and> k \<in> bits_of s \<and> k \<notin> bits_of a) = ?c j" for j
      proof
        assume "?c j"
        then have "j = msk * ?B + j mod ?B" by (metis div_mult_mod_eq)
        with \<open>?c j\<close> show "\<exists>k\<in>set [0..<?B]. j = msk * ?B + k \<and> j \<le> unat nrec \<and> k \<in> bits_of s \<and> k \<notin> bits_of a"
          by (intro bexI [of _ "j mod ?B"]) simp_all
      qed auto
      then show thesis using False d by (intro that [of d]) simp_all
    qed
    have "Suc msk * ?B < 2 ^ 31" using False nrec by simp
    moreover have "\<forall>m<length ss. \<forall>k\<in>bits_of (ss ! m). (Suc msk + m) * ?B + k < n"
      using Cons.prems(5) by (metis Suc_less_eq add_Suc_shift length_Cons nth_Cons_Suc)
    ultimately obtain dst' where IH: "sync_masks usize nrec src (Suc msk) ss as' d = Inr dst'" "chunk_vec ?u n [dst']"
      "\<forall>j<n. cell ?u [dst'] j =
       (let m = j div ?B - Suc msk; k = j mod ?B in
        if Suc msk \<le> j div ?B \<and> m < length ss \<and> j \<le> unat nrec \<and> k \<in> bits_of (ss ! m) \<and> k \<notin> bits_of (as' ! m)
        then cell ?u [src] j else cell ?u [d] j)"
      using Cons.IH [OF d(2), of as' "Suc msk"] Cons.prems(2-4) as by auto
    have run: "sync_masks usize nrec src msk (s # ss) as dst = Inr dst'"
      using False cmp as d(1) IH(1) Cons.prems(6) by simp
    have "cell ?u [dst'] j = (let m = j div ?B - msk; k = j mod ?B in
        if msk \<le> j div ?B \<and> m < length (s # ss) \<and> j \<le> unat nrec \<and> k \<in> bits_of ((s # ss) ! m) \<and> k \<notin> bits_of (as ! m)
        then cell ?u [src] j else cell ?u [dst] j)" if j: "j < n" for j
      using IH(3) d(3) [OF j] j as by (cases "j div ?B = msk") (auto simp: Let_def nth_Cons' Suc_le_eq)
    with run IH(2) show ?thesis by blast
  qed
qed

definition to_sync :: "CircularMasterColumn \<Rightarrow> nat \<Rightarrow> nat \<Rightarrow> nat \<Rightarrow> nat \<Rightarrow> bool" where
  "to_sync col s i j r \<longleftrightarrow>
     numOfRecords (snapshot_arenas col ! j) \<noteq> 0 \<and> upd_since_last_snapshot (snapshot_arenas col ! j) \<and>
     r \<le> unat (numOfRecords (snapshot_arenas col ! j)) \<and>
     r \<in> dirty (upd_bit_masks col ! s ! j) \<and> r \<notin> dirty (upd_bit_masks col ! i ! j)"

definition sync_ready :: "nat \<Rightarrow> CircularMasterColumn \<Rightarrow> bool" where
  "sync_ready s col \<longleftrightarrow>
     unit_size col \<in> {1, 2, 4, 8} \<and> s < length (master_versions col) \<and>
     unat (n_partitions col) \<le> length (snapshot_arenas col) \<and>
     (\<forall>j < unat (n_partitions col).
        unat (numOfRecords (snapshot_arenas col ! j)) < 2 ^ 31 - BIT_PACK_SIZE \<and>
        dirty (upd_bit_masks col ! s ! j) \<subseteq> {..<unat (capacity_per_partition col)}) \<and>
     (\<forall>i < length (master_versions col). \<forall>j < unat (n_partitions col).
        length (upd_bit_masks col ! i ! j) = length (upd_bit_masks col ! s ! j))"

lemma dirty_iff_pack:
  "r \<in> dirty packs \<longleftrightarrow> r div BIT_PACK_SIZE < length packs \<and> r mod BIT_PACK_SIZE \<in> bits_of (packs ! (r div BIT_PACK_SIZE))"
  by (simp add: dirty_def div_less_iff_less_mult mult.commute)

lemma sync_partition_ok:
  assumes inv: "cm_inv col" and rdy: "sync_ready s col" and i: "i < length (master_versions col)"
    and j: "j < unat (n_partitions col)"
  obtains cs' where "sync_partition s i j col = Inr (set_chunks i j cs' col)"
    "chunk_vec (unat (unit_size col)) (unat (capacity_per_partition col)) cs'"
    "\<forall>r < unat (capacity_per_partition col). cell (unat (unit_size col)) cs' r =
       (if to_sync col s i j r then cell (unat (unit_size col)) (master_versions col ! s ! j) r
        else cell (unat (unit_size col)) (master_versions col ! i ! j) r)"
proof -
  let ?u = "unat (unit_size col)" and ?n = "unat (capacity_per_partition col)" and ?snap = "snapshot_arenas col ! j"
  let ?ss = "upd_bit_masks col ! s ! j" and ?as = "upd_bit_masks col ! i ! j"
  have R: "unit_size col \<in> {1, 2, 4, 8}" "s < length (master_versions col)" "j < length (snapshot_arenas col)"
    "unat (numOfRecords ?snap) < 2 ^ 31 - BIT_PACK_SIZE" "dirty ?ss \<subseteq> {..<?n}" "length ?as = length ?ss"
    using rdy i j less_le_trans unfolding sync_ready_def by blast+
  note Is = cm_inv_at [OF inv R(2) j] and Ii = cm_inv_at [OF inv i j]
  obtain src where src: "master_versions col ! s ! j = [src]" using Is(5) by (auto simp: chunk_vec_def)
  obtain dst where dst: "master_versions col ! i ! j = [dst]" using Ii(5) by (auto simp: chunk_vec_def)
  have size: "dc_size dst = dc_size src"
    using Is(5) Ii(5) src dst by (simp add: chunk_vec_def dc_size_def)
  show thesis
  proof (cases "numOfRecords ?snap = 0 \<or> \<not> upd_since_last_snapshot ?snap")
    case True
    then have "sync_partition s i j col = Inr (set_chunks i j [dst] col)"
      using R(2,3) Is(1) Ii(1) i src dst size
      by (simp add: sync_partition_def set_chunks_def list_update_same_conv [THEN iffD2])
    moreover have "\<not> to_sync col s i j r" for r using True by (auto simp: to_sync_def)
    ultimately show thesis using Ii(5) dst by (intro that [of "[dst]"]) simp_all
  next
    case False
    have packs: "\<forall>b\<in>set ?ss. length b = 128" "\<forall>b\<in>set ?as. length b = 128"
      using Is(6) Ii(6) by (simp_all add: packs_ok_def)
    have bnd: "\<forall>m<length ?ss. \<forall>k\<in>bits_of (?ss ! m). (0 + m) * BIT_PACK_SIZE + k < ?n"
    proof (intro allI impI ballI)
      fix m k assume m: "m < length ?ss" and k: "k \<in> bits_of (?ss ! m)"
      have "length (?ss ! m) = 128" using packs(1) m by simp
      then have "k < BIT_PACK_SIZE" using k by (auto simp: bits_of_def BIT_PACK_SIZE_def)
      then have "m * BIT_PACK_SIZE + k \<in> dirty ?ss" using m k by (simp add: dirty_iff_pack)
      then show "(0 + m) * BIT_PACK_SIZE + k < ?n" using R(5) by auto
    qed
    obtain dst' where run: "sync_masks (unit_size col) (numOfRecords ?snap) src 0 ?ss ?as dst = Inr dst'"
      "chunk_vec ?u ?n [dst']" "\<forall>r<?n. cell ?u [dst'] r =
       (let m = r div BIT_PACK_SIZE - 0; k = r mod BIT_PACK_SIZE in
        if 0 \<le> r div BIT_PACK_SIZE \<and> m < length ?ss \<and> r \<le> unat (numOfRecords ?snap) \<and>
           k \<in> bits_of (?ss ! m) \<and> k \<notin> bits_of (?as ! m)
        then cell ?u [src] r else cell ?u [dst] r)"
      using sync_masks_cells [OF Is(5) [unfolded src] R(1,4) Ii(5) [unfolded dst] _ packs bnd] R(6) by auto
    have "sync_partition s i j col = Inr (set_chunks i j [dst'] col)"
      using False R(2,3) Is(1-3) Ii(1-3) i src dst size run(1) by (simp add: sync_partition_def)
    moreover have "\<forall>r<?n. cell ?u [dst'] r = (if to_sync col s i j r then cell ?u [src] r else cell ?u [dst] r)"
      using run(3) False R(6) by (auto simp: to_sync_def dirty_iff_pack Let_def)
    ultimately show thesis using run(2) src dst by (intro that [of "[dst']"]) simp_all
  qed
qed

text \<open>What holds while the loops run: the pairs in \<open>D\<close> are done.\<close>

definition sync_done :: "nat \<Rightarrow> (nat \<times> nat) set \<Rightarrow> CircularMasterColumn \<Rightarrow> CircularMasterColumn \<Rightarrow> bool" where
  "sync_done s D col col' \<longleftrightarrow>
     cm_inv col' \<and> (\<exists>mv. col' = col\<lparr>master_versions := mv\<rparr> \<and> length mv = length (master_versions col) \<and>
       mv ! s = master_versions col ! s) \<and>
     (\<forall>i<length (master_versions col). \<forall>j<unat (n_partitions col). \<forall>r<unat (capacity_per_partition col).
        cell (unat (unit_size col)) (master_versions col' ! i ! j) r =
          (if (i, j) \<in> D \<and> to_sync col s i j r then cell (unat (unit_size col)) (master_versions col ! s ! j) r
           else cell (unat (unit_size col)) (master_versions col ! i ! j) r))"

lemma set_chunks_inv:
  assumes "cm_inv col" "m < length (master_versions col)" "p < unat (n_partitions col)"
    "chunk_vec (unat (unit_size col)) (unat (capacity_per_partition col)) cs'"
  shows "cm_inv (set_chunks m p cs' col)"
proof -
  note I = cm_inv_at [OF assms(1-3)]
  have "set_chunks m p cs' col = col\<lparr>master_versions := (master_versions col)[m := (master_versions col ! m)[p := cs']],
               upd_bit_masks := (upd_bit_masks col)[m := (upd_bit_masks col ! m)[p := upd_bit_masks col ! m ! p]],
               cm_touched := (cm_touched col)[p := cm_touched col ! p]\<rparr>"
    by (simp add: set_chunks_def)
  also have "cm_inv \<dots>" by (rule cm_inv_upd [OF assms I(6)])
  finally show ?thesis .
qed

lemma sync_step:
  assumes P: "sync_done s D col c" and rdy: "sync_ready s col" and i: "i < length (master_versions col)" "i \<noteq> s"
    and j: "j < unat (n_partitions col)" and new: "(i, j) \<notin> D"
  shows "\<exists>c'. sync_partition s i j c = Inr c' \<and> sync_done s (insert (i, j) D) col c'"
proof -
  let ?u = "unat (unit_size col)" and ?n = "unat (capacity_per_partition col)"
  obtain mv where c: "c = col\<lparr>master_versions := mv\<rparr>" and mv: "length mv = length (master_versions col)"
    "mv ! s = master_versions col ! s" and inv: "cm_inv c" using P by (auto simp: sync_done_def)
  have cells: "cell ?u (mv ! i ! j) r = (if (i, j) \<in> D \<and> to_sync col s i j r then cell ?u (master_versions col ! s ! j) r
           else cell ?u (master_versions col ! i ! j) r)"
    if "i<length (master_versions col)" "j<unat (n_partitions col)" "r<?n" for i j r
    using P that c by (simp add: sync_done_def)
  have ts: "to_sync c s i j r = to_sync col s i j r" for r by (simp add: c to_sync_def)
  have F: "unit_size c = unit_size col" "capacity_per_partition c = capacity_per_partition col"
    "n_partitions c = n_partitions col" "master_versions c = mv" "snapshot_arenas c = snapshot_arenas col"
    "upd_bit_masks c = upd_bit_masks col" by (simp_all add: c)
  have rdy': "sync_ready s c" using rdy unfolding sync_ready_def F mv(1) .
  have ij: "i < length (master_versions c)" "j < unat (n_partitions c)" using i j by (simp_all add: F mv(1))
  obtain cs' where
    e: "sync_partition s i j c = Inr (set_chunks i j cs' c)" "chunk_vec ?u ?n cs'"
    "\<forall>r < ?n. cell ?u cs' r = (if to_sync c s i j r then cell ?u (mv ! s ! j) r else cell ?u (mv ! i ! j) r)"
    by (rule sync_partition_ok [OF inv rdy' ij, unfolded F])
  have I1: "j < length (mv ! i)" using cm_inv_at(1) [OF inv ij] unfolding F .
  have "cm_inv (set_chunks i j cs' c)" by (rule set_chunks_inv [OF inv ij]) (simp add: F e(2))
  moreover have "cell ?u (master_versions (set_chunks i j cs' c) ! i' ! j') r =
      (if (i', j') \<in> insert (i, j) D \<and> to_sync col s i' j' r then cell ?u (master_versions col ! s ! j') r
       else cell ?u (master_versions col ! i' ! j') r)"
    if b: "i' < length (master_versions col)" "j' < unat (n_partitions col)" "r < ?n" for i' j' r
  proof (cases "i' = i \<and> j' = j")
    case True
    then show ?thesis using b e(3) ts mv cells [OF b] new I1 by (simp add: set_chunks_def c)
  next
    case False
    then have "master_versions (set_chunks i j cs' c) ! i' ! j' = mv ! i' ! j'"
      using i mv(1) by (cases "i' = i") (simp_all add: set_chunks_def c)
    then show ?thesis using False cells [OF b] by auto
  qed
  moreover have "set_chunks i j cs' c = col\<lparr>master_versions := mv[i := (mv ! i)[j := cs']]\<rparr>"
    "length (mv[i := (mv ! i)[j := cs']]) = length (master_versions col)"
    "mv[i := (mv ! i)[j := cs']] ! s = master_versions col ! s" using mv i(2) by (simp_all add: set_chunks_def c)
  ultimately have "sync_done s (insert (i, j) D) col (set_chunks i j cs' c)" unfolding sync_done_def by blast
  with e(1) show ?thesis by blast
qed

lemma sync_inner:
  assumes "sync_done s D col c" and rdy: "sync_ready s col" and i: "i < length (master_versions col)" "i \<noteq> s"
    and "k \<le> unat (n_partitions col)" and "\<forall>j. (i, j) \<notin> D"
  shows "\<exists>c'. rfold (sync_partition s i) [0..<k] c = Inr c' \<and> sync_done s (D \<union> {i} \<times> {..<k}) col c'"
  using assms(5)
proof (induction k)
  case 0
  then show ?case using assms(1) by simp
next
  case (Suc k)
  then obtain c1 where c1: "rfold (sync_partition s i) [0..<k] c = Inr c1" "sync_done s (D \<union> {i} \<times> {..<k}) col c1"
    by auto
  moreover have "(i, k) \<notin> D \<union> {i} \<times> {..<k}" using assms(6) by simp
  ultimately obtain c' where "sync_partition s i k c1 = Inr c'" "sync_done s (insert (i, k) (D \<union> {i} \<times> {..<k})) col c'"
    using sync_step [OF _ rdy i, of _ c1 k] Suc.prems by (meson Suc_le_lessD)
  moreover have "insert (i, k) (D \<union> {i} \<times> {..<k}) = D \<union> {i} \<times> {..<Suc k}" by auto
  ultimately show ?case using c1(1) by (simp add: rfold_append)
qed

lemma sync_outer:
  assumes inv: "cm_inv col" and rdy: "sync_ready s col" and "k \<le> length (master_versions col)"
  shows "\<exists>c'. rfold (\<lambda>i c. if i = s then Inr c else rfold (sync_partition s i) [0..<unat (n_partitions c)] c)
      [0..<k] col = Inr c' \<and> sync_done s (({..<k} - {s}) \<times> {..<unat (n_partitions col)}) col c'"
  using assms(3)
proof (induction k)
  case 0
  have "col = col\<lparr>master_versions := master_versions col\<rparr>" by simp
  then show ?case using inv by (auto simp: sync_done_def intro!: exI [of _ "master_versions col"])
next
  case (Suc k)
  let ?f = "\<lambda>i c. if i = s then Inr c else rfold (sync_partition s i) [0..<unat (n_partitions c)] c"
  let ?n = "unat (n_partitions col)"
  obtain c1 where c1: "rfold ?f [0..<k] col = Inr c1" "sync_done s (({..<k} - {s}) \<times> {..<?n}) col c1"
    using Suc by auto
  have n: "n_partitions c1 = n_partitions col" using c1(2) by (auto simp: sync_done_def)
  show ?case
  proof (cases "k = s")
    case True
    then have "{..<Suc k} - {s} = {..<k} - {s}" by auto
    then show ?thesis using c1 True by (simp add: rfold_append)
  next
    case False
    have "\<forall>j. (k, j) \<notin> ({..<k} - {s}) \<times> {..<?n}" by simp
    then obtain c' where "rfold (sync_partition s k) [0..<?n] c1 = Inr c'"
      "sync_done s (({..<k} - {s}) \<times> {..<?n} \<union> {k} \<times> {..<?n}) col c'"
      using sync_inner [OF c1(2) rdy _ False order_refl] Suc.prems by auto
    moreover have "({..<k} - {s}) \<times> {..<?n} \<union> {k} \<times> {..<?n} = ({..<Suc k} - {s}) \<times> {..<?n}"
      using False by auto
    ultimately show ?thesis using c1(1) False n by (simp add: rfold_append)
  qed
qed

text \<open>
  C26. Synchronising the masters: \<open>cm_syncSnapshot\<close> with source master \<open>s\<close> succeeds for the
  supported widths and fewer than 2^31 - 8192 snapshotted records per partition. In the partitions
  whose snapshot has records and the flag that there were updates since the last snapshot, and in every
  other master, exactly the records that are marked in the masks of \<open>s\<close>, not marked in the masks of
  that master, and at most the snapshotted record count receive the value they have in \<open>s\<close>. Every
  other record, every partition without that flag, and master \<open>s\<close> itself keep their values, so an
  update marked in an active master is never overwritten.
\<close>

theorem sync_copies_only_stale_records:
  assumes "cm_inv col" and "sync_ready (unat s) col" and "1 < length (master_versions col)"
  shows "\<exists>col'. cm_syncSnapshot s col = Inr col' \<and> cm_inv col' \<and>
     master_versions col' ! unat s = master_versions col ! unat s \<and>
     (\<forall>i<length (master_versions col). \<forall>j<unat (n_partitions col). \<forall>r<unat (capacity_per_partition col).
        cell (unat (unit_size col)) (master_versions col' ! i ! j) r =
          (if i \<noteq> unat s \<and> to_sync col (unat s) i j r
           then cell (unat (unit_size col)) (master_versions col ! unat s ! j) r
           else cell (unat (unit_size col)) (master_versions col ! i ! j) r))"
proof -
  obtain c' where c': "cm_syncSnapshot s col = Inr c'"
    "sync_done (unat s) (({..<length (master_versions col)} - {unat s}) \<times> {..<unat (n_partitions col)}) col c'"
    using sync_outer [OF assms(1,2) order_refl] assms(3) by (auto simp: cm_syncSnapshot_def)
  then show ?thesis unfolding sync_done_def by (intro exI [of _ c']) auto
qed

section \<open>A column of two records\<close>

definition demo_pack :: bitset where
  "demo_pack = 1 # replicate 127 0"

definition demo_masters :: CircularMasterColumn where
  "demo_masters =
     \<lparr>column_id = 0, col_name = ''c'', col_type = INTEGER, unit_size = 1, byteOffset_record = 0,
      n_partitions = 1, single_version_only = False, snapshotType = CircularMaster, total_size = 4,
      total_size_per_partition = 2, capacity = 2, capacity_per_partition = 2, primaryData = [],
      cm_touched = [False], master_versions = [[[\<lparr>dc_data = 64, dc_bytes = [1, 2]\<rparr>]], [[\<lparr>dc_data = 96, dc_bytes = [5, 7]\<rparr>]]],
      upd_bit_masks = [[[demo_pack]], [[bs_new BIT_PACK_SIZE]]],
      snapshot_arenas = [\<lparr>numOfRecords = 2, epoch_id = 1, arena_master_ver = 0, arena_partition_id = 0,
                          upd_since_last_snapshot = True\<rparr>],
      etl_arenas = [\<lparr>numOfRecords = 1, epoch_id = 0, arena_master_ver = 0, arena_partition_id = 0,
                     upd_since_last_snapshot = True\<rparr>],
      readonly_etl_snapshot = [[\<lparr>dc_data = 128, dc_bytes = [9, 9]\<rparr>]]\<rparr>"

lemma bits_of_replicate [simp]: "bits_of (replicate n 0) = {}"
  by (auto simp: bits_of_def div64_less_iff)

lemma demo_bits: "bits_of demo_pack = {0}"
  by (auto simp: demo_pack_def bits_of_Cons bit_1_iff)

lemma dirty_one: "length b = 128 \<Longrightarrow> dirty [b] = bits_of b"
  by (auto simp: dirty_def bits_of_def BIT_PACK_SIZE_def)

lemma demo_length: "length demo_pack = 128" "length (bs_new BIT_PACK_SIZE) = 128"
  by (simp_all add: demo_pack_def bs_new_def)

lemma demo_dirty: "dirty [demo_pack] = {0}" "dirty [bs_new BIT_PACK_SIZE] = {}"
proof -
  note demo_length
  then show "dirty [demo_pack] = {0}" "dirty [bs_new BIT_PACK_SIZE] = {}" by (simp_all add: dirty_one demo_bits)
qed

lemma demo_inv: "cm_inv demo_masters"
  by (simp add: cm_inv_def demo_masters_def chunk_vec_def packs_ok_def All_less_Suc
      demo_pack_def bs_new_def BIT_PACK_SIZE_def numberOfBlocks_def kBitsPerBlock_def)

theorem etl_refreshes_copy_witness:
  "\<exists>col'. cm_ETL demo_masters = Inr col' \<and> etl_fresh 0 col'"
  using etl_refreshes_copy [OF demo_inv]
  by (auto simp: demo_masters_def etl_ready_def chunk_vec_def snapshot_master_def snapshot_masks_def demo_dirty)

theorem sync_copies_only_stale_records_witness:
  "\<exists>col'. cm_syncSnapshot 0 demo_masters = Inr col' \<and>
     cell 1 (master_versions col' ! 1 ! 0) 0 = [1] \<and> cell 1 (master_versions col' ! 1 ! 0) 1 = [7]"
proof -
  have "sync_ready (unat 0) demo_masters"
    by (simp add: demo_masters_def sync_ready_def demo_dirty BIT_PACK_SIZE_def All_less_Suc demo_length)
  from sync_copies_only_stale_records [OF demo_inv this] obtain c where
    c: "cm_syncSnapshot 0 demo_masters = Inr c"
      "\<forall>i<2. \<forall>j<1. \<forall>r<2. cell 1 (master_versions c ! i ! j) r =
          (if i \<noteq> 0 \<and> to_sync demo_masters 0 i j r
           then cell 1 (master_versions demo_masters ! 0 ! j) r
           else cell 1 (master_versions demo_masters ! i ! j) r)"
    by (auto simp: demo_masters_def)
  have t: "to_sync demo_masters 0 1 0 0" "\<not> to_sync demo_masters 0 1 0 1"
    by (simp_all add: to_sync_def demo_masters_def demo_dirty)
  have "cell 1 (master_versions c ! 1 ! 0) 0 = cell 1 (master_versions demo_masters ! 0 ! 0) 0"
    "cell 1 (master_versions c ! 1 ! 0) 1 = cell 1 (master_versions demo_masters ! 1 ! 0) 1"
    using c(2) [rule_format, of 1 0 0] c(2) [rule_format, of 1 0 1] t by simp_all
  then show ?thesis using c(1) by (intro exI [of _ c]) (simp add: demo_masters_def cell_def slice_def)
qed

end
