(* ===== verification/Versions.thy ===== *)
theory Versions
  imports DeltaPtr TxnTable
begin

text \<open>
  Version objects and version chains (\<^verbatim>\<open>storage/multi-version/mv-versions.hpp\<close>, the latch and
  visibility rules of \<^verbatim>\<open>transaction/concurrency-control/concurrency-control.hpp\<close>). Versions live
  in raw delta memory: the model has one byte per address, objects are laid out by the
  Itanium C++ ABI on x86-64, and a field access reads or writes the bytes of the field, so
  that two objects that overlap destroy each other as they do in the program.
\<close>

section \<open>Byte-addressed memory\<close>

type_synonym memory = "uintptr \<Rightarrow> byte"

definition load_bytes :: "memory \<Rightarrow> uintptr \<Rightarrow> nat \<Rightarrow> byte list" where
  "load_bytes m a n = map (\<lambda>i. m (a + of_nat i)) [0..<n]"

definition store_bytes :: "uintptr \<Rightarrow> byte list \<Rightarrow> memory \<Rightarrow> memory" where
  "store_bytes a bs m = (\<lambda>x. if unat (x - a) < length bs then bs ! unat (x - a) else m x)"

text \<open>Little-endian integers of \<open>n\<close> bytes.\<close>

definition le_bytes :: "nat \<Rightarrow> 64 word \<Rightarrow> byte list" where
  "le_bytes n w = map (\<lambda>i. ucast (drop_bit (8 * i) w)) [0..<n]"

primrec le_word :: "byte list \<Rightarrow> 64 word" where
  "le_word [] = 0"
| "le_word (b # bs) = ucast b OR push_bit 8 (le_word bs)"

definition load64 :: "memory \<Rightarrow> uintptr \<Rightarrow> 64 word" where
  "load64 m a = le_word (load_bytes m a 8)"

definition store64 :: "uintptr \<Rightarrow> 64 word \<Rightarrow> memory \<Rightarrow> memory" where
  "store64 a w = store_bytes a (le_bytes 8 w)"

section \<open>Versions\<close>

text \<open>
  \<^verbatim>\<open>Version\<close> is packed: a virtual table pointer and four fields. \<^verbatim>\<open>VersionSingle\<close>, packed too, adds
  the reference to the next version; \<^verbatim>\<open>VersionMultiAttr\<close> adds the attribute mask, the address
  of the offsets and the reference. The table addresses are arguments.
\<close>

definition off_t_min :: uintptr where "off_t_min = 8"

definition off_t_max :: uintptr where "off_t_max = 16"

definition off_data :: uintptr where "off_data = 24"

definition off_size :: uintptr where "off_size = 32"

definition mk_Version :: "uintptr \<Rightarrow> uintptr \<Rightarrow> xid_t \<Rightarrow> xid_t \<Rightarrow> uintptr \<Rightarrow> size_t \<Rightarrow> memory \<Rightarrow> memory" where
  "mk_Version vtable a tmin tmax data sz =
     store64 (a + off_size) sz \<circ> store64 (a + off_data) data \<circ>
     store64 (a + off_t_max) tmax \<circ> store64 (a + off_t_min) tmin \<circ> store64 a vtable"

definition sizeof_VersionSingle :: size_t where
  "sizeof_VersionSingle = 48"

definition alignof_VersionSingle :: size_t where
  "alignof_VersionSingle = 1"

definition VersionSingle_off_next :: uintptr where
  "VersionSingle_off_next = 40"

definition mk_VersionSingle :: "uintptr \<Rightarrow> uintptr \<Rightarrow> xid_t \<Rightarrow> xid_t \<Rightarrow> uintptr \<Rightarrow> size_t \<Rightarrow> memory \<Rightarrow> memory" where
  "mk_VersionSingle vtable a tmin tmax data sz =
     store64 (a + VersionSingle_off_next) 0 \<circ> mk_Version vtable a tmin tmax data sz"

definition VersionSingle_get_offset :: "16 word \<Rightarrow> 16 word result" where
  "VersionSingle_get_offset col_idx = Inl (RuntimeError ''record-list doesnt need offsets'')"

definition sizeof_VersionMultiAttr :: size_t where
  "sizeof_VersionMultiAttr = 64"

definition off_attribute_mask :: uintptr where "off_attribute_mask = 40"

definition off_attribute_offsets :: uintptr where "off_attribute_offsets = 48"

definition VersionMultiAttr_off_next :: uintptr where
  "VersionMultiAttr_off_next = 56"

definition mk_VersionMultiAttr ::
  "uintptr \<Rightarrow> uintptr \<Rightarrow> xid_t \<Rightarrow> xid_t \<Rightarrow> uintptr \<Rightarrow> size_t \<Rightarrow> memory \<Rightarrow> memory" where
  "mk_VersionMultiAttr vtable a tmin tmax data sz =
     store64 (a + off_attribute_mask) (- 1) \<circ> store64 (a + VersionMultiAttr_off_next) 0 \<circ>
     store64 (a + off_attribute_offsets) 0 \<circ> mk_Version vtable a tmin tmax data sz"

definition set_attr_mask :: "uintptr \<Rightarrow> 64 word \<Rightarrow> memory \<Rightarrow> memory" where
  "set_attr_mask a msk = store64 (a + off_attribute_mask) msk"

definition set_attr_offsets :: "uintptr \<Rightarrow> uintptr \<Rightarrow> memory \<Rightarrow> memory" where
  "set_attr_offsets a offs = store64 (a + off_attribute_offsets) offs"

definition create_partial_mask :: "uintptr \<Rightarrow> uintptr \<Rightarrow> 64 word \<Rightarrow> memory \<Rightarrow> memory" where
  "create_partial_mask a offs msk = set_attr_mask a msk \<circ> set_attr_offsets a offs"

definition bit_count :: "64 word \<Rightarrow> nat" where
  "bit_count w = length (filter (bit w) [0..<64])"

text \<open>
  The index of a column in the version counts the bits of the mask shifted right by 64 minus
  the column; the offset array holds 16-bit numbers.
\<close>

definition VersionMultiAttr_get_offset :: "memory \<Rightarrow> uintptr \<Rightarrow> nat \<Rightarrow> 16 word" where
  "VersionMultiAttr_get_offset m a col_idx =
     (let idx_in_ver = bit_count (drop_bit (64 - col_idx) (load64 m (a + off_attribute_mask)))
      in ucast (le_word (load_bytes m (load64 m (a + off_attribute_offsets) + of_nat (2 * idx_in_ver)) 2)))"

text \<open>
  \<^verbatim>\<open>get_partial_mask_size\<close> appends to the offsets it is given. The result is the size, the
  offsets and the mask. A null column list is the empty list.
\<close>

fun partial_columns :: "16 word list \<Rightarrow> nat list \<Rightarrow> size_t \<Rightarrow> 16 word list \<Rightarrow> 64 word
    \<Rightarrow> (size_t \<times> 16 word list \<times> 64 word) result" where
  "partial_columns widths [] sz offs msk = Inr (sz, offs, msk)"
| "partial_columns widths (c # cs) sz offs msk =
     (if c < 64 \<and> c < length widths
      then partial_columns widths cs (sz + ucast (widths ! c)) (offs @ [ucast sz]) (set_bit c msk)
      else Inl OutOfRange)"

definition get_partial_mask_size ::
  "16 word list \<Rightarrow> 16 word list \<Rightarrow> nat list \<Rightarrow> (size_t \<times> 16 word list \<times> 64 word) result" where
  "get_partial_mask_size widths ver_offsets col_idx =
     rbind (rassert (length widths \<le> 64) ''max 64-columns supported'') (\<lambda>_.
       if col_idx = []
       then let (sz, offs) = fold (\<lambda>w (sz, offs). (sz + ucast w, offs @ [ucast sz])) widths (0, ver_offsets)
            in Inr (sz, offs, - 1)
       else partial_columns widths col_idx 0 ver_offsets 0)"

section \<open>Visibility\<close>

definition is_readable :: "xid_t \<Rightarrow> TxnTs \<Rightarrow> bool" where
  "is_readable tmin xact \<longleftrightarrow> tmin \<le> txn_start_time xact \<or> tmin = txn_id xact"

section \<open>References into delta memory\<close>

text \<open>
  \<^verbatim>\<open>DeltaPtr\<close> is one of the two reference classes, chosen at compile time; the chains use only
  validation and dereference, the virtual part of \<^verbatim>\<open>DeltaMemoryPtr\<close>.
\<close>

record ptr_ops =
  po_isValid :: "uintptr \<Rightarrow> bool result"
  po_ptr :: "uintptr \<Rightarrow> uintptr result"

definition oneshot_ptr :: "(8 word \<rightharpoonup> uintptr) \<Rightarrow> (delta_id_t \<rightharpoonup> 32 word) \<Rightarrow> ptr_ops" where
  "oneshot_ptr bases tags = \<lparr>po_isValid = isValid tags, po_ptr = get_ptr bases tags\<rparr>"

definition classic_ptr :: ptr_ops where
  "classic_ptr = \<lparr>po_isValid = (\<lambda>v. Inr (classic_isValid v)), po_ptr = (\<lambda>v. Inr (classic_get_ptr v))\<rparr>"

section \<open>Chains\<close>

text \<open>
  A reference is held in the index entry or in the \<^verbatim>\<open>next\<close> field of a version. The functions that
  return the address of a reference return its place and its value; \<open>off_next\<close> is the offset
  of the field in the version type of the list.
\<close>

datatype ref_loc = RefHead | RefNext uintptr

type_synonym ref = "ref_loc \<times> uintptr"

text \<open>\<^verbatim>\<open>VersionChain::insert\<close>\<close>

definition chain_insert :: "ptr_ops \<Rightarrow> uintptr \<Rightarrow> uintptr \<Rightarrow> uintptr \<Rightarrow> memory \<Rightarrow> (uintptr \<times> memory) result" where
  "chain_insert po off_next val head m =
     rbind (po_ptr po val) (\<lambda>a.
     rbind (rassert (a \<noteq> 0) ''val.ptr() != nullptr'') (\<lambda>_.
     Inr (val, store64 (a + off_next) head m)))"

text \<open>The loop of \<^verbatim>\<open>get_readable_ver\<close>, for at most \<open>fuel\<close> versions.\<close>

fun get_readable_ver :: "ptr_ops \<Rightarrow> uintptr \<Rightarrow> memory \<Rightarrow> TxnTs \<Rightarrow> nat \<Rightarrow> ref \<Rightarrow> ref option result" where
  "get_readable_ver po off_next m txTs 0 tmp = Inl Diverges"
| "get_readable_ver po off_next m txTs (Suc fuel) tmp =
     rbind (po_isValid po (snd tmp)) (\<lambda>ok.
     if \<not> ok then Inr None
     else rbind (po_ptr po (snd tmp)) (\<lambda>p.
          if p \<noteq> 0 \<and> is_readable (load64 m (p + off_t_min)) txTs then Inr (Some tmp)
          else if p = 0 then Inl NullDeref
          else get_readable_ver po off_next m txTs fuel (RefNext p, load64 m (p + off_next))))"

text \<open>The loop of \<^verbatim>\<open>search_in_chain\<close>: it stops where the chain leaves its delta store.\<close>

fun search_in_chain ::
  "(uintptr \<Rightarrow> delta_id_t) \<Rightarrow> ptr_ops \<Rightarrow> uintptr \<Rightarrow> memory \<Rightarrow> TxnTs \<Rightarrow> nat \<Rightarrow> ref \<Rightarrow> ref option result" where
  "search_in_chain delta_idx po off_next m txTs 0 tmp = Inl Diverges"
| "search_in_chain delta_idx po off_next m txTs (Suc fuel) tmp =
     rbind (po_isValid po (snd tmp)) (\<lambda>ok.
     if \<not> ok then Inr None
     else rbind (po_ptr po (snd tmp)) (\<lambda>p.
          if p \<noteq> 0 \<and> is_readable (load64 m (p + off_t_min)) txTs then Inr (Some tmp)
          else if p = 0 then Inl NullDeref
          else let nxt = load64 m (p + off_next)
               in if delta_idx (snd tmp) = delta_idx nxt
                  then search_in_chain delta_idx po off_next m txTs fuel (RefNext p, nxt)
                  else Inr None))"

fun search_heads ::
  "(uintptr \<Rightarrow> delta_id_t) \<Rightarrow> ptr_ops \<Rightarrow> uintptr \<Rightarrow> memory \<Rightarrow> TxnTs \<Rightarrow> nat \<Rightarrow> uintptr list \<Rightarrow> ref option result" where
  "search_heads delta_idx po off_next m txTs fuel [] = Inr None"
| "search_heads delta_idx po off_next m txTs fuel (p # ps) =
     rbind (search_in_chain delta_idx po off_next m txTs fuel (RefHead, p)) (\<lambda>r.
       case r of Some x \<Rightarrow> Inr (Some x) | None \<Rightarrow> search_heads delta_idx po off_next m txTs fuel ps)"

text \<open>
  The search through the other delta stores; \<open>lookup i\<close> is what their tables of crossing
  references hold for the row (None where \<^verbatim>\<open>find\<close> throws). The number of rounds is limited by
  the check that stops the process; \<open>k\<close> counts the rounds that are left.
\<close>

fun search_stores ::
  "(uintptr \<Rightarrow> delta_id_t) \<Rightarrow> ptr_ops \<Rightarrow> uintptr \<Rightarrow> memory \<Rightarrow> TxnTs \<Rightarrow> nat \<Rightarrow> (int \<Rightarrow> uintptr list option)
     \<Rightarrow> int \<Rightarrow> nat \<Rightarrow> int \<Rightarrow> ref result" where
  "search_stores delta_idx po off_next m txTs fuel lookup n 0 i = Inl (Fatal ''Infinite loop in search versions'')"
| "search_stores delta_idx po off_next m txTs fuel lookup n (Suc k) i =
     (let i' = (if i - 1 < 0 then n - 1 else i - 1)
      in rbind (case lookup i' of None \<Rightarrow> Inr None
                | Some ps \<Rightarrow> search_heads delta_idx po off_next m txTs fuel ps) (\<lambda>r.
           case r of Some x \<Rightarrow> Inr x
           | None \<Rightarrow> search_stores delta_idx po off_next m txTs fuel lookup n k i'))"

definition get_version_with_consolidation ::
  "(uintptr \<Rightarrow> delta_id_t) \<Rightarrow> ptr_ops \<Rightarrow> uintptr \<Rightarrow> memory \<Rightarrow> TxnTs \<Rightarrow> nat \<Rightarrow> (int \<Rightarrow> uintptr list option)
     \<Rightarrow> nat \<Rightarrow> uintptr \<Rightarrow> uintptr result" where
  "get_version_with_consolidation delta_idx po off_next m txTs fuel lookup n head =
     rbind (search_in_chain delta_idx po off_next m txTs fuel (RefHead, head)) (\<lambda>r.
       case r of Some x \<Rightarrow> Inr (snd x)
       | None \<Rightarrow> rbind (search_stores delta_idx po off_next m txTs fuel lookup (int n) (n + 2)
                         (uint (delta_idx head))) (\<lambda>x. Inr (snd x)))"

section \<open>Memory lemmas\<close>

definition blk :: "uintptr \<Rightarrow> nat \<Rightarrow> uintptr set" where
  "blk a n = {x. unat (x - a) < n}"

lemma blk_disjoint:
  assumes "n \<le> unat (b - a)" and "k \<le> unat (a - b)"
  shows "blk a n \<inter> blk b k = {}"
proof -
  have False if "unat (x - a) < n" "unat (x - b) < k" for x
  proof (cases "x - b \<le> x - a")
    case True
    then have "unat ((x - a) - (x - b)) = unat (x - a) - unat (x - b)" by (rule unat_sub_no_wrap)
    then show False using that assms(1) by simp
  next
    case False
    then have "unat ((x - b) - (x - a)) = unat (x - b) - unat (x - a)" by (intro unat_sub_no_wrap) simp
    then show False using that assms(2) by simp
  qed
  then show ?thesis by (auto simp: blk_def)
qed

lemma blk_shift: "blk (a + c) n \<subseteq> blk a k" if "unat c + n \<le> k" "k \<le> 2 ^ 64"
proof
  fix x assume "x \<in> blk (a + c) n"
  then have "unat (x - (a + c)) < n" by (simp add: blk_def)
  moreover from this have "unat (x - (a + c)) + unat c < 2 ^ 64" using that by linarith
  then have "unat ((x - (a + c)) + c) = unat (x - (a + c)) + unat c" by (rule unat_add_no_wrap)
  then have "unat (x - a) = unat (x - (a + c)) + unat c" by simp
  ultimately show "x \<in> blk a k" using that by (simp add: blk_def)
qed

lemma blk_shift_disjoint: "blk (a + c) n \<inter> blk (a + d) k = {}"
  if "n \<le> unat (d - c)" "k \<le> unat (c - d)"
  using that by (intro blk_disjoint) simp_all

lemma length_load_bytes [simp]: "length (load_bytes m a n) = n"
  by (simp add: load_bytes_def)

lemma length_le_bytes [simp]: "length (le_bytes n w) = n"
  by (simp add: le_bytes_def)

lemma load_store_same:
  assumes "length bs = n" and "n \<le> 2 ^ 64"
  shows "load_bytes (store_bytes a bs m) a n = bs"
proof (rule nth_equalityI)
  fix i assume "i < length (load_bytes (store_bytes a bs m) a n)"
  then have i: "i < n" by simp
  then have "unat (of_nat i :: uintptr) = i" using assms by (simp add: unsigned_of_nat take_bit_nat_eq_self)
  then show "load_bytes (store_bytes a bs m) a n ! i = bs ! i"
    using i assms by (simp add: load_bytes_def store_bytes_def)
qed (use assms in simp)

lemma load_store_disjoint:
  assumes "blk a (length bs) \<inter> blk b n = {}" and "n \<le> 2 ^ 64"
  shows "load_bytes (store_bytes a bs m) b n = load_bytes m b n"
proof -
  have "\<not> unat (b + of_nat i - a) < length bs" if i: "i < n" for i
  proof
    assume "unat (b + of_nat i - a) < length bs"
    then have "b + of_nat i \<in> blk a (length bs)" by (simp add: blk_def)
    moreover have "unat (of_nat i :: uintptr) = i" using i assms(2) by (simp add: unsigned_of_nat take_bit_nat_eq_self)
    then have "b + of_nat i \<in> blk b n" using i by (simp add: blk_def)
    ultimately show False using assms(1) by blast
  qed
  then show ?thesis by (simp add: load_bytes_def store_bytes_def)
qed

lemma bit_le_word: "bit (le_word bs) n \<longleftrightarrow> n < 64 \<and> n div 8 < length bs \<and> bit (bs ! (n div 8)) (n mod 8)"
proof (induction bs arbitrary: n)
  case (Cons b bs)
  show ?case
  proof (cases "n < 8")
    case True
    then show ?thesis by (auto simp: bit_simps)
  next
    case False
    then obtain k where k: "n = 8 + k" using le_Suc_ex by (metis not_less)
    have "\<not> bit b n" using False by (auto dest: bit_imp_le_length)
    moreover have "(8 + k) div 8 = Suc (k div 8)" by simp
    ultimately show ?thesis using Cons.IH [of k] by (auto simp: k bit_simps)
  qed
qed simp

lemma le_word_bytes [simp]: "le_word (le_bytes 8 w) = w"
proof (rule bit_word_eqI)
  fix n assume n: "n < LENGTH(64)"
  have "8 * (n div 8) + n mod 8 = n" by (rule mult_div_mod_eq)
  then show "bit (le_word (le_bytes 8 w)) n = bit w n"
    using n by (auto simp: bit_le_word le_bytes_def bit_simps div_less_iff_less_mult)
qed

lemma load64_store_same [simp]: "load64 (store64 a w m) a = w"
  by (simp add: load64_def store64_def load_store_same)

lemma load64_store64_disjoint: "blk a 8 \<inter> blk b 8 = {} \<Longrightarrow> load64 (store64 a w m) b = load64 m b"
  by (simp add: load64_def store64_def load_store_disjoint)

lemma load64_store_bytes: "blk a (length bs) \<inter> blk b 8 = {} \<Longrightarrow> load64 (store_bytes a bs m) b = load64 m b"
  by (simp add: load64_def load_store_disjoint)

lemma load_bytes_store64:
  "blk a 8 \<inter> blk b n = {} \<Longrightarrow> n \<le> 2 ^ 64 \<Longrightarrow> load_bytes (store64 a w m) b n = load_bytes m b n"
  by (simp add: store64_def load_store_disjoint)

lemmas version_offsets = off_t_min_def off_t_max_def off_data_def off_size_def VersionSingle_off_next_def
  sizeof_VersionSingle_def alignof_VersionSingle_def

lemma mk_VersionSingle_fields:
  "load64 (mk_VersionSingle vt a t0 t1 d sz m) (a + off_t_min) = t0"
  "load64 (mk_VersionSingle vt a t0 t1 d sz m) (a + off_data) = d"
  "load64 (mk_VersionSingle vt a t0 t1 d sz m) (a + off_size) = sz"
  "load64 (mk_VersionSingle vt a t0 t1 d sz m) (a + VersionSingle_off_next) = 0"
  by (simp_all add: mk_VersionSingle_def mk_Version_def version_offsets load64_store64_disjoint blk_shift_disjoint)

lemma mk_VersionSingle_outside:
  assumes "blk a 48 \<inter> blk b n = {}" "n \<le> 2 ^ 64"
  shows "load_bytes (mk_VersionSingle vt a t0 t1 d sz m) b n = load_bytes m b n"
proof -
  have sub: "blk (a + c) 8 \<subseteq> blk a 48" if "unat c + 8 \<le> 48" for c using blk_shift [OF that] by simp
  have "blk (a + c) 8 \<inter> blk b n = {}" if "unat c + 8 \<le> 48" for c using sub [OF that] assms(1) by blast
  from this [of 0] this [of 8] this [of 16] this [of 24] this [of 32] this [of 40]
  show ?thesis using assms(2)
    by (simp add: mk_VersionSingle_def mk_Version_def version_offsets load_bytes_store64)
qed

section \<open>Chains as lists\<close>

text \<open>
  \<open>chain po m R r vs\<close>: following \<open>r\<close> visits the versions \<open>vs\<close>, given by address, timestamp and
  record bytes, and then stops. A version of a record of \<open>R\<close> bytes occupies \<open>ver_extent R\<close> bytes
  from its address, the record behind the header and one byte of alignment.
\<close>

type_synonym ver = "uintptr \<times> xid_t \<times> byte list"

definition ver_payload :: "uintptr \<Rightarrow> uintptr" where
  "ver_payload a = a + alignof_VersionSingle + sizeof_VersionSingle"

lemma ver_payload_eq: "ver_payload a = a + 49"
  by (simp add: ver_payload_def version_offsets)

definition ver_extent :: "nat \<Rightarrow> nat" where
  "ver_extent R = 49 + R"

fun chain :: "ptr_ops \<Rightarrow> memory \<Rightarrow> nat \<Rightarrow> uintptr \<Rightarrow> ver list \<Rightarrow> bool" where
  "chain po m R r [] \<longleftrightarrow> po_isValid po r = Inr False"
| "chain po m R r ((a, t, bs) # vs) \<longleftrightarrow>
     po_isValid po r = Inr True \<and> po_ptr po r = Inr a \<and> a \<noteq> 0 \<and> ver_payload a \<noteq> 0 \<and>
     load64 m (a + off_t_min) = t \<and> load64 m (a + off_data) = ver_payload a \<and>
     load_bytes m (ver_payload a) R = bs \<and>
     chain po m R (load64 m (a + VersionSingle_off_next)) vs"

definition chain_blocks :: "nat \<Rightarrow> ver list \<Rightarrow> uintptr set" where
  "chain_blocks R vs = (\<Union>v\<in>set vs. blk (fst v) (ver_extent R))"

lemma chain_blocks_simps [simp]:
  "chain_blocks R [] = {}" "chain_blocks R ((a, t, bs) # vs) = blk a (ver_extent R) \<union> chain_blocks R vs"
  by (simp_all add: chain_blocks_def)

lemma ver_parts:
  assumes "R < 2 ^ 63"
  shows "blk (a + off_t_min) 8 \<subseteq> blk a (ver_extent R)" "blk (a + off_data) 8 \<subseteq> blk a (ver_extent R)"
    "blk (a + VersionSingle_off_next) 8 \<subseteq> blk a (ver_extent R)" "blk (ver_payload a) R \<subseteq> blk a (ver_extent R)"
proof -
  have k: "ver_extent R \<le> 2 ^ 64" using assms by (simp add: ver_extent_def)
  show "blk (a + off_t_min) 8 \<subseteq> blk a (ver_extent R)" "blk (a + off_data) 8 \<subseteq> blk a (ver_extent R)"
    "blk (a + VersionSingle_off_next) 8 \<subseteq> blk a (ver_extent R)"
    unfolding version_offsets by (rule blk_shift [OF _ k]; simp add: ver_extent_def)+
  from ver_payload_eq show "blk (ver_payload a) R \<subseteq> blk a (ver_extent R)"
    using blk_shift [of 49 R "ver_extent R" a] k by (simp add: ver_extent_def)
qed

text \<open>Memory that agrees on the blocks of a chain, and reference operations that agree, keep it.\<close>

lemma chain_frame:
  assumes R: "R < 2 ^ 63" and "chain po m R r vs"
    and "\<And>x. x \<in> chain_blocks R vs \<Longrightarrow> m' x = m x"
    and "\<And>v b. po_isValid po v = Inr b \<Longrightarrow> po_isValid po' v = Inr b"
    and "\<And>v p. po_isValid po v = Inr True \<Longrightarrow> po_ptr po v = Inr p \<Longrightarrow> po_ptr po' v = Inr p"
  shows "chain po' m' R r vs"
  using assms(2,3)
proof (induction vs arbitrary: r)
  case Nil
  then show ?case using assms(4) by simp
next
  case (Cons v vs)
  obtain a t bs where v: "v = (a, t, bs)" by (cases v)
  have same: "load_bytes m' b n = load_bytes m b n" if sub: "blk b n \<subseteq> blk a (ver_extent R)" "n \<le> 2 ^ 64" for b n
  proof -
    have "m' (b + of_nat i) = m (b + of_nat i)" if i: "i < n" for i
    proof -
      have "unat (of_nat i :: uintptr) = i" using i \<open>n \<le> 2 ^ 64\<close> by (simp add: unsigned_of_nat take_bit_nat_eq_self)
      then have "b + of_nat i \<in> blk b n" using i by (simp add: blk_def)
      then show ?thesis using sub(1) Cons.prems(2) v by auto
    qed
    then show ?thesis by (simp add: load_bytes_def)
  qed
  note P = ver_parts [OF R, of a]
  have "load64 m' (a + off_t_min) = load64 m (a + off_t_min)" "load64 m' (a + off_data) = load64 m (a + off_data)"
    "load64 m' (a + VersionSingle_off_next) = load64 m (a + VersionSingle_off_next)"
    using P by (simp_all add: load64_def same)
  moreover have "load_bytes m' (ver_payload a) R = load_bytes m (ver_payload a) R"
    using R P(4) by (intro same) simp_all
  moreover have "chain po' m' R (load64 m (a + VersionSingle_off_next)) vs"
    using Cons.IH Cons.prems v by simp
  ultimately show ?case using Cons.prems(1) v assms(4,5) by simp
qed

definition first_readable :: "TxnTs \<Rightarrow> ver list \<Rightarrow> ver option" where
  "first_readable txTs vs = find (\<lambda>(a, t, bs). is_readable t txTs) vs"

text \<open>Enough fuel finds the first readable version of a chain.\<close>

lemma get_readable_ver_chain:
  assumes "chain po m R r vs" and "length vs < fuel"
  shows "\<exists>res. get_readable_ver po VersionSingle_off_next m txTs fuel (l, r) = Inr res \<and>
     (case first_readable txTs vs of
        None \<Rightarrow> res = None
      | Some (a, t, bs) \<Rightarrow> \<exists>l' v. res = Some (l', v) \<and> po_isValid po v = Inr True \<and> po_ptr po v = Inr a)"
  using assms
proof (induction vs arbitrary: r l fuel)
  case Nil
  then obtain f where "fuel = Suc f" by (cases fuel) auto
  then show ?case using Nil by (simp add: first_readable_def)
next
  case (Cons v vs)
  obtain a t bs where v: "v = (a, t, bs)" by (cases v)
  obtain f where f: "fuel = Suc f" "length vs < f" using Cons.prems(2) by (cases fuel) auto
  show ?case
  proof (cases "is_readable t txTs")
    case True
    then have "get_readable_ver po VersionSingle_off_next m txTs fuel (l, r) = Inr (Some (l, r))"
      using Cons.prems(1) by (simp add: v f(1))
    then show ?thesis using Cons.prems(1) True by (simp add: v first_readable_def)
  next
    case False
    then have "get_readable_ver po VersionSingle_off_next m txTs fuel (l, r) =
        get_readable_ver po VersionSingle_off_next m txTs f (RefNext a, load64 m (a + VersionSingle_off_next))"
      using Cons.prems(1) by (simp add: v f(1))
    moreover have "first_readable txTs (v # vs) = first_readable txTs vs"
      using False by (simp add: v first_readable_def)
    moreover have "chain po m R (load64 m (a + VersionSingle_off_next)) vs" using Cons.prems(1) by (simp add: v)
    ultimately show ?thesis using Cons.IH [OF _ f(2)] by presburger
  qed
qed

end
