(* ===== verification/RecordList.thy ===== *)
theory RecordList
  imports Versions MemoryPool DeltaStore
begin

text \<open>
  Version lists per record (\<^verbatim>\<open>storage/multi-version/mv-record-list.cpp\<close>): creating versions, the
  version a transaction reads, and the garbage collection of one chain. The index entry of a
  record is \<^verbatim>\<open>CC_MV2PL::PRIMARY_INDEX_VAL\<close>; the members of \<^verbatim>\<open>Table\<close> that these functions use are
  in the record below, which the column store extends.
\<close>

section \<open>Index entries and tables\<close>

text \<open>
  The timestamp is a bit field of 63 bits next to the deletion flag. The latch and the write
  lock are represented by whether they are held.
\<close>

record IndexVal =
  iv_t_min :: xid_t
  iv_deleted :: bool
  VID :: rowid_t
  iv_latch :: bool
  write_lck :: bool
  delta_list :: uintptr

definition ts_t_min :: "xid_t \<Rightarrow> xid_t" where
  "ts_t_min t = take_bit 63 t"

definition mk_IndexVal :: "xid_t \<Rightarrow> rowid_t \<Rightarrow> IndexVal" where
  "mk_IndexVal tid vid = \<lparr>iv_t_min = ts_t_min tid, iv_deleted = False, VID = vid, iv_latch = False,
     write_lck = False, delta_list = 0\<rparr>"

text \<open>In one thread a latch that is already held is never released: the caller spins for ever.\<close>

definition latch_acquire :: "IndexVal \<Rightarrow> IndexVal result" where
  "latch_acquire iv = (if iv_latch iv then Inl Diverges else Inr (iv\<lparr>iv_latch := True\<rparr>))"

definition latch_release :: "IndexVal \<Rightarrow> IndexVal" where
  "latch_release iv = iv\<lparr>iv_latch := False\<rparr>"

text \<open>\<^verbatim>\<open>writeWithLatch\<close> runs the function under the latch and logs the row.\<close>

definition writeWithLatch ::
  "(IndexVal \<times> 's \<Rightarrow> (IndexVal \<times> 's) result) \<Rightarrow> table_id_t \<Rightarrow> IndexVal \<Rightarrow> 's \<Rightarrow> Txn
     \<Rightarrow> (IndexVal \<times> 's \<times> Txn) result" where
  "writeWithLatch func tid iv s txn =
     rbind (latch_acquire iv) (\<lambda>iv1.
     rbind (func (iv1, s)) (\<lambda>(iv2, s').
     let iv3 = latch_release iv2
     in Inr (iv3, s', txn\<lparr>undoLogVector := undoLogVector txn @ [get_row_uuid tid (VID iv3)]\<rparr>)))"

definition readWithLatch :: "(IndexVal \<times> 's \<Rightarrow> (IndexVal \<times> 's) result) \<Rightarrow> IndexVal \<Rightarrow> 's \<Rightarrow> (IndexVal \<times> 's) result" where
  "readWithLatch func iv s =
     rbind (latch_acquire iv) (\<lambda>iv1. rbind (func (iv1, s)) (\<lambda>(iv2, s'). Inr (latch_release iv2, s')))"

definition release_locks :: "IndexVal list \<Rightarrow> IndexVal list" where
  "release_locks = map (\<lambda>iv. iv\<lparr>write_lck := False\<rparr>)"

record Table =
  tbl_name :: string
  table_id :: table_id_t
  vid_part :: "rowid_t list"
  total_memory_reserved :: "64 word"
  record_capacity :: "64 word"
  tbl_n_partitions :: partition_id_t
  n_columns :: column_id_t
  indexed :: bool
  column_size_offset_pairs :: "(16 word \<times> 16 word) list"
  record_size :: size_t
  column_size_offsets :: "16 word list"
  column_size :: "16 word list"

section \<open>The delta store a version list works with\<close>

text \<open>
  The operations of the delta store that the lists call, for one thread: the two overloads of
  allocation, the second with the timestamp of the version, the reference operations at a state of the store, release, and the
  registration of a reference that crosses to another store.
\<close>

record 's delta_store =
  st_allocate2 :: "size_t \<Rightarrow> partition_id_t \<Rightarrow> 's \<Rightarrow> (uintptr \<times> 's) result"
  st_allocate :: "size_t \<Rightarrow> partition_id_t \<Rightarrow> xid_t \<Rightarrow> 's \<Rightarrow> (uintptr \<times> 's) result"
  st_ops :: "'s \<Rightarrow> ptr_ops"
  st_release :: "uintptr \<Rightarrow> 's \<Rightarrow> 's result"
  st_delta_idx :: "uintptr \<Rightarrow> delta_id_t"
  st_save_crossing :: "row_uuid_t \<Rightarrow> uintptr \<Rightarrow> 's \<Rightarrow> 's result"
  st_crossing :: "'s \<Rightarrow> row_uuid_t \<Rightarrow> int \<Rightarrow> uintptr list option"

text \<open>The pool-backed store, used with classic references. A release clears the reference.\<close>

definition malloc_store :: "size_t \<Rightarrow> thread_id \<Rightarrow> DeltaStoreMalloc delta_store" where
  "malloc_store chunk tid =
     \<lparr>st_allocate2 = dsm_allocate chunk tid,
      st_allocate = (\<lambda>sz pid t. dsm_allocate chunk tid sz pid),
      st_ops = (\<lambda>s. classic_ptr),
      st_release = (\<lambda>r s. rbind (rassert (r \<noteq> 0) ''_val != 0'') (\<lambda>_. dsm_release tid r s)),
      st_delta_idx = (\<lambda>r. 0),
      st_save_crossing = (\<lambda>u r s. Inl (Assertion ''false'')),
      st_crossing = (\<lambda>s u i. None)\<rparr>"

text \<open>
  The array of circular stores; \<open>d\<close> is the store of the transaction, \<open>bases\<close> the map of memory
  bases. Releasing a tagged reference does nothing.
\<close>

definition store_tags :: "'h CircularDeltaStore list \<Rightarrow> delta_id_t \<rightharpoonup> 32 word" where
  "store_tags ds k = (case find (\<lambda>s. store_delta_id s = k) ds of None \<Rightarrow> None | Some s \<Rightarrow> Some (tag s))"

definition circular_store ::
  "'h ptr_table \<Rightarrow> bool \<Rightarrow> (8 word \<rightharpoonup> uintptr) \<Rightarrow> thread_id \<Rightarrow> nat \<Rightarrow> ('h CircularDeltaStore list) delta_store" where
  "circular_store C consolidation bases tid d =
     \<lparr>st_allocate2 = (\<lambda>sz pid ds.
        rbind (at_idx ds d) (\<lambda>s.
        rbind (ds_allocate bases tid sz pid s) (\<lambda>(r, s'). Inr (r, ds[d := s'])))),
      st_allocate = (\<lambda>sz pid t ds.
        rbind (at_idx ds d) (\<lambda>s.
        rbind (ds_allocate_ts consolidation bases tid sz pid t s) (\<lambda>(r, s'). Inr (r, ds[d := s'])))),
      st_ops = (\<lambda>ds. oneshot_ptr bases (store_tags ds)),
      st_release = (\<lambda>r ds. Inr ds),
      st_delta_idx = get_delta_idx,
      st_save_crossing = (\<lambda>u r ds.
        rbind (at_idx ds (unat (get_delta_idx r))) (\<lambda>s.
        rbind (saveInstanceCrossingPtr C u r s) (\<lambda>s'. Inr (ds[unat (get_delta_idx r) := s'])))),
      st_crossing = (\<lambda>ds u i.
        (case at_idx ds (nat i) of Inl _ \<Rightarrow> None
         | Inr s \<Rightarrow> (case at_idx (partitions s) (unat (get_pid_from_rowUuid u)) of Inl _ \<Rightarrow> None
                     | Inr p \<Rightarrow> ck_find C (consolidateHT p) u)))\<rparr>"

section \<open>MV\_RecordList\_Full\<close>

text \<open>
  \<open>consolidation\<close> is \<^verbatim>\<open>OneShot_CONSOLIDATION\<close>; \<^verbatim>\<open>SteamGC_CONSOLIDATION\<close> is false in the configuration, so
  its branch is not compiled. The result is the address of the version, the updated index entry,
  memory and store.
\<close>

definition full_create_versions ::
  "'s delta_store \<Rightarrow> bool \<Rightarrow> uintptr \<Rightarrow> partition_id_t \<Rightarrow> ('a) Table_scheme \<Rightarrow> IndexVal \<Rightarrow> memory \<Rightarrow> 's
     \<Rightarrow> (uintptr \<times> IndexVal \<times> memory \<times> 's) result" where
  "full_create_versions D consolidation vtable pid tableRef iv m s =
     (let ver_size = record_size tableRef; total_size = ver_size + sizeof_VersionSingle
      in rbind (st_allocate D total_size pid (iv_t_min iv) s) (\<lambda>(deltaDataPtr, s1).
         let po = st_ops D s1
         in rbind (po_ptr po deltaDataPtr) (\<lambda>base_ptr.
            rbind (rassert (base_ptr \<noteq> 0) ''base_ptr'') (\<lambda>_.
            let m1 = mk_VersionSingle vtable base_ptr (iv_t_min iv) 0
                       (base_ptr + alignof_VersionSingle + sizeof_VersionSingle) ver_size m
            in rbind (rassert (load64 m1 (base_ptr + off_size) = ver_size) ''ver->size == ver_size'') (\<lambda>_.
               rbind (po_isValid po (delta_list iv)) (\<lambda>valid.
               if valid
               then let m2 = store64 (base_ptr + VersionSingle_off_next) (delta_list iv) m1
                    in rbind (if consolidation \<and> st_delta_idx D deltaDataPtr \<noteq> st_delta_idx D (delta_list iv)
                              then st_save_crossing D (get_row_uuid (table_id tableRef) (VID iv)) (delta_list iv) s1
                              else Inr s1) (\<lambda>s2.
                       Inr (base_ptr, iv\<lparr>delta_list := deltaDataPtr\<rparr>, m2, s2))
               else Inr (base_ptr, iv\<lparr>delta_list := deltaDataPtr\<rparr>, m1, s1)))))))"

definition copy_column ::
  "('a) Table_scheme \<Rightarrow> memory \<Rightarrow> uintptr \<Rightarrow> nat \<Rightarrow> byte list result" where
  "copy_column tableRef m version_data c =
     rbind (at_idx (column_size_offset_pairs tableRef) c) (\<lambda>(width, off).
       Inr (load_bytes m (version_data + ucast off) (unat width)))"

text \<open>The bytes written to \<^verbatim>\<open>write_loc\<close>; an empty column list stands for a null or empty argument.\<close>

definition full_get_readable_version ::
  "'s delta_store \<Rightarrow> bool \<Rightarrow> nat \<Rightarrow> nat \<Rightarrow> ('a) Table_scheme \<Rightarrow> IndexVal \<Rightarrow> TxnTs \<Rightarrow> nat list \<Rightarrow> memory \<Rightarrow> 's
     \<Rightarrow> byte list result" where
  "full_get_readable_version D consolidation fuel num_stores tableRef iv txTs col_idx m s =
     (let po = st_ops D s
      in rbind
           (if consolidation
            then rbind (get_version_with_consolidation (st_delta_idx D) po VersionSingle_off_next m txTs fuel
                          (st_crossing D s (get_row_uuid (table_id tableRef) (VID iv))) num_stores (delta_list iv))
                   (\<lambda>v. Inr (Some v))
            else rbind (po_isValid po (delta_list iv)) (\<lambda>valid.
                 if \<not> valid then Inl (Fatal ''delta-tag verification failed'')
                 else rbind (get_readable_ver po VersionSingle_off_next m txTs fuel (RefHead, delta_list iv)) (\<lambda>r.
                      Inr (map_option snd r))))
           (\<lambda>versionBase.
            case versionBase of None \<Rightarrow> Inl (Assertion ''versionBase != nullptr'')
            | Some v \<Rightarrow>
                rbind (po_ptr po v) (\<lambda>version.
                rbind (rassert (version \<noteq> 0) ''version != nullptr'') (\<lambda>_.
                let version_data = load64 m (version + off_data)
                in rbind (rassert (version_data \<noteq> 0) ''version_data != nullptr'') (\<lambda>_.
                   if iv_deleted iv then Inl (RuntimeError ''Record does not exists'')
                   else let cols = (if col_idx = [] then [0..<length (column_size_offset_pairs tableRef)] else col_idx)
                        in rbind (rmap (copy_column tableRef m version_data) cols) (\<lambda>bss. Inr (concat bss)))))))"

section \<open>Collecting one chain\<close>

text \<open>The loop that unlinks and releases the cleanable versions.\<close>

fun clean_chain ::
  "'s delta_store \<Rightarrow> uintptr \<Rightarrow> nat \<Rightarrow> uintptr \<Rightarrow> memory \<Rightarrow> 's \<Rightarrow> (memory \<times> 's) result" where
  "clean_chain D off_next 0 cleanable m s = Inl Diverges"
| "clean_chain D off_next (Suc fuel) cleanable m s =
     rbind (po_isValid (st_ops D s) cleanable) (\<lambda>valid.
     if \<not> valid then Inr (m, s)
     else rbind (po_ptr (st_ops D s) cleanable) (\<lambda>p.
          if p = 0 then Inl NullDeref
          else let x = load64 m (p + off_next); m1 = store64 (p + off_next) 0 m
               in rbind (st_release D cleanable s) (\<lambda>s1. clean_chain D off_next fuel x m1 s1)))"

definition chain_steamGC ::
  "'s delta_store \<Rightarrow> uintptr \<Rightarrow> nat \<Rightarrow> TxnTs \<Rightarrow> IndexVal \<Rightarrow> memory \<Rightarrow> 's \<Rightarrow> (IndexVal \<times> memory \<times> 's) result" where
  "chain_steamGC D off_next fuel global_min iv0 m s =
     (let po = st_ops D s
      in rbind (latch_acquire iv0) (\<lambda>iv.
         rbind (po_isValid po (delta_list iv)) (\<lambda>valid.
         if \<not> valid then Inr (latch_release iv, m, s)
         else if is_readable (iv_t_min iv) global_min
         then rbind (clean_chain D off_next fuel (delta_list iv) m s) (\<lambda>(m', s').
                Inr (latch_release (iv\<lparr>delta_list := 0\<rparr>), m', s'))
         else rbind (get_readable_ver po off_next m global_min fuel (RefHead, delta_list iv)) (\<lambda>versionBase.
              case versionBase of None \<Rightarrow> Inr (latch_release iv, m, s)
              | Some (_, v) \<Rightarrow>
                  rbind (po_isValid po v) (\<lambda>ok.
                  if \<not> ok then Inr (latch_release iv, m, s)
                  else rbind (po_ptr po v) (\<lambda>p.
                       if p = 0 then Inl NullDeref
                       else let cleanable = load64 m (p + off_next); m1 = store64 (p + off_next) 0 m
                            in rbind (clean_chain D off_next fuel cleanable m1 s) (\<lambda>(m', s').
                                 Inr (latch_release iv, m', s'))))))))"

section \<open>MV\_RecordList\_Partial\<close>

text \<open>
  \<^verbatim>\<open>std::vector<uint16_t> ver_offsets{64, 0}\<close> is a list of the two numbers 64 and 0, to which the
  offsets of the columns are appended.
\<close>

definition read_u16s :: "16 word list \<Rightarrow> nat \<Rightarrow> byte list result" where
  "read_u16s ws n =
     (let bs = concat (map (\<lambda>w. le_bytes 2 (ucast w)) ws) in if n \<le> length bs then Inr (take n bs) else Inl BadAccess)"

definition partial_create_versions ::
  "'s delta_store \<Rightarrow> bool \<Rightarrow> uintptr \<Rightarrow> partition_id_t \<Rightarrow> ('a) Table_scheme \<Rightarrow> IndexVal \<Rightarrow> nat list \<Rightarrow> memory \<Rightarrow> 's
     \<Rightarrow> (uintptr \<times> IndexVal \<times> memory \<times> 's) result" where
  "partial_create_versions D consolidation vtable pid tableRef iv col_idx m s =
     rbind (get_partial_mask_size (column_size tableRef) [64, 0] col_idx) (\<lambda>(ver_data_size, ver_offsets, attr_mask).
     let offset_arr_sz = of_nat (bit_count attr_mask) * 2
     in rbind (st_allocate2 D (ver_data_size + offset_arr_sz + sizeof_VersionMultiAttr) pid s) (\<lambda>(deltaDataPtr, s1).
        let po = st_ops D s1
        in rbind (po_ptr po deltaDataPtr) (\<lambda>base_ptr.
           rbind (rassert (base_ptr \<noteq> 0) ''base_ptr'') (\<lambda>_.
           let m1 = mk_VersionMultiAttr vtable base_ptr (iv_t_min iv) 0 (base_ptr + sizeof_VersionMultiAttr) ver_data_size m
           in rbind (po_isValid po (delta_list iv)) (\<lambda>valid.
              if valid \<and> consolidation then Inl (Fatal ''Consolidation not implemented for partial'')
              else let m2 = (if valid then store64 (base_ptr + VersionMultiAttr_off_next) (delta_list iv) m1 else m1);
                       offset_arr = load64 m2 (base_ptr + off_data) + ver_data_size;
                       m3 = create_partial_mask base_ptr offset_arr attr_mask m2
                   in rbind (read_u16s ver_offsets (unat offset_arr_sz)) (\<lambda>bs.
                      Inr (base_ptr, iv\<lparr>delta_list := deltaDataPtr\<rparr>, store_bytes offset_arr bs m3, s1)))))))"

text \<open>
  Reading: which attributes are done, and where the requested attributes go in the output. The
  output is a buffer; a write outside it is a bad access.
\<close>

fun requested ::
  "('a) Table_scheme \<Rightarrow> nat list \<Rightarrow> 16 word \<Rightarrow> 64 word \<Rightarrow> 16 word list \<Rightarrow> (64 word \<times> 16 word list) result" where
  "requested tableRef [] offset done_mask offs = Inr (done_mask, offs)"
| "requested tableRef (c # cs) offset done_mask offs =
     (if c < 64
      then rbind (at_idx (column_size_offset_pairs tableRef) c) (\<lambda>(width, _).
             requested tableRef cs (offset + width) (unset_bit c done_mask) (offs @ [offset + width]))
      else Inl OutOfRange)"

definition write_buffer :: "nat \<Rightarrow> byte list \<Rightarrow> byte list \<Rightarrow> byte list result" where
  "write_buffer off bs buf = (if off + length bs \<le> length buf then Inr (splice_at buf off bs) else Inl BadAccess)"

definition copy_attribute ::
  "('a) Table_scheme \<Rightarrow> bool \<Rightarrow> 64 word \<Rightarrow> 16 word list \<Rightarrow> memory \<Rightarrow> uintptr \<Rightarrow> nat \<Rightarrow> byte list \<Rightarrow> byte list result" where
  "copy_attribute tableRef all_cols required_mask return_col_offsets m ver i buf =
     rbind (at_idx (column_size_offset_pairs tableRef) i) (\<lambda>(width, off).
     let version_col_offset = VersionMultiAttr_get_offset m ver i;
         data = load64 m (ver + off_data)
     in rbind (if all_cols then Inr off
               else at_idx return_col_offsets (bit_count (drop_bit (64 - i) required_mask))) (\<lambda>out.
        rbind (rassert (data \<noteq> 0) ''version_ptr->data != nullptr'') (\<lambda>_.
        write_buffer (unat out) (load_bytes m (data + ucast version_col_offset) (unat width)) buf)))"

fun undo_images ::
  "ptr_ops \<Rightarrow> ('a) Table_scheme \<Rightarrow> bool \<Rightarrow> 64 word \<Rightarrow> 16 word list \<Rightarrow> memory \<Rightarrow> TxnTs \<Rightarrow> nat \<Rightarrow> uintptr
     \<Rightarrow> 64 word \<Rightarrow> byte list \<Rightarrow> (64 word \<times> byte list) result" where
  "undo_images po tableRef all_cols required_mask offs m txTs 0 ver done_mask buf = Inl Diverges"
| "undo_images po tableRef all_cols required_mask offs m txTs (Suc fuel) ver done_mask buf =
     (if ver = 0 then Inr (done_mask, buf)
      else let tmp = load64 m (ver + off_attribute_mask) AND NOT done_mask
           in rbind (rfold (copy_attribute tableRef all_cols required_mask offs m ver)
                       (filter (bit tmp) [0..<64]) buf) (\<lambda>buf'.
              let t_min = load64 m (ver + off_t_min)
              in if t_min = txn_id txTs \<or> t_min < txn_start_time txTs then Inr (done_mask OR tmp, buf')
                 else rbind (po_ptr po (load64 m (ver + VersionMultiAttr_off_next))) (\<lambda>nxt.
                      undo_images po tableRef all_cols required_mask offs m txTs fuel nxt (done_mask OR tmp) buf')))"

definition partial_get_readable_version ::
  "'s delta_store \<Rightarrow> nat \<Rightarrow> ('a) Table_scheme \<Rightarrow> IndexVal \<Rightarrow> TxnTs \<Rightarrow> nat list \<Rightarrow> byte list \<Rightarrow> memory \<Rightarrow> 's
     \<Rightarrow> (64 word \<times> byte list) result" where
  "partial_get_readable_version D fuel tableRef iv txTs col_idx buf m s =
     (let po = st_ops D s
      in rbind (po_ptr po (delta_list iv)) (\<lambda>version_ptr.
         if version_ptr = 0 then Inl (Fatal ''delta-tag verification failed'')
         else rbind (if col_idx \<noteq> []
                     then rbind (rassert (length col_idx \<le> 64) ''MAX columns supported: 64'') (\<lambda>_.
                          rbind (requested tableRef col_idx 0 (- 1) []) (\<lambda>(dm, offs).
                          Inr (dm, offs @ replicate (64 - length offs) 0)))
                     else Inr (0, replicate 64 0)) (\<lambda>(done_mask, offs).
              rbind (rassert (done_mask \<noteq> - 1) ''not done'') (\<lambda>_.
              undo_images po tableRef (col_idx = []) (NOT done_mask) offs m txTs fuel version_ptr done_mask buf))))"

section \<open>Reading a version\<close>

definition project :: "('a) Table_scheme \<Rightarrow> nat list \<Rightarrow> byte list \<Rightarrow> byte list" where
  "project T cols bs =
     concat (map (\<lambda>c. let (w, off) = column_size_offset_pairs T ! c in slice bs (unat off) (unat w))
       (if cols = [] then [0..<length (column_size_offset_pairs T)] else cols))"

definition layout_ok :: "('a) Table_scheme \<Rightarrow> bool" where
  "layout_ok T \<longleftrightarrow> (\<forall>(w, off)\<in>set (column_size_offset_pairs T). unat off + unat w \<le> unat (record_size T)) \<and>
     unat (record_size T) < 2 ^ 63"

lemma load_bytes_slice:
  assumes "unat off + w \<le> R"
  shows "load_bytes m (p + off) w = slice (load_bytes m p R) (unat off) w"
proof (rule nth_equalityI)
  fix i assume "i < length (load_bytes m (p + off) w)"
  then have i: "i < w" by simp
  have "(of_nat (unat off + i) :: uintptr) = off + of_nat i" by simp
  then show "load_bytes m (p + off) w ! i = slice (load_bytes m p R) (unat off) w ! i"
    using i assms by (simp add: load_bytes_def nth_slice add.assoc)
qed (use assms in simp)

lemma chain_member:
  assumes "chain po m R r vs" and "(a, t, bs) \<in> set vs"
  shows "a \<noteq> 0" "ver_payload a \<noteq> 0" "load64 m (a + off_t_min) = t" "load64 m (a + off_data) = ver_payload a"
    "load_bytes m (ver_payload a) R = bs"
proof -
  have "a \<noteq> 0 \<and> ver_payload a \<noteq> 0 \<and> load64 m (a + off_t_min) = t \<and> load64 m (a + off_data) = ver_payload a \<and>
    load_bytes m (ver_payload a) R = bs"
    using assms
  proof (induction vs arbitrary: r)
    case (Cons v vs)
    obtain a' t' bs' where v: "v = (a', t', bs')" by (cases v)
    show ?case
    proof (cases "(a, t, bs) = v")
      case False
      then show ?thesis using Cons.IH Cons.prems v by (metis chain.simps(2) set_ConsD)
    qed (use Cons.prems v in simp)
  qed simp
  then show "a \<noteq> 0" "ver_payload a \<noteq> 0" "load64 m (a + off_t_min) = t" "load64 m (a + off_data) = ver_payload a"
    "load_bytes m (ver_payload a) R = bs" by blast+
qed

lemma first_readable_mem: "first_readable txTs vs = Some v \<Longrightarrow> v \<in> set vs"
  unfolding first_readable_def find_Some_iff by (metis nth_mem)

lemma full_get_readable_version_chain:
  assumes ch: "chain (st_ops D s) m (unat (record_size T)) (delta_list iv) vs" and fuel: "length vs < fuel"
    and first: "first_readable txTs vs = Some (a, t, bs)" and del: "\<not> iv_deleted iv" and lay: "layout_ok T"
    and cols: "\<forall>c\<in>set cols. c < length (column_size_offset_pairs T)"
  shows "full_get_readable_version D False fuel n T iv txTs cols m s = Inr (project T cols bs)"
proof -
  let ?po = "st_ops D s" and ?R = "unat (record_size T)"
  from get_readable_ver_chain [OF ch fuel, of txTs RefHead] first obtain l v where
    v: "get_readable_ver ?po VersionSingle_off_next m txTs fuel (RefHead, delta_list iv) = Inr (Some (l, v))"
      "po_ptr ?po v = Inr a" by auto
  have mem: "(a, t, bs) \<in> set vs" using first by (rule first_readable_mem)
  note M = chain_member [OF ch mem]
  have valid: "po_isValid ?po (delta_list iv) = Inr True" using ch mem by (cases vs) auto
  let ?cols = "if cols = [] then [0..<length (column_size_offset_pairs T)] else cols"
  have "rmap (copy_column T m (ver_payload a)) ?cols =
      Inr (map (\<lambda>c. let (w, off) = column_size_offset_pairs T ! c in slice bs (unat off) (unat w)) ?cols)"
  proof (rule rmap_all_Inr)
    fix c assume "c \<in> set ?cols"
    then have c: "c < length (column_size_offset_pairs T)" using cols by (auto split: if_splits)
    obtain w off where p: "column_size_offset_pairs T ! c = (w, off)" by force
    then have "unat off + unat w \<le> ?R" using lay c nth_mem [OF c] by (auto simp: layout_ok_def)
    moreover have "unat (ucast off :: uintptr) = unat off" by (simp add: unsigned_ucast_eq take_bit_nat_eq_self
        less_trans [OF unsigned_less [of off, where 'a = nat]])
    ultimately have "load_bytes m (ver_payload a + ucast off) (unat w) = slice bs (unat off) (unat w)"
      using load_bytes_slice [of "ucast off" "unat w" ?R m "ver_payload a"] M(5) by simp
    then show "copy_column T m (ver_payload a) c =
        Inr (let (w, off) = column_size_offset_pairs T ! c in slice bs (unat off) (unat w))"
      using c p by (simp add: copy_column_def)
  qed
  then show ?thesis using v valid M(1,2,4) del
    by (simp add: full_get_readable_version_def Let_def project_def)
qed

section \<open>Separated versions\<close>

text \<open>The blocks of \<open>N\<close> bytes of the versions of a chain, and that they do not overlap.\<close>

definition ver_blocks :: "nat \<Rightarrow> ver list \<Rightarrow> uintptr set" where
  "ver_blocks N vs = (\<Union>v\<in>set vs. blk (fst v) N)"

definition ver_apart :: "nat \<Rightarrow> ver list \<Rightarrow> bool" where
  "ver_apart N vs \<longleftrightarrow> sorted_wrt (\<lambda>v w. blk (fst v) N \<inter> blk (fst w) N = {}) vs"

text \<open>What is left of a chain when everything behind the first version that satisfies \<open>P\<close> is cut.\<close>

fun keep_until :: "('a \<Rightarrow> bool) \<Rightarrow> 'a list \<Rightarrow> 'a list" where
  "keep_until P [] = []"
| "keep_until P (x # xs) = (if P x then [x] else x # keep_until P xs)"

definition gc_keep :: "TxnTs \<Rightarrow> xid_t \<Rightarrow> ver list \<Rightarrow> ver list" where
  "gc_keep gmin t vs = (if is_readable t gmin then [] else keep_until (\<lambda>(a, t, bs). is_readable t gmin) vs)"

lemma ver_blocks_simps: "ver_blocks N [] = {}" "ver_blocks N ((a, t, bs) # vs) = blk a N \<union> ver_blocks N vs"
  by (simp_all add: ver_blocks_def)

lemma ver_blocks_append: "ver_blocks N (vs @ ws) = ver_blocks N vs \<union> ver_blocks N ws"
  by (simp add: ver_blocks_def)

lemma ver_apart_mono: "ver_apart N vs \<Longrightarrow> n \<le> N \<Longrightarrow> ver_apart n vs"
  unfolding ver_apart_def by (erule sorted_wrt_mono_rel [rotated]) (clarsimp simp: blk_def disjoint_iff, meson less_le_trans)

lemma chain_suffix: "chain po m R r (pre @ (a, t, bs) # post) \<Longrightarrow> chain po m R (load64 m (a + VersionSingle_off_next)) post"
  by (induction pre arbitrary: r) auto

lemma keep_until_split: "find P xs = Some x \<Longrightarrow> \<exists>ys. xs = keep_until P xs @ ys \<and> (\<exists>pre. keep_until P xs = pre @ [x])"
  by (induction xs) (auto split: if_splits)

lemma keep_until_none: "find P xs = None \<Longrightarrow> keep_until P xs = xs"
  by (induction xs) (auto split: if_splits)

lemma length_keep_until: "length (keep_until P xs) \<le> length xs"
  by (induction xs) auto

lemma find_keep_until: "(\<And>x. x \<in> set xs \<Longrightarrow> P x \<Longrightarrow> Q x) \<Longrightarrow> find Q (keep_until P xs) = find Q xs"
  by (induction xs) auto

text \<open>Clearing the reference of the last version that is kept cuts the chain there.\<close>

lemma chain_cut:
  assumes R: "R < 2 ^ 63" and null: "po_isValid po 0 = Inr False"
    and "chain po m R r (pre @ (a, t, bs) # post)" and "ver_apart (ver_extent R) (pre @ (a, t, bs) # post)"
    and m': "m' = store64 (a + VersionSingle_off_next) 0 m"
  shows "chain po m' R r (pre @ [(a, t, bs)])"
  using assms(3,4)
proof (induction pre arbitrary: r)
  case Nil
  have ext: "ver_extent R \<le> 2 ^ 64" using R by (simp add: ver_extent_def)
  have "load64 m' (a + f) = load64 m (a + f)" if "f \<in> {off_t_min, off_data}" for f
    using that by (auto simp: m' version_offsets intro!: load64_store64_disjoint blk_shift_disjoint)
  moreover have "blk (a + 40) 8 \<inter> blk (a + 49) R = {}"
  proof (rule blk_shift_disjoint)
    have "unat (40 - 49 :: uintptr) = 2 ^ 64 - 9" by simp
    then show "R \<le> unat (40 - 49 :: uintptr)" using R by simp
  qed simp
  then have "load_bytes m' (ver_payload a) R = load_bytes m (ver_payload a) R"
    using R by (simp add: m' ver_payload_eq VersionSingle_off_next_def load_bytes_store64)
  ultimately show ?case using Nil null by (simp add: m')
next
  case (Cons v pre)
  obtain b u cs where v: "v = (b, u, cs)" by (cases v)
  have apart: "blk b (ver_extent R) \<inter> blk a (ver_extent R) = {}" "ver_apart (ver_extent R) (pre @ (a, t, bs) # post)"
    using Cons.prems(2) v by (auto simp: ver_apart_def)
  have "blk (a + VersionSingle_off_next) 8 \<subseteq> blk a (ver_extent R)" using ver_parts(3) [OF R] .
  then have dis: "blk (a + VersionSingle_off_next) 8 \<inter> blk b' n = {}" if "blk b' n \<subseteq> blk b (ver_extent R)" for b' n
    using apart(1) that by blast
  note P = ver_parts [OF R, of b]
  have "load64 m' (b + off_t_min) = load64 m (b + off_t_min)" "load64 m' (b + off_data) = load64 m (b + off_data)"
    "load64 m' (b + VersionSingle_off_next) = load64 m (b + VersionSingle_off_next)"
    by (simp_all only: m' load64_store64_disjoint [OF dis [OF P(1)]] load64_store64_disjoint [OF dis [OF P(2)]]
        load64_store64_disjoint [OF dis [OF P(3)]])
  moreover have "load_bytes m' (ver_payload b) R = load_bytes m (ver_payload b) R"
    using R by (simp add: m' load_bytes_store64 [OF dis [OF P(4)]])
  ultimately show ?case using Cons.IH [OF _ apart(2)] Cons.prems(1) v by simp
qed

section \<open>What a version list relies on\<close>

text \<open>
  The contract of the delta store: \<open>inv s U\<close> says that the bytes \<open>U\<close> are in use. An allocation of
  \<open>sz\<close> bytes returns a valid reference to \<open>room sz\<close> bytes that were not in use and leaves the
  other references alone; releasing a block ends its use.
\<close>

locale version_store =
  fixes D :: "'s delta_store"
    and inv :: "'s \<Rightarrow> uintptr set \<Rightarrow> bool"
    and room :: "size_t \<Rightarrow> nat"
  assumes null_invalid: "inv s U \<Longrightarrow> po_isValid (st_ops D s) 0 = Inr False"
    and allocate_ops: "inv s U \<Longrightarrow> st_allocate D sz pid t s = Inr (r, s') \<Longrightarrow> st_ops D s' = st_ops D s"
    and allocate_fresh: "inv s U \<Longrightarrow> st_allocate D sz pid t s = Inr (r, s') \<Longrightarrow>
      \<exists>a. po_isValid (st_ops D s) r = Inr True \<and> po_ptr (st_ops D s) r = Inr a \<and> a \<noteq> 0 \<and>
          unat a + room sz < 2 ^ 64 \<and> blk a (room sz) \<inter> U = {} \<and> inv s' (U \<union> blk a (room sz))"
    and release_law: "inv s (U \<union> blk a (room sz)) \<Longrightarrow> blk a (room sz) \<inter> U = {} \<Longrightarrow>
      po_isValid (st_ops D s) r = Inr True \<Longrightarrow> po_ptr (st_ops D s) r = Inr a \<Longrightarrow>
      \<exists>s'. st_release D r s = Inr s' \<and> st_ops D s' = st_ops D s \<and> inv s' U"
begin

lemma create_versions_run:
  assumes "inv s U" and "st_allocate D (record_size T + sizeof_VersionSingle) pid (iv_t_min iv) s = Inr (r, sx)"
    and "po_ptr (st_ops D s) r = Inr a" "a \<noteq> 0" and "po_isValid (st_ops D s) (delta_list iv) = Inr v"
  shows "full_create_versions D False vt pid T iv m s = Inr (a, iv\<lparr>delta_list := r\<rparr>,
      let m1 = mk_VersionSingle vt a (iv_t_min iv) 0 (ver_payload a) (record_size T) m
      in if v then store64 (a + VersionSingle_off_next) (delta_list iv) m1 else m1, sx)"
  using assms allocate_ops [OF assms(1,2)]
  by (simp add: full_create_versions_def Let_def mk_VersionSingle_fields ver_payload_def)

lemma create_versions_chain:
  assumes inv: "inv s U" and ch: "chain (st_ops D s) m R (delta_list iv) vs" and sub: "chain_blocks R vs \<subseteq> U"
    and R: "R = unat (record_size T)" "R < 2 ^ 63" and room: "ver_extent R \<le> room (record_size T + sizeof_VersionSingle)"
    and run: "full_create_versions D False vt pid T iv m s = Inr (a, iv', m', s')"
  defines "B \<equiv> blk a (room (record_size T + sizeof_VersionSingle))"
  shows "a \<noteq> 0" "B \<inter> U = {}" "inv s' (U \<union> B)" "st_ops D s' = st_ops D s"
    "\<exists>r. iv' = iv\<lparr>delta_list := r\<rparr>"
    "chain (st_ops D s') m' R (delta_list iv') ((a, iv_t_min iv, load_bytes m' (ver_payload a) R) # vs)"
    "load64 m' (a + off_data) = ver_payload a"
    "\<And>x. x \<notin> blk a 48 \<Longrightarrow> m' x = m x"
proof -
  let ?po = "st_ops D s" and ?sz = "record_size T + sizeof_VersionSingle"
  obtain r s1 where al: "st_allocate D ?sz pid (iv_t_min iv) s = Inr (r, s1)"
    using run by (auto simp: full_create_versions_def Let_def rbind_eq_Inr_iff)
  note ops = allocate_ops [OF inv al]
  from allocate_fresh [OF inv al] obtain a' where fresh: "po_isValid ?po r = Inr True" "po_ptr ?po r = Inr a'"
    "a' \<noteq> 0" "unat a' + room ?sz < 2 ^ 64" "blk a' (room ?sz) \<inter> U = {}" "inv s1 (U \<union> blk a' (room ?sz))" by blast
  let ?m1 = "mk_VersionSingle vt a' (iv_t_min iv) 0 (ver_payload a') (record_size T) m"
  obtain v where v: "po_isValid ?po (delta_list iv) = Inr v" using ch by (cases vs) auto
  from run create_versions_run [OF inv al fresh(2,3) v] have "(a, iv', m', s') = (a', iv\<lparr>delta_list := r\<rparr>,
      if v then store64 (a' + VersionSingle_off_next) (delta_list iv) ?m1 else ?m1, s1)"
    unfolding Let_def by (metis Inr_inject)
  then have res: "a = a'" "iv' = iv\<lparr>delta_list := r\<rparr>" "s' = s1"
    "m' = (if v then store64 (a' + VersionSingle_off_next) (delta_list iv) ?m1 else ?m1)"
    unfolding prod.inject by blast+
  show "a \<noteq> 0" "B \<inter> U = {}" "inv s' (U \<union> B)" "st_ops D s' = ?po" "\<exists>r. iv' = iv\<lparr>delta_list := r\<rparr>"
    using fresh ops res by (auto simp: B_def)
  have "unat (a + 49) = unat a + 49"
    using fresh(4) room res(1) by (subst unat_add_no_wrap) (simp_all add: ver_extent_def)
  then have pay: "ver_payload a \<noteq> 0" unfolding ver_payload_eq by (metis add_is_0 unat_0 zero_neq_numeral)
  show out: "m' x = m x" if "x \<notin> blk a 48" for x
  proof -
    have "x \<notin> blk (a + c) 8" if "unat c + 8 \<le> 48" for c
      using blk_shift [OF that, of a] \<open>x \<notin> blk a 48\<close> by auto
    from this [of 0] this [of 8] this [of 16] this [of 24] this [of 32] this [of 40]
    show ?thesis
      by (simp add: res mk_VersionSingle_def mk_Version_def version_offsets store64_def store_bytes_def blk_def)
  qed
  have dis: "load64 (store64 (a + VersionSingle_off_next) w mm) (a + f) = load64 mm (a + f)"
    if "f \<in> {off_t_min, off_data}" for w mm f
    using that by (auto simp: version_offsets intro!: load64_store64_disjoint blk_shift_disjoint)
  have f: "load64 m' (a + off_t_min) = iv_t_min iv" "load64 m' (a + off_data) = ver_payload a"
    "load64 m' (a + VersionSingle_off_next) = (if v then delta_list iv else 0)"
    using dis [of off_t_min] dis [of off_data]
    by (simp_all add: res mk_VersionSingle_fields)
  show "load64 m' (a + off_data) = ver_payload a" by (rule f(2))
  have tail: "chain (st_ops D s') m' R (load64 m' (a + VersionSingle_off_next)) vs"
  proof (cases v)
    case True
    have "m' x = m x" if "x \<in> chain_blocks R vs" for x
    proof (rule out)
      have "blk a 48 \<subseteq> B" using blk_shift [of 0 48 "room ?sz" a] room fresh(4) by (simp add: B_def ver_extent_def)
      then show "x \<notin> blk a 48" using that sub \<open>B \<inter> U = {}\<close> by blast
    qed
    then have "chain (st_ops D s') m' R (delta_list iv) vs"
      using chain_frame [OF R(2) ch] ops res(3) by metis
    then show ?thesis using True f(3) by simp
  next
    case False
    then have "vs = []" using ch v by (cases vs) auto
    then show ?thesis using False f(3) null_invalid [OF inv] ops res(3) by simp
  qed
  then show "chain (st_ops D s') m' R (delta_list iv') ((a, iv_t_min iv, load_bytes m' (ver_payload a) R) # vs)"
    using fresh(1-3) f(1,2) pay ops res by simp
qed

text \<open>Cleaning a chain releases its blocks and touches no other memory.\<close>

lemma clean_chain_ok:
  assumes R: "R < 2 ^ 63" and N: "N = room sz" "ver_extent R \<le> N" "N < 2 ^ 64"
    and "chain (st_ops D s) m R r vs" "length vs < fuel"
    and "ver_blocks N vs \<inter> U = {}" "ver_apart N vs" "inv s (U \<union> ver_blocks N vs)"
  shows "\<exists>m' s'. clean_chain D VersionSingle_off_next fuel r m s = Inr (m', s') \<and>
     st_ops D s' = st_ops D s \<and> inv s' U \<and> (\<forall>x. x \<notin> ver_blocks N vs \<longrightarrow> m' x = m x)"
  using assms(5-9)
proof (induction vs arbitrary: r m s fuel)
  case Nil
  then obtain f where "fuel = Suc f" by (cases fuel) auto
  then show ?case using Nil by (simp add: ver_blocks_def)
next
  case (Cons v vs)
  obtain a t bs where v: "v = (a, t, bs)" by (cases v)
  obtain f where f: "fuel = Suc f" "length vs < f" using Cons.prems(2) by (cases fuel) auto
  let ?nx = "load64 m (a + VersionSingle_off_next)" and ?m1 = "store64 (a + VersionSingle_off_next) 0 m"
  have ch: "po_isValid (st_ops D s) r = Inr True" "po_ptr (st_ops D s) r = Inr a" "a \<noteq> 0"
    "chain (st_ops D s) m R ?nx vs" using Cons.prems(1) v by simp_all
  have disj: "blk a N \<inter> ver_blocks N vs = {}" "ver_apart N vs"
    using Cons.prems(4) v by (auto simp: ver_apart_def ver_blocks_def)
  have "inv s ((U \<union> ver_blocks N vs) \<union> blk a (room sz))"
    using Cons.prems(5) v N(1) by (simp add: ver_blocks_def Un_commute Un_left_commute)
  moreover have "blk a (room sz) \<inter> (U \<union> ver_blocks N vs) = {}"
    using disj(1) Cons.prems(3) v N(1) by (auto simp: ver_blocks_def)
  ultimately obtain s1 where s1: "st_release D r s = Inr s1" "st_ops D s1 = st_ops D s" "inv s1 (U \<union> ver_blocks N vs)"
    using release_law [OF _ _ ch(1,2), where sz = sz] by blast
  have sub: "blk (a + VersionSingle_off_next) 8 \<subseteq> blk a N"
    unfolding version_offsets using N by (intro blk_shift) (simp_all add: ver_extent_def)
  have out: "?m1 x = m x" if "x \<notin> blk a N" for x
    using that sub by (auto simp: store64_def store_bytes_def blk_def)
  have "chain (st_ops D s1) ?m1 R ?nx vs"
  proof (rule chain_frame [OF R ch(4)])
    fix x assume "x \<in> chain_blocks R vs"
    then have "x \<in> ver_blocks N vs"
      using N(2) by (auto simp: chain_blocks_def ver_blocks_def blk_def intro: less_le_trans)
    then show "?m1 x = m x" using disj(1) by (intro out) blast
  qed (simp_all add: s1(2))
  moreover have "ver_blocks N vs \<inter> U = {}" using Cons.prems(3) v by (auto simp: ver_blocks_def)
  ultimately obtain m' s' where IH: "clean_chain D VersionSingle_off_next f ?nx ?m1 s1 = Inr (m', s')"
    "st_ops D s' = st_ops D s1" "inv s' U" "\<forall>x. x \<notin> ver_blocks N vs \<longrightarrow> m' x = ?m1 x"
    using Cons.IH [OF _ f(2) _ disj(2) s1(3)] by metis
  have "clean_chain D VersionSingle_off_next fuel r m s = Inr (m', s')"
    using ch(1-3) s1(1) IH(1) by (simp add: f(1))
  moreover have "m' x = m x" if "x \<notin> ver_blocks N (v # vs)" for x
    using that IH(4) out [of x] v by (simp add: ver_blocks_def)
  ultimately show ?case using IH(2,3) s1(2) by (intro exI [of _ m'] exI [of _ s']) simp
qed

lemma gc_cut:
  assumes R: "R < 2 ^ 63" and N: "N = room sz" "ver_extent R \<le> N" "N < 2 ^ 64"
    and ch: "chain (st_ops D s) m R r (pre @ (a, t, bs) # post)" and fuel: "length post < fuel"
    and sep: "ver_blocks N (pre @ (a, t, bs) # post) \<inter> U = {}" "ver_apart N (pre @ (a, t, bs) # post)"
    and inv: "inv s (U \<union> ver_blocks N (pre @ (a, t, bs) # post))"
  shows "\<exists>m' s'. clean_chain D VersionSingle_off_next fuel (load64 m (a + VersionSingle_off_next))
       (store64 (a + VersionSingle_off_next) 0 m) s = Inr (m', s') \<and>
     st_ops D s' = st_ops D s \<and> inv s' (U \<union> ver_blocks N (pre @ [(a, t, bs)])) \<and>
     chain (st_ops D s') m' R r (pre @ [(a, t, bs)]) \<and>
     (\<forall>x. x \<notin> ver_blocks N (pre @ (a, t, bs) # post) \<longrightarrow> m' x = m x)"
proof -
  let ?m1 = "store64 (a + VersionSingle_off_next) 0 m" and ?kept = "pre @ [(a, t, bs)]"
  note B = ver_blocks_append ver_blocks_simps
  have dis: "ver_blocks N ?kept \<inter> ver_blocks N post = {}" "ver_apart N post" "blk a N \<inter> ver_blocks N post = {}"
    using sep(2) by (fastforce simp: ver_apart_def ver_blocks_def sorted_wrt_append)+
  have sub: "blk (a + VersionSingle_off_next) 8 \<subseteq> blk a N"
    unfolding version_offsets using N by (intro blk_shift) (simp_all add: ver_extent_def)
  have out: "?m1 x = m x" if "x \<notin> blk a N" for x
    using that sub by (auto simp: store64_def store_bytes_def blk_def)
  have cb: "chain_blocks R vs \<subseteq> ver_blocks N vs" for vs
    using N(2) by (auto simp: chain_blocks_def ver_blocks_def blk_def intro: less_le_trans)
  have post: "chain (st_ops D s) ?m1 R (load64 m (a + VersionSingle_off_next)) post"
  proof (rule chain_frame [OF R chain_suffix [OF ch]])
    fix x assume "x \<in> chain_blocks R post"
    then show "?m1 x = m x" using cb dis(3) by (intro out) blast
  qed simp_all
  have "inv s ((U \<union> ver_blocks N ?kept) \<union> ver_blocks N post)" using inv by (simp add: B Un_ac)
  moreover have "ver_blocks N post \<inter> (U \<union> ver_blocks N ?kept) = {}" using sep(1) dis(1) by (auto simp: B)
  ultimately obtain m' s' where c: "clean_chain D VersionSingle_off_next fuel (load64 m (a + VersionSingle_off_next)) ?m1 s = Inr (m', s')"
    "st_ops D s' = st_ops D s" "inv s' (U \<union> ver_blocks N ?kept)" "\<forall>x. x \<notin> ver_blocks N post \<longrightarrow> m' x = ?m1 x"
    using clean_chain_ok [OF R N post fuel _ dis(2)] by blast
  have "chain (st_ops D s) ?m1 R r ?kept"
    using chain_cut [OF R null_invalid [OF inv] ch ver_apart_mono [OF sep(2) N(2)] refl] .
  then have "chain (st_ops D s') m' R r ?kept"
    by (rule chain_frame [OF R]) (use c(2,4) cb [of ?kept] dis(1) in auto)
  moreover have "m' x = m x" if "x \<notin> ver_blocks N (pre @ (a, t, bs) # post)" for x
    using that c(4) out [of x] by (simp add: B)
  ultimately show ?thesis using c by blast
qed

text \<open>
  Collecting a chain keeps the versions up to the first one that the minimum can read, and no
  version at all if the record itself is readable.
\<close>

lemma chain_steamGC_ok:
  assumes R: "R < 2 ^ 63" and N: "N = room sz" "ver_extent R \<le> N" "N < 2 ^ 64"
    and ch: "chain (st_ops D s) m R (delta_list iv) vs" and fuel: "length vs < fuel"
    and sep: "ver_blocks N vs \<inter> U = {}" "ver_apart N vs" and inv: "inv s (U \<union> ver_blocks N vs)"
    and latch: "\<not> iv_latch iv"
  shows "\<exists>r m' s'. chain_steamGC D VersionSingle_off_next fuel gmin iv m s = Inr (iv\<lparr>delta_list := r\<rparr>, m', s') \<and>
     st_ops D s' = st_ops D s \<and> inv s' (U \<union> ver_blocks N (gc_keep gmin (iv_t_min iv) vs)) \<and>
     chain (st_ops D s') m' R r (gc_keep gmin (iv_t_min iv) vs) \<and>
     (\<forall>x. x \<notin> ver_blocks N vs \<longrightarrow> m' x = m x)"
proof -
  let ?po = "st_ops D s" and ?P = "\<lambda>(a, t, bs). is_readable t gmin" and ?off = VersionSingle_off_next
  have lat: "latch_acquire iv = Inr (iv\<lparr>iv_latch := True\<rparr>)" "latch_release (iv\<lparr>iv_latch := True\<rparr>) = iv"
    "latch_release (iv\<lparr>iv_latch := True, delta_list := 0\<rparr>) = iv\<lparr>delta_list := 0\<rparr>"
    using latch by (simp_all add: latch_acquire_def latch_release_def)
  have stay: ?thesis if "chain_steamGC D ?off fuel gmin iv m s = Inr (iv, m, s)" "gc_keep gmin (iv_t_min iv) vs = vs"
    using that ch inv by (intro exI [of _ "delta_list iv"] exI [of _ m] exI [of _ s]) simp
  obtain valid where v: "po_isValid ?po (delta_list iv) = Inr valid" using ch by (cases vs) auto
  consider "\<not> valid" | "valid" "is_readable (iv_t_min iv) gmin" | "valid" "\<not> is_readable (iv_t_min iv) gmin" by blast
  then show ?thesis
  proof cases
    case 1
    then have "vs = []" using ch v by (cases vs) auto
    then show ?thesis using 1 v lat by (intro stay) (simp_all add: chain_steamGC_def Let_def gc_keep_def)
  next
    case 2
    obtain m' s' where c: "clean_chain D ?off fuel (delta_list iv) m s = Inr (m', s')" "st_ops D s' = ?po" "inv s' U"
      "\<forall>x. x \<notin> ver_blocks N vs \<longrightarrow> m' x = m x" using clean_chain_ok [OF R N ch fuel sep inv] by blast
    then have "chain_steamGC D ?off fuel gmin iv m s = Inr (iv\<lparr>delta_list := 0\<rparr>, m', s')"
      using v 2 lat by (simp add: chain_steamGC_def Let_def)
    then show ?thesis using 2 c null_invalid [OF c(3)]
      by (intro exI [of _ 0] exI [of _ m'] exI [of _ s']) (simp add: ver_blocks_def gc_keep_def)
  next
    case 3
    then have keep: "gc_keep gmin (iv_t_min iv) vs = keep_until ?P vs" by (simp add: gc_keep_def)
    obtain res where g: "get_readable_ver ?po ?off m gmin fuel (RefHead, delta_list iv) = Inr res"
      "case first_readable gmin vs of None \<Rightarrow> res = None
       | Some (a, t, bs) \<Rightarrow> \<exists>l' v. res = Some (l', v) \<and> po_isValid ?po v = Inr True \<and> po_ptr ?po v = Inr a"
      using get_readable_ver_chain [OF ch fuel] by blast
    show ?thesis
    proof (cases "first_readable gmin vs")
      case None
      then have "keep_until ?P vs = vs" by (intro keep_until_none) (simp add: first_readable_def)
      then show ?thesis using v 3 g None lat keep by (intro stay) (simp_all add: chain_steamGC_def Let_def)
    next
      case (Some w)
      obtain a t bs where w: "w = (a, t, bs)" by (cases w)
      obtain l x where x: "res = Some (l, x)" "po_isValid ?po x = Inr True" "po_ptr ?po x = Inr a"
        using g(2) Some w by auto
      obtain post pre where split: "vs = keep_until ?P vs @ post" "keep_until ?P vs = pre @ [(a, t, bs)]"
        using keep_until_split [of ?P vs w] Some w by (auto simp: first_readable_def)
      then have vs: "vs = pre @ (a, t, bs) # post" by simp
      have a0: "a \<noteq> 0" using chain_member(1) [OF ch first_readable_mem [OF Some [unfolded w]]] .
      have "length post < fuel" using fuel vs by simp
      from gc_cut [OF R N ch [unfolded vs] this sep [unfolded vs] inv [unfolded vs]] obtain m' s' where
        c: "clean_chain D ?off fuel (load64 m (a + ?off)) (store64 (a + ?off) 0 m) s = Inr (m', s')"
        "st_ops D s' = ?po" "inv s' (U \<union> ver_blocks N (pre @ [(a, t, bs)]))"
        "chain (st_ops D s') m' R (delta_list iv) (pre @ [(a, t, bs)])"
        "\<forall>x. x \<notin> ver_blocks N (pre @ (a, t, bs) # post) \<longrightarrow> m' x = m x" by blast
      have "chain_steamGC D ?off fuel gmin iv m s = Inr (iv, m', s')"
        using v 3 g(1) x lat a0 c(1) by (simp add: chain_steamGC_def Let_def)
      then show ?thesis using c(2-5) keep split(2) vs
        by (intro exI [of _ "delta_list iv"] exI [of _ m'] exI [of _ s']) simp
    qed
  qed
qed

end

section \<open>The pool-backed store fulfils the contract\<close>

lemma unat_blk: "unat a + unat N \<le> 2 ^ 64 \<Longrightarrow> unat ` blk a (unat N) = block N a" for N :: size_t
proof (intro equalityI subsetI)
  fix k assume le: "unat a + unat N \<le> 2 ^ 64" and "k \<in> unat ` blk a (unat N)"
  then obtain x where x: "k = unat x" "unat (x - a) < unat N" by (auto simp: blk_def)
  then have "unat (a + (x - a)) = unat a + unat (x - a)" using le by (intro unat_add_no_wrap) simp
  then show "k \<in> block N a" using x by (simp add: block_def)
next
  fix k assume le: "unat a + unat N \<le> 2 ^ 64" and k: "k \<in> block N a"
  then have "unat (of_nat k :: uintptr) = k" by (simp add: block_def unsigned_of_nat take_bit_nat_eq_self)
  moreover from this have "a \<le> of_nat k" using k by (simp add: block_def word_le_nat_alt)
  then have "unat (of_nat k - a) = k - unat a" using calculation by (simp add: unat_sub_no_wrap)
  ultimately show "k \<in> unat ` blk a (unat N)"
    using k by (intro image_eqI [of _ _ "of_nat k"]) (auto simp: blk_def block_def)
qed

lemma dsm_block_bounds:
  assumes "dsm_inv N A s U" and "N \<noteq> 0" and "block N a \<subseteq> U"
  shows "a \<noteq> 0" "unat a + unat N < 2 ^ 64"
proof -
  have b: "block N a \<subseteq> {1 ..< 2 ^ 56}" using assms(1,3) by (auto simp: dsm_inv_def)
  have N: "0 < unat N" using assms(2) by (simp add: unat_gt_0)
  then have m: "unat a \<in> block N a" "unat a + (unat N - 1) \<in> block N a" by (simp_all add: block_def)
  have "1 \<le> unat a" using m(1) b by auto
  then show "a \<noteq> 0" by (auto simp: unat_gt_0)
  have "unat a + (unat N - 1) < 2 ^ 56" using m(2) b by auto
  then show "unat a + unat N < 2 ^ 64" using N by simp
qed

interpretation malloc: version_store "malloc_store N tid" "\<lambda>s U. N \<noteq> 0 \<and> dsm_inv N A s (unat ` U)" "\<lambda>sz. unat N"
proof (unfold_locales, goal_cases)
  case (1 s U)
  then show ?case by (simp add: malloc_store_def classic_ptr_def classic_isValid_def classic_get_ptrOffset_def)
next
  case (2 s U sz pid t r s')
  then show ?case by (simp add: malloc_store_def)
next
  case (3 s U sz pid t r s')
  let ?a = "classic_get_ptr r"
  have al: "dsm_allocate N tid sz pid s = Inr (r, s')" using 3(2) by (simp add: malloc_store_def)
  have inv: "dsm_inv N A s (unat ` U)" and N: "N \<noteq> 0" using 3(1) by simp_all
  note law = dsm_allocate_law [OF inv N al]
  note B = dsm_block_bounds [OF law(2) N Un_upper2]
  have img: "unat ` blk ?a (unat N) = block N ?a" using B(2) by (intro unat_blk) simp
  have "unat ` (blk ?a (unat N) \<inter> U) = {}" using law(1) img by (auto simp: image_iff)
  moreover have "classic_isValid r" using B(1) by (auto simp: classic_isValid_def classic_get_ptr_def split: if_splits)
  moreover have "dsm_inv N A s' (unat ` (U \<union> blk ?a (unat N)))" using law(2) img by (simp add: image_Un)
  ultimately show ?case using B N by (simp add: malloc_store_def classic_ptr_def)
next
  case (4 s U a sz r)
  have a: "a = classic_get_ptr r" "r \<noteq> 0" and N: "N \<noteq> 0"
    using 4 by (auto simp: malloc_store_def classic_ptr_def classic_isValid_def classic_get_ptrOffset_def)
  have inv: "dsm_inv N A s (unat ` U \<union> unat ` blk a (unat N))" using 4(1) by (simp add: image_Un)
  then have sub: "unat ` blk a (unat N) \<subseteq> {1 ..< 2 ^ 56}" by (auto simp: dsm_inv_def)
  have "unat a + unat N \<le> 2 ^ 64"
  proof (rule ccontr)
    assume *: "\<not> unat a + unat N \<le> 2 ^ 64"
    have mx: "unat UINT64_MAX = 2 ^ 64 - 1" by (simp add: unsigned_minus_1_eq_mask mask_eq_exp_minus_1)
    have "unat (UINT64_MAX - a) = unat UINT64_MAX - unat a" by (rule unat_sub_no_wrap) simp
    then have "UINT64_MAX \<in> blk a (unat N)" using * unat_64_less [of a] by (simp add: blk_def mx)
    then have "unat UINT64_MAX \<in> {1 ..< 2 ^ 56}" using sub by blast
    then show False unfolding mx by simp
  qed
  then have img: "unat ` blk a (unat N) = block N a" by (rule unat_blk)
  have "unat ` blk a (unat N) \<inter> unat ` U = unat ` (blk a (unat N) \<inter> U)"
    by (rule image_Int [symmetric]) (auto intro: injI simp: word_unat_eq_iff)
  then have dis: "block N (classic_get_ptr r) \<inter> unat ` U = {}" using 4(2) img a(1) by simp
  have "\<not> bp_destructed (pool_of tid s)" using dsm_inv_pools(1) [OF inv] .
  then obtain s' where s': "dsm_release tid r s = Inr s'" by (simp add: dsm_release_def bp_free_def)
  have "dsm_inv N A s' (unat ` U)"
    using dsm_release_law [OF _ N dis s'] inv img a(1) by simp
  then show ?case using s' a(2) N by (simp add: malloc_store_def)
qed

section \<open>Records that run over their block\<close>

lemma store_tags_update:
  assumes "d < length ds" "store_delta_id s' = store_delta_id (ds ! d)" "tag s' = tag (ds ! d)"
  shows "store_tags (ds[d := s']) = store_tags ds"
proof
  fix k
  show "store_tags (ds[d := s']) k = store_tags ds k"
    using assms
  proof (induction ds arbitrary: d)
    case (Cons x ds)
    then show ?case by (cases d) (auto simp: store_tags_def)
  qed simp
qed

text \<open>A thread with a cache \<open>c\<close> whose slack holds \<open>n\<close> bytes, in partition \<open>pid\<close> of store \<open>d\<close>.\<close>

definition has_slack ::
  "(8 word \<rightharpoonup> uintptr) \<Rightarrow> thread_id \<Rightarrow> nat \<Rightarrow> partition_id_t \<Rightarrow> nat \<Rightarrow> uintptr \<Rightarrow> 'h CircularDeltaStore list \<Rightarrow> bool" where
  "has_slack bases tid d pid n a ds \<longleftrightarrow>
     d < length ds \<and> unat pid < length (partitions (ds ! d)) \<and> unat (store_delta_id (ds ! d)) < 16 \<and>
     store_tags ds (store_delta_id (ds ! d)) = Some (tag (ds ! d)) \<and>
     unat (a - data_base bases (create_delta_idx_pid_pair (store_delta_id (ds ! d)) pid)) + n < 2 ^ 36 \<and>
     (\<exists>c. threadLocal_cache (partitions (ds ! d) ! unat pid) tid = Some c \<and> sc_ptr c = a \<and>
          n \<le> unat (remaining_slack c) \<and> unat (remaining_slack c) < 2 ^ 31)"

lemma circular_alloc:
  fixes ds :: "'h CircularDeltaStore list"
  assumes sl: "has_slack bases tid d pid n a ds" and n: "unat sz \<le> n"
  shows "\<exists>r ds'. st_allocate (circular_store C False bases tid d) sz pid t ds = Inr (r, ds') \<and>
    store_tags ds' = store_tags ds \<and> get_ptr bases (store_tags ds) r = Inr a \<and>
    has_slack bases tid d pid (n - unat sz) (a + sz) ds'"
proof -
  let ?s = "ds ! d"
  let ?p = "partitions ?s ! unat pid" and ?base = "data_base bases (create_delta_idx_pid_pair (store_delta_id ?s) pid)"
  have S: "d < length ds" "unat pid < length (partitions ?s)" "unat (store_delta_id ?s) < 16"
    "store_tags ds (store_delta_id ?s) = Some (tag ?s)" "unat (a - ?base) + n < 2 ^ 36"
    using sl by (simp_all add: has_slack_def)
  obtain c where c: "threadLocal_cache ?p tid = Some c" "sc_ptr c = a" "n \<le> unat (remaining_slack c)"
    "unat (remaining_slack c) < 2 ^ 31" using sl by (auto simp: has_slack_def)
  have sc: "(scast (remaining_slack c) :: size_t) = ucast (remaining_slack c)" using c(4) by (rule scast_slack)
  have hit: "\<not> scast (remaining_slack c) < sz" using n c(3) by (simp add: sc word_less_nat_alt unat_ucast_slack)
  let ?c' = "c\<lparr>sc_ptr := sc_ptr c + sz, remaining_slack := ucast (scast (remaining_slack c) - sz :: size_t)\<rparr>"
  let ?p' = "?p\<lparr>threadLocal_cache := (threadLocal_cache ?p)(tid \<mapsto> ?c'), touched := True\<rparr>"
  let ?s' = "?s\<lparr>partitions := (partitions ?s)[unat pid := ?p']\<rparr>" and ?r = "ptr_update bases a (tag ?s) (store_delta_id ?s) pid"
  have al: "st_allocate (circular_store C False bases tid d) sz pid t ds = Inr (?r, ds[d := ?s'])"
    using S(1,2) chunk_hit [OF c(1) hit] c(2) by (simp add: circular_store_def ds_allocate_ts_def ds_allocate_def)
  have tags: "store_tags (ds[d := ?s']) = store_tags ds" using S(1) by (intro store_tags_update) simp_all
  have "store_delta_id ?s AND mask 4 = store_delta_id ?s" using S(3) by (simp add: and_mask_fixed)
  then have ptr: "get_ptr bases (store_tags ds) ?r = Inr a" using S(4,5) by (intro get_ptr_update) simp_all
  have le: "sz \<le> ucast (remaining_slack c)" using hit sc by simp
  have rest: "unat (ucast (remaining_slack c) - sz :: size_t) = unat (remaining_slack c) - unat sz"
    using unat_sub_no_wrap [OF le] by (simp add: unat_ucast_slack)
  have slack': "unat (remaining_slack ?c') = unat (remaining_slack c) - unat sz"
    using rest c(4) by (simp add: sc unsigned_ucast_eq take_bit_nat_eq_self)
  have "unat ((a - ?base) + sz) = unat (a - ?base) + unat sz"
    using S(5) n by (intro unat_add_no_wrap) simp
  moreover have "a + sz - ?base = (a - ?base) + sz" by simp
  ultimately have bound: "unat (a + sz - ?base) + (n - unat sz) < 2 ^ 36" using S(5) n by presburger
  have at: "ds[d := ?s'] ! d = ?s'" using S(1) by simp
  have C: "threadLocal_cache (partitions ?s' ! unat pid) tid = Some ?c'" "sc_ptr ?c' = a + sz"
    "n - unat sz \<le> unat (remaining_slack ?c')" "unat (remaining_slack ?c') < 2 ^ 31"
    using S(2) c slack' by simp_all
  have E: "d < length (ds[d := ?s'])" "unat pid < length (partitions ?s')" "store_delta_id ?s' = store_delta_id ?s" "tag ?s' = tag ?s"
    using S(1,2) by simp_all
  have "has_slack bases tid d pid (n - unat sz) (a + sz) (ds[d := ?s'])"
    unfolding has_slack_def at E(3,4)
    by (intro conjI exI [of _ ?c'] C E(1,2) S(3) bound) (use tags S(4) in simp)
  with al tags ptr show ?thesis by blast
qed

lemma circular_create_run:
  fixes ds :: "'h CircularDeltaStore list"
  assumes sl: "has_slack bases tid d pid n a ds" and n: "unat (record_size T + sizeof_VersionSingle) \<le> n"
    and a: "a \<noteq> 0" and v: "isValid (store_tags ds) (delta_list iv) = Inr v"
  shows "\<exists>r ds'. full_create_versions (circular_store C False bases tid d) False vt pid T iv m ds = Inr (a, iv\<lparr>delta_list := r\<rparr>,
      let m1 = mk_VersionSingle vt a (iv_t_min iv) 0 (ver_payload a) (record_size T) m
      in if v then store64 (a + VersionSingle_off_next) (delta_list iv) m1 else m1, ds')
    \<and> has_slack bases tid d pid (n - unat (record_size T + sizeof_VersionSingle)) (a + (record_size T + sizeof_VersionSingle)) ds'
    \<and> store_tags ds' = store_tags ds"
proof -
  obtain r ds' where al: "st_allocate (circular_store C False bases tid d) (record_size T + sizeof_VersionSingle) pid (iv_t_min iv) ds = Inr (r, ds')"
    and R: "store_tags ds' = store_tags ds" "get_ptr bases (store_tags ds) r = Inr a"
    "has_slack bases tid d pid (n - unat (record_size T + sizeof_VersionSingle)) (a + (record_size T + sizeof_VersionSingle)) ds'"
    using circular_alloc [OF sl n] by blast
  have ops: "st_ops (circular_store C False bases tid d) x = oneshot_ptr bases (store_tags x)" for x :: "'h CircularDeltaStore list"
    by (simp add: circular_store_def)
  show ?thesis
    by (rule exI [of _ r], rule exI [of _ ds'])
      (use al R a v in \<open>simp add: full_create_versions_def Let_def ops oneshot_ptr_def mk_VersionSingle_fields ver_payload_def\<close>)
qed

lemma circular_create:
  fixes ds :: "'h CircularDeltaStore list"
  assumes sl: "has_slack bases tid d pid n a ds" and n: "unat (record_size T + sizeof_VersionSingle) \<le> n"
    and run: "full_create_versions (circular_store C False bases tid d) False vt pid T iv m ds = Inr (b, iv', m', ds')"
  shows "b = a" "m' a = ucast vt" "load64 m' (b + off_data) = ver_payload b"
    "has_slack bases tid d pid (n - unat (record_size T + sizeof_VersionSingle)) (a + (record_size T + sizeof_VersionSingle)) ds'"
proof -
  let ?D = "circular_store C False bases tid d" and ?sz = "record_size T + sizeof_VersionSingle"
  obtain r ds1 where al: "st_allocate ?D ?sz pid (iv_t_min iv) ds = Inr (r, ds1)"
    "store_tags ds1 = store_tags ds" "get_ptr bases (store_tags ds) r = Inr a"
    using circular_alloc [OF sl n] by blast
  have ops: "st_ops ?D x = oneshot_ptr bases (store_tags x)" for x :: "'h CircularDeltaStore list"
    by (simp add: circular_store_def)
  obtain v where pre: "a \<noteq> 0" "isValid (store_tags ds) (delta_list iv) = Inr v"
    using run al by (auto simp: full_create_versions_def Let_def ops oneshot_ptr_def rbind_eq_Inr_iff)
  let ?m1 = "mk_VersionSingle vt a (iv_t_min iv) 0 (ver_payload a) (record_size T) m"
  from circular_create_run [OF sl n pre, of C vt m] run
  have res: "b = a" "m' = ?m1 \<or> m' = store64 (a + VersionSingle_off_next) (delta_list iv) ?m1"
    "has_slack bases tid d pid (n - unat ?sz) (a + ?sz) ds'"
    by (auto simp: Let_def)
  then show "b = a" "has_slack bases tid d pid (n - unat ?sz) (a + ?sz) ds'" by simp_all
  have "a \<notin> blk (a + k) 8" if "8 \<le> unat (- k)" for k using that by (simp add: blk_def)
  from this [of 8] this [of 16] this [of 24] this [of 32] this [of 40]
  show "m' a = ucast vt"
    using res by (auto simp: mk_VersionSingle_def mk_Version_def version_offsets store64_def store_bytes_def blk_def le_bytes_def)
  have "load64 (store64 (a + VersionSingle_off_next) w mm) (a + off_data) = load64 mm (a + off_data)" for w mm
    by (simp add: version_offsets load64_store64_disjoint blk_shift_disjoint)
  then show "load64 m' (b + off_data) = ver_payload b"
    using res by (auto simp: mk_VersionSingle_fields ver_payload_def)
qed

definition demo_slack_store :: "(row_uuid_t \<rightharpoonup> uintptr list) CircularDeltaStore list" where
  "demo_slack_store = [demo_store\<lparr>partitions := [demo_part\<lparr>threadLocal_cache := [7 \<mapsto> \<lparr>sc_ptr = 4104, remaining_slack = 8184\<rparr>],
     ver_data_cursor := 12288, touched := True\<rparr>]\<rparr>]"

lemma demo_slack:
  "has_slack [0 \<mapsto> 4096] 7 0 0 98 4104 demo_slack_store"
  by (simp add: has_slack_def demo_slack_store_def demo_store_def store_tags_def data_base_def create_delta_idx_pid_pair_def)

section \<open>Properties\<close>

text \<open>
  C6. Collecting a version chain is invisible: with the pool-backed store, a chain of
  separated versions and enough fuel for the walk, \<open>chain_steamGC\<close> with a minimum \<open>gmin\<close>
  returns. Every transaction that started no earlier than \<open>gmin\<close> and has to read a version
  reads the same bytes afterwards, the blocks of the versions that were cut are free again,
  and no byte outside the chain has changed. (No version carries the identifier of \<open>gmin\<close> as
  its timestamp: timestamps are start times.)
\<close>
theorem steam_gc_preserves_reads:
  assumes "N \<noteq> 0" and "dsm_inv N A s (unat ` (U \<union> ver_blocks (unat N) vs))"
    and "layout_ok T" and "ver_extent (unat (record_size T)) \<le> unat N"
    and "chain classic_ptr m (unat (record_size T)) (delta_list iv) vs"
    and "ver_blocks (unat N) vs \<inter> U = {}" and "ver_apart (unat N) vs"
    and "length vs < fuel" and "\<not> iv_latch iv" and "\<not> iv_deleted iv"
    and "txn_id gmin \<notin> insert (iv_t_min iv) (fst ` snd ` set vs)" and "txn_start_time gmin \<le> txn_start_time tx"
    and "\<not> is_readable (iv_t_min iv) tx" and "first_readable tx vs \<noteq> None"
    and "\<forall>c\<in>set cols. c < length (column_size_offset_pairs T)"
  shows "\<exists>iv' m' s'. chain_steamGC (malloc_store N tid) VersionSingle_off_next fuel gmin iv m s = Inr (iv', m', s') \<and>
     full_get_readable_version (malloc_store N tid) False fuel n T iv' tx cols m' s' =
       full_get_readable_version (malloc_store N tid) False fuel n T iv tx cols m s \<and>
     dsm_inv N A s' (unat ` (U \<union> ver_blocks (unat N) (gc_keep gmin (iv_t_min iv) vs))) \<and>
     (\<forall>x. x \<notin> ver_blocks (unat N) vs \<longrightarrow> m' x = m x)"
proof -
  let ?D = "malloc_store N tid" and ?R = "unat (record_size T)"
  have ops: "st_ops ?D s = classic_ptr" for s by (simp add: malloc_store_def)
  have R: "?R < 2 ^ 63" using assms(3) by (simp add: layout_ok_def)
  obtain r m' s' where gc: "chain_steamGC ?D VersionSingle_off_next fuel gmin iv m s = Inr (iv\<lparr>delta_list := r\<rparr>, m', s')"
    "dsm_inv N A s' (unat ` (U \<union> ver_blocks (unat N) (gc_keep gmin (iv_t_min iv) vs)))"
    "chain classic_ptr m' ?R r (gc_keep gmin (iv_t_min iv) vs)" "\<forall>x. x \<notin> ver_blocks (unat N) vs \<longrightarrow> m' x = m x"
    using malloc.chain_steamGC_ok [OF R refl assms(4) _ _ assms(8,6,7) conjI [OF assms(1,2)] assms(9), of tid m gmin]
      assms(5) unat_64_less [of N] unfolding ops by auto
  let ?keep = "gc_keep gmin (iv_t_min iv) vs"
  have keep: "?keep = keep_until (\<lambda>(a, t, bs). is_readable t gmin) vs"
    using assms(11-13) by (auto simp: gc_keep_def is_readable_def)
  have mono: "is_readable t tx" if "(a, t, bs) \<in> set vs" "is_readable t gmin" for a t bs
  proof -
    have "t \<noteq> txn_id gmin" using that(1) assms(11) by force
    then show ?thesis using that(2) assms(12) by (auto simp: is_readable_def)
  qed
  have first: "first_readable tx ?keep = first_readable tx vs"
    unfolding keep first_readable_def by (rule find_keep_until) (use mono in auto)
  obtain a t bs where v: "first_readable tx vs = Some (a, t, bs)" using assms(14) by (cases "first_readable tx vs") auto
  have fuel: "length ?keep < fuel" using length_keep_until assms(8) unfolding keep by (meson le_less_trans)
  have "full_get_readable_version ?D False fuel n T (iv\<lparr>delta_list := r\<rparr>) tx cols m' s' = Inr (project T cols bs)"
    by (rule full_get_readable_version_chain [OF _ fuel _ _ assms(3,15)]) (use gc(3) first v assms(10) in \<open>simp_all add: ops\<close>)
  moreover have "full_get_readable_version ?D False fuel n T iv tx cols m s = Inr (project T cols bs)"
    by (rule full_get_readable_version_chain [OF _ assms(8) v assms(10,3,15)]) (simp add: ops assms(5))
  ultimately show ?thesis using gc by auto
qed

text \<open>A chain of two versions in a pool of two chunks.\<close>

definition demo_table :: Table where
  "demo_table = \<lparr>tbl_name = ''t'', table_id = 0, vid_part = [1, 0, 0, 0, 0, 0, 0, 0], total_memory_reserved = 0,
     record_capacity = 1, tbl_n_partitions = 1, n_columns = 1, indexed = True,
     column_size_offset_pairs = [(1, 0)], record_size = 1, column_size_offsets = [0], column_size = [1]\<rparr>"

definition demo_pool :: "uintptr list \<Rightarrow> DeltaStoreMalloc" where
  "demo_pool free = \<lparr>memPools = [1 \<mapsto> \<lparr>bp_pool = free, basePtr = [4294967296], bp_destructed = False\<rparr>],
     pool_registry = [], heap_source = []\<rparr>"

lemma demo_allocations:
  "dsm_allocate 2147483648 1 49 0 (mk_DeltaStoreMalloc [4294967296]) = Inr (6442450944, demo_pool [4294967296])"
  "dsm_allocate 2147483648 1 49 0 (demo_pool [4294967296]) = Inr (4294967296, demo_pool [])"
proof -
  have two: "push_chunks 2 N x b st =
      (if x \<le> b then if x + N \<le> b then Inr ((x + N) # x # st) else Inl (Assertion ''ptr <= baseRef'')
       else Inl (Assertion ''ptr <= baseRef''))" for N x b st
    by (simp add: numeral_2_eq_2)
  show "dsm_allocate 2147483648 1 49 0 (mk_DeltaStoreMalloc [4294967296]) = Inr (6442450944, demo_pool [4294967296])"
    "dsm_allocate 2147483648 1 49 0 (demo_pool [4294967296]) = Inr (4294967296, demo_pool [])"
    by (simp_all add: dsm_allocate_def bp_allocate_def bp_expand_def bp_get_def mk_DeltaStoreMalloc_def pool_of_def
        new_bucket_pool_def pool_size_def pool_size_mb_def ClassicPtrWrapper_def demo_pool_def two)
qed

lemma demo_chain:
  obtains m and iv :: IndexVal and b1 b2 A where
    "dsm_inv 2147483648 A (demo_pool []) (unat ` (blk 6442450944 2147483648 \<union> blk 4294967296 2147483648))"
    "blk 4294967296 2147483648 \<inter> blk 6442450944 2147483648 = {}"
    "chain classic_ptr m 1 (delta_list iv) [(4294967296, 20, b2), (6442450944, 10, b1)]"
    "iv_t_min iv = 30" "\<not> iv_latch iv" "\<not> iv_deleted iv"
proof -
  let ?N = "2147483648 :: size_t" and ?A = "\<Union>x\<in>set [4294967296]. region x" and ?D = "malloc_store 2147483648 1"
  let ?s0 = "mk_DeltaStoreMalloc [4294967296]" and ?iv0 = "mk_IndexVal 10 0" and ?m0 = "\<lambda>_. 0"
  have ops: "st_ops ?D s = classic_ptr" for s by (simp add: malloc_store_def)
  have u: "unat ?N = 2147483648" by simp
  have "heap_ok [4294967296]" by (simp add: heap_ok_def)
  then have "dsm_inv ?N ?A ?s0 {}" by (rule dsm_inv_new)
  then have inv0: "?N \<noteq> 0 \<and> dsm_inv ?N ?A ?s0 (unat ` {})" by simp
  have ptrs: "classic_get_ptr 6442450944 = 6442450944" "classic_get_ptr 4294967296 = 4294967296"
    "classic_isValid 6442450944" "classic_isValid 4294967296" "\<not> classic_isValid 0"
    by (simp_all add: classic_get_ptr_def classic_isValid_def classic_get_ptrOffset_def)
  have iv0: "delta_list ?iv0 = 0" "iv_t_min ?iv0 = 10" "\<not> iv_latch ?iv0" "\<not> iv_deleted ?iv0"
    by (simp_all add: mk_IndexVal_def ts_t_min_def)
  note sz = demo_table_def sizeof_VersionSingle_def malloc_store_def classic_ptr_def ptrs
  obtain m1 where r1: "full_create_versions ?D False 0 0 demo_table ?iv0 ?m0 ?s0 =
      Inr (6442450944, ?iv0\<lparr>delta_list := 6442450944\<rparr>, m1, demo_pool [4294967296])"
    using malloc.create_versions_run [OF inv0, where r = 6442450944 and sx = "demo_pool [4294967296]" and
        a = 6442450944 and v = False and T = demo_table and iv = ?iv0 and pid = 0] demo_allocations(1)
    by (simp add: sz iv0)
  have T: "unat (record_size demo_table) = 1" "record_size demo_table + sizeof_VersionSingle = 49"
    by (simp_all add: demo_table_def sizeof_VersionSingle_def)
  have ch0: "chain (st_ops ?D ?s0) ?m0 1 (delta_list ?iv0) []"
    unfolding ops by (simp add: classic_ptr_def iv0 ptrs)
  have room: "ver_extent 1 \<le> unat ?N" by (simp add: ver_extent_def)
  have e: "chain_blocks 1 [] \<subseteq> {}" by simp
  have lt: "(1 :: nat) < 2 ^ 63" by simp
  note c1 = malloc.create_versions_chain [OF inv0 ch0 e T(1) [symmetric] lt room r1, unfolded ops u]
  let ?iv1 = "?iv0\<lparr>delta_list := 6442450944, iv_t_min := 20\<rparr>" and ?s1 = "demo_pool [4294967296]"
  let ?b1 = "load_bytes m1 (ver_payload 6442450944) 1" and ?U1 = "{} \<union> blk 6442450944 2147483648"
  have ch1: "chain (st_ops ?D ?s1) m1 1 (delta_list ?iv1) [(6442450944, 10, ?b1)]"
    unfolding ops using c1(6) by (simp add: iv0)
  obtain m2 where r2: "full_create_versions ?D False 0 0 demo_table ?iv1 m1 ?s1 =
      Inr (4294967296, ?iv1\<lparr>delta_list := 4294967296\<rparr>, m2, demo_pool [])"
    using malloc.create_versions_run [OF c1(3), where r = 4294967296 and sx = "demo_pool []" and
        a = 4294967296 and v = True and T = demo_table and iv = ?iv1 and pid = 0] demo_allocations(2)
    by (simp add: sz iv0)
  have "chain_blocks 1 [(6442450944, 10, ?b1)] \<subseteq> ?U1"
    using room by (auto simp: chain_blocks_def blk_def)
  note c2 = malloc.create_versions_chain [OF c1(3) ch1 this T(1) [symmetric] lt room r2, unfolded ops u]
  show thesis
  proof (rule that [of ?A m2 "?iv1\<lparr>delta_list := 4294967296, iv_t_min := 30\<rparr>"])
    show "dsm_inv ?N ?A (demo_pool []) (unat ` (blk 6442450944 2147483648 \<union> blk 4294967296 2147483648))"
      using c2(3) by simp
    show "blk 4294967296 2147483648 \<inter> blk 6442450944 2147483648 = {}" using c2(2) by simp
    show "chain classic_ptr m2 1 (delta_list (?iv1\<lparr>delta_list := 4294967296, iv_t_min := 30\<rparr>))
      [(4294967296, 20, load_bytes m2 (ver_payload 4294967296) 1), (6442450944, 10, ?b1)]" using c2(6) by simp
  qed (simp_all add: iv0)
qed

theorem steam_gc_preserves_reads_witness:
  "\<exists>m iv iv' m' s' r. chain_steamGC (malloc_store 2147483648 1) VersionSingle_off_next 3
       \<lparr>txn_start_time = 25, txn_id = 0\<rparr> iv m (demo_pool []) = Inr (iv', m', s') \<and>
     full_get_readable_version (malloc_store 2147483648 1) False 3 4 demo_table iv'
       \<lparr>txn_start_time = 27, txn_id = 1\<rparr> [] m' s' = r \<and>
     full_get_readable_version (malloc_store 2147483648 1) False 3 4 demo_table iv
       \<lparr>txn_start_time = 27, txn_id = 1\<rparr> [] m (demo_pool []) = r"
proof -
  obtain m and iv :: IndexVal and b1 b2 A where d:
    "dsm_inv 2147483648 A (demo_pool []) (unat ` (blk 6442450944 2147483648 \<union> blk 4294967296 2147483648))"
    "blk 4294967296 2147483648 \<inter> blk 6442450944 2147483648 = {}"
    "chain classic_ptr m 1 (delta_list iv) [(4294967296, 20, b2), (6442450944, 10, b1)]"
    "iv_t_min iv = 30" "\<not> iv_latch iv" "\<not> iv_deleted iv"
    by (rule demo_chain) blast
  let ?vs = "[(4294967296, 20, b2), (6442450944, 10, b1)]"
  have u: "unat (2147483648 :: size_t) = 2147483648" "unat (record_size demo_table) = 1" by (simp_all add: demo_table_def)
  have "dsm_inv 2147483648 A (demo_pool []) (unat ` ({} \<union> ver_blocks 2147483648 ?vs))"
    using d(1) by (simp add: ver_blocks_def Un_commute)
  note P = steam_gc_preserves_reads [of 2147483648 A "demo_pool []" "{}" ?vs demo_table m iv 3
      "\<lparr>txn_start_time = 25, txn_id = 0\<rparr>" "\<lparr>txn_start_time = 27, txn_id = 1\<rparr>" "[]" 1 4, unfolded u, OF _ this]
  have lay: "layout_ok demo_table" by (simp add: layout_ok_def demo_table_def)
  have ap: "ver_apart 2147483648 ?vs" using d(2) by (simp add: ver_apart_def)
  have "\<exists>iv' m' s'. chain_steamGC (malloc_store 2147483648 1) VersionSingle_off_next 3
       \<lparr>txn_start_time = 25, txn_id = 0\<rparr> iv m (demo_pool []) = Inr (iv', m', s') \<and>
     full_get_readable_version (malloc_store 2147483648 1) False 3 4 demo_table iv'
       \<lparr>txn_start_time = 27, txn_id = 1\<rparr> [] m' s' =
     full_get_readable_version (malloc_store 2147483648 1) False 3 4 demo_table iv
       \<lparr>txn_start_time = 27, txn_id = 1\<rparr> [] m (demo_pool [])"
    using P [OF _ lay _ d(3) _ ap _ d(5,6)] d(4)
    by (fastforce simp: ver_extent_def is_readable_def first_readable_def)
  then show ?thesis by blast
qed

text \<open>
  C23. A version is longer than the block it gets: \<open>full_create_versions\<close> asks for the record size
  plus the header, but puts the record one alignment unit behind the header. With the circular
  store, when a thread creates two versions one after the other from the same slack (for any
  two rows, whatever happened to memory in between, the copy of the first record included),
  the last byte of the first saved record has become the first byte of the second version's
  virtual table pointer.
\<close>
theorem next_version_overwrites_record:
  assumes "has_slack bases tid d pid n a ds" and "2 * (unat (record_size T) + 48) \<le> n"
    and "full_create_versions (circular_store C False bases tid d) False vt pid T iv m ds = Inr (v1, iv1, m1, ds1)"
    and "full_create_versions (circular_store C False bases tid d) False vt pid T iv' m1' ds1 = Inr (v2, iv2, m2, ds2)"
  shows "m2 (load64 m1 (v1 + off_data) + (record_size T - 1)) = ucast vt"
proof -
  let ?sz = "record_size T + sizeof_VersionSingle"
  have "n < 2 ^ 36" using assms(1) by (auto simp: has_slack_def)
  then have sz: "unat ?sz = unat (record_size T) + 48"
    using assms(2) by (subst unat_add_no_wrap) (simp_all add: sizeof_VersionSingle_def)
  have le: "unat ?sz \<le> n" "unat ?sz \<le> n - unat ?sz" using assms(2) sz by simp_all
  note c1 = circular_create [OF assms(1) le(1) assms(3)]
  note c2 = circular_create [OF c1(4) le(2) assms(4)]
  have "load64 m1 (v1 + off_data) = ver_payload a"
    using c1(1,3) by simp
  then have "load64 m1 (v1 + off_data) + (record_size T - 1) = a + ?sz"
    by (simp add: ver_payload_eq sizeof_VersionSingle_def)
  then show ?thesis using c2(2) by (simp only:)
qed

text \<open>Two rows that never had a version, one byte of record each.\<close>

theorem next_version_overwrites_record_witness:
  "\<exists>v1 iv1 m1 ds1 v2 iv2 m2 ds2.
     full_create_versions (circular_store map_cuckoo False [0 \<mapsto> 4096] 7 0) False 1234 0 demo_table (mk_IndexVal 3 0) (\<lambda>_. 0) demo_slack_store
       = Inr (v1, iv1, m1, ds1) \<and>
     full_create_versions (circular_store map_cuckoo False [0 \<mapsto> 4096] 7 0) False 1234 0 demo_table (mk_IndexVal 3 1) m1 ds1
       = Inr (v2, iv2, m2, ds2) \<and>
     m2 (load64 m1 (v1 + off_data) + (record_size demo_table - 1)) = ucast (1234 :: uintptr)"
proof -
  let ?D = "circular_store map_cuckoo False [0 \<mapsto> 4096] 7 0" and ?sz = "record_size demo_table + sizeof_VersionSingle"
  have sz: "unat ?sz = 49" by (simp add: demo_table_def sizeof_VersionSingle_def)
  then have le: "unat ?sz \<le> 98" "unat ?sz \<le> 98 - unat ?sz" "4104 + ?sz \<noteq> 0" "(4104 :: uintptr) \<noteq> 0"
    by (simp_all add: demo_table_def sizeof_VersionSingle_def)
  let ?tags = "store_tags demo_slack_store"
  have null: "isValid ?tags (delta_list (mk_IndexVal t v)) = Inr (tag demo_store AND 0xFFFFF = 0)" for t v
    by (simp add: mk_IndexVal_def isValid_def verifyTag_def store_tags_def demo_slack_store_def demo_store_def
        get_delta_idx_def get_tag_def create_delta_idx_pid_pair_def get_delta_idx_pid_pair_def)
  obtain r1 m1 ds1 where one: "full_create_versions ?D False 1234 0 demo_table (mk_IndexVal 3 0) (\<lambda>_. 0) demo_slack_store = Inr (4104, r1, m1, ds1)"
    "has_slack [0 \<mapsto> 4096] 7 0 0 (98 - unat ?sz) (4104 + ?sz) ds1" "store_tags ds1 = ?tags"
    using circular_create_run [OF demo_slack le(1,4) null] by blast
  moreover obtain r2 m2 ds2 where two: "full_create_versions ?D False 1234 0 demo_table (mk_IndexVal 3 1) m1 ds1 = Inr (4104 + ?sz, r2, m2, ds2)"
    using circular_create_run [OF one(2) le(2,3) null [folded one(3)]] by blast
  moreover have "2 * (unat (record_size demo_table) + 48) \<le> 98" by (simp add: demo_table_def)
  ultimately show ?thesis
    using next_version_overwrites_record [OF demo_slack _ one(1) two] by blast
qed

end
