(* ===== verification/IntervalMap.thy ===== *)
theory IntervalMap
  imports Prelude
begin

text \<open>
  The interval map of \<^verbatim>\<open>oltp/util/interval-map.hpp\<close>: a \<^verbatim>\<open>std::map\<close> from the first key of each
  interval to the value of the interval. Keys are 64-bit numbers, as in its only use. The
  \<^verbatim>\<open>std::map\<close> is the list of its pairs in key order; dereferencing its end iterator, or stepping
  back from its first one, is a bad access.
\<close>

section \<open>Ordered maps\<close>

type_synonym 'v entries = "(64 word \<times> 'v) list"

definition lower_bound :: "64 word \<Rightarrow> 'v entries \<Rightarrow> nat" where
  "lower_bound key m = length (takeWhile (\<lambda>(k, _). k < key) m)"

text \<open>\<^verbatim>\<open>emplace\<close>, \<^verbatim>\<open>try_emplace\<close> and \<^verbatim>\<open>emplace_hint\<close> leave a present key alone.\<close>

fun emplace :: "64 word \<Rightarrow> 'v \<Rightarrow> 'v entries \<Rightarrow> 'v entries" where
  "emplace key v [] = [(key, v)]"
| "emplace key v ((k, w) # m) =
     (if key < k then (key, v) # (k, w) # m
      else if key = k then (k, w) # m
      else (k, w) # emplace key v m)"

text \<open>Assignment through an iterator to a present key.\<close>

definition assign :: "64 word \<Rightarrow> 'v \<Rightarrow> 'v entries \<Rightarrow> 'v entries" where
  "assign key v = map (\<lambda>(k, w). (k, if k = key then v else w))"

section \<open>The interval map\<close>

record 'v IntervalMap =
  im_map :: "'v entries"
  upper_bound :: "64 word"
  im_touched :: bool

definition mk_IntervalMap_at :: "64 word \<Rightarrow> 'v \<Rightarrow> 'v IntervalMap" where
  "mk_IntervalMap_at start val = \<lparr>im_map = [(start, val)], upper_bound = start, im_touched = False\<rparr>"

definition mk_IntervalMap :: "'v::zero IntervalMap" where
  "mk_IntervalMap = \<lparr>im_map = [(0, 0)], upper_bound = 0, im_touched = False\<rparr>"

definition getValue :: "64 word \<Rightarrow> 'v::zero IntervalMap \<Rightarrow> 'v result" where
  "getValue key im =
     (if \<not> im_touched im \<or> key \<ge> upper_bound im then Inr 0
      else let i = lower_bound key (im_map im)
           in rbind (at_idx (im_map im) i) (\<lambda>(k, v).
              if k = key then Inr v
              else if i = 0 then Inl BadAccess
              else Inr (snd (im_map im ! (i - 1)))))"

definition im_reset :: "'v \<Rightarrow> 'v IntervalMap \<Rightarrow> 'v IntervalMap" where
  "im_reset value im = im\<lparr>im_map := [(0, value)]\<rparr>"

definition upsert :: "64 word \<Rightarrow> 'v \<Rightarrow> 'v IntervalMap \<Rightarrow> 'v IntervalMap result" where
  "upsert key value im =
     (let m = im_map im; i = lower_bound key m
      in if i = length m
         then if m = [] then Inl BadAccess
              else if snd (last m) = value then Inr im
              else Inr (im\<lparr>upper_bound := key + 1,
                           im_map := emplace key value (emplace (key + 1) (snd (last m)) m),
                           im_touched := True\<rparr>)
         else if fst (m ! i) = key
         then if snd (m ! i) = value then Inr im
              else Inr (im\<lparr>im_map := assign key value (emplace (key + 1) (snd (m ! i)) m), im_touched := True\<rparr>)
         else if i = 0 then Inl BadAccess
         else rbind (rassert (fst (m ! (i - 1)) < key) ''bound_iter->first < key'') (\<lambda>_.
              if snd (m ! (i - 1)) = value then Inr im
              else Inr (im\<lparr>im_map := emplace key value (emplace (key + 1) (snd (m ! (i - 1))) m),
                           im_touched := True\<rparr>)))"

definition replace_value :: "'v \<Rightarrow> 'v \<Rightarrow> 'v entries \<Rightarrow> 'v entries" where
  "replace_value oldval newval = map (\<lambda>(k, v). (k, if v = oldval then newval else v))"

definition updateByValue :: "'v \<Rightarrow> 'v \<Rightarrow> 'v IntervalMap \<Rightarrow> 'v IntervalMap" where
  "updateByValue oldval newval im = im\<lparr>im_map := replace_value oldval newval (im_map im), im_touched := True\<rparr>"

definition updateByValue_withCount :: "'v \<Rightarrow> 'v \<Rightarrow> 'v IntervalMap \<Rightarrow> nat \<times> 'v IntervalMap" where
  "updateByValue_withCount oldval newval im =
     (length (filter (\<lambda>(k, v). v = oldval) (im_map im)),
      im\<lparr>im_map := replace_value oldval newval (im_map im), im_touched := True\<rparr>)"

fun merge_equal :: "'v entries \<Rightarrow> 'v entries" where
  "merge_equal ((k, v) # (k', v') # m) =
     (if v = v' then merge_equal ((k, v) # m) else (k, v) # merge_equal ((k', v') # m))"
| "merge_equal m = m"

definition consolidate :: "'v IntervalMap \<Rightarrow> 'v IntervalMap result" where
  "consolidate im =
     (if \<not> im_touched im then Inr im
      else if im_map im = [] then Inl BadAccess
      else let m = merge_equal (im_map im)
           in Inr (im\<lparr>im_map := m, upper_bound := fst (last m)\<rparr>))"

definition updateAndConsolidate :: "'v \<Rightarrow> 'v \<Rightarrow> 'v IntervalMap \<Rightarrow> (nat \<times> 'v IntervalMap) result" where
  "updateAndConsolidate oldval newval im =
     (let (ctr, im') = updateByValue_withCount oldval newval im
      in rbind (consolidate im') (\<lambda>im''. Inr (ctr, im'')))"

section \<open>The function an ordered map represents\<close>

text \<open>The value of the last entry at or below the key; \<open>d\<close> below the first entry.\<close>

fun im_at :: "'v \<Rightarrow> 'v entries \<Rightarrow> 64 word \<Rightarrow> 'v" where
  "im_at d [] x = d"
| "im_at d ((k, v) # m) x = (if k \<le> x then im_at v m x else d)"

abbreviation keys :: "'v entries \<Rightarrow> 64 word list" where
  "keys m \<equiv> map fst m"

abbreviation ordered :: "'v entries \<Rightarrow> bool" where
  "ordered m \<equiv> sorted_wrt (<) (keys m)"

lemma im_at_below: "ordered ((k, v) # m) \<Longrightarrow> x < k \<Longrightarrow> im_at d m x = d"
  by (cases m) auto

lemma set_emplace: "set (keys (emplace key v m)) = insert key (set (keys m))"
proof (induction m)
  case (Cons e m)
  then show ?case by (cases e) auto
qed simp

lemma ordered_emplace: "ordered m \<Longrightarrow> ordered (emplace key v m)"
proof (induction m)
  case (Cons e m)
  obtain k w where e: "e = (k, w)" by force
  show ?case
  proof (cases "k < key")
    case True
    then have "emplace key v (e # m) = e # emplace key v m" by (auto simp: e)
    then show ?thesis using Cons True e set_emplace [of key v m] by (auto simp: e)
  qed (use Cons e in \<open>auto simp: not_less dest: less_trans\<close>)
qed simp

lemma emplace_present: "ordered m \<Longrightarrow> key \<in> set (keys m) \<Longrightarrow> emplace key v m = m"
proof (induction m)
  case (Cons e m)
  obtain k w where e: "e = (k, w)" by force
  show ?case
  proof (cases "key = k")
    case False
    then have "k < key" "key \<in> set (keys m)" using Cons.prems e by auto
    then show ?thesis using Cons e False by auto
  qed (simp add: e)
qed simp

lemma keys_assign [simp]: "keys (assign key v m) = keys m"
  by (induction m) (auto simp: assign_def)

text \<open>An entry with the value its key already has changes nothing.\<close>

lemma im_at_emplace_same:
  "ordered m \<Longrightarrow> im_at d (emplace key (im_at d m key) m) x = im_at d m x"
proof (induction m arbitrary: d)
  case (Cons e m)
  obtain k w where e: "e = (k, w)" by force
  show ?case
  proof (cases "k < key")
    case True
    then show ?thesis using Cons by (auto simp: e)
  qed (use e in \<open>auto simp: not_less\<close>)
qed simp

lemma word_less_succ_iff: "key \<noteq> - 1 \<Longrightarrow> x < key + 1 \<longleftrightarrow> x \<le> key" for key x :: "64 word"
proof -
  assume "key \<noteq> - 1"
  then have "1 + key \<noteq> 0" by (metis add.commute add_eq_0_iff)
  from unatSuc [OF this] show ?thesis by (simp add: word_less_nat_alt word_le_nat_alt add.commute less_Suc_eq_le)
qed

lemmas word_less_succ = word_less_succ_iff [THEN iffD2, OF _ order_refl]

lemma im_at_succ:
  "key \<noteq> - 1 \<Longrightarrow> key + 1 \<notin> set (keys m) \<Longrightarrow> im_at d m (key + 1) = im_at d m key"
proof (induction m arbitrary: d)
  case (Cons e m)
  obtain k w where e: "e = (k, w)" by force
  have "k \<le> key + 1 \<longleftrightarrow> k \<le> key"
    using Cons.prems e word_less_succ_iff [of key k] by (auto simp: order.order_iff_strict)
  then show ?case using Cons e by auto
qed simp

text \<open>When the successor of a key is present, a new value of the key is the value of that key only.\<close>

lemma im_at_emplace_new:
  assumes "ordered m" "key \<notin> set (keys m)" "key + 1 \<in> set (keys m)" "key \<noteq> - 1"
  shows "im_at d (emplace key v m) x = (if x = key then v else im_at d m x)"
  using assms
proof (induction m arbitrary: d)
  case (Cons e m)
  obtain k w where e: "e = (k, w)" by force
  show ?case
  proof (cases "k < key")
    case True
    moreover from this have "k \<noteq> key + 1" using word_less_succ [OF Cons.prems(4)] by auto
    ultimately show ?thesis using Cons by (auto simp: e)
  next
    case False
    then have k: "key < k" using Cons.prems(2) e by auto
    have "k = key + 1"
    proof (rule ccontr)
      assume "k \<noteq> key + 1"
      then have "k < key + 1" using Cons.prems(1,3) e by auto
      then show False using word_less_succ_iff [OF Cons.prems(4)] k by auto
    qed
    then show ?thesis using k word_less_succ_iff [OF Cons.prems(4), of x] e by (auto simp: not_le)
  qed
qed simp

lemma assign_absent: "key \<notin> set (keys m) \<Longrightarrow> assign key v m = m"
  by (induction m) (auto simp: assign_def)

lemma im_at_assign:
  assumes "ordered m" "key \<in> set (keys m)" "key + 1 \<in> set (keys m)" "key \<noteq> - 1"
  shows "im_at d (assign key v m) x = (if x = key then v else im_at d m x)"
  using assms
proof (induction m arbitrary: d)
  case (Cons e m)
  obtain k w where e: "e = (k, w)" by force
  have lt: "key < key + 1" using word_less_succ Cons.prems(4) .
  show ?case
  proof (cases "k = key")
    case True
    obtain k' w' m' where m: "m = (k', w') # m'" using Cons.prems(3) e True lt by (cases m) auto
    have "k' = key + 1"
    proof (rule ccontr)
      assume "k' \<noteq> key + 1"
      then have "k' < key + 1" "key < k'" using Cons.prems(1,3) e m True lt by auto
      then show False using word_less_succ_iff [OF Cons.prems(4), of k'] by auto
    qed
    moreover have "key \<notin> set (keys m)" using Cons.prems(1) e True by auto
    ultimately show ?thesis
      using True assign_absent [of key m v] word_less_succ_iff [OF Cons.prems(4), of x] m e lt
      by (auto simp: assign_def)
  next
    case False
    then have k: "k < key" using Cons.prems(1,2) e by auto
    then have "k \<noteq> key + 1" using lt by auto
    then show ?thesis using Cons k e False by (auto simp: assign_def)
  qed
qed simp

section \<open>Operations on the represented function\<close>

lemma lower_bound_split:
  assumes "ordered m"
  shows "im_at d m key = (let i = lower_bound key m in
    if i < length m \<and> fst (m ! i) = key then snd (m ! i) else if i = 0 then d else snd (m ! (i - 1)))"
  using assms
proof (induction m arbitrary: d)
  case (Cons e m)
  obtain k w where e: "e = (k, w)" by force
  show ?case
  proof (cases "k < key")
    case True
    then show ?thesis using Cons by (auto simp: e lower_bound_def Let_def nth_Cons')
  next
    case False
    then show ?thesis using im_at_below [of k w m key w] Cons.prems
      by (cases "k = key"; cases m) (auto simp: e lower_bound_def Let_def)
  qed
qed (simp add: lower_bound_def)

text \<open>
  The invariant: the keys are in order and start at 0, the bound is the last key, the interval
  behind it has value 0, and an untouched map is the initial one.
\<close>

definition im_inv :: "'v::zero IntervalMap \<Rightarrow> bool" where
  "im_inv im \<longleftrightarrow> ordered (im_map im) \<and> im_map im \<noteq> [] \<and> fst (hd (im_map im)) = 0 \<and>
     last (im_map im) = (upper_bound im, 0) \<and> (\<not> im_touched im \<longrightarrow> im_map im = [(0, 0)])"

definition im_fun :: "'v::zero IntervalMap \<Rightarrow> 64 word \<Rightarrow> 'v" where
  "im_fun im = im_at 0 (im_map im)"

lemma im_at_last: "ordered m \<Longrightarrow> m \<noteq> [] \<Longrightarrow> fst (last m) \<le> x \<Longrightarrow> im_at d m x = snd (last m)"
proof (induction m arbitrary: d)
  case (Cons e m)
  obtain k w where e: "e = (k, w)" by force
  show ?case
  proof (cases "m = []")
    case False
    then have "k < fst (last m)" using Cons.prems(1) e by auto
    then have "k \<le> x" using Cons.prems(3) False by (auto intro: less_imp_le less_le_trans)
    then show ?thesis using Cons False e by auto
  qed (use Cons.prems e in simp)
qed simp

lemma keys_le_last: "ordered m \<Longrightarrow> k \<in> set (keys m) \<Longrightarrow> k \<le> fst (last m)"
  by (induction m) (auto intro: less_imp_le)

lemma im_inv_fun_above: "im_inv im \<Longrightarrow> upper_bound im \<le> x \<Longrightarrow> im_fun im x = 0"
  by (simp add: im_inv_def im_fun_def im_at_last)

lemma getValue_below:
  assumes m: "ordered (im_map im)" "im_map im \<noteq> []" "fst (hd (im_map im)) = 0"
    and key: "im_touched im" "key < upper_bound im" "upper_bound im \<le> fst (last (im_map im))"
  shows "getValue key im = Inr (im_fun im key)"
proof -
  let ?m = "im_map im" and ?i = "lower_bound key (im_map im)"
  have "?i < length ?m"
  proof (rule ccontr)
    assume "\<not> ?i < length ?m"
    then have "takeWhile (\<lambda>(k, _). k < key) ?m = ?m"
      unfolding lower_bound_def by (metis length_takeWhile_le linorder_not_le order_antisym takeWhile_eq_take take_all_iff)
    then have "fst (last ?m) < key"
      using last_in_set [OF m(2)] set_takeWhileD [of "last ?m" "\<lambda>(k, _). k < key" ?m]
      by (simp add: case_prod_beta)
    then show False using key by auto
  qed
  moreover have "?i = 0 \<Longrightarrow> fst (?m ! 0) = key"
    using m(2,3) by (cases ?m) (auto simp: lower_bound_def word_neq_0_conv [symmetric] split: if_splits)
  ultimately show ?thesis
    using key lower_bound_split [OF m(1), of 0 key]
    by (cases "?m ! ?i"; cases "?i = 0") (auto simp: getValue_def im_fun_def Let_def)
qed

lemma getValue_fun:
  assumes "im_inv im"
  shows "getValue key im = Inr (im_fun im key)"
proof (cases "\<not> im_touched im \<or> key \<ge> upper_bound im")
  case True
  have "im_fun im key = 0"
  proof (cases "im_touched im")
    case False
    then have "im_map im = [(0, 0)]" using assms by (simp add: im_inv_def)
    then show ?thesis by (simp add: im_fun_def)
  qed (use True im_inv_fun_above [OF assms] in simp)
  then show ?thesis using True by (simp add: getValue_def)
qed (use assms in \<open>intro getValue_below; simp add: im_inv_def not_le\<close>)

lemma emplace_append: "\<forall>k\<in>set (keys m). k < key \<Longrightarrow> emplace key v (m @ m') = m @ emplace key v m'"
proof (induction m)
  case (Cons e m)
  then show ?case by (cases e) auto
qed simp

lemma hd_emplace: "m \<noteq> [] \<Longrightarrow> fst (hd m) \<le> key \<Longrightarrow> hd (emplace key v m) = hd m"
  by (cases m) (auto simp: not_less)

lemma emplace_ne [simp]: "emplace key v m \<noteq> []"
  by (cases "(key, v, m)" rule: emplace.cases) auto

lemma last_emplace: "ordered m \<Longrightarrow> m \<noteq> [] \<Longrightarrow> key \<le> fst (last m) \<Longrightarrow> last (emplace key v m) = last m"
proof (induction m)
  case (Cons e m)
  obtain k w where e: "e = (k, w)" by force
  show ?case
  proof (cases "m = []")
    case False
    then have "emplace key v (e # m) = e # emplace key v m \<or> last (emplace key v (e # m)) = last m" by (auto simp: e)
    moreover have "last (emplace key v m) = last m" using Cons False e by auto
    ultimately show ?thesis using False by auto
  qed (use Cons.prems e in auto)
qed simp

lemma assign_facts:
  "m \<noteq> [] \<Longrightarrow> fst (hd (assign key v m)) = fst (hd m)" "assign key v m = [] \<longleftrightarrow> m = []"
  "m \<noteq> [] \<Longrightarrow> fst (last m) \<noteq> key \<Longrightarrow> last (assign key v m) = last m"
  by (auto simp: assign_def last_map hd_map split: prod.splits)

lemma lower_bound_at: "lower_bound key m \<le> length m"
  "i < lower_bound key m \<Longrightarrow> fst (m ! i) < key"
  "lower_bound key m < length m \<Longrightarrow> key \<le> fst (m ! lower_bound key m)"
  using nth_mem [of i "takeWhile (\<lambda>(k, _). k < key) m"] set_takeWhileD [of _ "\<lambda>(k, _). k < key" m]
    nth_length_takeWhile [of "\<lambda>(k, _). k < key" m]
  by (auto simp: lower_bound_def length_takeWhile_le takeWhile_nth case_prod_beta)

text \<open>The map after a change of one key, whichever branch of \<^verbatim>\<open>upsert\<close> made it.\<close>

lemma put_key:
  assumes "im_inv im" "key \<noteq> - 1"
    and m': "m' = (if key \<in> set (keys (im_map im)) then assign key v else emplace key v)
                  (emplace (key + 1) (im_fun im key) (im_map im))"
  shows "im_at 0 m' = (im_fun im)(key := v)" "ordered m'" "m' \<noteq> []" "fst (hd m') = 0"
    "key < upper_bound im \<Longrightarrow> last m' = last (im_map im)"
proof -
  let ?m = "im_map im" and ?m1 = "emplace (key + 1) (im_fun im key) (im_map im)"
  have inv: "ordered ?m" "?m \<noteq> []" "fst (hd ?m) = 0" "last ?m = (upper_bound im, 0)"
    using assms(1) by (simp_all add: im_inv_def)
  note lt = word_less_succ [OF assms(2)]
  have one: "ordered ?m1" "key + 1 \<in> set (keys ?m1)" "key \<in> set (keys ?m1) \<longleftrightarrow> key \<in> set (keys ?m)"
    using ordered_emplace [OF inv(1)] set_emplace [of "key + 1" _ ?m] lt by auto
  have same: "im_at 0 ?m1 x = im_fun im x" for x
  proof (cases "key + 1 \<in> set (keys ?m)")
    case True
    then show ?thesis using emplace_present [OF inv(1)] by (simp add: im_fun_def)
  next
    case False
    then have "im_fun im key = im_at 0 ?m (key + 1)" by (simp add: im_fun_def im_at_succ [OF assms(2)])
    then show ?thesis using im_at_emplace_same [OF inv(1)] by (simp add: im_fun_def)
  qed
  show "im_at 0 m' = (im_fun im)(key := v)"
    using im_at_assign [OF one(1) _ one(2) assms(2)] im_at_emplace_new [OF one(1) _ one(2) assms(2)] one(3) same
    by (auto simp: m' fun_eq_iff)
  show "ordered m'" using one(1) ordered_emplace by (auto simp: m')
  show "m' \<noteq> []" by (simp add: m' assign_facts)
  show "fst (hd m') = 0" using inv(2,3) by (simp add: m' assign_facts hd_emplace)
  show "last m' = last ?m" if "key < upper_bound im"
  proof -
    have "key + 1 \<le> upper_bound im" using that by (rule inc_le)
    then have "last ?m1 = last ?m" using inv by (intro last_emplace) simp_all
    moreover from this have "last (emplace key v ?m1) = last ?m1" using that one(1) inv(4) by (intro last_emplace) simp_all
    ultimately show ?thesis using that inv(4) by (auto simp: m' assign_facts)
  qed
qed

lemma upsert_run:
  assumes inv: "im_inv im" and key: "key \<noteq> - 1"
  obtains m' where "upsert key v im = Inr im \<and> im_fun im key = v \<or>
      upsert key v im = Inr (im\<lparr>im_map := m', im_touched := True,
        upper_bound := if upper_bound im < key then key + 1 else upper_bound im\<rparr>) \<and>
      m' = (if key \<in> set (keys (im_map im)) then assign key v else emplace key v)
             (emplace (key + 1) (im_fun im key) (im_map im))"
proof -
  let ?m = "im_map im" and ?i = "lower_bound key (im_map im)"
  have I: "ordered ?m" "?m \<noteq> []" "fst (hd ?m) = 0" "last ?m = (upper_bound im, 0)"
    using inv by (simp_all add: im_inv_def)
  have last: "?m ! (length ?m - 1) = (upper_bound im, 0)" using I(2,4) by (simp add: last_conv_nth)
  note split = lower_bound_split [OF I(1), of 0 key, folded im_fun_def, unfolded Let_def]
  note at = lower_bound_at [where key = key and m = ?m]
  consider (above) "?i = length ?m" | (same) "?i < length ?m" "fst (?m ! ?i) = key"
    | (inside) "?i < length ?m" "fst (?m ! ?i) \<noteq> key" using at(1) by linarith
  then show thesis
  proof cases
    case above
    then have "length ?m - 1 < ?i" using I(2) by (cases ?m) auto
    then have "upper_bound im < key" using at(2) [of "length ?m - 1"] last by simp
    moreover from this have "key \<notin> set (keys ?m)" using keys_le_last [OF I(1)] I(4) by fastforce
    moreover have "im_fun im key = snd (last ?m)" using split above I(2,4) last by simp
    ultimately show thesis using above I(2) by (intro that) (auto simp: upsert_def Let_def)
  next
    case same
    then have key_in: "key \<in> set (keys ?m)" by (metis length_map nth_map nth_mem)
    moreover have "im_fun im key = snd (?m ! ?i)" using split same by simp
    moreover have "\<not> upper_bound im < key" using keys_le_last [OF I(1) key_in] I(4) by simp
    ultimately show thesis using same by (intro that) (auto simp: upsert_def Let_def)
  next
    case inside
    then have lt: "key < fst (?m ! ?i)" using at(3) by auto
    have "key \<notin> set (keys ?m)"
    proof
      assume "key \<in> set (keys ?m)"
      then obtain j where j: "j < length ?m" "fst (?m ! j) = key" by (auto simp: in_set_conv_nth)
      then have "?i < j" using at(2) [of j] lt by (metis linorder_neqE_nat order_less_irrefl)
      then show False using sorted_wrt_nth_less [OF I(1), of ?i j] j lt by auto
    qed
    moreover have i0: "?i \<noteq> 0" using lt I(2,3) by (metis hd_conv_nth word_zero_le leD)
    moreover have "im_fun im key = snd (?m ! (?i - 1))" using split inside i0 by simp
    moreover have "fst (?m ! (?i - 1)) < key" using at(2) [of "?i - 1"] i0 by simp
    moreover have "\<not> upper_bound im < key" using keys_le_last [OF I(1), of "fst (?m ! ?i)"] I(4) lt inside by simp
    ultimately show thesis using inside by (intro that) (auto simp: upsert_def Let_def)
  qed
qed

lemma upsert_fun:
  assumes inv: "im_inv im" and key: "key \<noteq> - 1"
  obtains im' where "upsert key v im = Inr im'" "im_fun im' = (im_fun im)(key := v)"
    "key \<noteq> upper_bound im \<Longrightarrow> im_inv im'" "key = upper_bound im \<Longrightarrow> upper_bound im' = upper_bound im"
proof -
  let ?m' = "(if key \<in> set (keys (im_map im)) then assign key v else emplace key v)
             (emplace (key + 1) (im_fun im key) (im_map im))"
  let ?im' = "im\<lparr>im_map := ?m', im_touched := True, upper_bound := if upper_bound im < key then key + 1 else upper_bound im\<rparr>"
  note P = put_key [OF inv key refl, of v]
  consider "upsert key v im = Inr im" "im_fun im key = v" | (new) "upsert key v im = Inr ?im'"
    using upsert_run [OF inv key, of v] by metis
  then show thesis
  proof cases
    case new
    have "im_inv ?im'" if "key \<noteq> upper_bound im"
    proof (cases "key < upper_bound im")
      case True
      then show ?thesis using P inv by (auto simp: im_inv_def)
    next
      case False
      then have gt: "upper_bound im < key" using that by auto
      have "last (im_map im) = (upper_bound im, 0)" "ordered (im_map im)" using inv by (simp_all add: im_inv_def)
      then have "\<forall>k\<in>set (keys (im_map im)). k \<le> upper_bound im" using keys_le_last by fastforce
      then have below: "\<forall>k\<in>set (keys (im_map im)). k < key" using gt by auto
      moreover from this have "\<forall>k\<in>set (keys (im_map im)). k < key + 1"
        using word_less_succ [OF key] by (auto dest: less_trans)
      ultimately have "?m' = im_map im @ [(key, v), (key + 1, im_fun im key)]"
        using emplace_append [of "im_map im" "key + 1" _ "[]"] emplace_append [of "im_map im" key]
          word_less_succ [OF key] by auto
      moreover have "im_fun im key = 0" using im_inv_fun_above [OF inv] gt by simp
      ultimately show ?thesis using P(2-4) gt by (auto simp: im_inv_def)
    qed
    then show thesis using new P(1) by (intro that [of ?im']) (auto simp: im_fun_def)
  qed (use inv in \<open>auto intro: that\<close>)
qed

lemma upsert_getValue:
  assumes "im_inv im" "key \<noteq> - 1" "key \<noteq> upper_bound im"
  obtains im' where "upsert key v im = Inr im'" "im_inv im'" "\<And>k. getValue k im' = (if k = key then Inr v else getValue k im)"
  using upsert_fun [OF assms(1,2), of v] assms(1,3) by (metis fun_upd_apply getValue_fun)

section \<open>Consolidation\<close>

lemma merge_equal_keys: "fst (hd (merge_equal m)) = fst (hd m)" "merge_equal m = [] \<longleftrightarrow> m = []"
  "set (keys (merge_equal m)) \<subseteq> set (keys m)"
  by (induction m rule: merge_equal.induct) auto

lemma merge_equal_ordered: "ordered m \<Longrightarrow> ordered (merge_equal m)"
proof (induction m rule: merge_equal.induct)
  case (1 k v k' v' m)
  then have "\<forall>a\<in>set (keys ((k', v') # m)). k < a" by auto
  then have "\<forall>a\<in>set (keys (merge_equal ((k', v') # m))). k < a"
    using merge_equal_keys(3) [of "(k', v') # m"] by blast
  with 1 show ?case by auto
qed simp_all

lemma merge_equal_hd: "m \<noteq> [] \<Longrightarrow> hd (merge_equal m) = hd m"
  by (induction m rule: merge_equal.induct) auto

lemma merge_equal_adj: "distinct_adj (map snd (merge_equal m))"
proof (induction m rule: merge_equal.induct)
  case (1 k v k' v' m)
  then show ?case
    using merge_equal_hd [of "(k', v') # m"] by (auto simp: distinct_adj_Cons hd_map merge_equal_keys)
qed simp_all

lemma merge_equal_at: "ordered m \<Longrightarrow> im_at d (merge_equal m) x = im_at d m x"
proof (induction m arbitrary: d rule: merge_equal.induct)
  case (1 k v k' v' m)
  then have ord: "ordered ((k, v) # m)" "k < k'" by auto
  show ?case
  proof (cases "v = v'")
    case True
    have "im_at v m x = v" if "x < k'" using 1(3) that im_at_below [of k' v' m x v] by auto
    then show ?thesis using 1(1) [OF True ord(1)] True ord(2) by (auto simp: not_le)
  next
    case False
    then show ?thesis using 1(2) [OF False] 1(3) by auto
  qed
qed simp_all

lemma merge_equal_last: "m \<noteq> [] \<Longrightarrow> snd (last (merge_equal m)) = snd (last m)"
  by (induction m rule: merge_equal.induct) (auto simp: merge_equal_keys)

lemma consolidate_getValue:
  assumes "im_inv im"
  obtains im' where "consolidate im = Inr im'" "im_inv im'" "\<And>k. getValue k im' = getValue k im"
    "im_touched im \<Longrightarrow> distinct_adj (map snd (im_map im'))"
proof (cases "im_touched im")
  case True
  let ?m = "merge_equal (im_map im)"
  let ?im' = "im\<lparr>im_map := ?m, upper_bound := fst (last ?m)\<rparr>"
  have I: "ordered (im_map im)" "im_map im \<noteq> []" "fst (hd (im_map im)) = 0" "last (im_map im) = (upper_bound im, 0)"
    using assms by (simp_all add: im_inv_def)
  have "im_inv ?im'"
    using I True merge_equal_ordered [OF I(1)] merge_equal_last [OF I(2)] by (auto simp: im_inv_def merge_equal_keys prod_eq_iff)
  moreover have "im_fun ?im' = im_fun im" using merge_equal_at [OF I(1)] by (auto simp: im_fun_def)
  ultimately show thesis
    using True I(2) assms merge_equal_adj
    by (intro that [of ?im']) (simp_all add: consolidate_def Let_def getValue_fun)
qed (use assms in \<open>auto simp: consolidate_def intro: that\<close>)

section \<open>Properties\<close>

datatype 'v im_op = Upsert "64 word" 'v | Consolidate

fun im_step :: "'v im_op \<Rightarrow> 'v IntervalMap \<Rightarrow> 'v IntervalMap result" where
  "im_step (Upsert key v) im = upsert key v im"
| "im_step Consolidate im = consolidate im"

fun fun_step :: "'v im_op \<Rightarrow> (64 word \<Rightarrow> 'v) \<Rightarrow> (64 word \<Rightarrow> 'v)" where
  "fun_step (Upsert key v) f = f(key := v)"
| "fun_step Consolidate f = f"

text \<open>No update of the run is at the bound the map has at that moment, or at the largest key.\<close>

fun off_bound :: "'v im_op list \<Rightarrow> 'v IntervalMap \<Rightarrow> bool" where
  "off_bound [] im = True"
| "off_bound (x # xs) im =
     ((case x of Upsert key v \<Rightarrow> key \<noteq> - 1 \<and> key \<noteq> upper_bound im | Consolidate \<Rightarrow> True) \<and>
      (case im_step x im of Inl e \<Rightarrow> True | Inr im' \<Rightarrow> off_bound xs im'))"

lemma im_run_fun:
  assumes "im_inv im" "off_bound xs im" "\<And>k. getValue k im = Inr (f k)"
  shows "\<exists>im'. rfold im_step xs im = Inr im' \<and> (\<forall>k. getValue k im' = Inr (fold fun_step xs f k))"
  using assms
proof (induction xs arbitrary: im f)
  case (Cons x xs)
  obtain im' where "im_step x im = Inr im'" "im_inv im'" "\<And>k. getValue k im' = Inr (fun_step x f k)"
  proof (cases x)
    case (Upsert key v)
    then have "key \<noteq> - 1" "key \<noteq> upper_bound im" using Cons.prems(2) by simp_all
    from upsert_getValue [OF Cons.prems(1) this] obtain im' where "upsert key v im = Inr im'" "im_inv im'"
      "\<And>k. getValue k im' = (if k = key then Inr v else getValue k im)" by metis
    then show thesis using Cons.prems(3) Upsert by (intro that [of im']) simp_all
  next
    case Consolidate
    obtain im' where "consolidate im = Inr im'" "im_inv im'" "\<And>k. getValue k im' = getValue k im"
      using consolidate_getValue [OF Cons.prems(1)] by metis
    then show thesis using Cons.prems(3) Consolidate by (intro that [of im']) simp_all
  qed
  moreover from this have "off_bound xs im'" using Cons.prems(2) by simp
  ultimately show ?case using Cons.IH [of im' "fun_step x f"] by simp
qed simp

text \<open>
  C27. An interval map refines a function from keys to values that starts as 0 everywhere: after
  any sequence of updates and consolidations every lookup returns the value of that function,
  as long as no update is at the upper bound the map has at that moment.
\<close>
theorem interval_map_refines_function:
  assumes "off_bound xs (mk_IntervalMap :: 'v::zero IntervalMap)"
  shows "\<exists>im. rfold im_step xs mk_IntervalMap = Inr im \<and>
    (\<forall>k. getValue k im = Inr (fold fun_step xs (\<lambda>_. 0) k))"
proof (rule im_run_fun [OF _ assms])
  show inv: "im_inv (mk_IntervalMap :: 'v IntervalMap)" by (simp add: im_inv_def mk_IntervalMap_def)
  show "getValue k (mk_IntervalMap :: 'v IntervalMap) = Inr 0" for k by (simp add: getValue_def mk_IntervalMap_def)
qed

theorem interval_map_refines_function_witness:
  "\<exists>im. rfold im_step [Upsert 5 1, Upsert 8 1, Consolidate, Upsert 5 (2 :: 8 word)] mk_IntervalMap = Inr im \<and>
     getValue 5 im = Inr 2 \<and> getValue 8 im = Inr 1 \<and> getValue 6 im = Inr 0"
  using interval_map_refines_function [of "[Upsert 5 1, Upsert 8 1, Consolidate, Upsert 5 (2 :: 8 word)]"]
  by (auto simp: mk_IntervalMap_def upsert_def consolidate_def lower_bound_def Let_def)

text \<open>
  C28. An update at the upper bound is lost: it changes the stored map, but every lookup still
  returns what it returned before. On a new map this happens with key 0.
\<close>
theorem upsert_at_bound_lost:
  assumes "im_inv im" and "upper_bound im \<noteq> - 1"
  shows "\<exists>im'. upsert (upper_bound im) v im = Inr im' \<and> (\<forall>k. getValue k im' = getValue k im)"
proof -
  let ?b = "upper_bound im"
  let ?m' = "(if ?b \<in> set (keys (im_map im)) then assign ?b v else emplace ?b v)
             (emplace (?b + 1) (im_fun im ?b) (im_map im))"
  let ?im' = "im\<lparr>im_map := ?m', im_touched := True\<rparr>"
  note P = put_key [OF assms refl, of v]
  have "?b + 1 \<in> set (keys ?m')" by (simp only: keys_assign set_emplace split: if_split) simp
  from keys_le_last [OF P(2) this] have last: "?b \<le> fst (last ?m')" using word_less_succ [OF assms(2)] by auto
  have "getValue k ?im' = getValue k im" for k
  proof (cases "k < ?b")
    case True
    then have "getValue k ?im' = Inr (im_fun ?im' k)" using P(2-4) last by (intro getValue_below) simp_all
    moreover have "im_fun ?im' k = im_fun im k" using P(1) True by (auto simp: im_fun_def)
    ultimately show ?thesis using getValue_fun [OF assms(1)] by simp
  next
    case False
    then have "?b \<le> k" by simp
    then show ?thesis by (simp add: getValue_def)
  qed
  moreover have "upsert ?b v im = Inr im \<or> upsert ?b v im = Inr ?im'"
    using upsert_run [OF assms, of v] by fastforce
  ultimately show ?thesis by blast
qed

theorem upsert_at_bound_lost_witness:
  "\<exists>im. upsert 0 (1 :: 8 word) mk_IntervalMap = Inr im \<and> getValue 0 im = Inr 0"
proof -
  have "im_inv (mk_IntervalMap :: 8 word IntervalMap)" "upper_bound (mk_IntervalMap :: 8 word IntervalMap) = 0"
    by (simp_all add: im_inv_def mk_IntervalMap_def)
  moreover have "getValue 0 (mk_IntervalMap :: 8 word IntervalMap) = Inr 0" by (simp add: getValue_def mk_IntervalMap_def)
  ultimately show ?thesis using upsert_at_bound_lost [of mk_IntervalMap "1 :: 8 word"] by auto
qed

end
