(* ===== verification/LazyColumn.thy ===== *)
theory LazyColumn
  imports CircularMaster IntervalMap
begin

text \<open>
  Columns with lazy secondaries (\<^verbatim>\<open>lazy-column.cpp\<close>): the first snapshot freezes the primary
  data, every later update goes to the secondary of the active snapshot, which keeps the
  updated rows densely and finds them through a cuckoo map.
\<close>

section \<open>Secondaries\<close>

record 'h LazySecondary =
  is_locked :: bool
  sec_touched :: bool
  sec_capacity :: size_t
  initial_capacity :: size_t
  sec_unit_size :: size_t
  sec_pid :: partition_id_t
  secondary_vid :: size_t
  sec_idx :: 'h
  sec_data :: "data_chunk list"
  sec_dirty_upd_mask :: "bitset list"
  sec_dirty_delete_mask :: "bitset list"

type_synonym 'h sec_table = "('h, vid_t, size_t) cuckoo"

text \<open>\<open>mem\<close> is the memory that \<^verbatim>\<open>mallocPinnedOnNode\<close> returns. The number of masks is computed from bytes.\<close>

definition mk_LazySecondary ::
  "'h sec_table \<Rightarrow> data_chunk \<Rightarrow> size_t \<Rightarrow> size_t \<Rightarrow> partition_id_t \<Rightarrow> 'h LazySecondary result" where
  "mk_LazySecondary C mem cap usize pid =
     (let packs = num_bit_packs (unat (cap * usize))
      in rbind (rassert (dc_data mem \<noteq> 0) ''mem != nullptr'') (\<lambda>_.
         Inr \<lparr>is_locked = False, sec_touched = False, sec_capacity = cap, initial_capacity = cap,
              sec_unit_size = usize, sec_pid = pid, secondary_vid = 0, sec_idx = ck_new C, sec_data = [mem],
              sec_dirty_upd_mask = replicate packs (bs_new BIT_PACK_SIZE),
              sec_dirty_delete_mask = replicate packs (bs_new BIT_PACK_SIZE)\<rparr>))"

text \<open>
  The loop of \<^verbatim>\<open>increaseCapacity\<close> appends masks at the end but resets those at the front. The only
  call passes the factor 2, and doubling in \<^verbatim>\<open>double\<close> is exact for capacities below \<open>2 ^ 53\<close>.
  \<open>got\<close> is the result of \<^verbatim>\<open>try_lock\<close>.
\<close>

definition grow_masks :: "nat \<Rightarrow> bitset list \<Rightarrow> bitset list" where
  "grow_masks n masks = map bs_reset (take n masks) @ drop n masks @ replicate n (bs_new BIT_PACK_SIZE)"

definition increaseCapacity :: "bool \<Rightarrow> data_chunk \<Rightarrow> 'h LazySecondary \<Rightarrow> 'h LazySecondary result" where
  "increaseCapacity got mem sec =
     (if got
      then let inc0 = sec_capacity sec * 2; incSize = inc0 + inc0 mod sec_unit_size sec;
               packs = num_bit_packs (unat incSize)
           in rbind (rassert (dc_data mem \<noteq> 0) ''mem != nullptr'') (\<lambda>_.
              Inr (sec\<lparr>sec_data := sec_data sec @ [mem],
                       sec_dirty_upd_mask := grow_masks packs (sec_dirty_upd_mask sec),
                       sec_dirty_delete_mask := grow_masks packs (sec_dirty_delete_mask sec),
                       sec_capacity := sec_capacity sec + initial_capacity sec\<rparr>))
      else Inr sec)"

section \<open>The column\<close>

definition INTERVAL_MAP_SIZE :: nat where
  "INTERVAL_MAP_SIZE = 1024"

record 'h LazyColumn = Column +
  lz_touched :: "bool list"
  active_snapshot_idx :: snapshot_version_t
  rid_snapshot_map :: "snapshot_version_t IntervalMap list list"
  lz_dirty_upd_mask :: "bitset list list"
  lz_dirty_delete_mask :: "bitset list list"
  secondary :: "'h LazySecondary list list"
  lz_snapshot_arenas :: "metadata list list"

definition mk_LazyColumn ::
  "partition_id_t \<Rightarrow> nat \<Rightarrow> data_chunk list \<Rightarrow> column_id_t \<Rightarrow> string \<Rightarrow> data_type \<Rightarrow> size_t \<Rightarrow> size_t
     \<Rightarrow> bool \<Rightarrow> size_t \<Rightarrow> 'h LazyColumn result" where
  "mk_LazyColumn g_num_partitions numa_nodes mems cid name ty usize offset numa_partitioned reserved =
     rbind (mk_Column g_num_partitions numa_nodes mems cid name ty usize offset numa_partitioned reserved LazyMaster) (\<lambda>c.
     let cap = unat (capacity_per_partition c); parts = unat (n_partitions c);
         rest = MAX_PARTITIONS - parts;
         packs = replicate (num_bit_packs cap) (bs_new BIT_PACK_SIZE);
         intervals = replicate (cap div INTERVAL_MAP_SIZE + cap mod INTERVAL_MAP_SIZE) mk_IntervalMap
     in Inr (Column.extend c
          \<lparr>lz_touched = replicate MAX_PARTITIONS False, active_snapshot_idx = 0,
           rid_snapshot_map = replicate parts intervals @ replicate rest [],
           lz_dirty_upd_mask = replicate parts packs @ replicate rest [],
           lz_dirty_delete_mask = replicate parts packs @ replicate rest [],
           secondary = replicate MAX_PARTITIONS [],
           lz_snapshot_arenas = replicate MAX_PARTITIONS []\<rparr>))"

section \<open>Element access\<close>

text \<open>An address in a vector of chunks: the chunk and the offset in it.\<close>

fun ref_by_offset :: "nat \<Rightarrow> data_chunk list \<Rightarrow> size_t \<Rightarrow> size_t \<Rightarrow> (nat \<times> size_t) result" where
  "ref_by_offset i [] data_idx usize = Inl (Assertion ''Out-of-Bound-Access'')"
| "ref_by_offset i (c # cs) data_idx usize =
     (if dc_size c \<ge> data_idx + usize then Inr (i, data_idx)
      else ref_by_offset (Suc i) cs (data_idx - dc_size c) usize)"

definition getElemByOffset :: "data_chunk list \<Rightarrow> size_t \<Rightarrow> size_t \<Rightarrow> (nat \<times> size_t) result" where
  "getElemByOffset data usize offset = ref_by_offset 0 data (offset * usize) usize"

text \<open>The loop of \<^verbatim>\<open>getElem\<close> over the secondaries, newest first.\<close>

fun find_secondary ::
  "'h sec_table \<Rightarrow> size_t \<Rightarrow> rowid_t \<Rightarrow> 'h LazySecondary list list \<Rightarrow> nat \<Rightarrow> (nat \<times> nat \<times> size_t) option result" where
  "find_secondary C usize vid secs 0 = Inr None"
| "find_secondary C usize vid secs (Suc i) =
     rbind (at_part secs (get_pid vid)) (\<lambda>ps.
     rbind (at_idx ps i) (\<lambda>sec.
     if ck_contains C (sec_idx sec) vid
     then case ck_find C (sec_idx sec) vid of
            None \<Rightarrow> Inl OutOfRange
          | Some internal_vid \<Rightarrow>
              rbind (getElemByOffset (sec_data sec) usize internal_vid) (\<lambda>(c, off). Inr (Some (i, c, off)))
     else find_secondary C usize vid secs i))"

definition lz_getElem_ref :: "'h sec_table \<Rightarrow> 'h LazyColumn \<Rightarrow> rowid_t \<Rightarrow> (nat option \<times> nat \<times> size_t) result" where
  "lz_getElem_ref C col vid =
     rbind (find_secondary C (unit_size col) vid (secondary col) (unat (active_snapshot_idx col))) (\<lambda>r.
       case r of
         Some (i, c, off) \<Rightarrow> Inr (Some i, c, off)
       | None \<Rightarrow> rbind (getElem_ref col vid) (\<lambda>(c, off). Inr (None, c, off)))"

definition lz_getElem :: "'h sec_table \<Rightarrow> 'h LazyColumn \<Rightarrow> rowid_t \<Rightarrow> byte list result" where
  "lz_getElem C col vid =
     rbind (lz_getElem_ref C col vid) (\<lambda>(place, c, off).
       case place of
         Some i \<Rightarrow> read_chunk (sec_data (secondary col ! unat (get_pid vid) ! i) ! c) off (unit_size col)
       | None \<Rightarrow> read_chunk (primaryData col ! unat (get_pid vid) ! c) off (unit_size col))"

definition set_dirty :: "nat \<Rightarrow> bitset list \<Rightarrow> bitset list result" where
  "set_dirty offset packs =
     rbind (at_idx packs (offset div BIT_PACK_SIZE)) (\<lambda>pack.
     rbind (bs_set BIT_PACK_SIZE (offset mod BIT_PACK_SIZE) pack) (\<lambda>(_, pack').
     Inr (packs[offset div BIT_PACK_SIZE := pack'])))"

text \<open>The place of a row in a secondary; a row that has none gets the next one.\<close>

definition sec_place :: "'h sec_table \<Rightarrow> rowid_t \<Rightarrow> 'h LazySecondary \<Rightarrow> (size_t \<times> 'h LazySecondary) result" where
  "sec_place C vid sec =
     (if \<not> ck_contains C (sec_idx sec) vid
      then let internal_vid = secondary_vid sec
           in rbind (set_dirty (unat internal_vid) (sec_dirty_upd_mask sec)) (\<lambda>packs'.
              Inr (internal_vid,
                   sec\<lparr>secondary_vid := internal_vid + 1,
                       sec_idx := snd (ck_insert C (sec_idx sec) vid internal_vid),
                       sec_touched := True, sec_dirty_upd_mask := packs'\<rparr>))
      else case ck_find C (sec_idx sec) vid of None \<Rightarrow> Inl OutOfRange | Some internal_vid \<Rightarrow> Inr (internal_vid, sec))"

definition sec_write ::
  "bool \<Rightarrow> data_chunk \<Rightarrow> size_t \<Rightarrow> size_t \<Rightarrow> byte list option \<Rightarrow> 'h LazySecondary \<Rightarrow> 'h LazySecondary result" where
  "sec_write got mem internal_vid usize data sec =
     rbind (UpdateInPlace (sec_data sec) internal_vid usize data) (\<lambda>(ok, cs).
     if ok then Inr (sec\<lparr>sec_data := cs\<rparr>)
     else rbind (increaseCapacity got mem (sec\<lparr>sec_data := cs\<rparr>)) (\<lambda>sec1.
          rbind (UpdateInPlace (sec_data sec1) internal_vid usize data) (\<lambda>(ok, cs').
          if ok then Inr (sec1\<lparr>sec_data := cs'\<rparr>)
          else Inl (Assertion ''couldn't insert even after increasing capacity.''))))"

definition lz_updateElem ::
  "'h sec_table \<Rightarrow> bool \<Rightarrow> data_chunk \<Rightarrow> rowid_t \<Rightarrow> byte list option \<Rightarrow> 'h LazyColumn \<Rightarrow> 'h LazyColumn result" where
  "lz_updateElem C got mem vid data col =
     (let pid = get_pid vid; p = unat pid; offset = get_offset vid; snapIdx = unat (active_snapshot_idx col)
      in if snapIdx = 0
         then rbind (at_part (primaryData col) pid) (\<lambda>chunks.
              rbind (UpdateInPlace chunks offset (unit_size col) data) (\<lambda>(ok, chunks').
              if \<not> ok then Inl (Assertion ''couldn't insert into primary due to space.'')
              else rbind (at_part (lz_dirty_upd_mask col) pid) (\<lambda>packs.
                   rbind (set_dirty (unat offset) packs) (\<lambda>packs'.
                   Inr (col\<lparr>primaryData := (primaryData col)[p := chunks'],
                            lz_dirty_upd_mask := (lz_dirty_upd_mask col)[p := packs'],
                            lz_touched := (lz_touched col)[p := True]\<rparr>)))))
         else rbind (at_part (secondary col) pid) (\<lambda>ps.
              rbind (rassert (snapIdx - 1 < length ps) ''(snapIdx - 1) < secondary[pid].size()'') (\<lambda>_.
              rbind (sec_place C vid (ps ! (snapIdx - 1))) (\<lambda>(internal_vid, sec).
              rbind (sec_write got mem internal_vid (unit_size col) data sec) (\<lambda>sec'.
              Inr (col\<lparr>secondary := (secondary col)[p := ps[snapIdx - 1 := sec']]\<rparr>))))))"

section \<open>Snapshots\<close>

text \<open>\<open>mems\<close> is the memory for the new secondaries, one per partition. The counter has 8 bits.\<close>

definition add_secondary :: "'h sec_table \<Rightarrow> data_chunk list \<Rightarrow> nat \<Rightarrow> 'h LazyColumn \<Rightarrow> 'h LazyColumn result" where
  "add_secondary C mems i col =
     rbind (at_idx mems i) (\<lambda>mem.
     rbind (mk_LazySecondary C mem (capacity col div 10) (unit_size col) (of_nat i)) (\<lambda>sec.
     rbind (at_idx (secondary col) i) (\<lambda>ps.
     Inr (col\<lparr>secondary := (secondary col)[i := ps @ [sec]]\<rparr>))))"

definition lz_snapshot :: "'h sec_table \<Rightarrow> data_chunk list \<Rightarrow> 'h LazyColumn \<Rightarrow> 'h LazyColumn result" where
  "lz_snapshot C mems col =
     rbind (rfold (add_secondary C mems) [0..<unat (n_partitions col)] col) (\<lambda>col'.
     Inr (col'\<lparr>active_snapshot_idx := active_snapshot_idx col' + 1\<rparr>))"

definition lz_snapshot_get_data :: "bool \<Rightarrow> 'h LazyColumn \<Rightarrow> (data_chunk \<times> rowid_t) list result" where
  "lz_snapshot_get_data elastic_scan col =
     rmap (\<lambda>i.
       if elastic_scan then Inl (Assertion ''bitmask is not implemented as pass-able pointer'')
       else rbind (at_idx (lz_snapshot_arenas col) i) (\<lambda>arenas.
            rbind (at_idx arenas 0) (\<lambda>snap.
            rbind (at_idx (primaryData col) i) (\<lambda>chunks.
            rbind (at_idx chunks 0) (\<lambda>c. Inr (c, numOfRecords snap))))))
     [0..<unat (n_partitions col)]"

section \<open>One secondary\<close>

text \<open>
  A secondary with room for \<open>n\<close> rows of \<open>u\<close> bytes: different rows have different places below the
  next free one.
\<close>

definition sec_inv :: "'h sec_table \<Rightarrow> nat \<Rightarrow> nat \<Rightarrow> 'h LazySecondary \<Rightarrow> bool" where
  "sec_inv C u n sec \<longleftrightarrow> n < 2 ^ 63 \<and>
     chunk_vec u n (sec_data sec) \<and> packs_ok n (sec_dirty_upd_mask sec) \<and> unat (secondary_vid sec) \<le> n \<and>
     (\<forall>v i. ck_find C (sec_idx sec) v = Some i \<longrightarrow> unat i < unat (secondary_vid sec)) \<and>
     (\<forall>v w i. ck_find C (sec_idx sec) v = Some i \<longrightarrow> ck_find C (sec_idx sec) w = Some i \<longrightarrow> v = w)"

lemma sec_invD:
  assumes "sec_inv C u n sec"
  shows "chunk_vec u n (sec_data sec)" "packs_ok n (sec_dirty_upd_mask sec)" "unat (secondary_vid sec) \<le> n"
    "ck_find C (sec_idx sec) v = Some i \<Longrightarrow> unat i < unat (secondary_vid sec)"
    "ck_find C (sec_idx sec) v = Some i \<Longrightarrow> ck_find C (sec_idx sec) w = Some i \<Longrightarrow> v = w"
    "n < 2 ^ 63"
  using assms unfolding sec_inv_def by blast+

lemma set_dirty_ok:
  assumes "packs_ok cap packs" "offset < cap"
  obtains packs' where "set_dirty offset packs = Inr packs'" "packs_ok cap packs'"
proof -
  let ?q = "offset div BIT_PACK_SIZE" and ?r = "offset mod BIT_PACK_SIZE"
  have q: "?q < length packs" using assms by (intro pack_idx) (simp add: packs_ok_def)
  have len: "length (packs ! ?q) = 128" using assms(1) nth_mem [OF q] by (simp add: packs_ok_def)
  obtain b where "bs_set BIT_PACK_SIZE ?r (packs ! ?q) = Inr (?r \<in> bits_of (packs ! ?q), b)"
    "length b = length (packs ! ?q)"
    using bs_set_eq [of ?r "packs ! ?q" BIT_PACK_SIZE] len pack_off [of offset] by (auto simp: BIT_PACK_SIZE_def)
  moreover from this have "packs_ok cap (packs[?q := b])"
    using assms(1) len by (auto simp: packs_ok_def dest!: set_update_subset_insert [THEN subsetD])
  ultimately show thesis using q by (intro that [of "packs[?q := b]"]) (simp_all add: set_dirty_def)
qed

lemma sec_place_ok:
  assumes C: "cuckoo_laws C" and inv: "sec_inv C u n sec"
    and room: "unat (secondary_vid sec) < n"
  obtains i sec' where "sec_place C v sec = Inr (i, sec')" "sec_inv C u n sec'" "unat i < n"
    "\<And>w. ck_find C (sec_idx sec') w = (if w = v then Some i else ck_find C (sec_idx sec) w)"
    "sec_data sec' = sec_data sec" "unat (secondary_vid sec') \<le> Suc (unat (secondary_vid sec))"
proof (cases "ck_find C (sec_idx sec) v")
  case (Some i)
  then show thesis
    using sec_invD(3,4) [OF inv] by (intro that [of i sec] inv) (auto simp: sec_place_def ck_contains_def intro: less_le_trans)
next
  case None
  let ?i = "secondary_vid sec"
  obtain packs' where packs: "set_dirty (unat ?i) (sec_dirty_upd_mask sec) = Inr packs'" "packs_ok n packs'"
    using set_dirty_ok [OF sec_invD(2) [OF inv] room] .
  let ?sec' = "sec\<lparr>secondary_vid := ?i + 1, sec_idx := snd (ck_insert C (sec_idx sec) v ?i),
                   sec_touched := True, sec_dirty_upd_mask := packs'\<rparr>"
  have find: "ck_find C (sec_idx ?sec') w = (if w = v then Some ?i else ck_find C (sec_idx sec) w)" for w
    using None by (simp add: ck_find_insert [OF C])
  have next_vid: "unat (?i + 1) = Suc (unat ?i)"
    using room sec_invD(6) [OF inv] by (subst unat_add_no_wrap) simp_all
  have "sec_inv C u n ?sec'"
    unfolding sec_inv_def find
    using sec_invD [OF inv] packs(2) room next_vid by (auto simp: less_Suc_eq split: if_splits dest: sec_invD(4) [OF inv])
  then show thesis using None packs room next_vid find
    by (intro that [of ?i ?sec']) (simp_all add: sec_place_def ck_contains_def Let_def)
qed

lemma ref_cell:
  assumes "chunk_vec (unat usize) n cs" and "unat i < n"
  shows "getElemByOffset cs usize i = Inr (0, i * usize)"
    "read_chunk (cs ! 0) (i * usize) usize = Inr (cell (unat usize) cs (unat i))"
proof -
  obtain c where cs: "cs = [c]" using assms(1) by (auto simp: chunk_vec_def)
  have "dc_size c \<ge> i * usize + usize"
    using chunk_arith [OF assms(1) [unfolded cs] assms(2)] elem_bound [OF assms(2), of "unat usize"]
    by (simp add: word_le_nat_alt)
  then show "getElemByOffset cs usize i = Inr (0, i * usize)"
    "read_chunk (cs ! 0) (i * usize) usize = Inr (cell (unat usize) cs (unat i))"
    using read_chunks_cell [OF assms] by (simp_all add: cs getElemByOffset_def)
qed

lemma sec_write_ok:
  assumes "sec_inv C (unat usize) n sec" and "unat i < n" and "length bs = unat usize"
  obtains cs' where "sec_write got mem i usize (Some bs) sec = Inr (sec\<lparr>sec_data := cs'\<rparr>)"
    "sec_inv C (unat usize) n (sec\<lparr>sec_data := cs'\<rparr>)"
    "\<And>j. j < n \<Longrightarrow> cell (unat usize) cs' j = (if j = unat i then bs else cell (unat usize) (sec_data sec) j)"
proof -
  obtain cs' where "UpdateInPlace (sec_data sec) i usize (Some bs) = Inr (True, cs')" "chunk_vec (unat usize) n cs'"
    "\<And>j. j < n \<Longrightarrow> cell (unat usize) cs' j = (if j = unat i then bs else cell (unat usize) (sec_data sec) j)"
    using UpdateInPlace_cell [OF sec_invD(1) [OF assms(1)] assms(2,3)] by metis
  then show thesis using assms(1) by (intro that [of cs']) (simp_all add: sec_write_def sec_inv_def)
qed

section \<open>The active snapshot\<close>

text \<open>The secondary that updates of a partition go to has room for \<open>room\<close> more rows.\<close>

definition lz_inv :: "'h sec_table \<Rightarrow> nat \<Rightarrow> 'h LazyColumn \<Rightarrow> bool" where
  "lz_inv C room col \<longleftrightarrow> active_snapshot_idx col \<noteq> 0 \<and>
     (\<forall>p < unat (n_partitions col). p < length (secondary col) \<and>
        unat (active_snapshot_idx col) \<le> length (secondary col ! p) \<and>
        (\<exists>n. sec_inv C (unat (unit_size col)) n (secondary col ! p ! (unat (active_snapshot_idx col) - 1)) \<and>
             unat (secondary_vid (secondary col ! p ! (unat (active_snapshot_idx col) - 1))) + room \<le> n))"

lemma find_secondary_cong:
  assumes "length secs' = length secs"
    and "unat (get_pid w) < length secs \<Longrightarrow> length (secs' ! unat (get_pid w)) = length (secs ! unat (get_pid w))"
    and "\<And>i. unat (get_pid w) < length secs \<Longrightarrow> i < k \<Longrightarrow> secs' ! unat (get_pid w) ! i = secs ! unat (get_pid w) ! i"
  shows "find_secondary C u w secs' k = find_secondary C u w secs k"
  using assms(3)
proof (induction k)
  case (Suc k)
  then have "find_secondary C u w secs' k = find_secondary C u w secs k" by simp
  then show ?case using assms(1,2) Suc.prems by (simp add: at_part_def at_idx_def)
qed simp

lemma find_secondary_bound:
  "find_secondary C u w secs k = Inr (Some (i, c, off)) \<Longrightarrow> i < k"
  by (induction k) (auto simp: rbind_eq_Inr_iff split: if_splits option.splits)

lemma lz_getElem_top:
  assumes C: "cuckoo_laws C" and k: "unat (active_snapshot_idx col) = Suc k"
    and p: "unat (get_pid w) < length (secondary col)" "k < length (secondary col ! unat (get_pid w))"
    and sec: "sec = secondary col ! unat (get_pid w) ! k" "sec_inv C (unat (unit_size col)) n sec"
    and w: "ck_find C (sec_idx sec) w = Some i"
  shows "lz_getElem C col w = Inr (cell (unat (unit_size col)) (sec_data sec) (unat i))"
proof -
  have i: "unat i < n" using sec_invD(3,4) [OF sec(2)] w by (meson less_le_trans)
  note R = ref_cell [OF sec_invD(1) [OF sec(2)] i]
  have "find_secondary C (unit_size col) w (secondary col) (Suc k) = Inr (Some (k, 0, i * unit_size col))"
    using p w R(1) by (simp add: at_part_def sec(1) ck_contains_def)
  then show ?thesis using k R(2) sec(1) by (simp add: lz_getElem_def lz_getElem_ref_def)
qed

lemma lz_getElem_other:
  assumes "unat (active_snapshot_idx col) = Suc k" and p: "p < length (secondary col)" "k < length (secondary col ! p)"
    and w: "unat (get_pid w) \<noteq> p \<or>
      (ck_find C (sec_idx (secondary col ! p ! k)) w = None \<and> ck_find C (sec_idx sec') w = None)"
    and c': "c' = col\<lparr>secondary := (secondary col)[p := (secondary col ! p)[k := sec']]\<rparr>"
  shows "lz_getElem C c' w = lz_getElem C col w"
proof -
  let ?q = "unat (get_pid w)" and ?s = "(secondary col)[p := (secondary col ! p)[k := sec']]"
  have len: "length (?s ! ?q) = length (secondary col ! ?q)" using p by (cases "?q = p") simp_all
  have old: "?s ! ?q ! i = secondary col ! ?q ! i" if "?q \<noteq> p \<or> i < k" for i
    using that p by (cases "?q = p") auto
  have find_k: "find_secondary C u w ?s k = find_secondary C u w (secondary col) k" for u
    using old len by (intro find_secondary_cong) auto
  have eq: "find_secondary C u w ?s (Suc k) = find_secondary C u w (secondary col) (Suc k)" for u
  proof (cases "?q = p")
    case False
    then show ?thesis using old len by (intro find_secondary_cong) auto
  next
    case True
    then show ?thesis using w p find_k by (simp add: at_part_def ck_contains_def)
  qed
  have below: "?s ! ?q ! i = secondary col ! ?q ! i"
    if "find_secondary C u w (secondary col) (Suc k) = Inr (Some (i, c, off))" for u i c off
  proof (cases "?q = p")
    case True
    then have "find_secondary C u w (secondary col) k = Inr (Some (i, c, off))"
      using that w p by (simp add: at_part_def ck_contains_def)
    then show ?thesis using find_secondary_bound old by blast
  qed (use old in blast)
  have ref: "getElem_ref c' w = getElem_ref col w" by (simp add: getElem_ref_def c')
  show ?thesis
    unfolding lz_getElem_def lz_getElem_ref_def
    using assms(1) eq below [of "unit_size col"] ref
    by (cases "find_secondary C (unit_size col) w (secondary col) (Suc k)"; cases "getElem_ref col w")
       (auto simp: c' simp del: find_secondary.simps split: option.splits prod.splits)
qed

lemma lz_updateElem_ok:
  assumes C: "cuckoo_laws C" and inv: "lz_inv C (Suc room) col" and pid: "get_pid v < n_partitions col"
    and len: "length bs = unat (unit_size col)"
  obtains c' where "lz_updateElem C got mem v (Some bs) col = Inr c'" "lz_inv C room c'"
    "n_partitions c' = n_partitions col" "unit_size c' = unit_size col"
    "lz_getElem C c' v = Inr bs" "\<And>w. w \<noteq> v \<Longrightarrow> lz_getElem C c' w = lz_getElem C col w"
proof -
  let ?p = "unat (get_pid v)" and ?u = "unat (unit_size col)"
  obtain k where k: "unat (active_snapshot_idx col) = Suc k"
    using inv gr0_conv_Suc [of "unat (active_snapshot_idx col)"] by (auto simp: lz_inv_def unat_gt_0)
  have p: "?p < unat (n_partitions col)" using pid by (simp add: word_less_nat_alt)
  define sec where "sec = secondary col ! ?p ! k"
  obtain n where P: "?p < length (secondary col)" "k < length (secondary col ! ?p)" "sec_inv C ?u n sec"
    "unat (secondary_vid sec) + Suc room \<le> n"
    using inv p k by (auto simp: lz_inv_def sec_def)
  have r: "unat (secondary_vid sec) < n" using P(4) by simp
  obtain i s1 where place: "sec_place C v sec = Inr (i, s1)" "sec_inv C ?u n s1" "unat i < n"
    "\<And>w. ck_find C (sec_idx s1) w = (if w = v then Some i else ck_find C (sec_idx sec) w)"
    "sec_data s1 = sec_data sec" "unat (secondary_vid s1) \<le> Suc (unat (secondary_vid sec))"
    by (rule sec_place_ok [OF C P(3) r, of v]) (rule that)
  obtain cs' where wr: "sec_write got mem i (unit_size col) (Some bs) s1 = Inr (s1\<lparr>sec_data := cs'\<rparr>)"
    "sec_inv C ?u n (s1\<lparr>sec_data := cs'\<rparr>)"
    "\<And>j. j < n \<Longrightarrow> cell ?u cs' j = (if j = unat i then bs else cell ?u (sec_data s1) j)"
    by (rule sec_write_ok [OF place(2,3) len]) (rule that)
  let ?s2 = "s1\<lparr>sec_data := cs'\<rparr>"
  let ?c = "col\<lparr>secondary := (secondary col)[?p := (secondary col ! ?p)[k := ?s2]]\<rparr>"
  have run: "lz_updateElem C got mem v (Some bs) col = Inr ?c"
    using k P(1,2) place(1) wr(1) by (simp add: lz_updateElem_def Let_def at_part_def sec_def)
  have at: "secondary ?c ! ?p ! k = ?s2" using P by simp
  have inv': "lz_inv C room ?c"
    unfolding lz_inv_def
  proof (intro conjI allI impI, goal_cases)
    case (4 q)
    show ?case
    proof (cases "q = ?p")
      case True
      have "unat (secondary_vid ?s2) + room \<le> n" using place(6) P(4) by simp
      then show ?thesis using True wr(2) P(1,2) k by (intro exI [of _ n]) simp
    next
      case False
      obtain m where "sec_inv C ?u m (secondary col ! q ! k)" "unat (secondary_vid (secondary col ! q ! k)) + Suc room \<le> m"
        using inv 4 k by (auto simp: lz_inv_def)
      then show ?thesis using False k by (intro exI [of _ m]) simp
    qed
  next
    case (3 q)
    then show ?case using inv P(1,2) k by (cases "q = ?p") (auto simp: lz_inv_def)
  qed (use inv in \<open>auto simp: lz_inv_def\<close>)
  have get_v: "lz_getElem C ?c v = Inr bs"
  proof -
    have "lz_getElem C ?c v = Inr (cell ?u cs' (unat i))"
      using lz_getElem_top [OF C, of ?c k v ?s2 n i] k P(1,2) wr(2) place(4) by simp
    then show ?thesis using wr(3) [OF place(3)] by simp
  qed
  have "lz_getElem C ?c w = lz_getElem C col w" if "w \<noteq> v" for w
  proof (cases "unat (get_pid w) = ?p \<and> ck_find C (sec_idx sec) w \<noteq> None")
    case True
    then obtain j where j: "ck_find C (sec_idx sec) w = Some j" by auto
    then have j': "ck_find C (sec_idx ?s2) w = Some j" using place(4) that by simp
    have "j \<noteq> i" using sec_invD(5) [OF place(2), of w i v] place(4) that j by auto
    then have "unat j \<noteq> unat i" by (simp add: word_unat_eq_iff)
    moreover have "unat j < n" using sec_invD(3,4) [OF P(3)] j by (meson less_le_trans)
    ultimately have "cell ?u cs' (unat j) = cell ?u (sec_data sec) (unat j)" using wr(3) place(5) by simp
    moreover have "lz_getElem C ?c w = Inr (cell ?u cs' (unat j))"
      using lz_getElem_top [OF C, of ?c k w ?s2 n j] k P(1,2) wr(2) j' True by simp
    moreover have "lz_getElem C col w = Inr (cell ?u (sec_data sec) (unat j))"
      using lz_getElem_top [OF C k, of w sec n j] P j True by (simp add: sec_def)
    ultimately show ?thesis by simp
  next
    case False
    then show ?thesis
      using place(4) that by (intro lz_getElem_other [OF k P(1,2) _ refl]) (auto simp: sec_def)
  qed
  with run inv' get_v show thesis by (intro that [of ?c]) simp_all
qed

abbreviation lz_updates ::
  "'h sec_table \<Rightarrow> bool \<Rightarrow> data_chunk \<Rightarrow> (rowid_t \<times> byte list) list \<Rightarrow> 'h LazyColumn \<Rightarrow> 'h LazyColumn result" where
  "lz_updates C got mem \<equiv> rfold (\<lambda>(v, bs). lz_updateElem C got mem v (Some bs))"

lemma lz_updates_ok:
  assumes C: "cuckoo_laws C" and "lz_inv C (length upds) col"
    and "\<forall>(v, bs)\<in>set upds. get_pid v < n_partitions col \<and> length bs = unat (unit_size col)"
  shows "\<exists>c'. lz_updates C got mem upds col = Inr c' \<and>
    (\<forall>w. lz_getElem C c' w = (case map_of (rev upds) w of Some bs \<Rightarrow> Inr bs | None \<Rightarrow> lz_getElem C col w))"
  using assms(2,3)
proof (induction upds arbitrary: col)
  case (Cons x upds)
  obtain v bs where x: "x = (v, bs)" by force
  have len: "lz_inv C (Suc (length upds)) col" "get_pid v < n_partitions col" "length bs = unat (unit_size col)"
    using Cons.prems x by simp_all
  obtain c1 where one: "lz_updateElem C got mem v (Some bs) col = Inr c1" "lz_inv C (length upds) c1"
    "n_partitions c1 = n_partitions col" "unit_size c1 = unit_size col"
    "lz_getElem C c1 v = Inr bs" "\<And>w. w \<noteq> v \<Longrightarrow> lz_getElem C c1 w = lz_getElem C col w"
    by (rule lz_updateElem_ok [OF C len]) (rule that)
  have "\<forall>(v, bs)\<in>set upds. get_pid v < n_partitions c1 \<and> length bs = unat (unit_size c1)"
    using Cons.prems(2) one(3,4) by simp
  from Cons.IH [OF one(2) this] obtain c' where rest: "lz_updates C got mem upds c1 = Inr c'"
    "\<forall>w. lz_getElem C c' w = (case map_of (rev upds) w of Some bs \<Rightarrow> Inr bs | None \<Rightarrow> lz_getElem C c1 w)" by blast
  have "lz_getElem C c1 w = (if w = v then Inr bs else lz_getElem C col w)" for w using one(5,6) by simp
  then show ?case using one(1) rest by (auto simp: x map_add_def split: option.splits)
qed simp

section \<open>Taking a snapshot\<close>

lemma fresh_secondary:
  assumes C: "cuckoo_laws C" and mk: "mk_LazySecondary C mem cap usize pid = Inr sec"
    and vec: "chunk_vec (unat usize) (unat cap) [mem]" and u: "usize \<noteq> 0"
  shows "sec_inv C (unat usize) (unat cap) sec" "secondary_vid sec = 0"
proof -
  have sec: "secondary_vid sec = 0" "sec_idx sec = ck_new C" "sec_data sec = [mem]"
    "sec_dirty_upd_mask sec = replicate (num_bit_packs (unat (cap * usize))) (bs_new BIT_PACK_SIZE)"
    using mk by (auto simp: mk_LazySecondary_def Let_def rbind_eq_Inr_iff)
  then show "secondary_vid sec = 0" by simp
  have bound: "unat cap * unat usize < 2 ^ 63" using vec by (simp add: chunk_vec_def)
  have u0: "1 \<le> unat usize" using u by (simp add: unat_gt_0 Suc_le_eq)
  have cap: "unat cap \<le> unat cap * unat usize" using u0 by simp
  moreover have "unat (cap * usize) = unat cap * unat usize" using bound by (simp add: unat_word_ariths)
  ultimately have "unat cap \<le> BIT_PACK_SIZE * num_bit_packs (unat (cap * usize))"
    using num_bit_packs_enough [of "unat (cap * usize)"] by (metis le_trans)
  then have "packs_ok (unat cap) (sec_dirty_upd_mask sec)"
    by (auto simp: sec(4) packs_ok_def bs_new_def)
  then show "sec_inv C (unat usize) (unat cap) sec"
    using vec sec le_less_trans [OF cap bound] by (simp add: sec_inv_def ck_find_new [OF C])
qed

lemma snapshot_secondaries:
  assumes "rfold (add_secondary C mems) [0..<k] col = Inr c"
  shows "\<exists>ss. c = col\<lparr>secondary := ss\<rparr> \<and> length ss = length (secondary col) \<and>
    (\<forall>p. (k \<le> p \<longrightarrow> ss ! p = secondary col ! p) \<and>
      (p < k \<longrightarrow> p < length ss \<and> p < length mems \<and> (\<exists>sec. ss ! p = secondary col ! p @ [sec] \<and>
        mk_LazySecondary C (mems ! p) (capacity col div 10) (unit_size col) (of_nat p) = Inr sec)))"
  using assms
proof (induction k arbitrary: c)
  case 0
  then show ?case by (intro exI [of _ "secondary col"]) simp
next
  case (Suc k)
  from Suc.prems obtain c1 where c1: "rfold (add_secondary C mems) [0..<k] col = Inr c1"
    and step: "add_secondary C mems k c1 = Inr c"
    by (auto simp: rfold_snoc rbind_eq_Inr_iff [of "rfold _ _ _"])
  from Suc.IH [OF c1] obtain ss where ss: "c1 = col\<lparr>secondary := ss\<rparr>" "length ss = length (secondary col)"
    "\<And>p. k \<le> p \<Longrightarrow> ss ! p = secondary col ! p"
    "\<And>p. p < k \<Longrightarrow> p < length ss \<and> p < length mems \<and> (\<exists>sec. ss ! p = secondary col ! p @ [sec] \<and>
        mk_LazySecondary C (mems ! p) (capacity col div 10) (unit_size col) (of_nat p) = Inr sec)" by blast
  from step obtain sec where sec: "k < length mems" "k < length ss"
    "mk_LazySecondary C (mems ! k) (capacity col div 10) (unit_size col) (of_nat k) = Inr sec"
    "c = col\<lparr>secondary := ss[k := ss ! k @ [sec]]\<rparr>"
    by (auto simp: ss(1) add_secondary_def rbind_eq_Inr_iff at_idx_eq_Inr_iff)
  then show ?case
    using ss(2) ss(3) [of k] ss(3,4)
    by (intro exI [of _ "ss[k := ss ! k @ [sec]]"]) (auto simp: nth_list_update less_Suc_eq)
qed

text \<open>The shape of a column between snapshots: as many secondaries in every partition as snapshots.\<close>

definition lz_shape :: "'h LazyColumn \<Rightarrow> bool" where
  "lz_shape col \<longleftrightarrow> (\<forall>p < unat (n_partitions col). p < length (secondary col) \<and>
     length (secondary col ! p) = unat (active_snapshot_idx col))"

lemma snapshot_inv:
  assumes C: "cuckoo_laws C" and run: "lz_snapshot C mems col = Inr c" and shape: "lz_shape col"
    and idx: "active_snapshot_idx col \<noteq> - 1" and u: "unit_size col \<noteq> 0"
    and mems: "\<forall>p < unat (n_partitions col). chunk_vec (unat (unit_size col)) (unat (capacity col div 10)) [mems ! p]"
  shows "lz_inv C (unat (capacity col div 10)) c" "n_partitions c = n_partitions col" "unit_size c = unit_size col"
proof -
  let ?n = "unat (capacity col div 10)"
  obtain ss where ss: "c = col\<lparr>secondary := ss, active_snapshot_idx := active_snapshot_idx col + 1\<rparr>"
    "\<And>p. p < unat (n_partitions col) \<Longrightarrow> p < length ss \<and> (\<exists>sec. ss ! p = secondary col ! p @ [sec] \<and>
        mk_LazySecondary C (mems ! p) (capacity col div 10) (unit_size col) (of_nat p) = Inr sec)"
    using run by (auto simp: lz_snapshot_def rbind_eq_Inr_iff dest!: snapshot_secondaries)
  have "1 + active_snapshot_idx col \<noteq> 0" using idx by (metis add.commute add_eq_0_iff)
  from unatSuc [OF this] have next_idx: "unat (active_snapshot_idx col + 1) = Suc (unat (active_snapshot_idx col))"
    by (simp add: add.commute)
  show "lz_inv C ?n c"
    unfolding lz_inv_def
  proof (intro conjI allI impI)
    show "active_snapshot_idx c \<noteq> 0" using next_idx ss(1) by (metis LazyColumn.select_convs(2) LazyColumn.surjective LazyColumn.update_convs(2) nat.distinct(1) unat_0)
    fix p assume "p < unat (n_partitions c)"
    then have p: "p < unat (n_partitions col)" using ss(1) by simp
    obtain sec where sec: "p < length ss" "ss ! p = secondary col ! p @ [sec]"
      "mk_LazySecondary C (mems ! p) (capacity col div 10) (unit_size col) (of_nat p) = Inr sec" using ss(2) [OF p] by blast
    have len: "length (secondary col ! p) = unat (active_snapshot_idx col)" using shape p by (simp add: lz_shape_def)
    show "p < length (secondary c)" "unat (active_snapshot_idx c) \<le> length (secondary c ! p)"
      using sec(1,2) len next_idx by (simp_all add: ss(1))
    have "secondary c ! p ! (unat (active_snapshot_idx c) - 1) = sec"
      using sec(2) len next_idx nth_append_length [of "secondary col ! p" sec] by (simp add: ss(1))
    moreover have "sec_inv C (unat (unit_size col)) ?n sec" "secondary_vid sec = 0"
      using fresh_secondary [OF C sec(3) _ u] mems p by simp_all
    ultimately show "\<exists>n. sec_inv C (unat (unit_size c)) n (secondary c ! p ! (unat (active_snapshot_idx c) - 1)) \<and>
        unat (secondary_vid (secondary c ! p ! (unat (active_snapshot_idx c) - 1))) + ?n \<le> n"
      by (intro exI [of _ ?n]) (simp add: ss(1))
  qed
qed (use run in \<open>auto simp: lz_snapshot_def rbind_eq_Inr_iff dest!: snapshot_secondaries\<close>)

section \<open>Properties\<close>

text \<open>
  C29. After a snapshot of a lazy column, any sequence of updates that fits the new secondaries
  succeeds, and then every row reads as the last value written to it in that sequence, or, if
  the sequence has none, exactly as it did before.
\<close>
theorem lazy_updates_read_back:
  assumes "cuckoo_laws C" and "lz_snapshot C mems col = Inr col1" and "lz_shape col"
    and "active_snapshot_idx col \<noteq> - 1" and "unit_size col \<noteq> 0"
    and "\<forall>p < unat (n_partitions col). chunk_vec (unat (unit_size col)) (unat (capacity col div 10)) [mems ! p]"
    and "\<forall>(v, bs)\<in>set upds. get_pid v < n_partitions col \<and> length bs = unat (unit_size col)"
    and "length upds \<le> unat (capacity col div 10)"
  shows "\<exists>col2. lz_updates C got mem upds col1 = Inr col2 \<and>
    (\<forall>w. lz_getElem C col2 w =
       (case map_of (rev upds) w of Some bs \<Rightarrow> Inr bs | None \<Rightarrow> lz_getElem C col1 w))"
proof -
  note S = snapshot_inv [OF assms(1-6)]
  have "lz_inv C (length upds) col1"
    unfolding lz_inv_def
  proof (intro conjI allI impI, goal_cases)
    case (4 p)
    then show ?case using S(1) assms(8) unfolding lz_inv_def by (meson add_left_mono le_trans)
  qed (use S(1) in \<open>auto simp: lz_inv_def\<close>)
  then show ?thesis using lz_updates_ok [OF assms(1)] assms(7) S(2,3) by simp
qed

definition demo_lazy :: "(vid_t \<rightharpoonup> size_t) LazyColumn" where
  "demo_lazy =
     \<lparr>column_id = 0, col_name = ''l'', col_type = INTEGER, unit_size = 1, byteOffset_record = 0,
      n_partitions = 1, single_version_only = True, snapshotType = LazyMaster,
      total_size = 20, total_size_per_partition = 20, capacity = 20, capacity_per_partition = 20,
      primaryData = [[\<lparr>dc_data = 4096, dc_bytes = replicate 20 0\<rparr>]],
      lz_touched = [False], active_snapshot_idx = 0, rid_snapshot_map = [[]],
      lz_dirty_upd_mask = [[bs_new BIT_PACK_SIZE]], lz_dirty_delete_mask = [[bs_new BIT_PACK_SIZE]],
      secondary = [[]], lz_snapshot_arenas = [[]]\<rparr>"

theorem lazy_updates_read_back_witness:
  "\<exists>col1 col2. lz_snapshot map_cuckoo [\<lparr>dc_data = 8192, dc_bytes = [7, 7]\<rparr>] demo_lazy = Inr col1 \<and>
     lz_updates map_cuckoo True \<lparr>dc_data = 0, dc_bytes = []\<rparr> [(3, [1]), (3, [2])] col1 = Inr col2 \<and>
     lz_getElem map_cuckoo col2 3 = Inr [2]"
proof -
  let ?mems = "[\<lparr>dc_data = 8192, dc_bytes = [7, 7]\<rparr>]"
  have "isOK (lz_snapshot map_cuckoo ?mems demo_lazy)"
    by (simp add: lz_snapshot_def demo_lazy_def add_secondary_def mk_LazySecondary_def Let_def)
  then obtain col1 where run: "lz_snapshot map_cuckoo ?mems demo_lazy = Inr col1" by (auto simp: isOK_iff)
  have "lz_shape demo_lazy" by (simp add: lz_shape_def demo_lazy_def)
  moreover have "\<forall>(v, bs)\<in>set [(3, [1]), (3, [2])]. get_pid v < n_partitions demo_lazy \<and> length bs = unat (unit_size demo_lazy)"
    by (simp add: demo_lazy_def get_pid_def)
  ultimately obtain col2 where
    "lz_updates map_cuckoo True \<lparr>dc_data = 0, dc_bytes = []\<rparr> [(3, [1]), (3, [2])] col1 = Inr col2"
    "\<forall>w. lz_getElem map_cuckoo col2 w =
       (case map_of (rev [(3, [1]), (3, [2])]) w of Some bs \<Rightarrow> Inr bs | None \<Rightarrow> lz_getElem map_cuckoo col1 w)"
    using lazy_updates_read_back [OF cuckoo_laws_map_cuckoo run, of "[(3, [1]), (3, [2])]"
        True "\<lparr>dc_data = 0, dc_bytes = []\<rparr>"] by (auto simp: demo_lazy_def chunk_vec_def)
  then show ?thesis using run by auto
qed

text \<open>
  C30. A row of a lazy column that no secondary holds cannot be read: \<^verbatim>\<open>getElem\<close> falls back to the
  access to the primary data that only metadata columns allow, and the process stops. Before
  the first snapshot this is every row.
\<close>
theorem lazy_primary_read_fatal:
  assumes "col_type col \<noteq> META"
    and "\<forall>i < unat (active_snapshot_idx col). unat (get_pid v) < length (secondary col) \<and>
           i < length (secondary col ! unat (get_pid v)) \<and>
           ck_find C (sec_idx (secondary col ! unat (get_pid v) ! i)) v = None"
  shows "lz_getElem C col v = Inl (Fatal ''direct memory reference should be used for meta-column only'')"
proof -
  have "find_secondary C u v (secondary col) k = Inr None" if "k \<le> unat (active_snapshot_idx col)" for u k
    using that
  proof (induction k)
    case (Suc k)
    then have "k < unat (active_snapshot_idx col)" by simp
    from assms(2) [rule_format, OF this] show ?case using Suc by (simp add: at_part_def ck_contains_def)
  qed simp
  then show ?thesis using assms(1) by (simp add: lz_getElem_def lz_getElem_ref_def getElem_ref_def)
qed

theorem lazy_primary_read_fatal_witness:
  "lz_getElem map_cuckoo demo_lazy 3 = Inl (Fatal ''direct memory reference should be used for meta-column only'')"
  by (rule lazy_primary_read_fatal) (simp_all add: demo_lazy_def)

end
