(* ===== verification/ColumnStore.thy ===== *)
theory ColumnStore
  imports RecordList LazyColumn
begin

text \<open>
  Tables stored by column (\<^verbatim>\<open>storage/layout/column-store/column_store.cpp\<close>): a metadata column with
  one index entry per record, one column of any kind per attribute, and the version lists of
  the delta store. The operations here are the ones transactions call.
\<close>

section \<open>Columns of any kind\<close>

datatype 'h AnyColumn = PlainCol Column | CircularCol CircularMasterColumn | LazyCol "'h LazyColumn"

text \<open>The members every column has.\<close>

primrec col_base :: "'h AnyColumn \<Rightarrow> Column" where
  "col_base (PlainCol c) = c"
| "col_base (CircularCol c) = Column.truncate c"
| "col_base (LazyCol c) = Column.truncate c"

text \<open>
  What the columns need from outside: the cuckoo table of the lazy columns, the outcome of their
  lock and the memory they grow into, the number of partitions, and the macro \<^verbatim>\<open>HTAP_ETL\<close>.
\<close>

record 'h col_env =
  ce_table :: "'h sec_table"
  ce_lock :: bool
  ce_mem :: data_chunk
  g_num_partitions :: partition_id_t
  ce_htap_etl :: bool

primrec col_getElem :: "'h col_env \<Rightarrow> 'h AnyColumn \<Rightarrow> rowid_t \<Rightarrow> byte list result" where
  "col_getElem E (PlainCol c) vid = getElem c vid"
| "col_getElem E (CircularCol c) vid = cm_getElem c vid"
| "col_getElem E (LazyCol c) vid = lz_getElem (ce_table E) c vid"

primrec col_updateElem ::
  "'h col_env \<Rightarrow> rowid_t \<Rightarrow> byte list option \<Rightarrow> 'h AnyColumn \<Rightarrow> 'h AnyColumn result" where
  "col_updateElem E vid elem (PlainCol c) = rbind (updateElem vid elem c) (\<lambda>c'. Inr (PlainCol c'))"
| "col_updateElem E vid elem (CircularCol c) = rbind (cm_updateElem vid elem c) (\<lambda>c'. Inr (CircularCol c'))"
| "col_updateElem E vid elem (LazyCol c) =
     rbind (lz_updateElem (ce_table E) (ce_lock E) (ce_mem E) vid elem c) (\<lambda>c'. Inr (LazyCol c'))"

primrec col_insertElem :: "rowid_t \<Rightarrow> byte list option \<Rightarrow> 'h AnyColumn \<Rightarrow> 'h AnyColumn result" where
  "col_insertElem vid elem (PlainCol c) = rbind (insertElem vid elem c) (\<lambda>c'. Inr (PlainCol c'))"
| "col_insertElem vid elem (CircularCol c) = rbind (cm_insertElem vid elem c) (\<lambda>c'. Inr (CircularCol c'))"
| "col_insertElem vid elem (LazyCol c) = rbind (insertElem vid elem c) (\<lambda>c'. Inr (LazyCol c'))"

primrec col_insertElemBatch ::
  "'h col_env \<Rightarrow> rowid_t \<Rightarrow> 16 word \<Rightarrow> byte list \<Rightarrow> 'h AnyColumn \<Rightarrow> 'h AnyColumn result" where
  "col_insertElemBatch E vid n data (PlainCol c) =
     rbind (insertElemBatch (g_num_partitions E) vid n data c) (\<lambda>c'. Inr (PlainCol c'))"
| "col_insertElemBatch E vid n data (CircularCol c) =
     rbind (cm_insertElemBatch (g_num_partitions E) vid n data c) (\<lambda>c'. Inr (CircularCol c'))"
| "col_insertElemBatch E vid n data (LazyCol c) =
     rbind (insertElemBatch (g_num_partitions E) vid n data c) (\<lambda>c'. Inr (LazyCol c'))"

definition unsupported :: "'a result" where
  "unsupported = Inl (RuntimeError ''Unsupported for single-version standard Columns'')"

text \<open>\<open>mems\<close> is the memory for the secondaries of a lazy column.\<close>

primrec col_snapshot ::
  "'h col_env \<Rightarrow> txn_manager \<Rightarrow> data_chunk list \<Rightarrow> rowid_t list \<Rightarrow> xid_t \<Rightarrow> 'h AnyColumn \<Rightarrow> 'h AnyColumn result" where
  "col_snapshot E tm mems nrec epoch (PlainCol c) = unsupported"
| "col_snapshot E tm mems nrec epoch (CircularCol c) =
     rbind (cm_snapshot (g_num_partitions E) tm (ce_htap_etl E) nrec epoch c) (\<lambda>c'. Inr (CircularCol c'))"
| "col_snapshot E tm mems nrec epoch (LazyCol c) =
     rbind (lz_snapshot (ce_table E) mems c) (\<lambda>c'. Inr (LazyCol c'))"

primrec col_ETL :: "'h AnyColumn \<Rightarrow> 'h AnyColumn result" where
  "col_ETL (PlainCol c) = unsupported"
| "col_ETL (CircularCol c) = rbind (cm_ETL c) (\<lambda>c'. Inr (CircularCol c'))"
| "col_ETL (LazyCol c) = unsupported"

primrec col_syncSnapshot :: "master_version_t \<Rightarrow> 'h AnyColumn \<Rightarrow> 'h AnyColumn result" where
  "col_syncSnapshot mv (PlainCol c) = unsupported"
| "col_syncSnapshot mv (CircularCol c) = rbind (cm_syncSnapshot mv c) (\<lambda>c'. Inr (CircularCol c'))"
| "col_syncSnapshot mv (LazyCol c) = unsupported"

primrec col_num_upd_tuples :: "'h col_env \<Rightarrow> master_version_t \<Rightarrow> 'h AnyColumn \<Rightarrow> nat result" where
  "col_num_upd_tuples E mv (PlainCol c) = unsupported"
| "col_num_upd_tuples E mv (CircularCol c) = cm_num_upd_tuples (g_num_partitions E) mv None c"
| "col_num_upd_tuples E mv (LazyCol c) = unsupported"

primrec col_snapshot_get_data ::
  "'h col_env \<Rightarrow> bool \<Rightarrow> bool \<Rightarrow> 'h AnyColumn \<Rightarrow> (data_chunk \<times> rowid_t) list result" where
  "col_snapshot_get_data E olap_local elastic (PlainCol c) = unsupported"
| "col_snapshot_get_data E olap_local elastic (CircularCol c) = cm_snapshot_get_data (ce_htap_etl E) olap_local c"
| "col_snapshot_get_data E olap_local elastic (LazyCol c) = lz_snapshot_get_data elastic c"

primrec col_elastic_partition ::
  "'h col_env \<Rightarrow> nat \<Rightarrow> nat set \<Rightarrow> 'h AnyColumn \<Rightarrow> ((data_chunk \<times> rowid_t) list \<times> nat set) result" where
  "col_elastic_partition E pid bounds (PlainCol c) = unsupported"
| "col_elastic_partition E pid bounds (CircularCol c) =
     cm_elastic_partition (ce_htap_etl E) (g_num_partitions E) pid bounds c"
| "col_elastic_partition E pid bounds (LazyCol c) = unsupported"

text \<open>\<^verbatim>\<open>getSnapshotArena(pid)[0]->getMetadata()\<close> and the same for the analytical copy.\<close>

primrec col_snapshot_arena :: "nat \<Rightarrow> 'h AnyColumn \<Rightarrow> metadata result" where
  "col_snapshot_arena pid (PlainCol c) = unsupported"
| "col_snapshot_arena pid (CircularCol c) = at_idx (snapshot_arenas c) pid"
| "col_snapshot_arena pid (LazyCol c) =
     rbind (at_idx (lz_snapshot_arenas c) pid) (\<lambda>arenas. at_idx arenas 0)"

primrec col_etl_arena :: "nat \<Rightarrow> 'h AnyColumn \<Rightarrow> metadata result" where
  "col_etl_arena pid (PlainCol c) = unsupported"
| "col_etl_arena pid (CircularCol c) = at_idx (etl_arenas c) pid"
| "col_etl_arena pid (LazyCol c) = unsupported"

section \<open>Table definitions\<close>

record ColumnDef =
  cd_name :: string
  cd_type :: data_type
  cd_width :: size_t
  cd_snapshot :: SnapshotTypes
  cd_dict :: "(64 word \<times> string) list option"

datatype ProteusType =
  IntType | Int64Type | FloatType | DateType | BoolType | DStringType "(64 word \<times> string) list"

text \<open>The type of an attribute in the catalog of the query engine.\<close>

definition getProteusType :: "ColumnDef \<Rightarrow> ProteusType result" where
  "getProteusType col =
     (case cd_type col of
        INTEGER \<Rightarrow>
          if cd_width col = 4 then Inr IntType
          else if cd_width col = 8 then Inr Int64Type
          else Inl (RuntimeError ''Unknown integer type'')
      | FLOAT \<Rightarrow> if cd_width col = 8 then Inr FloatType else Inl (RuntimeError ''Unknown float type'')
      | VARCHAR \<Rightarrow> Inr (DStringType [])
      | STRING \<Rightarrow> Inr (DStringType [])
      | DSTRING \<Rightarrow> (case cd_dict col of None \<Rightarrow> Inl (RuntimeError ''type DSTRING with no dictionary'') | Some d \<Rightarrow> Inr (DStringType d))
      | DATE \<Rightarrow> if cd_width col = 8 then Inr DateType else Inl (RuntimeError ''Unknown date type'')
      | MV \<Rightarrow> Inl (RuntimeError ''Illegal  type'')
      | META \<Rightarrow> Inl (RuntimeError ''Illegal  type''))"

text \<open>
  The constructor of \<^verbatim>\<open>Table\<close>: the counters start at 0, and the attributes that it registers in
  the catalog are every column followed by its bitmask.
\<close>

definition table_attributes :: "ColumnDef list \<Rightarrow> (string \<times> ProteusType) list result" where
  "table_attributes defs =
     rbind (rmap (\<lambda>c. rbind (getProteusType c) (\<lambda>t.
              Inr [(cd_name c, t), (cd_name c @ ''_bitmask'', BoolType)])) defs)
       (\<lambda>ass. Inr (concat ass))"

definition mk_Table ::
  "table_id_t \<Rightarrow> string \<Rightarrow> ColumnDef list \<Rightarrow> (Table \<times> (string \<times> ProteusType) list) result" where
  "mk_Table tid name defs =
     rbind (table_attributes defs) (\<lambda>attrs.
       Inr (\<lparr>tbl_name = name, table_id = tid, vid_part = replicate MAX_PARTITIONS 0, total_memory_reserved = 0,
             record_capacity = 0, tbl_n_partitions = 0, n_columns = 0, indexed = False,
             column_size_offset_pairs = [], record_size = 0, column_size_offsets = [], column_size = []\<rparr>, attrs))"

section \<open>The table\<close>

text \<open>
  The index entries live in the memory of the metadata column; \<open>meta_slots\<close> has them as values,
  per partition, and a pointer to one is the pair of its partition and its number.
\<close>

type_synonym meta_ptr = "nat \<times> nat"

record 'h ColumnStore = Table +
  metaColumn :: Column
  meta_slots :: "IndexVal list list"
  columns :: "'h AnyColumn list"
  nParts :: nat
  elastic_mappings :: "(data_chunk \<times> rowid_t) list list"
  elastic_offsets :: "nat set"

text \<open>The memory a column gets: its partitions, or one list per master, and the analytical copy.\<close>

record col_mems =
  cm_plain :: "data_chunk list"
  cm_masters :: "data_chunk list list"
  cm_etl :: "data_chunk list"

definition mk_AnyColumn ::
  "'h col_env \<Rightarrow> nat \<Rightarrow> col_mems \<Rightarrow> column_id_t \<Rightarrow> size_t \<Rightarrow> bool \<Rightarrow> size_t \<Rightarrow> ColumnDef \<Rightarrow> 'h AnyColumn result" where
  "mk_AnyColumn E numa_nodes mems cid offset numa_partitioned reserved t =
     (case cd_snapshot t of
        NoSnapshot \<Rightarrow>
          rbind (mk_Column (g_num_partitions E) numa_nodes (cm_plain mems) cid (cd_name t) (cd_type t) (cd_width t)
                   offset numa_partitioned reserved NoSnapshot) (\<lambda>c. Inr (PlainCol c))
      | CircularMaster \<Rightarrow>
          rbind (mk_CircularMasterColumn (ce_htap_etl E) (g_num_partitions E) (cm_masters mems) (cm_etl mems) cid
                   (cd_name t) (cd_type t) (cd_width t) offset numa_partitioned reserved) (\<lambda>c. Inr (CircularCol c))
      | LazyMaster \<Rightarrow>
          rbind (mk_LazyColumn (g_num_partitions E) numa_nodes (cm_plain mems) cid (cd_name t) (cd_type t) (cd_width t)
                   offset numa_partitioned reserved) (\<lambda>c. Inr (LazyCol c))
      | MVCC \<Rightarrow> Inl (RuntimeError ''Unknown snapshotting mechanism in ColumnDef''))"

text \<open>The loop over the column definitions. Sizes and offsets are stored as 16-bit numbers.\<close>

fun add_columns ::
  "'h col_env \<Rightarrow> nat \<Rightarrow> bool \<Rightarrow> size_t \<Rightarrow> column_id_t \<Rightarrow> size_t \<Rightarrow> (ColumnDef \<times> col_mems) list
     \<Rightarrow> 'h ColumnStore \<Rightarrow> (size_t \<times> 'h ColumnStore) result" where
  "add_columns E nodes numa reserved cid off [] ct = Inr (off, ct)"
| "add_columns E nodes numa reserved cid off ((t, mems) # ts) ct =
     rbind (mk_AnyColumn E nodes mems cid off numa reserved t) (\<lambda>col.
       add_columns E nodes numa reserved (cid + 1) (off + cd_width t) ts
         (ct\<lparr>columns := columns ct @ [col],
             column_size := column_size ct @ [ucast (cd_width t)],
             column_size_offsets := column_size_offsets ct @ [ucast off],
             column_size_offset_pairs := column_size_offset_pairs ct @ [(ucast (cd_width t), ucast off)]\<rparr>))"

text \<open>\<^verbatim>\<open>initializeMetaColumn\<close>: an entry for every place, with its row identifier.\<close>

definition initializeMetaColumn :: "Column \<Rightarrow> IndexVal list list result" where
  "initializeMetaColumn col =
     rbind (rassert (col_type col = META) ''type == META'') (\<lambda>_.
     rbind (rassert (single_version_only col) ''single_version_only'') (\<lambda>_.
     rmap (\<lambda>j. rbind (at_idx (primaryData col) j) (\<lambda>chunks.
                rbind (rmap (\<lambda>c. rbind (rassert (dc_size c mod unit_size col = 0) ''chunk.size % unit_size == 0'') (\<lambda>_.
                         Inr (map (\<lambda>i. mk_IndexVal 0 (create_vid2 (of_nat i) (of_nat j)))
                                [0..<unat (dc_size c div unit_size col)]))) chunks)
                  (\<lambda>slots. Inr (concat slots)))) [0..<unat (n_partitions col)]))"

definition mk_ColumnStore ::
  "'h col_env \<Rightarrow> nat \<Rightarrow> size_t \<Rightarrow> data_chunk list \<Rightarrow> table_id_t \<Rightarrow> string \<Rightarrow> (ColumnDef \<times> col_mems) list
     \<Rightarrow> bool \<Rightarrow> bool \<Rightarrow> size_t \<Rightarrow> 'h ColumnStore result" where
  "mk_ColumnStore E numa_nodes sizeof_IndexVal meta_mems tid name defs is_indexed numa_partitioned reserved =
     rbind (mk_Table tid name (map fst defs)) (\<lambda>(tbl, _).
     rbind (rassert (unat (g_num_partitions E) \<le> numa_nodes) ''g_num_partitions <= CpuNumaNodeCount'') (\<lambda>_.
     rbind (mk_Column (g_num_partitions E) numa_nodes meta_mems 0 (name @ ''_meta'') META sizeof_IndexVal 0
              numa_partitioned reserved NoSnapshot) (\<lambda>meta.
     rbind (initializeMetaColumn meta) (\<lambda>slots.
     let ct0 = Table.extend (tbl\<lparr>indexed := is_indexed, n_columns := of_nat (length defs),
                                 tbl_n_partitions := (if numa_partitioned then g_num_partitions E else 1)\<rparr>)
                 \<lparr>metaColumn = meta, meta_slots = slots, columns = [], nParts = 0, elastic_mappings = [], elastic_offsets = {}\<rparr>
     in rbind (add_columns E numa_nodes numa_partitioned reserved 0 0 defs ct0) (\<lambda>(rec_size, ct).
        Inr (ct\<lparr>record_size := rec_size, record_capacity := reserved,
                total_memory_reserved :=
                  sum_list (map (\<lambda>c. total_size (col_base c)) (columns ct)) +
                  (if is_indexed then total_size meta else 0)\<rparr>))))))"

section \<open>Index entries\<close>

definition meta_slot :: "nat \<Rightarrow> nat \<Rightarrow> 'h ColumnStore \<Rightarrow> IndexVal result" where
  "meta_slot p i ct = rbind (at_idx (meta_slots ct) p) (\<lambda>slots. at_idx slots i)"

definition set_slot :: "nat \<Rightarrow> nat \<Rightarrow> IndexVal \<Rightarrow> 'h ColumnStore \<Rightarrow> 'h ColumnStore" where
  "set_slot p i iv ct = ct\<lparr>meta_slots := (meta_slots ct)[p := (meta_slots ct ! p)[i := iv]]\<rparr>"

text \<open>\<^verbatim>\<open>metaColumn->getElem(vid)\<close>: the address, as a pointer to an entry.\<close>

definition meta_getElem :: "rowid_t \<Rightarrow> 'h ColumnStore \<Rightarrow> meta_ptr result" where
  "meta_getElem vid ct =
     rbind (getElem_ref (metaColumn ct) vid) (\<lambda>(_, off).
       Inr (unat (get_pid vid), unat (off div unit_size (metaColumn ct))))"

section \<open>Inserting\<close>

text \<open>The assignments to the entry of a new record.\<close>

definition init_slot :: "xid_t \<Rightarrow> rowid_t \<Rightarrow> nat \<Rightarrow> nat \<Rightarrow> 'h ColumnStore \<Rightarrow> 'h ColumnStore result" where
  "init_slot xid vid p i ct =
     rbind (meta_slot p i ct) (\<lambda>iv.
       Inr (set_slot p i (iv\<lparr>iv_t_min := ts_t_min xid, iv_deleted := False, VID := vid\<rparr>) ct))"

definition insertRecord ::
  "byte list \<Rightarrow> xid_t \<Rightarrow> partition_id_t \<Rightarrow> master_version_t \<Rightarrow> 'h ColumnStore
     \<Rightarrow> (meta_ptr option \<times> 'h ColumnStore) result" where
  "insertRecord data xid pid0 master_ver ct =
     (let pid = pid0 mod tbl_n_partitions ct
      in rbind (at_idx (vid_part ct) (unat pid)) (\<lambda>idx.
         let ct1 = ct\<lparr>vid_part := (vid_part ct)[unat pid := idx + 1]\<rparr>;
             curr_vid = create_vid idx pid master_ver
         in rbind (if indexed ct1
                   then rbind (meta_getElem (create_vid idx pid 0) ct1) (\<lambda>(p, i).
                        rbind (init_slot xid curr_vid p i ct1) (\<lambda>ct2. Inr (Some (p, i), ct2)))
                   else Inr (None, ct1)) (\<lambda>(ptr, ct2).
            rbind (rmap (\<lambda>col. col_insertElem curr_vid
                       (Some (drop (unat (byteOffset_record (col_base col))) data)) col) (columns ct2)) (\<lambda>cols.
            Inr (ptr, ct2\<lparr>columns := cols\<rparr>)))))"

definition insertRecordBatch ::
  "'h col_env \<Rightarrow> byte list \<Rightarrow> size_t \<Rightarrow> size_t \<Rightarrow> xid_t \<Rightarrow> partition_id_t \<Rightarrow> master_version_t \<Rightarrow> 'h ColumnStore
     \<Rightarrow> (meta_ptr option \<times> 'h ColumnStore) result" where
  "insertRecordBatch E data num_records max_capacity xid pid0 master_ver ct =
     (let pid = pid0 mod tbl_n_partitions ct
      in rbind (at_idx (vid_part ct) (unat pid)) (\<lambda>idx_st.
         let ct1 = ct\<lparr>vid_part := (vid_part ct)[unat pid := idx_st + num_records]\<rparr>;
             st_vid = create_vid idx_st pid master_ver; st_vid_meta = create_vid idx_st pid 0;
             stride = (if max_capacity = 0 then num_records else max_capacity)
         in rbind (if indexed ct1
                   then rbind (insertElemBatch_ref (g_num_partitions E) (metaColumn ct1) st_vid_meta (ucast num_records))
                          (\<lambda>(_, off).
                          let p = unat (get_pid st_vid_meta); i0 = unat (off div unit_size (metaColumn ct1))
                          in rbind (rfold (\<lambda>i. init_slot xid (create_vid (idx_st + of_nat i) pid master_ver) p (i0 + i))
                                      [0..<unat num_records] ct1) (\<lambda>ct2. Inr (Some (p, i0), ct2)))
                   else Inr (None, ct1)) (\<lambda>(ptr, ct2).
            rbind (rmap (\<lambda>col. col_insertElemBatch E st_vid (ucast num_records)
                       (drop (unat (byteOffset_record (col_base col) * stride)) data) col) (columns ct2)) (\<lambda>cols.
            Inr (ptr, ct2\<lparr>columns := cols\<rparr>)))))"

section \<open>Reading\<close>

text \<open>
  The two version lists that work, of which the code is compiled with the first. \<open>mv_env\<close> has what
  they need: the delta stores by number, whether stores are consolidated, the number of stores,
  the fuel for walks along chains and the address of the virtual table of the version class.
\<close>

datatype mv_kind = RecordList_Full | RecordList_Partial

record 's mv_env =
  mv_kind :: mv_kind
  mv_store :: "nat \<Rightarrow> 's delta_store"
  mv_consolidation :: bool
  mv_num_stores :: nat
  mv_fuel :: nat
  mv_vtable :: uintptr

text \<open>The attributes a transaction asks for; none stands for all. \<^verbatim>\<open>columns.at\<close> checks the index.\<close>

definition at_checked :: "'a list \<Rightarrow> nat \<Rightarrow> 'a result" where
  "at_checked xs i = (if i < length xs then Inr (xs ! i) else Inl OutOfRange)"

definition read_columns :: "'h col_env \<Rightarrow> nat list \<Rightarrow> rowid_t \<Rightarrow> 'h ColumnStore \<Rightarrow> byte list result" where
  "read_columns E col_idx vid ct =
     rbind (if col_idx = [] then rmap (\<lambda>col. col_getElem E col vid) (columns ct)
            else rmap (\<lambda>c. rbind (at_checked (columns ct) c) (\<lambda>col. col_getElem E col vid)) col_idx)
       (\<lambda>bss. Inr (concat bss))"

text \<open>
  The attributes that the versions of a partial list did not supply. With a list of attributes
  the code uses the position in that list as the column.
\<close>

fun rest_all :: "'h col_env \<Rightarrow> 64 word \<Rightarrow> rowid_t \<Rightarrow> 'h ColumnStore \<Rightarrow> nat list \<Rightarrow> byte list \<Rightarrow> byte list result" where
  "rest_all E done_mask vid ct [] dest = Inr dest"
| "rest_all E done_mask vid ct (i # is) dest =
     rbind (if bit done_mask i then Inr dest
            else rbind (at_idx (columns ct) i) (\<lambda>col.
                 rbind (col_getElem E col vid) (\<lambda>bs.
                 rbind (at_idx (column_size_offsets ct) i) (\<lambda>off. write_buffer (unat off) bs dest))))
       (rest_all E done_mask vid ct is)"

fun rest_some ::
  "'h col_env \<Rightarrow> 64 word \<Rightarrow> rowid_t \<Rightarrow> 'h ColumnStore \<Rightarrow> nat \<Rightarrow> nat \<Rightarrow> nat list \<Rightarrow> byte list \<Rightarrow> byte list result" where
  "rest_some E done_mask vid ct i write_offset [] dest = Inr dest"
| "rest_some E done_mask vid ct i write_offset (c # cs) dest =
     rbind (at_idx (column_size ct) c) (\<lambda>w.
     let write_offset' = write_offset + unat w
     in rbind (if bit done_mask i then Inr dest
               else rbind (at_idx (columns ct) i) (\<lambda>col.
                    rbind (col_getElem E col vid) (\<lambda>bs. write_buffer write_offset' bs dest)))
          (rest_some E done_mask vid ct (Suc i) write_offset' cs))"

text \<open>\<open>dest\<close> is the buffer of the caller.\<close>

definition getIndexedRecord ::
  "'h col_env \<Rightarrow> 's mv_env \<Rightarrow> nat \<Rightarrow> TxnTs \<Rightarrow> IndexVal \<Rightarrow> nat list \<Rightarrow> byte list \<Rightarrow> 'h ColumnStore \<Rightarrow> memory \<Rightarrow> 's
     \<Rightarrow> byte list result" where
  "getIndexedRecord E V d ts iv col_idx dest ct m s =
     (if is_readable (iv_t_min iv) ts
      then if iv_deleted iv then Inl (RuntimeError ''Record does not exists'')
           else rbind (read_columns E col_idx (VID iv) ct) (\<lambda>bs. write_buffer 0 bs dest)
      else (case mv_kind V of
              RecordList_Full \<Rightarrow>
                rbind (full_get_readable_version (mv_store V d) (mv_consolidation V) (mv_fuel V) (mv_num_stores V) ct
                         iv ts col_idx m s) (\<lambda>bs. write_buffer 0 bs dest)
            | RecordList_Partial \<Rightarrow>
                rbind (partial_get_readable_version (mv_store V d) (mv_fuel V) ct iv ts col_idx dest m s)
                  (\<lambda>(done_mask, dest').
                  if done_mask = - 1 then Inr dest'
                  else if col_idx = [] then rest_all E done_mask (VID iv) ct [0..<unat (n_columns ct)] dest'
                  else rest_some E done_mask (VID iv) ct 0 0 col_idx dest')))"

definition getRecord ::
  "'h col_env \<Rightarrow> 's mv_env \<Rightarrow> nat \<Rightarrow> TxnTs \<Rightarrow> rowid_t \<Rightarrow> nat list \<Rightarrow> byte list \<Rightarrow> 'h ColumnStore \<Rightarrow> memory \<Rightarrow> 's
     \<Rightarrow> byte list result" where
  "getRecord E V d ts rowid col_idx dest ct m s =
     rbind (meta_getElem rowid ct) (\<lambda>(p, i).
     rbind (meta_slot p i ct) (\<lambda>iv. getIndexedRecord E V d ts iv col_idx dest ct m s))"

section \<open>Updating and deleting\<close>

definition create_versions ::
  "'s mv_env \<Rightarrow> 's delta_store \<Rightarrow> partition_id_t \<Rightarrow> nat list \<Rightarrow> 'h ColumnStore \<Rightarrow> IndexVal \<Rightarrow> memory \<Rightarrow> 's
     \<Rightarrow> (uintptr \<times> IndexVal \<times> memory \<times> 's) result" where
  "create_versions V D pid col_idx ct iv m s =
     (case mv_kind V of
        RecordList_Full \<Rightarrow> full_create_versions D (mv_consolidation V) (mv_vtable V) pid ct iv m s
      | RecordList_Partial \<Rightarrow> partial_create_versions D (mv_consolidation V) (mv_vtable V) pid ct iv col_idx m s)"

text \<open>The version is created, but the record is not copied to it.\<close>

definition deleteRecord ::
  "'s mv_env \<Rightarrow> Txn \<Rightarrow> meta_ptr \<Rightarrow> 'h ColumnStore \<Rightarrow> memory \<Rightarrow> 's \<Rightarrow> ('h ColumnStore \<times> memory \<times> 's) result" where
  "deleteRecord V txn ptr ct m s =
     rbind (meta_slot (fst ptr) (snd ptr) ct) (\<lambda>iv.
     rbind (create_versions V (mv_store V (unat (delta_version txn))) (partition_id txn) [] ct iv m s)
       (\<lambda>(ver, iv1, m1, s1).
       Inr (set_slot (fst ptr) (snd ptr)
              (iv1\<lparr>iv_t_min := ts_t_min (txn_start_time (txnTs txn)), iv_deleted := True\<rparr>) ct, m1, s1)))"

text \<open>Copying the whole record, or the attributes that change, to the data of the version.\<close>

definition copy_to_version ::
  "'h col_env \<Rightarrow> rowid_t \<Rightarrow> uintptr \<Rightarrow> 'h AnyColumn list \<Rightarrow> memory \<Rightarrow> memory result" where
  "copy_to_version E vid data =
     rfold (\<lambda>col m. rbind (col_getElem E col vid) (\<lambda>bs.
              Inr (store_bytes (data + byteOffset_record (col_base col)) bs m)))"

text \<open>
  The loop that updates the columns in turn; \<open>cursor\<close> is the position in the data of the caller,
  which is null for the YCSB benchmark.
\<close>

fun update_columns ::
  "'h col_env \<Rightarrow> rowid_t \<Rightarrow> nat list \<Rightarrow> byte list option \<Rightarrow> 'h AnyColumn list \<Rightarrow> 'h AnyColumn list result" where
  "update_columns E vid [] data cols = Inr cols"
| "update_columns E vid (c # cs) data cols =
     rbind (at_idx cols c) (\<lambda>col.
     rbind (col_updateElem E vid data col) (\<lambda>col'.
     update_columns E vid cs (map_option (drop (unat (unit_size (col_base col)))) data) (cols[c := col'])))"

fun update_partial ::
  "'h col_env \<Rightarrow> rowid_t \<Rightarrow> rowid_t \<Rightarrow> nat list \<Rightarrow> byte list option \<Rightarrow> uintptr \<Rightarrow> 'h AnyColumn list \<Rightarrow> memory
     \<Rightarrow> ('h AnyColumn list \<times> memory) result" where
  "update_partial E old_vid vid [] data ver_data cols m = Inr (cols, m)"
| "update_partial E old_vid vid (c # cs) data ver_data cols m =
     rbind (at_checked cols c) (\<lambda>col.
     rbind (col_getElem E col old_vid) (\<lambda>bs.
     rbind (col_updateElem E vid data col) (\<lambda>col'.
     let w = unit_size (col_base col)
     in update_partial E old_vid vid cs (map_option (drop (unat w)) data) (ver_data + w) (cols[c := col'])
          (store_bytes ver_data bs m))))"

text \<open>\<open>n_masters\<close> is \<^verbatim>\<open>num_master_versions\<close>; an empty list of columns stands for all of them.\<close>

definition updateRecord ::
  "'h col_env \<Rightarrow> 's mv_env \<Rightarrow> nat \<Rightarrow> Txn \<Rightarrow> meta_ptr \<Rightarrow> byte list option \<Rightarrow> nat list \<Rightarrow> 'h ColumnStore \<Rightarrow> memory \<Rightarrow> 's
     \<Rightarrow> ('h ColumnStore \<times> memory \<times> 's) result" where
  "updateRecord E V n_masters txn ptr data col_idx ct m s =
     (let D = mv_store V (unat (delta_version txn))
      in rbind (meta_slot (fst ptr) (snd ptr) ct) (\<lambda>iv.
         let old_vid = VID iv;
             iv1 = (if n_masters > 1 then iv\<lparr>VID := update_mVer (VID iv) (master_version txn)\<rparr> else iv)
         in rbind (create_versions V D (partition_id txn) col_idx ct iv1 m s) (\<lambda>(ver, iv2, m1, s1).
            rbind (po_isValid (st_ops D s1) (delta_list iv2)) (\<lambda>valid.
            rbind (rassert valid ''index_ptr->delta_list.isValid()'') (\<lambda>_.
            let cols_to_update = (if col_idx = [] then [0..<length (columns ct)] else col_idx);
                version_data = load64 m1 (ver + off_data)
            in rbind (rassert (version_data \<noteq> 0) ''version_data_ptr != nullptr'') (\<lambda>_.
               rbind (case mv_kind V of
                        RecordList_Full \<Rightarrow>
                          if load64 m1 (ver + off_size) < record_size ct then Inl (Fatal ''ver-size'')
                          else rbind (copy_to_version E old_vid version_data (columns ct) m1) (\<lambda>m2.
                               rbind (update_columns E (VID iv2) cols_to_update data (columns ct)) (\<lambda>cols.
                               Inr (cols, m2)))
                      | RecordList_Partial \<Rightarrow>
                          update_partial E old_vid (VID iv2) cols_to_update data version_data (columns ct) m1)
                 (\<lambda>(cols, m2).
                 Inr (set_slot (fst ptr) (snd ptr) (iv2\<lparr>iv_t_min := ts_t_min (txn_start_time (txnTs txn))\<rparr>)
                        (ct\<lparr>columns := cols\<rparr>), m2, s1))))))))"

section \<open>Collecting versions\<close>

text \<open>The rows of the set in increasing order.\<close>

definition table_steamGC ::
  "'s delta_store \<Rightarrow> nat \<Rightarrow> rowid_t list \<Rightarrow> TxnTs \<Rightarrow> 'h ColumnStore \<times> memory \<times> 's \<Rightarrow> ('h ColumnStore \<times> memory \<times> 's) result" where
  "table_steamGC D fuel rows globalMin =
     rfold (\<lambda>vid (ct, m, s).
       rbind (meta_getElem vid ct) (\<lambda>(p, i).
       rbind (meta_slot p i ct) (\<lambda>iv.
       rbind (chain_steamGC D VersionSingle_off_next fuel globalMin iv m s) (\<lambda>(iv', m', s').
       Inr (set_slot p i iv' ct, m', s'))))) rows"

section \<open>Snapshots of a table\<close>

definition table_num_upd_tuples :: "'h col_env \<Rightarrow> nat \<Rightarrow> 'h ColumnStore \<Rightarrow> nat list result" where
  "table_num_upd_tuples E n_masters ct =
     rbind (rmap (\<lambda>i. rmap (col_num_upd_tuples E (of_nat i)) (columns ct)) [0..<n_masters]) (\<lambda>nss. Inr (concat nss))"

definition table_ETL :: "'h ColumnStore \<Rightarrow> 'h ColumnStore result" where
  "table_ETL ct = rbind (rmap col_ETL (columns ct)) (\<lambda>cols. Inr (ct\<lparr>columns := cols\<rparr>))"

text \<open>The record counts of the partitions at the time of the snapshot.\<close>

definition partition_counts :: "'h col_env \<Rightarrow> 'h ColumnStore \<Rightarrow> rowid_t list result" where
  "partition_counts E ct = rmap (at_idx (vid_part ct)) [0..<unat (g_num_partitions E)]"

definition table_snapshot ::
  "'h col_env \<Rightarrow> txn_manager \<Rightarrow> data_chunk list list \<Rightarrow> xid_t \<Rightarrow> 'h ColumnStore \<Rightarrow> 'h ColumnStore result" where
  "table_snapshot E tm mems epoch ct =
     rbind (partition_counts E ct) (\<lambda>nrec.
     rbind (rmap (\<lambda>k. rbind (at_idx mems k) (\<lambda>ms. col_snapshot E tm ms nrec epoch (columns ct ! k)))
              [0..<length (columns ct)]) (\<lambda>cols. Inr (ct\<lparr>columns := cols\<rparr>)))"

definition table_snapshot_column ::
  "'h col_env \<Rightarrow> txn_manager \<Rightarrow> data_chunk list \<Rightarrow> xid_t \<Rightarrow> column_id_t \<Rightarrow> 'h ColumnStore \<Rightarrow> 'h ColumnStore result" where
  "table_snapshot_column E tm mems epoch columnId ct =
     rbind (partition_counts E ct) (\<lambda>nrec.
     rbind (at_idx (columns ct) (unat columnId)) (\<lambda>col.
     rbind (col_snapshot E tm mems nrec epoch col) (\<lambda>col'.
     Inr (ct\<lparr>columns := (columns ct)[unat columnId := col']\<rparr>))))"

definition twinColumn_syncMasters :: "nat \<Rightarrow> master_version_t \<Rightarrow> 'h ColumnStore \<Rightarrow> 'h ColumnStore result" where
  "twinColumn_syncMasters n_masters master_idx ct =
     rbind (rassert (n_masters > 1) ''num_master_versions > 1'') (\<lambda>_.
     rbind (rmap (\<lambda>col. if snapshotType (col_base col) = CircularMaster \<and> col_type (col_base col) \<notin> {STRING, VARCHAR}
                        then col_syncSnapshot master_idx col else Inr col) (columns ct)) (\<lambda>cols.
     Inr (ct\<lparr>columns := cols\<rparr>)))"

section \<open>What the query engine reads\<close>

definition snapshot_get_number_tuples ::
  "'h col_env \<Rightarrow> bool \<Rightarrow> bool \<Rightarrow> 'h ColumnStore \<Rightarrow> rowid_t list result" where
  "snapshot_get_number_tuples E olap_snapshot elastic_scan ct =
     rbind (at_idx (columns ct) 0) (\<lambda>col0.
     if elastic_scan
     then rbind (rassert (g_num_partitions E = 1) ''g_num_partitions == 1'') (\<lambda>_.
          rbind (col_snapshot_arena 0 col0) (\<lambda>meta.
          let offs = map of_nat (sorted_list_of_set (elastic_offsets ct)); n = length offs
          in if n < nParts ct
             then Inr (offs @ [numOfRecords meta - sum_list offs] @ replicate (nParts ct - n - 1) 0)
             else Inl BadAccess))
     else rmap (\<lambda>i. rbind (if olap_snapshot then col_etl_arena i col0 else col_snapshot_arena i col0)
                      (\<lambda>meta. Inr (numOfRecords meta))) [0..<unat (n_partitions (col_base col0))])"

text \<open>The columns with the wanted names, in the order of the names.\<close>

fun elastic_scan_maps ::
  "'h col_env \<Rightarrow> 'h AnyColumn list \<Rightarrow> (data_chunk \<times> rowid_t) list list \<Rightarrow> nat set
     \<Rightarrow> ((data_chunk \<times> rowid_t) list list \<times> nat set) result" where
  "elastic_scan_maps E [] maps bounds = Inr (maps, bounds)"
| "elastic_scan_maps E (c # cs) maps bounds =
     rbind (col_elastic_partition E 0 bounds c) (\<lambda>(parts, bounds'). elastic_scan_maps E cs (maps @ [parts]) bounds')"

definition named_columns :: "string \<Rightarrow> 'h AnyColumn list \<Rightarrow> 'h AnyColumn list" where
  "named_columns name = filter (\<lambda>c. col_name (col_base c) = name)"

definition elastic_pieces ::
  "nat \<Rightarrow> rowid_t \<Rightarrow> size_t \<Rightarrow> nat set \<Rightarrow> (data_chunk \<times> rowid_t) list \<Rightarrow> (data_chunk \<times> rowid_t) list result" where
  "elastic_pieces num_to_return totalNumRecords usize offsets getit =
     rbind (at_idx getit 0) (\<lambda>first.
     if offsets = {}
     then Inr ((fst first, totalNumRecords) # replicate (num_to_return - 1) (fst first, 0))
     else if length getit = card offsets + 1
     then Inr (map (\<lambda>i. if i < length getit then getit ! i else (fst first, 0)) [0..<num_to_return])
     else rbind (rassert (usize \<noteq> 0) ''unit_size != 0'') (\<lambda>_.
          rbind (rmap (\<lambda>ofs.
                   let fits = filter (\<lambda>sy. dc_data (fst sy) + of_nat ofs * usize \<le> dc_data (fst sy) + dc_size (fst sy)) getit
                   in rbind (rassert (fits \<noteq> []) ''added == true'') (\<lambda>_. Inr (map (\<lambda>sy. (fst sy, of_nat ofs)) fits)))
                  (sorted_list_of_set offsets)) (\<lambda>pieces.
          let ret = concat pieces in Inr (ret @ replicate (num_to_return - (length ret - 1)) (fst first, 0)))))"

definition snapshot_get_data ::
  "'h col_env \<Rightarrow> nat \<Rightarrow> string list \<Rightarrow> bool \<Rightarrow> bool \<Rightarrow> 'h ColumnStore
     \<Rightarrow> ((data_chunk \<times> rowid_t) list \<times> 'h ColumnStore) result" where
  "snapshot_get_data E scan_idx wanted olap_local elastic_scan ct =
     (if elastic_scan
      then rbind (rassert (g_num_partitions E = 1) ''g_num_partitions == 1'') (\<lambda>_.
           rbind (at_idx (columns ct) 0) (\<lambda>col0.
           rbind (col_snapshot_arena 0 col0) (\<lambda>meta.
           rbind (if scan_idx = 0
                  then elastic_scan_maps E (concat (map (\<lambda>w. named_columns w (columns ct)) wanted)) [] {}
                  else Inr (elastic_mappings ct, elastic_offsets ct)) (\<lambda>(maps, offsets).
           let ct1 = ct\<lparr>nParts := length wanted * length wanted, elastic_mappings := maps, elastic_offsets := offsets\<rparr>
           in rbind (rassert (scan_idx < length maps) ''elastic_mappings.size() > scan_idx'') (\<lambda>_.
              let cols = concat (map (\<lambda>w. named_columns w (columns ct)) wanted);
                  usize = (if cols = [] then 0 else unit_size (col_base (last cols)))
              in rbind (elastic_pieces (length wanted) (numOfRecords meta) usize offsets (maps ! scan_idx)) (\<lambda>ret.
                 rbind (rassert (length ret = length wanted) ''ret.size() == num_to_return'') (\<lambda>_.
                 Inr (ret, ct1))))))))
      else rbind (at_idx wanted scan_idx) (\<lambda>attr.
           let bitmask = (\<exists>i \<le> length attr. take 8 (drop i attr) = ''_bitmask'');
               name = (if bitmask then take (length attr - 8) attr else attr)
           in case named_columns name (columns ct) of
                [] \<Rightarrow> Inl (Assertion ''Snapshot -- Unknown Column.'')
              | c # _ \<Rightarrow> rbind (col_snapshot_get_data E olap_local bitmask c) (\<lambda>ret. Inr (ret, ct))))"

end
