(* ===== verification/SnapshotIsolation.thy ===== *)
theory SnapshotIsolation
  imports ColumnStore
begin

text \<open>
  What transactions read from a table. A row has a history, newest first: the record in the
  columns with the timestamp of the index entry, then the versions of its chain. Reading gives
  the newest record of the history that the transaction may see, and updating a row puts a
  new record in front of its history and leaves the histories of the other rows alone.
\<close>

section \<open>The column contract for plain and circular master columns\<close>

text \<open>
  Lazy columns are not covered: a row of theirs that no secondary holds cannot be read, so they break
  the contract. No lazy column satisfies \<open>any_inv\<close>, and a table that satisfies \<open>table_ok\<close> has none.
\<close>

primrec any_inv :: "'h AnyColumn \<Rightarrow> bool" where
  "any_inv (PlainCol c) = col_inv c"
| "any_inv (CircularCol c) = cm_inv c"
| "any_inv (LazyCol c) = False"

primrec any_valid :: "'h AnyColumn \<Rightarrow> rowid_t \<Rightarrow> bool" where
  "any_valid (PlainCol c) v = row_ok c v"
| "any_valid (CircularCol c) v = cm_row_ok c v"
| "any_valid (LazyCol c) v = False"

primrec any_same :: "'h AnyColumn \<Rightarrow> rowid_t \<Rightarrow> rowid_t \<Rightarrow> bool" where
  "any_same (PlainCol c) = same_row"
| "any_same (CircularCol c) = same_master_row"
| "any_same (LazyCol c) = (=)"

definition any_width :: "'h AnyColumn \<Rightarrow> nat" where
  "any_width col = unat (unit_size (col_base col))"

lemma any_width_simps [simp]:
  "any_width (PlainCol c) = unat (unit_size c)" "any_width (CircularCol c') = unat (unit_size c')"
  by (simp_all add: any_width_def Column.defs)

interpretation anycol: column_store_law any_inv any_width any_valid "col_getElem E" "col_updateElem E" any_same
proof (unfold_locales, goal_cases)
  case (1 c v)
  then show ?case using plain.get_ok circular.get_ok by (cases c) auto
next
  case (2 c v bs)
  show ?case
  proof (cases c)
    case (PlainCol x)
    from 2 PlainCol plain.put_ok [of x v bs] obtain x' where x': "updateElem v (Some bs) x = Inr x'" "col_inv x'"
      "unat (unit_size x') = unat (unit_size x)" "\<forall>w. row_ok x' w = row_ok x w"
      "\<forall>w. row_ok x w \<longrightarrow> getElem x' w = (if same_row v w then Inr bs else getElem x w)" by auto
    then show ?thesis by (intro exI [of _ "PlainCol x'"]) (simp add: PlainCol)
  next
    case (CircularCol x)
    from 2 CircularCol circular.put_ok [of x v bs] obtain x' where x': "cm_updateElem v (Some bs) x = Inr x'" "cm_inv x'"
      "unat (unit_size x') = unat (unit_size x)" "\<forall>w. cm_row_ok x' w = cm_row_ok x w"
      "\<forall>w. cm_row_ok x w \<longrightarrow> cm_getElem x' w = (if same_master_row v w then Inr bs else cm_getElem x w)" by auto
    then show ?thesis by (intro exI [of _ "CircularCol x'"]) (simp add: CircularCol)
  next
    case (LazyCol x)
    then show ?thesis using 2 by simp
  qed
next
  case (3 c v)
  then show ?case using plain.same_refl circular.same_refl by (cases c) auto
qed

text \<open>An update only reads as many bytes of its source as the column is wide.\<close>

lemma update_chunks_take:
  assumes "unat usize \<le> length src"
  shows "update_chunks cs off usize (Some src) = update_chunks cs off usize (Some (take (unat usize) src))"
proof -
  have "read_src src usize = read_src (take (unat usize) src) usize" using assms by (simp add: read_src_def)
  then show ?thesis by (induction cs arbitrary: off) simp_all
qed

lemma col_updateElem_take:
  assumes "any_inv c" "any_width c \<le> length src"
  shows "col_updateElem E v (Some src) c = col_updateElem E v (Some (take (any_width c) src)) c"
proof (cases c)
  case (PlainCol x)
  then have "unat (unit_size x) \<le> length src" using assms(2) by simp
  from update_chunks_take [OF this] PlainCol show ?thesis
    by (simp add: updateElem_def store_elem_def UpdateInPlace_def)
next
  case (CircularCol x)
  then have "unat (unit_size x) \<le> length src" using assms(2) by simp
  from update_chunks_take [OF this] CircularCol show ?thesis
    by (simp add: cm_updateElem_def UpdateInPlace_def)
qed (use assms in simp)

lemma col_updateElem_base:
  "any_inv c \<Longrightarrow> col_updateElem E v d c = Inr c' \<Longrightarrow> byteOffset_record (col_base c') = byteOffset_record (col_base c)"
  by (cases c) (auto simp: updateElem_def store_elem_def cm_updateElem_def Let_def rbind_eq_Inr_iff mark_dirty_def
      set_chunks_def Column.defs split: if_splits prod.splits)

text \<open>What a write at row \<open>v\<close> leaves of a column.\<close>

definition col_step :: "'h col_env \<Rightarrow> rowid_t \<Rightarrow> 'h AnyColumn \<Rightarrow> 'h AnyColumn \<Rightarrow> bool" where
  "col_step E v c c' \<longleftrightarrow> any_inv c' \<and> any_width c' = any_width c \<and>
     byteOffset_record (col_base c') = byteOffset_record (col_base c) \<and>
     (\<forall>w. any_valid c' w = any_valid c w) \<and>
     (\<forall>w. any_valid c w \<longrightarrow> \<not> same_row v w \<longrightarrow> col_getElem E c' w = col_getElem E c w)"

lemma any_same_row: "any_same c v w \<Longrightarrow> same_row v w"
  by (cases c) (simp_all add: same_master_row_def same_row_def)

lemma col_step_refl: "any_inv c \<Longrightarrow> col_step E v c c"
  by (simp add: col_step_def)

lemma col_step_trans: "col_step E v c c' \<Longrightarrow> col_step E v c' c'' \<Longrightarrow> col_step E v c c''"
  by (simp add: col_step_def)

lemma col_update_step:
  assumes "any_inv c" "any_valid c v" "any_width c \<le> length src"
  obtains c' where "col_updateElem E v (Some src) c = Inr c'" "col_step E v c c'"
    "col_getElem E c' v = Inr (take (any_width c) src)"
proof -
  have len: "length (take (any_width c) src) = any_width c" using assms(3) by simp
  from anycol.put_ok [OF assms(1,2) len] obtain c' where
    c': "col_updateElem E v (Some (take (any_width c) src)) c = Inr c'" "any_inv c'" "any_width c' = any_width c"
      "\<forall>w. any_valid c' w = any_valid c w" "\<forall>x w. any_same c' x w = any_same c x w"
      "\<forall>w. any_valid c w \<longrightarrow> col_getElem E c' w = (if any_same c v w then Inr (take (any_width c) src) else col_getElem E c w)"
    by blast
  have "col_step E v c c'" using c' col_updateElem_base [OF assms(1) c'(1)] by (auto simp: col_step_def dest: any_same_row)
  moreover have "col_getElem E c' v = Inr (take (any_width c) src)"
    using anycol.put_get_same [OF assms(1,2) len c'(1)] .
  ultimately show thesis using c'(1) col_updateElem_take [OF assms(1,3)] by (intro that [of c']) simp_all
qed

section \<open>The record of a row\<close>

definition elems :: "'h col_env \<Rightarrow> 'h AnyColumn list \<Rightarrow> rowid_t \<Rightarrow> byte list list" where
  "elems E cols v = map (\<lambda>c. projr (col_getElem E c v)) cols"

definition cols_ok :: "rowid_t \<Rightarrow> 'h AnyColumn list \<Rightarrow> bool" where
  "cols_ok v cols \<longleftrightarrow> (\<forall>c\<in>set cols. any_inv c \<and> any_valid c v)"

lemma cols_ok_nth: "cols_ok v cols \<longleftrightarrow> (\<forall>k < length cols. any_inv (cols ! k) \<and> any_valid (cols ! k) v)"
  by (simp add: cols_ok_def all_set_conv_all_nth)

lemma cols_ok_step:
  assumes "cols_ok v cols" "length cols' = length cols" "\<forall>k < length cols. col_step E u (cols ! k) (cols' ! k)"
  shows "cols_ok v cols'"
  using assms by (simp add: cols_ok_nth col_step_def)

lemma elem_ok:
  assumes "cols_ok v cols" "k < length cols"
  shows "col_getElem E (cols ! k) v = Inr (elems E cols v ! k)" "length (elems E cols v ! k) = any_width (cols ! k)"
proof -
  have "any_inv (cols ! k)" "any_valid (cols ! k) v" using assms nth_mem by (auto simp: cols_ok_def)
  from anycol.get_ok [OF this, of E] assms(2) show
    "col_getElem E (cols ! k) v = Inr (elems E cols v ! k)" "length (elems E cols v ! k) = any_width (cols ! k)"
    by (auto simp: elems_def)
qed

lemma length_elems [simp]: "length (elems E cols v) = length cols"
  by (simp add: elems_def)

text \<open>The elements after the loop over the updated columns.\<close>

fun patch :: "nat list \<Rightarrow> byte list \<Rightarrow> byte list list \<Rightarrow> byte list list" where
  "patch [] data es = es"
| "patch (c # cs) data es =
     patch cs (drop (length (es ! c)) data) (es[c := take (length (es ! c)) data])"

lemma update_columns_ok:
  assumes "cols_ok v cols" "\<forall>c\<in>set cs. c < length cols"
    and "sum_list (map (\<lambda>c. any_width (cols ! c)) cs) \<le> length data"
  shows "\<exists>cols'. update_columns E v cs (Some data) cols = Inr cols' \<and> length cols' = length cols \<and>
    (\<forall>k < length cols. col_step E v (cols ! k) (cols' ! k)) \<and> elems E cols' v = patch cs data (elems E cols v)"
  using assms
proof (induction cs arbitrary: cols data)
  case Nil
  then show ?case by (auto simp: cols_ok_def intro: col_step_refl)
next
  case (Cons c cs)
  let ?w = "any_width (cols ! c)"
  have c: "c < length cols" "any_inv (cols ! c)" "any_valid (cols ! c) v"
    using Cons.prems(1,2) by (auto simp: cols_ok_def)
  obtain c' where c': "col_updateElem E v (Some data) (cols ! c) = Inr c'" "col_step E v (cols ! c) c'"
    "col_getElem E c' v = Inr (take ?w data)"
    using col_update_step [OF c(2,3), of data] Cons.prems(3) by auto
  let ?cols = "cols[c := c']"
  have inv: "any_inv (cols ! k)" if "k < length cols" for k using that Cons.prems(1) by (simp add: cols_ok_def)
  have step: "col_step E v (cols ! k) (?cols ! k)" if "k < length cols" for k
    using that c'(2) col_step_refl [OF inv [OF that]] by (cases "k = c") simp_all
  have widths: "any_width (?cols ! k) = any_width (cols ! k)" if "k < length cols" for k
    using step [OF that] by (simp add: col_step_def)
  have ok: "cols_ok v ?cols" by (rule cols_ok_step [OF Cons.prems(1), where E = E and u = v]) (use step in simp_all)
  have es: "elems E ?cols v = (elems E cols v)[c := take ?w data]"
    using c' by (simp add: elems_def map_update)
  have eq: "map (\<lambda>k. any_width (?cols ! k)) cs = map (\<lambda>k. any_width (cols ! k)) cs"
    using widths Cons.prems(2) by simp
  have room: "sum_list (map (\<lambda>k. any_width (?cols ! k)) cs) \<le> length (drop ?w data)"
    unfolding eq using Cons.prems(3) by simp
  from Cons.IH [OF ok _ room] Cons.prems(2) obtain cols' where
    rest: "update_columns E v cs (Some (drop ?w data)) ?cols = Inr cols'" "length cols' = length cols"
      "\<forall>k < length cols. col_step E v (?cols ! k) (cols' ! k)"
      "elems E cols' v = patch cs (drop ?w data) (elems E ?cols v)" by auto
  have "length (elems E cols v ! c) = ?w" using elem_ok(2) [OF Cons.prems(1) c(1)] .
  moreover have "\<forall>k < length cols. col_step E v (cols ! k) (cols' ! k)" using rest(3) step col_step_trans by blast
  ultimately show ?case
    using c(1) c'(1) rest es by (intro exI [of _ cols']) (simp add: any_width_def)
qed

section \<open>The layout of a table\<close>

text \<open>
  The offset of a column in the record is the sum of the widths before it, and the record is
  small enough for the 16-bit numbers in which the table keeps widths and offsets.
\<close>

definition col_off :: "'h AnyColumn list \<Rightarrow> nat \<Rightarrow> nat" where
  "col_off cols k = sum_list (map any_width (take k cols))"

definition table_shape :: "'h ColumnStore \<Rightarrow> bool" where
  "table_shape ct \<longleftrightarrow>
     length (column_size_offset_pairs ct) = length (columns ct) \<and>
     unat (record_size ct) = sum_list (map any_width (columns ct)) \<and> unat (record_size ct) < 2 ^ 16 \<and>
     (\<forall>k < length (columns ct).
        unat (fst (column_size_offset_pairs ct ! k)) = any_width (columns ct ! k) \<and>
        unat (snd (column_size_offset_pairs ct ! k)) = col_off (columns ct) k \<and>
        unat (byteOffset_record (col_base (columns ct ! k))) = col_off (columns ct) k)"

lemma col_off_bound: "k < length cols \<Longrightarrow> col_off cols k + any_width (cols ! k) \<le> sum_list (map any_width cols)"
proof -
  assume k: "k < length cols"
  have "col_off cols (Suc k) = col_off cols k + any_width (cols ! k)"
    using k by (simp add: col_off_def take_Suc_conv_app_nth)
  moreover have "sum_list (map any_width cols) = col_off cols (Suc k) + sum_list (map any_width (drop (Suc k) cols))"
    unfolding col_off_def by (metis append_take_drop_id map_append sum_list_append)
  ultimately show ?thesis by simp
qed

lemma table_shape_layout:
  assumes "table_shape ct"
  shows "layout_ok ct"
proof -
  have "unat off + unat w \<le> unat (record_size ct)" if "(w, off) \<in> set (column_size_offset_pairs ct)" for w off
  proof -
    obtain k where k: "k < length (columns ct)" "column_size_offset_pairs ct ! k = (w, off)"
      using \<open>(w, off) \<in> set (column_size_offset_pairs ct)\<close> assms by (auto simp: in_set_conv_nth table_shape_def)
    then show ?thesis using col_off_bound [OF k(1)] assms by (auto simp: table_shape_def)
  qed
  moreover have "unat (record_size ct) < 2 ^ 63" using assms by (simp add: table_shape_def)
  ultimately show ?thesis by (auto simp: layout_ok_def)
qed

lemma slice_concat:
  assumes "k < length es"
  shows "slice (concat es) (sum_list (map length (take k es))) (length (es ! k)) = es ! k"
proof -
  have "concat es = concat (take k es) @ es ! k @ concat (drop (Suc k) es)"
    using id_take_nth_drop [OF assms] by (metis concat.simps(2) concat_append)
  then show ?thesis by (metis length_concat slice_append_exact)
qed

lemma map_length_elems: "cols_ok v cols \<Longrightarrow> map length (elems E cols v) = map any_width cols"
  by (rule nth_equalityI) (simp_all add: elem_ok)

lemma length_record: "cols_ok v cols \<Longrightarrow> length (concat (elems E cols v)) = sum_list (map any_width cols)"
  by (simp add: length_concat map_length_elems)

lemma project_elems:
  assumes sh: "table_shape ct" and ok: "cols_ok v (columns ct)" and want: "\<forall>c\<in>set want. c < length (columns ct)"
  shows "project ct want (concat (elems E (columns ct) v)) =
    concat (map (\<lambda>c. elems E (columns ct) v ! c) (if want = [] then [0..<length (columns ct)] else want))"
proof -
  let ?es = "elems E (columns ct) v"
  have "(let (w, off) = column_size_offset_pairs ct ! c in slice (concat ?es) (unat off) (unat w)) = ?es ! c"
    if "c < length (columns ct)" for c
  proof -
    have "unat (snd (column_size_offset_pairs ct ! c)) = sum_list (map length (take c ?es))"
      using sh that map_length_elems [OF ok, of E] by (simp add: table_shape_def col_off_def take_map [symmetric])
    moreover have "unat (fst (column_size_offset_pairs ct ! c)) = length (?es ! c)"
      using sh that elem_ok(2) [OF ok that] by (simp add: table_shape_def)
    ultimately show ?thesis using slice_concat [of c ?es] that by (simp add: split_def)
  qed
  moreover have "length (column_size_offset_pairs ct) = length (columns ct)" using sh by (simp add: table_shape_def)
  ultimately show ?thesis using want unfolding project_def by (intro arg_cong [of _ _ concat] map_cong) (auto split: if_splits)
qed

lemma read_columns_ok:
  assumes sh: "table_shape ct" and ok: "cols_ok v (columns ct)" and want: "\<forall>c\<in>set want. c < length (columns ct)"
  shows "read_columns E want v ct = Inr (project ct want (concat (elems E (columns ct) v)))"
proof -
  let ?es = "elems E (columns ct) v"
  have "col_getElem E c v = Inr (projr (col_getElem E c v))" if "c \<in> set (columns ct)" for c
    using anycol.get_ok [of c v E] ok that by (auto simp: cols_ok_def)
  then have "rmap (\<lambda>col. col_getElem E col v) (columns ct) = Inr (map (\<lambda>c. projr (col_getElem E c v)) (columns ct))"
    by (rule rmap_all_Inr)
  then have all: "rmap (\<lambda>col. col_getElem E col v) (columns ct) = Inr ?es" by (simp add: elems_def)
  have some: "rmap (\<lambda>c. rbind (at_checked (columns ct) c) (\<lambda>col. col_getElem E col v)) want = Inr (map (\<lambda>c. ?es ! c) want)"
    using want elem_ok(1) [OF ok, of _ E] by (intro rmap_all_Inr) (simp add: at_checked_def)
  have "map (\<lambda>c. ?es ! c) [0..<length (columns ct)] = ?es" using map_nth [of ?es] by simp
  then show ?thesis using all some project_elems [OF assms, of E] by (simp add: read_columns_def)
qed

section \<open>Copying a record to memory\<close>

lemma store_bytes_append:
  assumes "length xs + length ys < 2 ^ 64"
  shows "store_bytes (a + of_nat (length xs)) ys (store_bytes a xs m) = store_bytes a (xs @ ys) m"
proof
  fix x :: uintptr
  let ?d = "x - a" and ?l = "of_nat (length xs) :: uintptr"
  have l: "unat ?l = length xs" using assms by (simp add: unsigned_of_nat take_bit_nat_eq_self)
  show "store_bytes (a + ?l) ys (store_bytes a xs m) x = store_bytes a (xs @ ys) m x"
  proof (cases "?l \<le> ?d")
    case True
    then have "unat (x - (a + ?l)) = unat ?d - length xs"
      using l unat_sub_no_wrap [of ?l ?d] by (simp add: diff_diff_eq)
    moreover have "length xs \<le> unat ?d" using True l by (simp add: word_le_nat_alt)
    ultimately show ?thesis by (auto simp: store_bytes_def nth_append)
  next
    case False
    then have lt: "unat ?d < length xs" using l by (simp add: word_le_nat_alt)
    have "\<not> unat (x - (a + ?l)) < length ys"
    proof
      assume *: "unat (x - (a + ?l)) < length ys"
      have "unat ((x - (a + ?l)) + ?l) = unat (x - (a + ?l)) + unat ?l"
        using * assms l by (intro unat_add_no_wrap) simp
      then have "unat ?d = unat (x - (a + ?l)) + length xs" using l by simp
      then show False using lt by simp
    qed
    then show ?thesis using lt by (auto simp: store_bytes_def nth_append)
  qed
qed

lemma copy_to_version_ok:
  assumes "cols_ok v cols" "o1 + sum_list (map any_width cols) < 2 ^ 64"
    and "\<forall>k < length cols. byteOffset_record (col_base (cols ! k)) = of_nat (o1 + col_off cols k)"
  shows "copy_to_version E v a cols m = Inr (store_bytes (a + of_nat o1) (concat (elems E cols v)) m)"
  using assms
proof (induction cols arbitrary: o1 m)
  case Nil
  then show ?case by (simp add: copy_to_version_def elems_def store_bytes_def)
next
  case (Cons c cols)
  have ok: "cols_ok v cols" using Cons.prems(1) by (simp add: cols_ok_def)
  obtain bs where bs: "col_getElem E c v = Inr bs" "length bs = any_width c"
    using anycol.get_ok [of c v E] Cons.prems(1) by (auto simp: cols_ok_def)
  have off: "byteOffset_record (col_base c) = of_nat o1" using Cons.prems(3) by (auto simp: col_off_def)
  have offs: "\<forall>k < length cols. byteOffset_record (col_base (cols ! k)) = of_nat ((o1 + length bs) + col_off cols k)"
  proof (intro allI impI)
    fix k assume "k < length cols"
    then have "byteOffset_record (col_base ((c # cols) ! Suc k)) = of_nat (o1 + col_off (c # cols) (Suc k))"
      using Cons.prems(3) by (intro Cons.prems(3) [rule_format]) simp
    then show "byteOffset_record (col_base (cols ! k)) = of_nat ((o1 + length bs) + col_off cols k)"
      using bs(2) by (simp add: col_off_def algebra_simps)
  qed
  have sum: "(o1 + length bs) + sum_list (map any_width cols) < 2 ^ 64" using Cons.prems(2) bs(2) by simp
  have len: "length bs + length (concat (elems E cols v)) < 2 ^ 64" using sum length_record [OF ok, of E] by simp
  have "copy_to_version E v a (c # cols) m = copy_to_version E v a cols (store_bytes (a + of_nat o1) bs m)"
    using bs off by (simp add: copy_to_version_def)
  also have "\<dots> = Inr (store_bytes (a + of_nat (o1 + length bs)) (concat (elems E cols v)) (store_bytes (a + of_nat o1) bs m))"
    by (rule Cons.IH [OF ok sum offs])
  also have "\<dots> = Inr (store_bytes (a + of_nat o1) (bs @ concat (elems E cols v)) m)"
    using store_bytes_append [OF len, of "a + of_nat o1" m] by (simp add: add.assoc)
  finally show ?case using bs by (simp add: elems_def)
qed

section \<open>Histories\<close>

definition row_hist ::
  "'h col_env \<Rightarrow> 's delta_store \<Rightarrow> 'h ColumnStore \<Rightarrow> memory \<Rightarrow> 's \<Rightarrow> IndexVal \<Rightarrow> ver list \<Rightarrow> (xid_t \<times> byte list) list \<Rightarrow> bool" where
  "row_hist E D ct m s iv vs hs \<longleftrightarrow>
     \<not> iv_deleted iv \<and> cols_ok (VID iv) (columns ct) \<and>
     chain (st_ops D s) m (unat (record_size ct)) (delta_list iv) vs \<and>
     hs = (iv_t_min iv, concat (elems E (columns ct) (VID iv))) # map snd vs"

definition visible :: "TxnTs \<Rightarrow> (xid_t \<times> byte list) list \<Rightarrow> byte list option" where
  "visible ts hs = map_option snd (find (\<lambda>(t, bs). is_readable t ts) hs)"

lemma visible_simps:
  "visible ts [] = None" "visible ts ((t, bs) # hs) = (if is_readable t ts then Some bs else visible ts hs)"
  by (simp_all add: visible_def)

lemma visible_versions: "visible ts (map snd vs) = map_option (snd \<circ> snd) (first_readable ts vs)"
  by (induction vs) (auto simp: visible_simps first_readable_def)

definition full_mode :: "'s mv_env \<Rightarrow> nat \<Rightarrow> 's delta_store \<Rightarrow> bool" where
  "full_mode V d D \<longleftrightarrow> mv_kind V = RecordList_Full \<and> \<not> mv_consolidation V \<and> mv_store V d = D"

lemma read_row:
  assumes sh: "table_shape ct" and h: "row_hist E D ct m s iv vs hs" and V: "full_mode V d D"
    and fuel: "length vs < mv_fuel V" and want: "\<forall>c\<in>set want. c < length (columns ct)"
  shows "case visible ts hs of
      Some bs \<Rightarrow> getIndexedRecord E V d ts iv want dest ct m s = write_buffer 0 (project ct want bs) dest
    | None \<Rightarrow> \<exists>e. getIndexedRecord E V d ts iv want dest ct m s = Inl e"
proof -
  let ?R = "unat (record_size ct)"
  have H: "\<not> iv_deleted iv" "cols_ok (VID iv) (columns ct)" "chain (st_ops D s) m ?R (delta_list iv) vs"
    "hs = (iv_t_min iv, concat (elems E (columns ct) (VID iv))) # map snd vs"
    using h by (simp_all add: row_hist_def)
  have M: "mv_kind V = RecordList_Full" "\<not> mv_consolidation V" "mv_store V d = D" using V by (simp_all add: full_mode_def)
  have want': "\<forall>c\<in>set want. c < length (column_size_offset_pairs ct)" using want sh by (simp add: table_shape_def)
  show ?thesis
  proof (cases "is_readable (iv_t_min iv) ts")
    case True
    then show ?thesis
      using H(1) read_columns_ok [OF sh H(2) want, of E] by (simp add: H(4) visible_simps getIndexedRecord_def)
  next
    case old: False
    show ?thesis
    proof (cases "first_readable ts vs")
      case (Some v)
      obtain a t bs where v: "v = (a, t, bs)" by (cases v)
      have "full_get_readable_version D False (mv_fuel V) (mv_num_stores V) ct iv ts want m s = Inr (project ct want bs)"
        by (rule full_get_readable_version_chain [OF H(3) fuel Some [unfolded v] H(1) table_shape_layout [OF sh] want'])
      then show ?thesis using old M Some by (simp add: H(4) visible_simps visible_versions v getIndexedRecord_def)
    next
      case None
      from get_readable_ver_chain [OF H(3) fuel, of ts RefHead] None
      have "get_readable_ver (st_ops D s) VersionSingle_off_next m ts (mv_fuel V) (RefHead, delta_list iv) = Inr None" by simp
      moreover obtain b where "po_isValid (st_ops D s) (delta_list iv) = Inr b" using H(3) by (cases vs) auto
      ultimately show ?thesis using old M None
        by (simp add: H(4) visible_simps visible_versions getIndexedRecord_def full_get_readable_version_def Let_def)
    qed
  qed
qed

section \<open>Updating a row\<close>

text \<open>Filling in the record of the version at the head of a chain.\<close>

lemma chain_fill:
  assumes ch: "chain po m R r ((a, t, bs) # vs)" and R: "R < 2 ^ 63" and len: "length rec = R"
    and apart: "blk (ver_payload a) R \<inter> chain_blocks R vs = {}"
  shows "chain po (store_bytes (ver_payload a) rec m) R r ((a, t, rec) # vs)"
proof -
  let ?m = "store_bytes (ver_payload a) rec m"
  have "blk (a + 49) R \<inter> blk (a + f) 8 = {}" if "f \<in> {8, 24, 40}" for f
  proof (rule blk_shift_disjoint)
    have "(49 :: uintptr) \<ge> f" "f + 8 \<le> 49" using that by auto
    have u: "unat (f - 49) \<ge> 2 ^ 63" "8 \<le> unat (49 - f)" using that by auto
    show "R \<le> unat (f - 49)" using u(1) R by simp
    show "8 \<le> unat (49 - f)" by (rule u(2))
  qed
  then have f: "load64 ?m (a + off_t_min) = load64 m (a + off_t_min)" "load64 ?m (a + off_data) = load64 m (a + off_data)"
    "load64 ?m (a + VersionSingle_off_next) = load64 m (a + VersionSingle_off_next)"
    using len by (simp_all add: load64_store_bytes ver_payload_eq version_offsets)
  have rec: "load_bytes ?m (ver_payload a) R = rec" using len R by (simp add: load_store_same)
  have same: "?m x = m x" if "x \<in> chain_blocks R vs" for x
    using that apart len by (auto simp: store_bytes_def blk_def)
  have "chain po m R (load64 m (a + VersionSingle_off_next)) vs" using ch by simp
  from chain_frame [OF R this same] have "chain po ?m R (load64 m (a + VersionSingle_off_next)) vs" .
  then show ?thesis using ch f rec by simp
qed

context version_store
begin

lemma updateRecord_ok:
  assumes inv: "inv s U" and sh: "table_shape ct" and V: "full_mode V (unat (delta_version txn)) D"
    and iv: "meta_slot p i ct = Inr iv" and h: "row_hist E D ct m s iv vs hs"
    and sub: "chain_blocks (unat (record_size ct)) vs \<subseteq> U"
    and room: "ver_extent (unat (record_size ct)) \<le> room (record_size ct + sizeof_VersionSingle)"
    and al: "st_allocate D (record_size ct + sizeof_VersionSingle) (partition_id txn) (iv_t_min iv) s = Inr (r, s1)"
    and idx: "\<forall>c\<in>set cols. c < length (columns ct)"
    and data: "sum_list (map (\<lambda>c. any_width (columns ct ! c)) (if cols = [] then [0..<length (columns ct)] else cols)) \<le> length data"
  obtains a m' cs where
    "updateRecord E V 1 txn (p, i) (Some data) cols ct m s =
       Inr (set_slot p i (iv\<lparr>delta_list := r, iv_t_min := ts_t_min (txn_start_time (txnTs txn))\<rparr>) (ct\<lparr>columns := cs\<rparr>), m', s1)"
    "inv s1 (U \<union> blk a (room (record_size ct + sizeof_VersionSingle)))"
    "ver_extent (unat (record_size ct)) \<le> room (record_size ct + sizeof_VersionSingle)"
    "st_ops D s1 = st_ops D s" "\<And>x. x \<in> U \<Longrightarrow> m' x = m x"
    "chain (st_ops D s1) m' (unat (record_size ct)) r ((a, iv_t_min iv, concat (elems E (columns ct) (VID iv))) # vs)"
    "length cs = length (columns ct)" "\<forall>k < length cs. col_step E (VID iv) (columns ct ! k) (cs ! k)"
    "elems E cs (VID iv) =
       patch (if cols = [] then [0..<length (columns ct)] else cols) data (elems E (columns ct) (VID iv))"
proof -
  let ?R = "unat (record_size ct)" and ?sz = "record_size ct + sizeof_VersionSingle" and ?v = "VID iv"
  let ?cols = "if cols = [] then [0..<length (columns ct)] else cols"
  have H: "cols_ok ?v (columns ct)" "chain (st_ops D s) m ?R (delta_list iv) vs" using h by (simp_all add: row_hist_def)
  have M: "mv_kind V = RecordList_Full" "\<not> mv_consolidation V" "mv_store V (unat (delta_version txn)) = D"
    using V by (simp_all add: full_mode_def)
  have R: "?R < 2 ^ 63" "?R = sum_list (map any_width (columns ct))" using sh by (simp_all add: table_shape_def)
  note ops = allocate_ops [OF inv al]
  from allocate_fresh [OF inv al] obtain a where fresh: "po_isValid (st_ops D s) r = Inr True"
    "po_ptr (st_ops D s) r = Inr a" "a \<noteq> 0" by blast
  obtain b where b: "po_isValid (st_ops D s) (delta_list iv) = Inr b" using H(2) by (cases vs) auto
  let ?m0 = "mk_VersionSingle (mv_vtable V) a (iv_t_min iv) 0 (ver_payload a) (record_size ct) m"
  define m1 where "m1 = (if b then store64 (a + VersionSingle_off_next) (delta_list iv) ?m0 else ?m0)"
  have run: "full_create_versions D False (mv_vtable V) (partition_id txn) ct iv m s = Inr (a, iv\<lparr>delta_list := r\<rparr>, m1, s1)"
    using create_versions_run [OF inv al fresh(2,3) b] by (simp add: m1_def)
  note C = create_versions_chain [OF inv H(2) sub refl R(1) room run]
  have size: "load64 m1 (a + off_size) = record_size ct"
  proof -
    have "load64 (store64 (a + VersionSingle_off_next) w mm) (a + off_size) = load64 mm (a + off_size)" for w mm
      by (simp add: version_offsets load64_store64_disjoint blk_shift_disjoint)
    then show ?thesis by (simp add: m1_def mk_VersionSingle_fields)
  qed
  have pay: "ver_payload a \<noteq> 0" using C(6) by simp
  let ?rec = "concat (elems E (columns ct) ?v)"
  let ?m2 = "store_bytes (ver_payload a) ?rec m1"
  have "\<forall>k < length (columns ct). byteOffset_record (col_base (columns ct ! k)) = of_nat (0 + col_off (columns ct) k)"
  proof (intro allI impI)
    fix k assume "k < length (columns ct)"
    then have "unat (byteOffset_record (col_base (columns ct ! k))) = col_off (columns ct) k"
      using sh by (simp add: table_shape_def)
    from this [symmetric] show "byteOffset_record (col_base (columns ct ! k)) = of_nat (0 + col_off (columns ct) k)" by simp
  qed
  then have copy: "copy_to_version E ?v (ver_payload a) (columns ct) m1 = Inr ?m2"
    using copy_to_version_ok [OF H(1), of 0 E "ver_payload a" m1] R by simp
  have "\<forall>c\<in>set ?cols. c < length (columns ct)" using idx by simp
  from update_columns_ok [OF H(1) this data, of E] obtain cs where
    cs: "update_columns E ?v ?cols (Some data) (columns ct) = Inr cs" "length cs = length (columns ct)"
      "\<forall>k < length (columns ct). col_step E ?v (columns ct ! k) (cs ! k)"
      "elems E cs ?v = patch ?cols data (elems E (columns ct) ?v)" by blast
  have upd: "updateRecord E V 1 txn (p, i) (Some data) cols ct m s =
     Inr (set_slot p i (iv\<lparr>delta_list := r, iv_t_min := ts_t_min (txn_start_time (txnTs txn))\<rparr>) (ct\<lparr>columns := cs\<rparr>), ?m2, s1)"
    using iv M run fresh(1) ops C(7) pay size copy cs(1)
    by (simp add: updateRecord_def Let_def create_versions_def)
  let ?B = "blk a (room ?sz)"
  have "room ?sz \<le> 2 ^ 64" using allocate_fresh [OF inv al] fresh(2) by auto
  then have parts: "blk a 48 \<subseteq> ?B" "blk (ver_payload a) ?R \<subseteq> ?B"
    using blk_shift [of 0 48 "room ?sz" a] blk_shift [of 49 ?R "room ?sz" a] room
    by (simp_all add: ver_extent_def ver_payload_eq)
  have len: "length ?rec = ?R" using length_record [OF H(1)] R(2) by simp
  have keep: "?m2 x = m x" if "x \<in> U" for x
  proof -
    have "x \<notin> ?B" using that C(2) by blast
    then have "x \<notin> blk a 48" "x \<notin> blk (ver_payload a) ?R" using parts by blast+
    then show ?thesis using C(8) len by (simp add: store_bytes_def blk_def)
  qed
  have apart: "blk (ver_payload a) ?R \<inter> chain_blocks ?R vs = {}" using parts(2) C(2) sub by blast
  have "chain (st_ops D s1) m1 ?R r ((a, iv_t_min iv, load_bytes m1 (ver_payload a) ?R) # vs)"
    using C(6) by (simp del: chain.simps)
  note ch = chain_fill [OF this R(1) len apart]
  from ch upd C(3) room ops keep cs show thesis
    by (intro that [of cs ?m2 a]) (simp_all del: chain.simps)
qed

end

section \<open>Tables\<close>

lemma meta_slot_set:
  assumes "meta_slot p i ct = Inr iv"
  shows "meta_slot q j (set_slot p i iv' ct) = (if (q, j) = (p, i) then Inr iv' else meta_slot q j ct)"
proof -
  have "p < length (meta_slots ct)" "i < length (meta_slots ct ! p)"
    using assms by (auto simp: meta_slot_def rbind_eq_Inr_iff at_idx_eq_Inr_iff)
  then show ?thesis
    by (cases "q = p"; cases "q < length (meta_slots ct)"; cases "j = i")
       (simp_all add: meta_slot_def set_slot_def at_idx_def)
qed

lemma meta_slot_columns [simp]: "meta_slot p i (ct\<lparr>columns := cs\<rparr>) = meta_slot p i ct"
  by (simp add: meta_slot_def)

lemma set_slot_fields [simp]:
  "columns (set_slot p i iv ct) = columns ct" "record_size (set_slot p i iv ct) = record_size ct"
  "column_size_offset_pairs (set_slot p i iv ct) = column_size_offset_pairs ct" "vid_part (set_slot p i iv ct) = vid_part ct"
  by (simp_all add: set_slot_def)

definition table_hist ::
  "'h col_env \<Rightarrow> 's delta_store \<Rightarrow> 'h ColumnStore \<Rightarrow> memory \<Rightarrow> 's \<Rightarrow> meta_ptr \<Rightarrow> IndexVal \<Rightarrow> ver list
     \<Rightarrow> (xid_t \<times> byte list) list \<Rightarrow> bool" where
  "table_hist E D ct m s r iv vs hs \<longleftrightarrow> meta_slot (fst r) (snd r) ct = Inr iv \<and> row_hist E D ct m s iv vs hs"

text \<open>
  The rows \<open>rows\<close> have histories of at most \<open>L\<close> versions, whose blocks are in use, and their
  entries name their own places. Places behind the counter of a partition have never been used.
  \<open>I\<close> is the invariant of the delta store. None of the columns is lazy.
\<close>

definition at_place :: "meta_ptr \<Rightarrow> rowid_t \<Rightarrow> bool" where
  "at_place r v \<longleftrightarrow> unat (get_pid v) = fst r \<and> unat (get_offset v) = snd r"

definition unused_place :: "'h ColumnStore \<Rightarrow> meta_ptr \<Rightarrow> bool" where
  "unused_place ct r \<longleftrightarrow> fst r < length (vid_part ct) \<and> unat (vid_part ct ! fst r) \<le> snd r"

definition table_ok ::
  "'h col_env \<Rightarrow> 's delta_store \<Rightarrow> ('s \<Rightarrow> uintptr set \<Rightarrow> bool) \<Rightarrow> meta_ptr set \<Rightarrow> nat \<Rightarrow> 'h ColumnStore \<Rightarrow> memory \<Rightarrow> 's
     \<Rightarrow> uintptr set \<Rightarrow> bool" where
  "table_ok E D I rows L ct m s U \<longleftrightarrow>
     I s U \<and> table_shape ct \<and> (\<forall>c\<in>set (columns ct). any_inv c) \<and>
     (\<forall>r\<in>rows. \<exists>iv vs hs. table_hist E D ct m s r iv vs hs \<and> length vs \<le> L \<and>
        chain_blocks (unat (record_size ct)) vs \<subseteq> U \<and> at_place r (VID iv)) \<and>
     (\<forall>r iv. unused_place ct r \<longrightarrow> meta_slot (fst r) (snd r) ct = Inr iv \<longrightarrow> r \<notin> rows \<and> delta_list iv = 0)"

lemma table_ok_no_lazy: "table_ok E D I rows L ct m s U \<Longrightarrow> LazyCol c \<notin> set (columns ct)"
  by (auto simp: table_ok_def)

lemma at_place_apart: "at_place q v \<Longrightarrow> at_place r w \<Longrightarrow> q \<noteq> r \<Longrightarrow> \<not> same_row v w"
  by (auto simp: at_place_def same_row_def prod_eq_iff)

lemma table_shape_step:
  assumes "table_shape ct" "length cs = length (columns ct)" "\<forall>k < length cs. col_step E v (columns ct ! k) (cs ! k)"
  shows "table_shape (set_slot p i iv (ct\<lparr>columns := cs\<rparr>))"
proof -
  have w: "map any_width cs = map any_width (columns ct)"
    using assms(2,3) by (intro nth_equalityI) (simp_all add: col_step_def)
  have "col_off cs k = col_off (columns ct) k" for k
    unfolding col_off_def using w by (metis take_map)
  then show ?thesis using assms w by (simp add: table_shape_def col_step_def)
qed

lemma row_hist_frame:
  assumes h: "row_hist E D ct m s iv vs hs" and sh: "table_shape ct"
    and cs: "length cs = length (columns ct)" "\<forall>k < length cs. col_step E v (columns ct ! k) (cs ! k)"
    and other: "\<not> same_row v (VID iv)"
    and mem: "\<And>x. x \<in> chain_blocks (unat (record_size ct)) vs \<Longrightarrow> m' x = m x" and ops: "st_ops D s' = st_ops D s"
  shows "row_hist E D (set_slot p i iv' (ct\<lparr>columns := cs\<rparr>)) m' s' iv vs hs"
proof -
  have H: "\<not> iv_deleted iv" "cols_ok (VID iv) (columns ct)" "chain (st_ops D s) m (unat (record_size ct)) (delta_list iv) vs"
    "hs = (iv_t_min iv, concat (elems E (columns ct) (VID iv))) # map snd vs"
    using h by (simp_all add: row_hist_def)
  have ok: "cols_ok (VID iv) cs" using cols_ok_step [OF H(2) cs(1)] cs by simp
  have "elems E cs (VID iv) = elems E (columns ct) (VID iv)"
  proof (rule nth_equalityI)
    fix k assume "k < length (elems E cs (VID iv))"
    then have k: "k < length (columns ct)" using cs(1) by simp
    then have "col_getElem E (cs ! k) (VID iv) = col_getElem E (columns ct ! k) (VID iv)"
      using cs other H(2) by (simp add: col_step_def cols_ok_nth)
    then show "elems E cs (VID iv) ! k = elems E (columns ct) (VID iv) ! k" using k cs(1) by (simp add: elems_def)
  qed (use cs(1) in simp)
  moreover have "unat (record_size ct) < 2 ^ 63" using sh by (simp add: table_shape_def)
  from chain_frame [OF this H(3) mem] have "chain (st_ops D s) m' (unat (record_size ct)) (delta_list iv) vs" .
  ultimately show ?thesis using H ok ops by (simp add: row_hist_def)
qed

lemma chain_unique: "chain po m R r vs \<Longrightarrow> chain po m R r ws \<Longrightarrow> vs = ws"
proof (induction vs arbitrary: r ws)
  case Nil
  then show ?case by (cases ws) auto
next
  case (Cons v vs)
  then show ?case by (cases v; cases ws) auto
qed

lemma table_hist_unique:
  "table_hist E D ct m s r iv vs hs \<Longrightarrow> table_hist E D ct m s r iv' vs' hs' \<Longrightarrow> iv' = iv \<and> vs' = vs \<and> hs' = hs"
  unfolding table_hist_def row_hist_def by (metis Inr_inject chain_unique)

lemma table_okD:
  assumes "table_ok E D I rows L ct m s U"
  shows "I s U" "table_shape ct"
    "r \<in> rows \<Longrightarrow> \<exists>iv vs hs. table_hist E D ct m s r iv vs hs \<and> length vs \<le> L \<and>
       chain_blocks (unat (record_size ct)) vs \<subseteq> U \<and> at_place r (VID iv)"
    "c \<in> set (columns ct) \<Longrightarrow> any_inv c"
    "unused_place ct r \<Longrightarrow> meta_slot (fst r) (snd r) ct = Inr iv \<Longrightarrow> r \<notin> rows \<and> delta_list iv = 0"
    "q \<in> rows \<Longrightarrow> meta_slot (fst q) (snd q) ct = Inr iv1 \<Longrightarrow> at_place q (VID iv1)"
proof -
  show "r \<in> rows \<Longrightarrow> \<exists>iv vs hs. table_hist E D ct m s r iv vs hs \<and> length vs \<le> L \<and>
       chain_blocks (unat (record_size ct)) vs \<subseteq> U \<and> at_place r (VID iv)" for r
    using assms unfolding table_ok_def by blast
  from this [of q] show "q \<in> rows \<Longrightarrow> meta_slot (fst q) (snd q) ct = Inr iv1 \<Longrightarrow> at_place q (VID iv1)"
    by (auto simp: table_hist_def)
qed (use assms in \<open>unfold table_ok_def, blast+\<close>)

abbreviation updated_columns :: "nat list \<Rightarrow> 'h ColumnStore \<Rightarrow> nat list" where
  "updated_columns cols ct \<equiv> (if cols = [] then [0..<length (columns ct)] else cols)"

text \<open>
  A write to one row: the columns change at that row only, its entry keeps its place and gets a
  longer history, and memory in use keeps its contents.
\<close>

lemma table_put:
  assumes ok: "table_ok E D I rows L ct m s U" and row: "(p, i) \<in> rows" and iv: "meta_slot p i ct = Inr iv"
    and cs: "length cs = length (columns ct)" "\<forall>k < length cs. col_step E (VID iv) (columns ct ! k) (cs ! k)"
    and vid: "VID iv' = VID iv" and ct': "ct' = set_slot p i iv' (ct\<lparr>columns := cs\<rparr>)"
    and new: "row_hist E D ct' m' s' iv' vs' hs'" "length vs' \<le> Suc L" "chain_blocks (unat (record_size ct)) vs' \<subseteq> U'"
    and I: "I s' U'" "U \<subseteq> U'" and mem: "\<And>x. x \<in> U \<Longrightarrow> m' x = m x" and ops: "st_ops D s' = st_ops D s"
  shows "table_ok E D I rows (Suc L) ct' m' s' U'" "table_hist E D ct' m' s' (p, i) iv' vs' hs'"
    "\<And>q iv2 vs2 hs2. q \<in> rows \<Longrightarrow> q \<noteq> (p, i) \<Longrightarrow> table_hist E D ct m s q iv2 vs2 hs2 \<Longrightarrow>
       table_hist E D ct' m' s' q iv2 vs2 hs2"
proof -
  let ?R = "unat (record_size ct)"
  note T = table_okD [OF ok]
  have slot: "meta_slot (fst q) (snd q) ct' = (if q = (p, i) then Inr iv' else meta_slot (fst q) (snd q) ct)" for q
    using meta_slot_set [of p i "ct\<lparr>columns := cs\<rparr>" iv "fst q" "snd q"] iv by (cases q) (auto simp: ct')
  show this_row: "table_hist E D ct' m' s' (p, i) iv' vs' hs'" using slot [of "(p, i)"] new(1) by (simp add: table_hist_def)
  show other_row: "table_hist E D ct' m' s' q iv2 vs2 hs2"
    if "q \<in> rows" "q \<noteq> (p, i)" "table_hist E D ct m s q iv2 vs2 hs2" for q iv2 vs2 hs2
  proof -
    have slots: "meta_slot (fst (p, i)) (snd (p, i)) ct = Inr iv" "meta_slot (fst q) (snd q) ct = Inr iv2"
      using iv that(3) by (simp_all add: table_hist_def)
    have apart: "\<not> same_row (VID iv) (VID iv2)"
      by (rule at_place_apart [OF T(6) [OF row slots(1)] T(6) [OF that(1) slots(2)]]) (use that(2) in blast)
    have h2: "row_hist E D ct m s iv2 vs2 hs2" using that(3) by (simp add: table_hist_def)
    have "chain_blocks ?R vs2 \<subseteq> U" using T(3) [OF that(1)] table_hist_unique [OF that(3)] by blast
    then have mem2: "m' x = m x" if "x \<in> chain_blocks ?R vs2" for x using mem that by blast
    have "row_hist E D ct' m' s' iv2 vs2 hs2" unfolding ct' by (rule row_hist_frame [OF h2 T(2) cs apart mem2 ops])
    then show ?thesis using that(2,3) slot [of q] by (simp add: table_hist_def)
  qed
  have rows': "\<exists>iv vs hs. table_hist E D ct' m' s' q iv vs hs \<and> length vs \<le> Suc L \<and> chain_blocks ?R vs \<subseteq> U' \<and> at_place q (VID iv)"
    if q_in: "q \<in> rows" for q
  proof (cases "q = (p, i)")
    case True
    have "at_place (p, i) (VID iv')" using T(6) [OF row] iv vid by simp
    then show ?thesis using True this_row new(2,3) by blast
  next
    case False
    obtain iv2 vs2 hs2 where "table_hist E D ct m s q iv2 vs2 hs2" "length vs2 \<le> L" "chain_blocks ?R vs2 \<subseteq> U" "at_place q (VID iv2)"
      using T(3) [OF q_in] by blast
    then show ?thesis using other_row [OF q_in False] I(2) by (meson le_SucI order_trans)
  qed
  have unused: "q \<notin> rows \<and> delta_list x = 0"
    if "unused_place ct' q" "meta_slot (fst q) (snd q) ct' = Inr x" for q x
  proof -
    have u: "unused_place ct q" using that(1) by (simp add: unused_place_def ct')
    then have "q \<noteq> (p, i)" using T(5) [OF u] row iv by auto
    then show ?thesis using T(5) [OF u] that(2) slot [of q] by simp
  qed
  have "table_shape ct'" using table_shape_step [OF T(2) cs] by (simp add: ct')
  moreover have "columns ct' = cs" "record_size ct' = record_size ct" by (simp_all add: ct')
  moreover have "any_inv c" if "c \<in> set cs" for c using that cs by (auto simp: in_set_conv_nth col_step_def)
  ultimately show "table_ok E D I rows (Suc L) ct' m' s' U'"
    unfolding table_ok_def using I(1) rows' unused by simp
qed

context version_store
begin

lemma table_update:
  assumes ok: "table_ok E D inv rows L ct m s U" and row: "(p, i) \<in> rows"
    and V: "full_mode V (unat (delta_version txn)) D" and iv: "meta_slot p i ct = Inr iv"
    and room: "ver_extent (unat (record_size ct)) \<le> room (record_size ct + sizeof_VersionSingle)"
    and al: "st_allocate D (record_size ct + sizeof_VersionSingle) (partition_id txn) (iv_t_min iv) s = Inr (r, s1)"
    and idx: "\<forall>c\<in>set cols. c < length (columns ct)"
    and data: "sum_list (map (\<lambda>c. any_width (columns ct ! c)) (updated_columns cols ct)) \<le> length data"
  defines "new \<equiv> (ts_t_min (txn_start_time (txnTs txn)),
                   concat (patch (updated_columns cols ct) data (elems E (columns ct) (VID iv))))"
  obtains ct' m' U' where
    "updateRecord E V 1 txn (p, i) (Some data) cols ct m s = Inr (ct', m', s1)"
    "table_ok E D inv rows (Suc L) ct' m' s1 U'" "length (columns ct') = length (columns ct)"
    "column_size_offset_pairs ct' = column_size_offset_pairs ct"
    "\<And>q iv vs hs. q \<in> rows \<Longrightarrow> table_hist E D ct m s q iv vs hs \<Longrightarrow>
       \<exists>iv' vs'. table_hist E D ct' m' s1 q iv' vs' (if q = (p, i) then new # hs else hs)"
proof -
  let ?R = "unat (record_size ct)" and ?sz = "record_size ct + sizeof_VersionSingle"
  note T = table_okD [OF ok]
  obtain vs hs where h: "table_hist E D ct m s (p, i) iv vs hs" "length vs \<le> L" "chain_blocks ?R vs \<subseteq> U"
    using T(3) [OF row] iv by (auto simp: table_hist_def)
  then have rh: "row_hist E D ct m s iv vs hs" by (simp add: table_hist_def)
  let ?iv' = "iv\<lparr>delta_list := r, iv_t_min := ts_t_min (txn_start_time (txnTs txn))\<rparr>"
  obtain a m' cs where
    upd: "updateRecord E V 1 txn (p, i) (Some data) cols ct m s = Inr (set_slot p i ?iv' (ct\<lparr>columns := cs\<rparr>), m', s1)"
    and inv': "inv s1 (U \<union> blk a (room ?sz))" "ver_extent ?R \<le> room ?sz"
    and ops: "st_ops D s1 = st_ops D s" and mem: "\<And>x. x \<in> U \<Longrightarrow> m' x = m x"
    and ch: "chain (st_ops D s1) m' ?R r ((a, iv_t_min iv, concat (elems E (columns ct) (VID iv))) # vs)"
    and cs: "length cs = length (columns ct)" "\<forall>k < length cs. col_step E (VID iv) (columns ct ! k) (cs ! k)"
      "elems E cs (VID iv) = patch (updated_columns cols ct) data (elems E (columns ct) (VID iv))"
    by (rule updateRecord_ok [OF T(1,2) V iv rh h(3) room al idx data]) (rule that)
  let ?ct' = "set_slot p i ?iv' (ct\<lparr>columns := cs\<rparr>)" and ?U' = "U \<union> blk a (room ?sz)"
  let ?vs' = "(a, iv_t_min iv, concat (elems E (columns ct) (VID iv))) # vs"
  have "cols_ok (VID iv) cs" using cols_ok_step [OF _ cs(1), of "VID iv"] rh cs(1,2) by (simp add: row_hist_def)
  then have hist: "row_hist E D ?ct' m' s1 ?iv' ?vs' (new # hs)"
    using ch cs(3) rh by (simp add: row_hist_def new_def del: chain.simps)
  have "length ?vs' \<le> Suc L" "chain_blocks ?R ?vs' \<subseteq> ?U'" using h(2,3) inv'(2) by (auto simp: blk_def)
  note new_row = this
  have vid: "VID ?iv' = VID iv" by simp
  note P = table_put [OF ok row iv cs(1,2) vid refl hist new_row inv'(1) Un_upper1 mem ops]
  have "\<exists>iv' vs'. table_hist E D ?ct' m' s1 q iv' vs' (if q = (p, i) then new # hs2 else hs2)"
    if "q \<in> rows" "table_hist E D ct m s q iv2 vs2 hs2" for q iv2 vs2 hs2
  proof (cases "q = (p, i)")
    case True
    then have "hs2 = hs" using table_hist_unique [OF h(1)] that(2) by blast
    then show ?thesis using P(2) True by auto
  next
    case False
    show ?thesis unfolding if_not_P [OF False] using P(3) [OF _ that(1) False that(2)] by blast
  qed
  with upd P(1) cs(1) show thesis by (intro that [of ?ct' m' ?U']) simp_all
qed

end

section \<open>Properties\<close>

text \<open>A read through the pointer to an index entry.\<close>

definition read_at ::
  "'h col_env \<Rightarrow> 's mv_env \<Rightarrow> nat \<Rightarrow> TxnTs \<Rightarrow> meta_ptr \<Rightarrow> nat list \<Rightarrow> byte list \<Rightarrow> 'h ColumnStore \<Rightarrow> memory \<Rightarrow> 's
     \<Rightarrow> byte list result" where
  "read_at E V d ts r want dest ct m s =
     rbind (meta_slot (fst r) (snd r) ct) (\<lambda>iv. getIndexedRecord E V d ts iv want dest ct m s)"

lemma read_at_visible:
  assumes "table_shape ct" "table_hist E D ct m s r iv vs hs" "full_mode V d D" "length vs < mv_fuel V"
    and "\<forall>c\<in>set want. c < length (columns ct)"
  shows "visible ts hs = Some bs \<Longrightarrow> read_at E V d ts r want dest ct m s = write_buffer 0 (project ct want bs) dest"
    "read_at E V d ts r want dest ct m s = Inr out \<Longrightarrow> \<exists>bs. visible ts hs = Some bs"
proof -
  have h: "meta_slot (fst r) (snd r) ct = Inr iv" "row_hist E D ct m s iv vs hs" using assms(2) by (simp_all add: table_hist_def)
  note R = read_row [OF assms(1) h(2) assms(3-5), of ts dest]
  show "read_at E V d ts r want dest ct m s = write_buffer 0 (project ct want bs) dest" if "visible ts hs = Some bs"
    using R that h(1) by (simp add: read_at_def)
  show "\<exists>bs. visible ts hs = Some bs" if "read_at E V d ts r want dest ct m s = Inr out"
    using R that h(1) by (cases "visible ts hs") (auto simp: read_at_def)
qed

abbreviation pool_inv :: "size_t \<Rightarrow> nat set \<Rightarrow> DeltaStoreMalloc \<Rightarrow> uintptr set \<Rightarrow> bool" where
  "pool_inv N A \<equiv> \<lambda>s U. N \<noteq> 0 \<and> dsm_inv N A s (unat ` U)"

text \<open>
  C1. Snapshot isolation of updates, with the pool-backed delta store, chunks large enough for a
  version, one master and no lazy columns: updating a row succeeds and keeps the table in order; a
  transaction that may see the update reads the record with the updated attributes; every other
  transaction that could read that row, and every transaction that could read another row, still
  reads exactly what it read before. With the circular store this fails, as the next version can
  overwrite the record of the version before it.
\<close>
theorem update_snapshot_isolation:
  assumes "table_ok E (malloc_store N tid) (pool_inv N A) rows L ct m s U" and "(p, i) \<in> rows"
    and "full_mode V d (malloc_store N tid)" and "unat (delta_version txn) = d" and "Suc L < mv_fuel V"
    and "meta_slot p i ct = Inr iv" and "49 + unat (record_size ct) \<le> unat N"
    and "dsm_allocate N tid (record_size ct + sizeof_VersionSingle) (partition_id txn) s = Inr (r, s1)"
    and "\<forall>c\<in>set cols. c < length (columns ct)"
    and "sum_list (map (\<lambda>c. any_width (columns ct ! c)) (updated_columns cols ct)) \<le> length data"
  shows "\<exists>ct' m'. updateRecord E V 1 txn (p, i) (Some data) cols ct m s = Inr (ct', m', s1) \<and>
    (\<exists>U'. table_ok E (malloc_store N tid) (pool_inv N A) rows (Suc L) ct' m' s1 U') \<and>
    (\<forall>ts want dest. (\<forall>c\<in>set want. c < length (columns ct)) \<longrightarrow>
       (is_readable (ts_t_min (txn_start_time (txnTs txn))) ts \<longrightarrow>
          read_at E V d ts (p, i) want dest ct' m' s1 =
          write_buffer 0 (project ct want (concat (patch (updated_columns cols ct) data (elems E (columns ct) (VID iv))))) dest) \<and>
       (\<forall>q\<in>rows. \<forall>out. q \<noteq> (p, i) \<or> \<not> is_readable (ts_t_min (txn_start_time (txnTs txn))) ts \<longrightarrow>
          read_at E V d ts q want dest ct m s = Inr out \<longrightarrow> read_at E V d ts q want dest ct' m' s1 = Inr out))"
proof -
  let ?D = "malloc_store N tid" and ?ts = "ts_t_min (txn_start_time (txnTs txn))"
  let ?new = "concat (patch (updated_columns cols ct) data (elems E (columns ct) (VID iv)))"
  have al: "st_allocate ?D (record_size ct + sizeof_VersionSingle) (partition_id txn) (iv_t_min iv) s = Inr (r, s1)"
    using assms(8) by (simp add: malloc_store_def)
  have room: "ver_extent (unat (record_size ct)) \<le> unat N" using assms(7) by (simp add: ver_extent_def)
  have V: "full_mode V (unat (delta_version txn)) ?D" using assms(3,4) by simp
  obtain ct' m' U' where upd: "updateRecord E V 1 txn (p, i) (Some data) cols ct m s = Inr (ct', m', s1)"
    and ok': "table_ok E ?D (pool_inv N A) rows (Suc L) ct' m' s1 U'"
    and same: "length (columns ct') = length (columns ct)" "column_size_offset_pairs ct' = column_size_offset_pairs ct"
    and hist: "\<And>q iv vs hs. q \<in> rows \<Longrightarrow> table_hist E ?D ct m s q iv vs hs \<Longrightarrow>
       \<exists>iv' vs'. table_hist E ?D ct' m' s1 q iv' vs' (if q = (p, i) then (?ts, ?new) # hs else hs)"
    by (rule malloc.table_update [OF assms(1,2) V assms(6) room al assms(9,10)]) (rule that)
  note T = table_okD [OF assms(1)] and T' = table_okD [OF ok']
  have proj: "project ct' want = project ct want" for want by (simp add: project_def same(2) fun_eq_iff)
  have after: "read_at E V d ts q want dest ct' m' s1 = write_buffer 0 (project ct want bs) dest"
    if q: "q \<in> rows" and want: "\<forall>c\<in>set want. c < length (columns ct)" and h: "table_hist E ?D ct' m' s1 q iv' vs' hs'"
      and v: "visible ts hs' = Some bs" for ts q want dest bs iv' vs' hs'
  proof -
    have "length vs' < mv_fuel V" using T'(3) [OF q] table_hist_unique [OF h] assms(5) by (metis le_less_trans)
    then show ?thesis using read_at_visible(1) [OF T'(2) h assms(3)] want v same(1) proj by simp
  qed
  have "read_at E V d ts (p, i) want dest ct' m' s1 = write_buffer 0 (project ct want ?new) dest"
    if "is_readable ?ts ts" "\<forall>c\<in>set want. c < length (columns ct)" for ts want dest
  proof -
    from T(3) [OF assms(2)] obtain iv0 vs hs where "table_hist E ?D ct m s (p, i) iv0 vs hs" by blast
    from hist [OF assms(2) this] obtain iv' vs' where "table_hist E ?D ct' m' s1 (p, i) iv' vs' ((?ts, ?new) # hs)" by auto
    then show ?thesis using after [OF assms(2) that(2)] that(1) by (simp add: visible_simps)
  qed
  moreover have "read_at E V d ts q want dest ct' m' s1 = Inr out"
    if q: "q \<in> rows" and old: "q \<noteq> (p, i) \<or> \<not> is_readable ?ts ts" and rd: "read_at E V d ts q want dest ct m s = Inr out"
      and want: "\<forall>c\<in>set want. c < length (columns ct)" for q ts want dest out
  proof -
    from T(3) [OF q] obtain iv0 vs hs where h: "table_hist E ?D ct m s q iv0 vs hs" "length vs \<le> L" by blast
    have fuel: "length vs < mv_fuel V" using h(2) assms(5) by simp
    obtain bs where bs: "visible ts hs = Some bs" using read_at_visible(2) [OF T(2) h(1) assms(3) fuel want rd] by blast
    from hist [OF q h(1)] obtain iv' vs' where h': "table_hist E ?D ct' m' s1 q iv' vs' (if q = (p, i) then (?ts, ?new) # hs else hs)" by blast
    have "visible ts (if q = (p, i) then (?ts, ?new) # hs else hs) = Some bs" using old bs by (auto simp: visible_simps)
    from after [OF q want h' this] show ?thesis
      using read_at_visible(1) [OF T(2) h(1) assms(3) fuel want bs, of dest] rd by simp
  qed
  ultimately show ?thesis using upd ok' by blast
qed

definition demo_env :: "(vid_t \<rightharpoonup> size_t) col_env" where
  "demo_env = \<lparr>ce_table = map_cuckoo, ce_lock = True, ce_mem = \<lparr>dc_data = 0, dc_bytes = []\<rparr>, g_num_partitions = 1, ce_htap_etl = False\<rparr>"

definition demo_mv :: "DeltaStoreMalloc mv_env" where
  "demo_mv = \<lparr>mv_kind = RecordList_Full, mv_store = (\<lambda>_. malloc_store 2147483648 1), mv_consolidation = False,
     mv_num_stores = 1, mv_fuel = 5, mv_vtable = 0\<rparr>"

definition demo_txn :: Txn where
  "demo_txn = mk_Txn SteamGC \<lparr>txn_start_time = 7, txn_id = 939524096\<rparr> 0 0 0 False"

text \<open>A table with one attribute of one byte, in which the row 0, written at time 3, has the value 5.\<close>

definition demo_ct :: "(vid_t \<rightharpoonup> size_t) ColumnStore" where
  "demo_ct = Table.extend demo_table
     \<lparr>metaColumn = demo_column 8 [0, 0, 0, 0, 0, 0, 0, 0], meta_slots = [[mk_IndexVal 3 0]],
      columns = [PlainCol (demo_column 1 [5])], nParts = 0, elastic_mappings = [], elastic_offsets = {}\<rparr>"

lemma demo_ct_fields:
  "columns demo_ct = [PlainCol (demo_column 1 [5])]" "record_size demo_ct = 1"
  "column_size_offset_pairs demo_ct = [(1, 0)]" "meta_slot 0 0 demo_ct = Inr (mk_IndexVal 3 0)"
  by (simp_all add: demo_ct_def demo_table_def Table.defs meta_slot_def)

lemma demo_elem: "getElem (demo_column 1 [5]) 0 = Inr [5]"
  by (simp add: getElem_def demo_column_def at_part_def get_pid_def get_offset_def dc_size_def read_chunk_def slice_def)

lemma demo_table_ok:
  obtains A where "table_ok demo_env (malloc_store 2147483648 1) (pool_inv 2147483648 A) {(0, 0)} 0 demo_ct (\<lambda>_. 0)
    (mk_DeltaStoreMalloc [4294967296]) {}"
proof -
  let ?A = "\<Union>x\<in>set [4294967296]. region x"
  have "heap_ok [4294967296]" by (simp add: heap_ok_def)
  then have inv: "dsm_inv 2147483648 ?A (mk_DeltaStoreMalloc [4294967296]) {}" by (rule dsm_inv_new)
  have shape: "table_shape demo_ct"
    by (simp add: table_shape_def demo_ct_fields col_off_def) (simp add: demo_column_def)
  have "cols_ok 0 (columns demo_ct)"
    by (simp add: cols_ok_def demo_ct_fields) (simp add: col_inv_def row_ok_def demo_column_def chunk_vec_def get_pid_def get_offset_def)
  then have "table_hist demo_env (malloc_store 2147483648 1) demo_ct (\<lambda>_. 0) (mk_DeltaStoreMalloc [4294967296]) (0, 0)
      (mk_IndexVal 3 0) [] [(3, [5])]"
    by (simp add: table_hist_def row_hist_def demo_ct_fields mk_IndexVal_def ts_t_min_def elems_def demo_elem
        malloc_store_def classic_ptr_def classic_isValid_def classic_get_ptrOffset_def)
  moreover have "at_place (0, 0) (VID (mk_IndexVal 3 0))"
    by (simp add: at_place_def mk_IndexVal_def get_pid_def get_offset_def)
  moreover have "any_inv c" if "c \<in> set (columns demo_ct)" for c using \<open>cols_ok 0 (columns demo_ct)\<close> that by (simp add: cols_ok_def)
  moreover have "\<not> unused_place demo_ct r" if "meta_slot (fst r) (snd r) demo_ct = Inr iv" for r iv
    using that by (auto simp: unused_place_def demo_ct_def Table.defs demo_table_def meta_slot_def at_idx_def rbind_eq_Inr_iff split: if_splits)
  ultimately show thesis using inv shape by (intro that [of ?A]) (auto simp: table_ok_def)
qed

theorem update_snapshot_isolation_witness:
  "\<exists>ct' m' s'. updateRecord demo_env demo_mv 1 demo_txn (0, 0) (Some [9]) [] demo_ct (\<lambda>_. 0)
       (mk_DeltaStoreMalloc [4294967296]) = Inr (ct', m', s') \<and>
     read_at demo_env demo_mv 0 \<lparr>txn_start_time = 8, txn_id = 0\<rparr> (0, 0) [] [0] ct' m' s' = Inr [9] \<and>
     read_at demo_env demo_mv 0 \<lparr>txn_start_time = 5, txn_id = 0\<rparr> (0, 0) [] [0] ct' m' s' = Inr [5]"
proof -
  let ?s = "mk_DeltaStoreMalloc [4294967296]" and ?old = "\<lparr>txn_start_time = 5, txn_id = 0\<rparr> :: TxnTs"
  obtain A where ok: "table_ok demo_env (malloc_store 2147483648 1) (pool_inv 2147483648 A) {(0, 0)} 0 demo_ct (\<lambda>_. 0) ?s {}"
    by (rule demo_table_ok)
  have mode: "full_mode demo_mv 0 (malloc_store 2147483648 1)" "Suc 0 < mv_fuel demo_mv" by (simp_all add: full_mode_def demo_mv_def)
  have txn: "unat (delta_version demo_txn) = 0" "partition_id demo_txn = 0" "txn_start_time (txnTs demo_txn) = 7"
    by (simp_all add: demo_txn_def mk_Txn_def get_delta_ver_def)
  have al: "dsm_allocate 2147483648 1 (record_size demo_ct + sizeof_VersionSingle) (partition_id demo_txn) ?s =
      Inr (6442450944, demo_pool [4294967296])"
    using demo_allocations(1) by (simp add: demo_ct_fields sizeof_VersionSingle_def txn)
  have data: "sum_list (map (\<lambda>c. any_width (columns demo_ct ! c)) (updated_columns [] demo_ct)) \<le> length [9 :: byte]"
    by (simp add: demo_ct_fields) (simp add: demo_column_def)
  have "read_at demo_env demo_mv 0 ?old (0, 0) [] [0] demo_ct (\<lambda>_. 0) ?s = Inr [5]"
    by (simp add: read_at_def demo_ct_fields getIndexedRecord_def is_readable_def mk_IndexVal_def ts_t_min_def
        read_columns_def demo_elem write_buffer_def splice_at_def)
  moreover have "project demo_ct [] (concat (patch (updated_columns [] demo_ct) [9] (elems demo_env (columns demo_ct) 0))) = [9]"
    by (simp add: project_def demo_ct_fields elems_def demo_elem slice_def)
  moreover have "49 + unat (record_size demo_ct) \<le> unat (2147483648 :: size_t)" by (simp add: demo_ct_fields)
  ultimately show ?thesis
    using update_snapshot_isolation [OF ok singletonI mode(1) txn(1) mode(2) demo_ct_fields(4) _ al _ data]
    by (fastforce simp: txn is_readable_def ts_t_min_def mk_IndexVal_def write_buffer_def splice_at_def)
qed

end
