(* ===== verification/TableLifecycle.thy ===== *)
theory TableLifecycle
  imports SnapshotIsolation
begin

text \<open>
  The life of a table: its constructor lays out the record, an insertion gives a new row a history
  of one record and keeps the rows that exist, and a deletion makes a row unreadable.
\<close>

section \<open>Writing a new element\<close>

lemma UpdateInPlace_take:
  "unat usize \<le> length src \<Longrightarrow> UpdateInPlace cs off usize (Some src) = UpdateInPlace cs off usize (Some (take (unat usize) src))"
  unfolding UpdateInPlace_def by (rule update_chunks_take)

lemma rmap_nth:
  assumes "length ys = length xs" "\<And>i. i < length xs \<Longrightarrow> f (xs ! i) = Inr (ys ! i)"
  shows "rmap f xs = Inr ys"
  using assms
proof (induction xs arbitrary: ys)
  case (Cons x xs)
  then obtain y zs where ys: "ys = y # zs" by (cases ys) auto
  have "f x = Inr y" using Cons.prems(2) [of 0] ys by simp
  moreover have "rmap f xs = Inr zs" using Cons.prems(1) Cons.prems(2) [of "Suc _"] ys by (intro Cons.IH) auto
  ultimately show ?case by (simp add: ys)
qed simp

text \<open>An insertion writes the element to every master.\<close>

lemma cm_insertElem_ok:
  assumes inv: "cm_inv col" and row: "row_ok col v" and len: "length bs = unat (unit_size col)"
  obtains ms where "cm_insertElem v (Some bs) col = Inr (col\<lparr>master_versions := ms\<rparr>)"
    "cm_inv (col\<lparr>master_versions := ms\<rparr>)" "length ms = length (master_versions col)"
    "\<And>w. cm_row_ok col w \<Longrightarrow> cm_getElem (col\<lparr>master_versions := ms\<rparr>) w = (if same_row v w then Inr bs else cm_getElem col w)"
proof -
  let ?mv = "master_versions col" and ?p = "unat (get_pid v)" and ?u = "unat (unit_size col)" and ?n = "unat (capacity_per_partition col)"
  have p: "?p < unat (n_partitions col)" "unat (get_offset v) < ?n" using row by (simp_all add: row_ok_def word_less_nat_alt)
  note I = cm_inv_at [OF inv _ p(1)]
  have "\<exists>cs'. UpdateInPlace (?mv ! k ! ?p) (get_offset v) (unit_size col) (Some bs) = Inr (True, cs') \<and> chunk_vec ?u ?n cs' \<and>
      (\<forall>j < ?n. cell ?u cs' j = (if j = unat (get_offset v) then bs else cell ?u (?mv ! k ! ?p) j))" if "k < length ?mv" for k
    by (rule UpdateInPlace_cell [OF I(5) [OF that] p(2) len]) blast
  then obtain g where g: "\<And>k. k < length ?mv \<Longrightarrow> UpdateInPlace (?mv ! k ! ?p) (get_offset v) (unit_size col) (Some bs) = Inr (True, g k)"
    "\<And>k. k < length ?mv \<Longrightarrow> chunk_vec ?u ?n (g k)"
    "\<And>k j. k < length ?mv \<Longrightarrow> j < ?n \<Longrightarrow> cell ?u (g k) j = (if j = unat (get_offset v) then bs else cell ?u (?mv ! k ! ?p) j)"
    by metis
  define ms where "ms = map (\<lambda>k. (?mv ! k)[?p := g k]) [0..<length ?mv]"
  have ms: "length ms = length ?mv" "k < length ?mv \<Longrightarrow> ms ! k = (?mv ! k)[?p := g k]" for k by (simp_all add: ms_def)
  have run: "cm_insertElem v (Some bs) col = Inr (col\<lparr>master_versions := ms\<rparr>)"
  proof -
    have "rmap (\<lambda>master. rbind (at_part master (get_pid v)) (\<lambda>chunks.
        rbind (UpdateInPlace chunks (get_offset v) (unit_size col) (Some bs)) (\<lambda>(ok, chunks').
        if ok then Inr (master[?p := chunks']) else Inl (Assertion ''Out Of Memory Error'')))) ?mv = Inr ms"
      using ms g(1) I(1) by (intro rmap_nth) (simp_all add: at_part_def)
    then show ?thesis using row by (simp add: cm_insertElem_def Let_def row_ok_def)
  qed
  have vec: "chunk_vec ?u ?n (ms ! k ! j)" if "k < length ?mv" "j < unat (n_partitions col)" for k j
    using cm_inv_at(1,5) [OF inv that] that ms(2) g(2) by (cases "j = ?p") simp_all
  have inv': "cm_inv (col\<lparr>master_versions := ms\<rparr>)"
    unfolding cm_inv_def
  proof (intro conjI allI impI, goal_cases)
    case (3 k) then show ?case using inv ms by (simp add: cm_inv_def)
  next
    case (5 k j) then show ?case using vec ms(1) by simp
  qed (use inv ms(1) in \<open>simp_all add: cm_inv_def\<close>)
  have "cm_getElem (col\<lparr>master_versions := ms\<rparr>) w = (if same_row v w then Inr bs else cm_getElem col w)" if w: "cm_row_ok col w" for w
  proof -
    note Rw = cm_row_at [OF w]
    have "cm_row_ok (col\<lparr>master_versions := ms\<rparr>) w" using w ms(1) by (simp add: cm_row_ok_def row_ok_def)
    from cm_getElem_cell [OF inv' this] cm_getElem_cell [OF inv w] show ?thesis
      using Rw ms(2) [OF Rw(1)] g(3) [OF Rw(1,3)] cm_inv_at(1) [OF inv Rw(1,2)]
      by (cases "get_pid v = get_pid w") (auto simp: same_row_def nth_list_update word_unat_eq_iff)
  qed
  with run inv' ms(1) show thesis by (rule that)
qed

lemma col_insert_step:
  assumes "any_inv c" "any_valid c v" "any_width c \<le> length src"
  shows "\<exists>c'. col_insertElem v (Some src) c = Inr c' \<and> col_step E v c c' \<and> col_getElem E c' v = Inr (take (any_width c) src)"
proof (cases c)
  case (PlainCol x)
  then have x: "col_inv x" "row_ok x v" "length (take (unat (unit_size x)) src) = unat (unit_size x)"
    "unat (unit_size x) \<le> length src" using assms by simp_all
  obtain x' where st: "store_elem ''Out Of Memory Error'' v (Some (take (unat (unit_size x)) src)) x = Inr x'" "col_inv x'"
    and x': "\<exists>cs. x' = x\<lparr>primaryData := cs\<rparr>" and "\<And>w. row_ok x w \<Longrightarrow> getElem x' w = (if same_row v w then Inr (take (unat (unit_size x)) src) else getElem x w)"
    by (rule store_elem_cell [OF x(1-3)]) blast
  note get = this(4)
  have "insertElem v (Some src) x = Inr x'"
    using st(1) UpdateInPlace_take [OF x(4)] by (simp add: insertElem_def store_elem_def)
  moreover have "row_ok x' w = row_ok x w" for w using x' by (auto simp: row_ok_def)
  moreover have "unit_size x' = unit_size x" "byteOffset_record x' = byteOffset_record x" using x' by auto
  moreover have "getElem x' v = Inr (take (unat (unit_size x)) src)" using get [OF x(2)] by (simp add: same_row_def)
  ultimately show ?thesis using st(2) get PlainCol by (intro exI [of _ "PlainCol x'"]) (simp add: col_step_def)
next
  case (CircularCol x)
  then have x: "cm_inv x" "row_ok x v" "length (take (unat (unit_size x)) src) = unat (unit_size x)" "cm_row_ok x v"
    "unat (unit_size x) \<le> length src" using assms by (simp_all add: cm_row_ok_def)
  obtain ms where st: "cm_insertElem v (Some (take (unat (unit_size x)) src)) x = Inr (x\<lparr>master_versions := ms\<rparr>)"
    "cm_inv (x\<lparr>master_versions := ms\<rparr>)" "length ms = length (master_versions x)"
    "\<And>w. cm_row_ok x w \<Longrightarrow> cm_getElem (x\<lparr>master_versions := ms\<rparr>) w = (if same_row v w then Inr (take (unat (unit_size x)) src) else cm_getElem x w)"
    by (rule cm_insertElem_ok [OF x(1-3)]) (rule that)
  let ?x = "x\<lparr>master_versions := ms\<rparr>"
  have "cm_insertElem v (Some src) x = Inr ?x"
    using st(1) UpdateInPlace_take [OF x(5)] by (simp add: cm_insertElem_def)
  moreover have "cm_row_ok ?x w = cm_row_ok x w" for w using st(3) by (simp add: cm_row_ok_def row_ok_def)
  moreover have "cm_getElem ?x v = Inr (take (unat (unit_size x)) src)" using st(4) [OF x(4)] by (simp add: same_row_def)
  ultimately show ?thesis using st(2,4) CircularCol by (intro exI [of _ "CircularCol ?x"]) (simp add: col_step_def Column.defs)
qed (use assms in simp)

section \<open>Inserting a row\<close>

lemma slices_take:
  assumes "sum_list ws \<le> length data"
  shows "concat (map (\<lambda>k. take (ws ! k) (drop (sum_list (take k ws)) data)) [0..<length ws]) = take (sum_list ws) data"
  using assms
proof (induction ws rule: rev_induct)
  case (snoc w ws)
  define F where "F = (\<lambda>k. take ((ws @ [w]) ! k) (drop (sum_list (take k (ws @ [w]))) data))"
  have eq: "map F [0..<length ws] = map (\<lambda>k. take (ws ! k) (drop (sum_list (take k ws)) data)) [0..<length ws]"
    by (rule map_cong) (simp_all add: nth_append F_def)
  have "concat (map F [0..<length ws]) = take (sum_list ws) data" unfolding eq using snoc by simp
  moreover have "F (length ws) = take w (drop (sum_list ws) data)" by (simp add: F_def nth_append)
  ultimately have "concat (map F [0..<length (ws @ [w])]) = take (sum_list (ws @ [w])) data"
    using snoc by (simp add: take_add)
  then show ?case by (simp only: F_def)
qed simp

lemma insert_columns_ok:
  assumes sh: "table_shape ct" and ok: "cols_ok v (columns ct)" and len: "unat (record_size ct) \<le> length data"
  obtains cs where
    "rmap (\<lambda>col. col_insertElem v (Some (drop (unat (byteOffset_record (col_base col))) data)) col) (columns ct) = Inr cs"
    "length cs = length (columns ct)" "\<forall>k < length cs. col_step E v (columns ct ! k) (cs ! k)"
    "concat (elems E cs v) = take (unat (record_size ct)) data"
proof -
  let ?cols = "columns ct" and ?ws = "map any_width (columns ct)"
  have R: "unat (record_size ct) = sum_list ?ws" using sh by (simp add: table_shape_def)
  have "\<exists>c'. col_insertElem v (Some (drop (unat (byteOffset_record (col_base (?cols ! k)))) data)) (?cols ! k) = Inr c' \<and>
      col_step E v (?cols ! k) c' \<and> col_getElem E c' v = Inr (take (any_width (?cols ! k)) (drop (col_off ?cols k) data))"
    if k: "k < length ?cols" for k
  proof -
    have off: "unat (byteOffset_record (col_base (?cols ! k))) = col_off ?cols k" using sh k by (simp add: table_shape_def)
    have "any_width (?cols ! k) \<le> length (drop (col_off ?cols k) data)" using col_off_bound [OF k] len R by simp
    with col_insert_step [of "?cols ! k" v] k ok off show ?thesis by (simp add: cols_ok_nth)
  qed
  then obtain g where g: "\<And>k. k < length ?cols \<Longrightarrow>
      col_insertElem v (Some (drop (unat (byteOffset_record (col_base (?cols ! k)))) data)) (?cols ! k) = Inr (g k)"
    "\<And>k. k < length ?cols \<Longrightarrow> col_step E v (?cols ! k) (g k)"
    "\<And>k. k < length ?cols \<Longrightarrow> col_getElem E (g k) v = Inr (take (any_width (?cols ! k)) (drop (col_off ?cols k) data))"
    by metis
  let ?cs = "map g [0..<length ?cols]"
  have "elems E ?cs v = map (\<lambda>k. take (?ws ! k) (drop (sum_list (take k ?ws)) data)) [0..<length ?ws]"
    using g(3) by (simp add: elems_def comp_def col_off_def take_map)
  then have "concat (elems E ?cs v) = take (unat (record_size ct)) data"
    using slices_take [of ?ws data] len R by simp
  moreover have "rmap (\<lambda>col. col_insertElem v (Some (drop (unat (byteOffset_record (col_base col))) data)) col) ?cols = Inr ?cs"
    using g(1) by (intro rmap_nth) simp_all
  ultimately show thesis using g(2) by (intro that [of ?cs]) simp_all
qed

text \<open>The entry of a place: the metadata column finds it by the row identifier.\<close>

definition meta_ok :: "'h ColumnStore \<Rightarrow> bool" where
  "meta_ok ct \<longleftrightarrow> col_inv (metaColumn ct) \<and> col_type (metaColumn ct) = META \<and> unit_size (metaColumn ct) \<noteq> 0"

lemma meta_getElem_ok:
  assumes "meta_ok ct" "row_ok (metaColumn ct) v" "get_m_version v = 0"
  shows "meta_getElem v ct = Inr (unat (get_pid v), unat (get_offset v))"
proof -
  let ?c = "metaColumn ct"
  have I: "col_inv ?c" "col_type ?c = META" "unit_size ?c \<noteq> 0" using assms(1) by (simp_all add: meta_ok_def)
  note V = col_inv_vec [OF I(1) assms(2)]
  obtain c where c: "primaryData ?c ! unat (get_pid v) = [c]" using V(2) by (auto simp: chunk_vec_def)
  note A = chunk_arith [OF V(2) [unfolded c] V(3)]
  have "get_offset v * unit_size ?c + unit_size ?c \<le> dc_size c"
    using A(2,3) elem_bound [OF V(3), of "unat (unit_size ?c)"] by (simp add: word_le_nat_alt)
  moreover have "unat (get_offset v * unit_size ?c div unit_size ?c) = unat (get_offset v)"
    using A(1) I(3) by (simp add: unat_div_distrib unat_eq_0)
  ultimately show ?thesis
    using I(2) assms(3) V(1) c by (simp add: meta_getElem_def getElem_ref_def at_part_def Let_def)
qed

lemma row_hist_vid_part [simp]:
  "row_hist E D (ct\<lparr>vid_part := vp\<rparr>) m s iv vs hs = row_hist E D ct m s iv vs hs"
  "table_shape (ct\<lparr>vid_part := vp\<rparr>) = table_shape ct" "meta_slot p i (ct\<lparr>vid_part := vp\<rparr>) = meta_slot p i ct"
  by (simp_all add: row_hist_def table_shape_def meta_slot_def)

text \<open>The place the next record of a partition goes to.\<close>

definition room_for :: "'h ColumnStore \<Rightarrow> rowid_t \<Rightarrow> partition_id_t \<Rightarrow> master_version_t \<Rightarrow> bool" where
  "room_for ct idx pid mv \<longleftrightarrow>
     indexed ct \<and> meta_ok ct \<and> row_ok (metaColumn ct) (create_vid idx pid 0) \<and> unat idx < 2 ^ 40 \<and>
     (\<exists>iv. meta_slot (unat pid) (unat idx) ct = Inr iv) \<and> (\<forall>c\<in>set (columns ct). any_valid c (create_vid idx pid mv))"

lemma insertRecord_run:
  assumes sh: "table_shape ct" and inv: "\<forall>c\<in>set (columns ct). any_inv c"
    and pid: "pid = pid0 mod tbl_n_partitions ct" and idx: "at_idx (vid_part ct) (unat pid) = Inr idx"
    and room: "room_for ct idx pid mv" and len: "unat (record_size ct) \<le> length data"
    and iv: "meta_slot (unat pid) (unat idx) ct = Inr iv"
  defines "v \<equiv> create_vid idx pid mv"
  obtains cs where
    "insertRecord data xid pid0 mv ct = Inr (Some (unat pid, unat idx),
       set_slot (unat pid) (unat idx) (iv\<lparr>iv_t_min := ts_t_min xid, iv_deleted := False, VID := v\<rparr>)
         (ct\<lparr>vid_part := (vid_part ct)[unat pid := idx + 1], columns := cs\<rparr>))"
    "length cs = length (columns ct)" "\<forall>k < length cs. col_step E v (columns ct ! k) (cs ! k)"
    "concat (elems E cs v) = take (unat (record_size ct)) data" "cols_ok v (columns ct)"
proof -
  let ?ct1 = "ct\<lparr>vid_part := (vid_part ct)[unat pid := idx + 1]\<rparr>" and ?w = "create_vid idx pid 0"
  let ?iv = "iv\<lparr>iv_t_min := ts_t_min xid, iv_deleted := False, VID := v\<rparr>"
  have ok: "cols_ok v (columns ct)" using inv room by (simp add: cols_ok_def room_for_def v_def)
  obtain cs where
    cs: "rmap (\<lambda>col. col_insertElem v (Some (drop (unat (byteOffset_record (col_base col))) data)) col) (columns ct) = Inr cs"
      "length cs = length (columns ct)" "\<forall>k < length cs. col_step E v (columns ct ! k) (cs ! k)"
      "concat (elems E cs v) = take (unat (record_size ct)) data"
    by (rule insert_columns_ok [OF sh ok len]) (rule that)
  have off: "get_offset ?w = idx" "get_pid ?w = pid" "get_m_version ?w = 0"
    using room word_eq_mask_fixed [of idx 40] by (simp_all add: room_for_def)
  have "meta_getElem ?w ?ct1 = Inr (unat (get_pid ?w), unat (get_offset ?w))"
    using room off(3) by (intro meta_getElem_ok) (simp_all add: room_for_def meta_ok_def)
  then have m: "meta_getElem ?w ?ct1 = Inr (unat pid, unat idx)" by (simp only: off)
  have "init_slot xid v (unat pid) (unat idx) ?ct1 = Inr (set_slot (unat pid) (unat idx) ?iv ?ct1)"
    using iv by (simp add: init_slot_def)
  moreover have "(set_slot (unat pid) (unat idx) ?iv ?ct1)\<lparr>columns := cs\<rparr> = set_slot (unat pid) (unat idx) ?iv (?ct1\<lparr>columns := cs\<rparr>)"
    by (simp add: set_slot_def)
  ultimately have "insertRecord data xid pid0 mv ct = Inr (Some (unat pid, unat idx), set_slot (unat pid) (unat idx) ?iv (?ct1\<lparr>columns := cs\<rparr>))"
    using idx m cs(1) room by (simp add: insertRecord_def Let_def pid [symmetric] v_def [symmetric] room_for_def)
  with cs ok show thesis by (intro that [of cs]) simp_all
qed

lemma table_insert:
  fixes xid :: xid_t
  assumes ok: "table_ok E D I rows L ct m s U" and null: "po_isValid (st_ops D s) 0 = Inr False"
    and pid: "pid = pid0 mod tbl_n_partitions ct" and idx: "at_idx (vid_part ct) (unat pid) = Inr idx"
    and room: "room_for ct idx pid mv" and len: "unat (record_size ct) \<le> length data"
  defines "r \<equiv> (unat pid, unat idx)" and "new \<equiv> (ts_t_min xid, take (unat (record_size ct)) data)"
  obtains ct' where "insertRecord data xid pid0 mv ct = Inr (Some r, ct')" "r \<notin> rows"
    "table_ok E D I (insert r rows) L ct' m s U"
    "length (columns ct') = length (columns ct)" "column_size_offset_pairs ct' = column_size_offset_pairs ct"
    "\<exists>iv. table_hist E D ct' m s r iv [] [new]"
    "\<And>q iv vs hs. q \<in> rows \<Longrightarrow> table_hist E D ct m s q iv vs hs \<Longrightarrow> table_hist E D ct' m s q iv vs hs"
proof -
  note T = table_okD [OF ok]
  let ?R = "unat (record_size ct)" and ?v = "create_vid idx pid mv"
  have p: "unat pid < length (vid_part ct)" "vid_part ct ! unat pid = idx"
    using idx by (simp_all add: at_idx_def split: if_splits)
  obtain iv where iv: "meta_slot (unat pid) (unat idx) ct = Inr iv" using room by (auto simp: room_for_def)
  have unused: "unused_place ct r" using p by (simp add: unused_place_def r_def)
  then have fresh: "r \<notin> rows" "delta_list iv = 0" using T(5) [OF unused] iv by (simp_all add: r_def)
  let ?iv = "iv\<lparr>iv_t_min := ts_t_min xid, iv_deleted := False, VID := ?v\<rparr>"
  let ?ct1 = "ct\<lparr>vid_part := (vid_part ct)[unat pid := idx + 1]\<rparr>"
  have inv_cols: "\<forall>c\<in>set (columns ct). any_inv c" using T(4) by blast
  obtain cs where run: "insertRecord data xid pid0 mv ct =
      Inr (Some (unat pid, unat idx), set_slot (unat pid) (unat idx) ?iv (?ct1\<lparr>columns := cs\<rparr>))"
    and cs: "length cs = length (columns ct)" "\<forall>k < length cs. col_step E ?v (columns ct ! k) (cs ! k)"
      "concat (elems E cs ?v) = take ?R data" "cols_ok ?v (columns ct)"
    by (rule insertRecord_run [OF T(2) inv_cols pid idx room len iv]) (rule that)
  define ct' where "ct' = set_slot (unat pid) (unat idx) ?iv (?ct1\<lparr>columns := cs\<rparr>)"
  have ct'_fields: "columns ct' = cs" "record_size ct' = record_size ct" "vid_part ct' = (vid_part ct)[unat pid := idx + 1]"
    "column_size_offset_pairs ct' = column_size_offset_pairs ct" by (simp_all add: ct'_def)
  have slot: "meta_slot (fst q) (snd q) ct' = (if q = r then Inr ?iv else meta_slot (fst q) (snd q) ct)" for q
    using meta_slot_set [of "unat pid" "unat idx" "?ct1\<lparr>columns := cs\<rparr>" iv "fst q" "snd q"] iv
    by (cases q) (auto simp: ct'_def r_def)
  have place: "at_place r ?v" using room word_eq_mask_fixed [of idx 40] by (simp add: at_place_def r_def room_for_def)
  have "cols_ok ?v cs" using cols_ok_step [OF cs(4,1)] cs(1,2) by simp
  then have "row_hist E D ct' m s ?iv [] [new]"
    using null fresh(2) cs(3) by (simp add: row_hist_def ct'_fields new_def)
  then have this_row: "table_hist E D ct' m s r ?iv [] [new]" using slot [of r] by (simp add: table_hist_def)
  have other: "table_hist E D ct' m s q iv2 vs2 hs2" if "q \<in> rows" "table_hist E D ct m s q iv2 vs2 hs2" for q iv2 vs2 hs2
  proof -
    have ne: "r \<noteq> q" using that(1) fresh(1) by blast
    have h: "row_hist E D ?ct1 m s iv2 vs2 hs2" "meta_slot (fst q) (snd q) ct = Inr iv2" using that(2) by (simp_all add: table_hist_def)
    have apart: "\<not> same_row ?v (VID iv2)" by (rule at_place_apart [OF place T(6) [OF that(1) h(2)] ne])
    have "row_hist E D ct' m s iv2 vs2 hs2"
      unfolding ct'_def by (rule row_hist_frame [OF h(1) _ _ _ apart]) (use T(2) cs in simp_all)
    then show ?thesis using h(2) ne slot [of q] by (simp add: table_hist_def)
  qed
  have still_unused: "q \<notin> insert r rows" "delta_list x = 0"
    if "unused_place ct' q" "meta_slot (fst q) (snd q) ct' = Inr x" for q x
  proof -
    have far: "unat (idx + 1) = Suc (unat idx)" using room unat_add_no_wrap [of idx 1] by (simp add: room_for_def)
    have ne: "q \<noteq> r" using that(1) p(1) far by (auto simp: unused_place_def ct'_fields r_def)
    have "unused_place ct q"
      using that(1) p far by (cases "fst q = unat pid") (auto simp: unused_place_def ct'_fields)
    then show "q \<notin> insert r rows" "delta_list x = 0" using T(5) [of q x] that(2) slot [of q] ne by simp_all
  qed
  have "table_ok E D I (insert r rows) L ct' m s U"
    unfolding table_ok_def ct'_fields
  proof (intro conjI ballI allI impI, goal_cases)
    case 1 show ?case by (rule T(1))
  next
    case 2 show ?case unfolding ct'_def by (rule table_shape_step [where E = E and v = ?v]) (use T(2) cs in simp_all)
  next
    case (3 c) then show ?case using cs(1,2) by (auto simp: in_set_conv_nth col_step_def)
  next
    case (4 q) show ?case
    proof (cases "q = r")
      case True then show ?thesis using this_row place by (intro exI [of _ ?iv] exI [of _ "[]"] exI [of _ "[new]"]) simp
    next
      case False then show ?thesis using 4 T(3) [of q] other [of q] by blast
    qed
  next
    case (5 q x) then show ?case using still_unused by blast
  next
    case (6 q x) then show ?case using still_unused by blast
  qed
  with run fresh(1) cs(1) ct'_fields this_row other show thesis by (intro that [of ct']) (auto simp: r_def ct'_def)
qed

section \<open>Constructing a table\<close>

lemma mk_CircularMasterColumn_inv:
  assumes "mk_CircularMasterColumn htap g mems etl cid name ty usize off numa reserved = Inr col"
    and "\<forall>ms\<in>set mems. mems_ok (partition_capacity reserved (if numa then g else 1)) usize ms"
    and parts: "unat (if numa then g else 1) \<le> MAX_PARTITIONS"
  shows "cm_inv col" "unit_size col = usize" "byteOffset_record col = off"
proof -
  let ?parts = "if numa then g else 1 :: partition_id_t" and ?packs = "num_bit_packs (unat (partition_capacity reserved (if numa then g else 1)))"
  have col: "n_partitions col = ?parts" "capacity_per_partition col = partition_capacity reserved ?parts" "unit_size col = usize"
    "byteOffset_record col = off" "cm_touched col = replicate MAX_PARTITIONS False"
    "\<forall>ms\<in>set mems. unat ?parts \<le> length ms"
    "master_versions col = map (\<lambda>ms. map (\<lambda>m. [m\<lparr>dc_bytes := warm_up (dc_bytes m)\<rparr>]) (take (unat ?parts) ms) @
                           replicate (MAX_PARTITIONS - unat ?parts) []) mems"
    "upd_bit_masks col = map (\<lambda>ms. replicate (unat ?parts) (replicate ?packs (bs_new BIT_PACK_SIZE)) @
                           replicate (MAX_PARTITIONS - unat ?parts) []) mems"
    using assms(1) by (auto simp: mk_CircularMasterColumn_def Let_def rbind_eq_Inr_iff list_all_iff split: if_splits)
  show "unit_size col = usize" "byteOffset_record col = off" by (rule col(3,4))+
  have vec: "chunk_vec (unat usize) (unat (capacity_per_partition col)) (master_versions col ! k ! j)"
    if "k < length mems" "j < unat ?parts" for k j
  proof -
    have k: "mems ! k \<in> set mems" using that(1) by simp
    then have j: "j < length (mems ! k)" using col(6) that(2) by fastforce
    then have "mems ! k ! j \<in> set (mems ! k)" by simp
    then have "length (dc_bytes (mems ! k ! j)) = unat (capacity_per_partition col) * unat usize"
      "unat (dc_data (mems ! k ! j)) + unat (capacity_per_partition col) * unat usize < 2 ^ 63"
      using assms(2) k unfolding col(2) mems_ok_def by blast+
    then show ?thesis using that j by (simp add: col(7) nth_append chunk_vec_def)
  qed
  have packs: "packs_ok (unat (capacity_per_partition col)) (upd_bit_masks col ! k ! j)"
    if "k < length mems" "j < unat ?parts" for k j
    using that num_bit_packs_enough by (simp add: col(2,8) nth_append packs_ok_def bs_new_def)
  show "cm_inv col"
    unfolding cm_inv_def
  proof (intro conjI allI impI, goal_cases)
    case 1 then show ?case using parts col(1,5) by simp
  next
    case 2 then show ?case by (simp add: col(7,8))
  next
    case (3 k) then show ?case using col(1,6) by (simp add: col(7))
  next
    case (4 k) then show ?case using col(1) by (simp add: col(7,8))
  next
    case (5 k j) then show ?case using vec [of k j] by (simp add: col(1,3) col(7) [THEN arg_cong, of length])
  next
    case (6 k j) then show ?case using packs [of k j] by (simp add: col(1) col(7) [THEN arg_cong, of length])
  qed
qed

text \<open>
  The memory manager returns the memory that a column asks for: one chunk vector for the plain and
  the lazy columns, one for each master of the others.
\<close>

fun mems_fit :: "'h col_env \<Rightarrow> bool \<Rightarrow> size_t \<Rightarrow> ColumnDef \<times> col_mems \<Rightarrow> bool" where
  "mems_fit E numa reserved (t, mems) =
     (let cap = partition_capacity reserved (if numa then g_num_partitions E else 1)
      in case cd_snapshot t of
           CircularMaster \<Rightarrow> (\<forall>ms\<in>set (cm_masters mems). mems_ok cap (cd_width t) ms)
         | _ \<Rightarrow> mems_ok cap (cd_width t) (cm_plain mems))"

text \<open>Lazy columns are outside the invariant of the tables; they have a theory of their own.\<close>

definition no_lazy :: "(ColumnDef \<times> col_mems) list \<Rightarrow> bool" where
  "no_lazy defs \<longleftrightarrow> (\<forall>t\<in>set defs. cd_snapshot (fst t) \<noteq> LazyMaster)"

lemma mk_AnyColumn_inv:
  assumes "mk_AnyColumn E nodes mems cid off numa reserved t = Inr c" "mems_fit E numa reserved (t, mems)"
    and "unat (if numa then g_num_partitions E else 1) \<le> MAX_PARTITIONS" and "cd_snapshot t \<noteq> LazyMaster"
  shows "any_inv c" "any_width c = unat (cd_width t)" "byteOffset_record (col_base c) = off"
proof -
  have "any_inv c \<and> any_width c = unat (cd_width t) \<and> byteOffset_record (col_base c) = off"
  proof (cases "cd_snapshot t")
    case NoSnapshot
    with assms(1) obtain x where x: "c = PlainCol x" "mk_Column (g_num_partitions E) nodes (cm_plain mems) cid (cd_name t) (cd_type t)
        (cd_width t) off numa reserved NoSnapshot = Inr x" by (auto simp: mk_AnyColumn_def rbind_eq_Inr_iff)
    have "mems_ok (partition_capacity reserved (if numa then g_num_partitions E else 1)) (cd_width t) (cm_plain mems)"
      using assms(2) NoSnapshot by (simp add: Let_def split: if_splits)
    from mk_Column_inv [OF x(2) this] x show ?thesis
      by (auto simp: mk_Column_def Let_def rbind_eq_Inr_iff split: if_splits)
  next
    case CircularMaster
    with assms(1) obtain x where x: "c = CircularCol x" "mk_CircularMasterColumn (ce_htap_etl E) (g_num_partitions E) (cm_masters mems)
        (cm_etl mems) cid (cd_name t) (cd_type t) (cd_width t) off numa reserved = Inr x"
      by (auto simp: mk_AnyColumn_def rbind_eq_Inr_iff)
    have "\<forall>ms\<in>set (cm_masters mems). mems_ok (partition_capacity reserved (if numa then g_num_partitions E else 1)) (cd_width t) ms"
      using assms(2) CircularMaster by (simp add: Let_def split: if_splits)
    from mk_CircularMasterColumn_inv [OF x(2) this assms(3)] x(1) show ?thesis by (simp add: Column.defs)
  qed (use assms(1,4) in \<open>simp_all add: mk_AnyColumn_def\<close>)
  then show "any_inv c" "any_width c = unat (cd_width t)" "byteOffset_record (col_base c) = off" by blast+
qed

definition laid_out :: "'h ColumnStore \<Rightarrow> size_t \<Rightarrow> bool" where
  "laid_out ct off \<longleftrightarrow>
     length (column_size_offset_pairs ct) = length (columns ct) \<and> (\<forall>c\<in>set (columns ct). any_inv c) \<and>
     unat off = sum_list (map any_width (columns ct)) \<and> unat off < 2 ^ 16 \<and>
     (\<forall>k < length (columns ct).
        unat (fst (column_size_offset_pairs ct ! k)) = any_width (columns ct ! k) \<and>
        unat (snd (column_size_offset_pairs ct ! k)) = col_off (columns ct) k \<and>
        unat (byteOffset_record (col_base (columns ct ! k))) = col_off (columns ct) k)"

lemma unat_ucast_16: "unat (x :: size_t) < 2 ^ 16 \<Longrightarrow> unat (ucast x :: 16 word) = unat x"
  by (simp add: unsigned_ucast_eq take_bit_nat_eq_self)

lemma laid_out_snoc:
  assumes L: "laid_out ct off" and c: "any_inv c" "any_width c = unat w" "byteOffset_record (col_base c) = off"
    and small: "unat off + unat w < 2 ^ 16"
  shows "laid_out (ct\<lparr>columns := columns ct @ [c], column_size := cz, column_size_offsets := co,
       column_size_offset_pairs := column_size_offset_pairs ct @ [(ucast w, ucast off)]\<rparr>) (off + w)"
proof -
  have add: "unat (off + w) = unat off + unat w" using small by (intro unat_add_no_wrap) simp
  have nw: "unat (ucast w :: 16 word) = unat w" "unat (ucast off :: 16 word) = unat off"
    using small by (simp_all add: unat_ucast_16)
  have off: "col_off (columns ct @ [c]) k = col_off (columns ct) k" if "k \<le> length (columns ct)" for k
    using that by (simp add: col_off_def)
  have all: "col_off (columns ct) (length (columns ct)) = unat off" using L by (simp add: laid_out_def col_off_def)
  let ?n = "length (columns ct)"
  have len: "length (column_size_offset_pairs ct) = ?n" using L by (simp add: laid_out_def)
  have "unat (fst ((column_size_offset_pairs ct @ [(ucast w, ucast off)]) ! k)) = any_width ((columns ct @ [c]) ! k) \<and>
      unat (snd ((column_size_offset_pairs ct @ [(ucast w, ucast off)]) ! k)) = col_off (columns ct @ [c]) k \<and>
      unat (byteOffset_record (col_base ((columns ct @ [c]) ! k))) = col_off (columns ct @ [c]) k" if "k < Suc ?n" for k
  proof (cases "k = ?n")
    case True
    then show ?thesis using len nw c all off [of k] by (simp add: nth_append)
  next
    case False
    then show ?thesis using that len L off [of k] by (simp add: nth_append laid_out_def)
  qed
  then show ?thesis using L c add small len by (simp add: laid_out_def)
qed

lemma add_columns_ok:
  assumes "add_columns E nodes numa reserved cid off ts ct = Inr (off', ct')" and "\<forall>t\<in>set ts. mems_fit E numa reserved t"
    and "unat (if numa then g_num_partitions E else 1) \<le> MAX_PARTITIONS"
    and "unat off + sum_list (map (\<lambda>t. unat (cd_width (fst t))) ts) < 2 ^ 16" and "laid_out ct off" and "no_lazy ts"
  shows "laid_out ct' off' \<and> map any_width (columns ct') = map any_width (columns ct) @ map (\<lambda>t. unat (cd_width (fst t))) ts \<and>
    metaColumn ct' = metaColumn ct \<and> meta_slots ct' = meta_slots ct \<and> indexed ct' = indexed ct \<and> vid_part ct' = vid_part ct \<and>
    tbl_n_partitions ct' = tbl_n_partitions ct"
  using assms
proof (induction E nodes numa reserved cid off ts ct rule: add_columns.induct)
  case (2 E nodes numa reserved cid off t mems ts ct)
  let ?w = "cd_width t"
  from 2(2) obtain c where c: "mk_AnyColumn E nodes mems cid off numa reserved t = Inr c" by (auto simp: rbind_eq_Inr_iff)
  let ?ct = "ct\<lparr>columns := columns ct @ [c], column_size := column_size ct @ [ucast ?w],
    column_size_offsets := column_size_offsets ct @ [ucast off],
    column_size_offset_pairs := column_size_offset_pairs ct @ [(ucast ?w, ucast off)]\<rparr>"
  have run: "add_columns E nodes numa reserved (cid + 1) (off + ?w) ts ?ct = Inr (off', ct')" using 2(2) c by simp
  have fit: "mems_fit E numa reserved (t, mems)" "\<forall>t\<in>set ts. mems_fit E numa reserved t" using 2(3) by simp_all
  have lazy: "cd_snapshot t \<noteq> LazyMaster" "no_lazy ts" using 2(7) by (simp_all add: no_lazy_def)
  note C = mk_AnyColumn_inv [OF c fit(1) 2(4) lazy(1)]
  have small: "unat off + unat ?w < 2 ^ 16" using 2(5) by simp
  have add: "unat (off + ?w) = unat off + unat ?w" using small by (intro unat_add_no_wrap) simp
  have room: "unat (off + ?w) + sum_list (map (\<lambda>t. unat (cd_width (fst t))) ts) < 2 ^ 16" using 2(5) add by simp
  from 2(1) [OF run fit(2) 2(4) room laid_out_snoc [OF 2(6) C small] lazy(2)] C(2) show ?case by simp
qed simp

lemma rmap_mem: "rmap f xs = Inr ys \<Longrightarrow> y \<in> set ys \<Longrightarrow> \<exists>x\<in>set xs. f x = Inr y"
proof (induction xs arbitrary: ys)
  case (Cons x xs)
  then obtain z zs where "f x = Inr z" "rmap f xs = Inr zs" "ys = z # zs" by (auto simp: rbind_eq_Inr_iff)
  then show ?case using Cons by (cases "y = z") auto
qed simp

text \<open>The slots of a fresh metadata column have no versions.\<close>

lemma fresh_slots:
  assumes "initializeMetaColumn col = Inr slots" "at_idx slots p = Inr xs" "at_idx xs i = Inr iv"
  shows "delta_list iv = 0"
proof -
  have xs: "xs \<in> set slots" "iv \<in> set xs" using assms(2,3) by (auto simp: at_idx_def split: if_splits)
  obtain js where js: "rmap (\<lambda>j. rbind (at_idx (primaryData col) j) (\<lambda>chunks.
                rbind (rmap (\<lambda>c. rbind (rassert (dc_size c mod unit_size col = 0) ''chunk.size % unit_size == 0'') (\<lambda>_.
                         Inr (map (\<lambda>i. mk_IndexVal 0 (create_vid2 (of_nat i) (of_nat j)))
                                [0..<unat (dc_size c div unit_size col)]))) chunks)
                  (\<lambda>slots. Inr (concat slots)))) js = Inr slots"
    using assms(1) by (auto simp: initializeMetaColumn_def rbind_eq_Inr_iff)
  from rmap_mem [OF js xs(1)] obtain j chunks ps where ps: "xs = concat ps"
    "rmap (\<lambda>c. rbind (rassert (dc_size c mod unit_size col = 0) ''chunk.size % unit_size == 0'') (\<lambda>_.
                         Inr (map (\<lambda>i. mk_IndexVal 0 (create_vid2 (of_nat i) (of_nat j)))
                                [0..<unat (dc_size c div unit_size col)]))) chunks = Inr ps"
    by (auto simp: rbind_eq_Inr_iff)
  from xs(2) ps(1) obtain q where q: "q \<in> set ps" "iv \<in> set q" by auto
  from rmap_mem [OF ps(2) q(1)] q(2) show ?thesis by (auto simp: rbind_eq_Inr_iff mk_IndexVal_def)
qed

lemma mk_ColumnStore_ok:
  assumes run: "mk_ColumnStore E nodes sz meta_mems tid name defs is_indexed numa reserved = Inr ct"
    and fit: "\<forall>t\<in>set defs. mems_fit E numa reserved t"
    and meta: "mems_ok (partition_capacity reserved (if numa then g_num_partitions E else 1)) sz meta_mems" "sz \<noteq> 0"
    and parts: "unat (if numa then g_num_partitions E else 1) \<le> MAX_PARTITIONS"
    and small: "sum_list (map (\<lambda>t. unat (cd_width (fst t))) defs) < 2 ^ 16" and lazy: "no_lazy defs"
  shows "table_shape ct" "\<forall>c\<in>set (columns ct). any_inv c" "meta_ok ct" "indexed ct = is_indexed"
    "map any_width (columns ct) = map (\<lambda>t. unat (cd_width (fst t))) defs"
    "vid_part ct = replicate MAX_PARTITIONS 0" "tbl_n_partitions ct = (if numa then g_num_partitions E else 1)"
    "meta_slot p i ct = Inr iv \<Longrightarrow> delta_list iv = 0"
proof -
  obtain tbl attrs mc slots where tbl: "mk_Table tid name (map fst defs) = Inr (tbl, attrs)"
    and mc: "mk_Column (g_num_partitions E) nodes meta_mems 0 (name @ ''_meta'') META sz 0 numa reserved NoSnapshot = Inr mc"
    and slots: "initializeMetaColumn mc = Inr slots"
    using run by (auto simp: mk_ColumnStore_def rbind_eq_Inr_iff)
  define ct0 where "ct0 = Table.extend (tbl\<lparr>indexed := is_indexed, n_columns := of_nat (length defs),
                                 tbl_n_partitions := (if numa then g_num_partitions E else 1)\<rparr>)
                 \<lparr>metaColumn = mc, meta_slots = slots, columns = [] :: 'a AnyColumn list, nParts = 0, elastic_mappings = [], elastic_offsets = {}\<rparr>"
  note ct0 = ct0_def
  obtain rec_size ct1 where add: "add_columns E nodes numa reserved 0 0 defs ct0 = Inr (rec_size, ct1)"
    and ct: "\<exists>t. ct = ct1\<lparr>record_size := rec_size, record_capacity := reserved, total_memory_reserved := t\<rparr>"
    using run tbl mc slots unfolding mk_ColumnStore_def by (auto simp: Let_def rbind_eq_Inr_iff ct0_def [symmetric])
  have t: "vid_part tbl = replicate MAX_PARTITIONS 0" "column_size_offset_pairs tbl = []"
    using tbl by (auto simp: mk_Table_def rbind_eq_Inr_iff)
  have "laid_out ct0 0" using t by (simp add: laid_out_def ct0 Table.defs)
  with add_columns_ok [OF add fit parts _ _ lazy] small have
    A: "laid_out ct1 rec_size" "map any_width (columns ct1) = map (\<lambda>t. unat (cd_width (fst t))) defs" "metaColumn ct1 = mc"
      "meta_slots ct1 = slots" "indexed ct1 = is_indexed" "vid_part ct1 = replicate MAX_PARTITIONS 0"
      "tbl_n_partitions ct1 = (if numa then g_num_partitions E else 1)"
    using t by (simp_all add: ct0 Table.defs)
  have "col_inv mc" "col_type mc = META" "unit_size mc = sz"
    using mk_Column_inv [OF mc meta(1)] mc by (auto simp: mk_Column_def Let_def rbind_eq_Inr_iff split: if_splits)
  then show "meta_ok ct" using A(3) ct meta(2) by (auto simp: meta_ok_def)
  show "table_shape ct" "\<forall>c\<in>set (columns ct). any_inv c" using A(1) ct by (auto simp: table_shape_def laid_out_def)
  show "indexed ct = is_indexed" "map any_width (columns ct) = map (\<lambda>t. unat (cd_width (fst t))) defs"
    "vid_part ct = replicate MAX_PARTITIONS 0" "tbl_n_partitions ct = (if numa then g_num_partitions E else 1)"
    using A ct by auto
  show "delta_list iv = 0" if "meta_slot p i ct = Inr iv"
    using that ct A(4) fresh_slots [OF slots, of p _ i iv] by (auto simp: meta_slot_def rbind_eq_Inr_iff)
qed

section \<open>Deleting a row\<close>

text \<open>A deleted entry is refused on both paths: at the entry, and again after the search of the chain.\<close>

lemma deleted_row_unreadable:
  assumes "iv_deleted iv" "full_mode V d D" "chain (st_ops D s) m R (delta_list iv) vs" "length vs < mv_fuel V"
  shows "\<exists>e. getIndexedRecord E V d ts iv want dest ct m s = Inl e"
proof (cases "is_readable (iv_t_min iv) ts")
  case True
  then show ?thesis using assms(1) by (simp add: getIndexedRecord_def)
next
  case False
  have M: "mv_kind V = RecordList_Full" "\<not> mv_consolidation V" "mv_store V d = D" using assms(2) by (simp_all add: full_mode_def)
  obtain b where valid: "po_isValid (st_ops D s) (delta_list iv) = Inr b" using assms(3) by (cases vs) auto
  show ?thesis
  proof (cases "first_readable ts vs")
    case None
    with get_readable_ver_chain [OF assms(3,4), of ts RefHead] show ?thesis
      using False M valid by (simp add: getIndexedRecord_def full_get_readable_version_def Let_def)
  next
    case (Some v)
    obtain a t bs where v: "v = (a, t, bs)" by (cases v)
    from get_readable_ver_chain [OF assms(3,4), of ts RefHead] Some v obtain l r where
      "get_readable_ver (st_ops D s) VersionSingle_off_next m ts (mv_fuel V) (RefHead, delta_list iv) = Inr (Some (l, r))"
      "po_ptr (st_ops D s) r = Inr a" by auto
    moreover have "(a, t, bs) \<in> set vs" using Some v by (simp add: first_readable_mem)
    note chain_member(1,2,4) [OF assms(3) this]
    ultimately show ?thesis
      using False M valid assms(1) by (simp add: getIndexedRecord_def full_get_readable_version_def Let_def)
  qed
qed

context version_store
begin

lemma table_delete:
  assumes ok: "table_ok E D inv rows L ct m s U" and row: "(p, i) \<in> rows"
    and V: "full_mode V (unat (delta_version txn)) D" and iv: "meta_slot p i ct = Inr iv"
    and room: "ver_extent (unat (record_size ct)) \<le> room (record_size ct + sizeof_VersionSingle)"
    and al: "st_allocate D (record_size ct + sizeof_VersionSingle) (partition_id txn) (iv_t_min iv) s = Inr (r, s1)"
  obtains ct' m' U' iv' vs' where
    "deleteRecord V txn (p, i) ct m s = Inr (ct', m', s1)" "table_ok E D inv (rows - {(p, i)}) L ct' m' s1 U'"
    "meta_slot p i ct' = Inr iv'" "iv_deleted iv'" "chain (st_ops D s1) m' (unat (record_size ct)) (delta_list iv') vs'"
    "length vs' \<le> Suc L" "columns ct' = columns ct" "column_size_offset_pairs ct' = column_size_offset_pairs ct"
    "\<And>q iv2 vs2 hs2. q \<in> rows \<Longrightarrow> q \<noteq> (p, i) \<Longrightarrow> table_hist E D ct m s q iv2 vs2 hs2 \<Longrightarrow> table_hist E D ct' m' s1 q iv2 vs2 hs2"
proof -
  note T = table_okD [OF ok]
  let ?R = "unat (record_size ct)" and ?sz = "record_size ct + sizeof_VersionSingle"
  obtain vs hs where h: "table_hist E D ct m s (p, i) iv vs hs" "length vs \<le> L" "chain_blocks ?R vs \<subseteq> U"
    using T(3) [OF row] iv by (auto simp: table_hist_def)
  then have ch: "chain (st_ops D s) m ?R (delta_list iv) vs" by (simp add: table_hist_def row_hist_def)
  from allocate_fresh [OF T(1) al] obtain a where fresh: "po_ptr (st_ops D s) r = Inr a" "a \<noteq> 0" "unat a + room ?sz < 2 ^ 64" by blast
  obtain b where b: "po_isValid (st_ops D s) (delta_list iv) = Inr b" using ch by (cases vs) auto
  define m1 where "m1 = (let m0 = mk_VersionSingle (mv_vtable V) a (iv_t_min iv) 0 (ver_payload a) (record_size ct) m
    in if b then store64 (a + VersionSingle_off_next) (delta_list iv) m0 else m0)"
  have run: "full_create_versions D False (mv_vtable V) (partition_id txn) ct iv m s = Inr (a, iv\<lparr>delta_list := r\<rparr>, m1, s1)"
    using create_versions_run [OF T(1) al fresh(1,2) b] by (simp add: m1_def)
  have R: "?R < 2 ^ 63" using T(2) by (simp add: table_shape_def)
  note C = create_versions_chain [OF T(1) ch h(3) refl R room run]
  let ?iv = "iv\<lparr>delta_list := r, iv_t_min := ts_t_min (txn_start_time (txnTs txn)), iv_deleted := True\<rparr>"
  let ?ct = "set_slot p i ?iv (ct\<lparr>columns := columns ct\<rparr>)" and ?U = "U \<union> blk a (room ?sz)"
  have del: "deleteRecord V txn (p, i) ct m s = Inr (?ct, m1, s1)"
    using iv run V by (simp add: deleteRecord_def create_versions_def full_mode_def)
  have slot: "meta_slot (fst q) (snd q) ?ct = (if q = (p, i) then Inr ?iv else meta_slot (fst q) (snd q) ct)" for q
    using meta_slot_set [of p i "ct\<lparr>columns := columns ct\<rparr>" iv "fst q" "snd q"] iv by (cases q) auto
  have keep: "m1 x = m x" if "x \<in> U" for x
  proof -
    have "blk a 48 \<subseteq> blk a (room ?sz)" using room by (auto simp: blk_def ver_extent_def)
    then show ?thesis using that C(2,8) by blast
  qed
  have steps: "\<forall>k < length (columns ct). col_step E (VID iv) (columns ct ! k) (columns ct ! k)"
    using T(4) by (simp add: col_step_refl)
  have other: "table_hist E D ?ct m1 s1 q iv2 vs2 hs2"
    if "q \<in> rows" "q \<noteq> (p, i)" "table_hist E D ct m s q iv2 vs2 hs2" for q iv2 vs2 hs2
  proof -
    have h2: "row_hist E D ct m s iv2 vs2 hs2" "meta_slot (fst q) (snd q) ct = Inr iv2" using that(3) by (simp_all add: table_hist_def)
    have "\<not> same_row (VID iv) (VID iv2)"
      by (rule at_place_apart [OF T(6) [OF row] T(6) [OF that(1) h2(2)]]) (use iv that(2) in auto)
    moreover have "chain_blocks ?R vs2 \<subseteq> U" using T(3) [OF that(1)] table_hist_unique [OF that(3)] by blast
    then have "m1 x = m x" if "x \<in> chain_blocks ?R vs2" for x using keep that by blast
    ultimately have "row_hist E D ?ct m1 s1 iv2 vs2 hs2"
      by (intro row_hist_frame [OF h2(1) T(2) refl steps]) (use C(4) in simp_all)
    then show ?thesis using that(2) h2(2) slot [of q] by (simp add: table_hist_def)
  qed
  have rows': "\<exists>iv vs hs. table_hist E D ?ct m1 s1 q iv vs hs \<and> length vs \<le> L \<and> chain_blocks ?R vs \<subseteq> ?U \<and> at_place q (VID iv)"
    if "q \<in> rows - {(p, i)}" for q using T(3) [of q] other [of q] that by blast
  have unused: "q \<notin> rows - {(p, i)} \<and> delta_list x = 0" if "unused_place ?ct q" "meta_slot (fst q) (snd q) ?ct = Inr x" for q x
  proof -
    have u: "unused_place ct q" using that(1) by (simp add: unused_place_def)
    then have "q \<noteq> (p, i)" using T(5) [OF u] row iv by auto
    then have "meta_slot (fst q) (snd q) ct = Inr x" using that(2) slot [of q] by simp
    from T(5) [OF u this] show ?thesis by blast
  qed
  have ok': "table_ok E D inv (rows - {(p, i)}) L ?ct m1 s1 ?U"
    unfolding table_ok_def using C(3) table_shape_step [OF T(2) refl steps] T(4) rows' unused by simp
  have ch': "chain (st_ops D s1) m1 ?R (delta_list ?iv) ((a, iv_t_min iv, load_bytes m1 (ver_payload a) ?R) # vs)"
    using C(6) by (simp del: chain.simps)
  have sl: "meta_slot p i ?ct = Inr ?iv" using slot [of "(p, i)"] by simp
  show thesis by (rule that [OF del ok' sl _ ch' _ _ _ other]) (use h(2) in simp_all)
qed

end

section \<open>Properties\<close>

text \<open>
  C3. The constructor lays out the record: when the widths of the attributes add up to less than
  2^16, none of the columns is lazy and the memory manager returns what the columns ask for, the new
  table has one column per definition with its width, offsets and sizes that agree with the columns,
  every index entry unused, and it is in order with no rows, whatever the delta store.
\<close>
theorem new_table_ok:
  assumes "mk_ColumnStore E nodes sz meta_mems tid name defs is_indexed numa reserved = Inr ct"
    and "\<forall>t\<in>set defs. mems_fit E numa reserved t"
    and "mems_ok (partition_capacity reserved (if numa then g_num_partitions E else 1)) sz meta_mems" and "sz \<noteq> 0"
    and "unat (if numa then g_num_partitions E else 1) \<le> MAX_PARTITIONS"
    and "sum_list (map (\<lambda>t. unat (cd_width (fst t))) defs) < 2 ^ 16" and "no_lazy defs" and "I s U"
  shows "table_ok E D I {} 0 ct m s U \<and> meta_ok ct \<and> indexed ct = is_indexed \<and>
    map any_width (columns ct) = map (\<lambda>t. unat (cd_width (fst t))) defs \<and>
    unat (record_size ct) = sum_list (map (\<lambda>t. unat (cd_width (fst t))) defs)"
proof -
  note M = mk_ColumnStore_ok [OF assms(1-7)]
  have "unat (record_size ct) = sum_list (map any_width (columns ct))" using M(1) by (simp add: table_shape_def)
  then show ?thesis using M assms(8) by (simp add: table_ok_def)
qed

lemma read_at_table:
  assumes ok: "table_ok E D I rows L ct m s U" and fuel: "L < mv_fuel V" and V: "full_mode V d D" and q: "q \<in> rows"
    and same: "length (columns ct') = length (columns ct)" "column_size_offset_pairs ct' = column_size_offset_pairs ct"
    and ok': "table_ok E D I rows' L' ct' m' s' U'" and fuel': "L' < mv_fuel V" and q': "q \<in> rows'"
    and hist: "\<And>iv vs hs. table_hist E D ct m s q iv vs hs \<Longrightarrow> table_hist E D ct' m' s' q iv vs hs"
    and want: "\<forall>c\<in>set want. c < length (columns ct)" and rd: "read_at E V d ts q want dest ct m s = Inr out"
  shows "read_at E V d ts q want dest ct' m' s' = Inr out"
proof -
  note T = table_okD [OF ok] and T' = table_okD [OF ok']
  from T(3) [OF q] obtain iv vs hs where h: "table_hist E D ct m s q iv vs hs" "length vs \<le> L" by blast
  have len: "length vs < mv_fuel V" using h(2) fuel by simp
  obtain bs where bs: "visible ts hs = Some bs" using read_at_visible(2) [OF T(2) h(1) V len want rd] by blast
  have "project ct' want = project ct want" by (simp add: project_def same(2) fun_eq_iff)
  then have "read_at E V d ts q want dest ct' m' s' = write_buffer 0 (project ct want bs) dest"
    using read_at_visible(1) [OF T'(2) hist [OF h(1)] V len _ bs, of want dest] want same(1) by simp
  then show ?thesis using read_at_visible(1) [OF T(2) h(1) V len want bs, of dest] rd by simp
qed

lemma read_new_row:
  assumes "table_hist E D ct m s r iv [] hs" "full_mode V d D" "\<not> is_readable (iv_t_min iv) ts"
  shows "read_at E V d ts r want dest ct m s = Inl (Fatal ''delta-tag verification failed'')"
  using assms
  by (simp add: table_hist_def row_hist_def read_at_def getIndexedRecord_def full_get_readable_version_def full_mode_def Let_def)

text \<open>
  The null reference is invalid for the classic references, and for the tagged ones as long as the
  lower 20 bits of the tag of store 0 are not all zero, as in a new store, whose tag is 1.
\<close>

lemma null_invalid_malloc: "po_isValid (st_ops (malloc_store N tid) s) 0 = Inr False"
  by (simp add: malloc_store_def classic_ptr_def classic_isValid_def classic_get_ptrOffset_def)

lemma null_invalid_circular:
  assumes "store_tags ds 0 = Some w" "w AND 0x000FFFFF \<noteq> 0"
  shows "po_isValid (st_ops (circular_store C cons bases tid d) ds) 0 = Inr False"
  using assms by (simp add: circular_store_def oneshot_ptr_def isValid_def verifyTag_def get_delta_idx_def get_tag_def)

text \<open>
  C2. Inserting into a table without lazy columns, with room in the partition, whatever the delta
  store, as long as its null reference is invalid: the new row is not one of the existing rows, the
  table stays in order with it, the transactions that may see the inserting transaction read the
  record that was inserted, a transaction that may not see it aborts the process when it reads the
  row, as the row has no version to find, and every existing row reads as before.
\<close>
theorem insert_reads_back:
  assumes "table_ok E D I rows L ct m s U" and "full_mode V d D" and "po_isValid (st_ops D s) 0 = Inr False"
    and "L < mv_fuel V" and "pid = pid0 mod tbl_n_partitions ct" and "at_idx (vid_part ct) (unat pid) = Inr idx"
    and "room_for ct idx pid mv" and "unat (record_size ct) \<le> length data"
  shows "\<exists>ct'. insertRecord data xid pid0 mv ct = Inr (Some (unat pid, unat idx), ct') \<and> (unat pid, unat idx) \<notin> rows \<and>
    table_ok E D I (insert (unat pid, unat idx) rows) L ct' m s U \<and>
    (\<forall>ts want dest. (\<forall>c\<in>set want. c < length (columns ct)) \<longrightarrow>
       read_at E V d ts (unat pid, unat idx) want dest ct' m s =
         (if is_readable (ts_t_min xid) ts
          then write_buffer 0 (project ct want (take (unat (record_size ct)) data)) dest
          else Inl (Fatal ''delta-tag verification failed'')) \<and>
       (\<forall>q\<in>rows. \<forall>out. read_at E V d ts q want dest ct m s = Inr out \<longrightarrow> read_at E V d ts q want dest ct' m s = Inr out))"
proof -
  let ?r = "(unat pid, unat idx)" and ?rec = "take (unat (record_size ct)) data"
  obtain ct' where run: "insertRecord data xid pid0 mv ct = Inr (Some ?r, ct')" "?r \<notin> rows"
    and ok': "table_ok E D I (insert ?r rows) L ct' m s U"
    and same: "length (columns ct') = length (columns ct)" "column_size_offset_pairs ct' = column_size_offset_pairs ct"
    and new: "\<exists>iv. table_hist E D ct' m s ?r iv [] [(ts_t_min xid, ?rec)]"
    and old: "\<And>q iv vs hs. q \<in> rows \<Longrightarrow> table_hist E D ct m s q iv vs hs \<Longrightarrow> table_hist E D ct' m s q iv vs hs"
    by (rule table_insert [OF assms(1,3,5-8)]) (rule that)
  note T' = table_okD [OF ok']
  have proj: "project ct' want = project ct want" for want by (simp add: project_def same(2) fun_eq_iff)
  from new obtain iv where h: "table_hist E D ct' m s ?r iv [] [(ts_t_min xid, ?rec)]" by blast
  then have t_min: "iv_t_min iv = ts_t_min xid" by (simp add: table_hist_def row_hist_def)
  have fuel: "length ([] :: ver list) < mv_fuel V" using assms(4) by simp
  have "read_at E V d ts ?r want dest ct' m s =
      (if is_readable (ts_t_min xid) ts then write_buffer 0 (project ct want ?rec) dest
       else Inl (Fatal ''delta-tag verification failed''))"
    if want: "\<forall>c\<in>set want. c < length (columns ct)" for ts want dest
  proof (cases "is_readable (ts_t_min xid) ts")
    case True
    have "\<forall>c\<in>set want. c < length (columns ct')" using want same(1) by simp
    from read_at_visible(1) [OF T'(2) h assms(2) fuel this, of ts ?rec dest] True show ?thesis
      by (simp add: visible_simps proj)
  next
    case False
    then show ?thesis using read_new_row [OF h assms(2)] t_min by simp
  qed
  moreover have "read_at E V d ts q want dest ct' m s = Inr out"
    if "\<forall>c\<in>set want. c < length (columns ct)" "q \<in> rows" "read_at E V d ts q want dest ct m s = Inr out" for ts q want dest out
    by (rule read_at_table [OF assms(1,4,2) that(2) same ok' assms(4) _ old [OF that(2)] that(1,3)]) (use that(2) in simp)
  ultimately show ?thesis using run ok' by blast
qed

text \<open>
  C31. Deleting a row of a table without lazy columns, with the pool-backed delta store and chunks
  large enough for a version, hides it from every transaction, also from those whose snapshot is
  older than the deletion and that could read the row before; every other row reads as before.
  With the circular store the last clause fails, as the next version can overwrite the record of
  the version before it.
\<close>
theorem delete_hides_from_older_snapshots:
  assumes "table_ok E (malloc_store N tid) (pool_inv N A) rows L ct m s U" and "(p, i) \<in> rows"
    and "full_mode V d (malloc_store N tid)" and "unat (delta_version txn) = d" and "Suc L < mv_fuel V"
    and "meta_slot p i ct = Inr iv" and "49 + unat (record_size ct) \<le> unat N"
    and "dsm_allocate N tid (record_size ct + sizeof_VersionSingle) (partition_id txn) s = Inr (r, s1)"
  shows "\<exists>ct' m'. deleteRecord V txn (p, i) ct m s = Inr (ct', m', s1) \<and>
    (\<forall>ts want dest. (\<exists>e. read_at E V d ts (p, i) want dest ct' m' s1 = Inl e) \<and>
       (\<forall>q\<in>rows - {(p, i)}. \<forall>out. (\<forall>c\<in>set want. c < length (columns ct)) \<longrightarrow>
          read_at E V d ts q want dest ct m s = Inr out \<longrightarrow> read_at E V d ts q want dest ct' m' s1 = Inr out))"
proof -
  let ?D = "malloc_store N tid"
  have al: "st_allocate ?D (record_size ct + sizeof_VersionSingle) (partition_id txn) (iv_t_min iv) s = Inr (r, s1)"
    using assms(8) by (simp add: malloc_store_def)
  have room: "ver_extent (unat (record_size ct)) \<le> unat N" using assms(7) by (simp add: ver_extent_def)
  have V: "full_mode V (unat (delta_version txn)) ?D" using assms(3,4) by simp
  obtain ct' m' U' iv' vs' where del: "deleteRecord V txn (p, i) ct m s = Inr (ct', m', s1)"
    and ok': "table_ok E ?D (pool_inv N A) (rows - {(p, i)}) L ct' m' s1 U'"
    and gone: "meta_slot p i ct' = Inr iv'" "iv_deleted iv'"
      "chain (st_ops ?D s1) m' (unat (record_size ct)) (delta_list iv') vs'" "length vs' \<le> Suc L"
    and same: "columns ct' = columns ct" "column_size_offset_pairs ct' = column_size_offset_pairs ct"
    and old: "\<And>q iv vs hs. q \<in> rows \<Longrightarrow> q \<noteq> (p, i) \<Longrightarrow> table_hist E ?D ct m s q iv vs hs \<Longrightarrow> table_hist E ?D ct' m' s1 q iv vs hs"
    by (rule malloc.table_delete [OF assms(1,2) V assms(6) room al]) (rule that)
  have fuel: "length vs' < mv_fuel V" "L < mv_fuel V" using gone(4) assms(5) by simp_all
  have "\<exists>e. read_at E V d ts (p, i) want dest ct' m' s1 = Inl e" for ts want dest
    using deleted_row_unreadable [OF gone(2) assms(3) gone(3) fuel(1), of E ts want dest ct'] gone(1) by (simp add: read_at_def)
  moreover have "read_at E V d ts q want dest ct' m' s1 = Inr out"
    if "q \<in> rows - {(p, i)}" "\<forall>c\<in>set want. c < length (columns ct)" "read_at E V d ts q want dest ct m s = Inr out" for ts q want dest out
    by (rule read_at_table [OF assms(1) fuel(2) assms(3) _ _ same(2) ok' fuel(2) that(1) old that(2,3)])
       (use that(1) same(1) in simp_all)
  ultimately show ?thesis using del by blast
qed

definition demo_defs :: "(ColumnDef \<times> col_mems) list" where
  "demo_defs = [(\<lparr>cd_name = ''a'', cd_type = INTEGER, cd_width = 4, cd_snapshot = NoSnapshot, cd_dict = None\<rparr>,
     \<lparr>cm_plain = [\<lparr>dc_data = 4096, dc_bytes = [0, 0, 0, 0, 0, 0, 0, 0]\<rparr>], cm_masters = [], cm_etl = []\<rparr>)]"

definition demo_meta :: "data_chunk list" where
  "demo_meta = [\<lparr>dc_data = 8192, dc_bytes = replicate 16 0\<rparr>]"

text \<open>The table that the constructor builds from one 4-byte integer attribute, for two records.\<close>

definition demo_new_ct :: "(vid_t \<rightharpoonup> size_t) ColumnStore" where
  "demo_new_ct = \<lparr>tbl_name = ''t'', table_id = 0, vid_part = replicate 8 0, total_memory_reserved = 24,
     record_capacity = 2, tbl_n_partitions = 1, n_columns = 1, indexed = True, column_size_offset_pairs = [(4, 0)],
     record_size = 4, column_size_offsets = [0], column_size = [4],
     metaColumn =
       \<lparr>column_id = 0, col_name = ''t_meta'', col_type = META, unit_size = 8, byteOffset_record = 0,
        n_partitions = 1, single_version_only = True, snapshotType = NoSnapshot, total_size = 16,
        total_size_per_partition = 16, capacity = 2, capacity_per_partition = 2,
        primaryData = [\<lparr>dc_data = 8192, dc_bytes = replicate 16 0\<rparr>] # replicate 7 []\<rparr>,
     meta_slots = [map (\<lambda>i. mk_IndexVal 0 (create_vid2 (word_of_nat i) 0)) [0..<2]],
     columns = [PlainCol
       \<lparr>column_id = 0, col_name = ''a'', col_type = INTEGER, unit_size = 4, byteOffset_record = 0,
        n_partitions = 1, single_version_only = True, snapshotType = NoSnapshot, total_size = 8,
        total_size_per_partition = 8, capacity = 2, capacity_per_partition = 2,
        primaryData = [\<lparr>dc_data = 4096, dc_bytes = replicate 8 0\<rparr>] # replicate 7 []\<rparr>],
     nParts = 0, elastic_mappings = [], elastic_offsets = {}\<rparr>"

lemma demo_new:
  "mk_ColumnStore demo_env 1 8 demo_meta 0 ''t'' demo_defs True False 2 = Inr demo_new_ct"
  by (simp add: mk_ColumnStore_def mk_Table_def table_attributes_def getProteusType_def demo_defs_def demo_env_def mk_Column_def
    partition_capacity_def demo_meta_def initializeMetaColumn_def MAX_PARTITIONS_def mk_AnyColumn_def Table.defs warm_up_def
    dc_size_def Let_def demo_new_ct_def)

lemma demo_new_fit:
  "\<forall>t\<in>set demo_defs. mems_fit demo_env False 2 t"
  "mems_ok (partition_capacity 2 (if False then g_num_partitions demo_env else 1)) 8 demo_meta" "(8 :: size_t) \<noteq> 0"
  "unat (if False then g_num_partitions demo_env else 1) \<le> MAX_PARTITIONS"
  "sum_list (map (\<lambda>t. unat (cd_width (fst t))) demo_defs) < 2 ^ 16" "no_lazy demo_defs"
  by (simp_all add: no_lazy_def demo_defs_def demo_env_def demo_meta_def mems_ok_def partition_capacity_def MAX_PARTITIONS_def)

theorem new_table_ok_witness:
  "\<exists>ct. mk_ColumnStore demo_env 1 8 demo_meta 0 ''t'' demo_defs True False 2 = Inr ct \<and> meta_ok ct \<and>
     unat (record_size ct) = 4 \<and> map any_width (columns ct) = [4]"
  using new_table_ok [OF demo_new demo_new_fit, of "\<lambda>_ _. True" "()" "{}" undefined undefined] demo_new
  by (auto simp: demo_defs_def)

lemma demo_new_table_ok:
  obtains A where "table_ok demo_env (malloc_store 2147483648 1) (pool_inv 2147483648 A) {} 0 demo_new_ct (\<lambda>_. 0)
    (mk_DeltaStoreMalloc [4294967296]) {}"
proof -
  let ?A = "\<Union>x\<in>set [4294967296]. region x"
  have "heap_ok [4294967296]" by (simp add: heap_ok_def)
  then have inv: "dsm_inv 2147483648 ?A (mk_DeltaStoreMalloc [4294967296]) {}" by (rule dsm_inv_new)
  note M = mk_ColumnStore_ok [OF demo_new demo_new_fit]
  show thesis using inv M by (intro that [of ?A]) (simp add: table_ok_def)
qed

lemma demo_room: "room_for demo_new_ct 0 0 0"
  by (simp add: room_for_def demo_new_ct_def meta_ok_def col_inv_def row_ok_def chunk_vec_def create_vid_def get_pid_def get_offset_def
      meta_slot_def upt_rec)

theorem insert_reads_back_witness:
  "\<exists>ct'. insertRecord [1, 2, 3, 4] 3 0 0 demo_new_ct = Inr (Some (0, 0), ct') \<and>
     read_at demo_env demo_mv 0 \<lparr>txn_start_time = 8, txn_id = 0\<rparr> (0, 0) [] [0, 0, 0, 0] ct' (\<lambda>_. 0)
       (mk_DeltaStoreMalloc [4294967296]) = Inr [1, 2, 3, 4]"
proof -
  let ?s = "mk_DeltaStoreMalloc [4294967296]"
  obtain A where ok: "table_ok demo_env (malloc_store 2147483648 1) (pool_inv 2147483648 A) {} 0 demo_new_ct (\<lambda>_. 0) ?s {}"
    by (rule demo_new_table_ok)
  have mode: "full_mode demo_mv 0 (malloc_store 2147483648 1)" "0 < mv_fuel demo_mv" by (simp_all add: full_mode_def demo_mv_def)
  have idx: "(0 :: partition_id_t) = 0 mod tbl_n_partitions demo_new_ct" "at_idx (vid_part demo_new_ct) (unat (0 :: partition_id_t)) = Inr 0"
    "unat (record_size demo_new_ct) \<le> length [1, 2, 3, 4 :: byte]"
    by (simp_all add: demo_new_ct_def at_idx_def)
  have "write_buffer 0 (project demo_new_ct [] (take (unat (record_size demo_new_ct)) [1, 2, 3, 4])) [0, 0, 0, 0] = Inr [1, 2, 3, 4]"
    by (simp add: demo_new_ct_def project_def write_buffer_def slice_def splice_at_def)
  note out = this
  have rd: "is_readable (ts_t_min 3) \<lparr>txn_start_time = 8, txn_id = 0\<rparr>" by (simp add: is_readable_def ts_t_min_def)
  from insert_reads_back [OF ok mode(1) null_invalid_malloc mode(2) idx(1,2) demo_room idx(3), of 3] show ?thesis
  proof (elim exE conjE, goal_cases)
    case (1 ct')
    from 1(4) [rule_format, of "[]" "\<lparr>txn_start_time = 8, txn_id = 0\<rparr>" "[0, 0, 0, 0]"] rd out 1(1) show ?case
      by (intro exI [of _ ct']) simp
  qed
qed

theorem delete_hides_from_older_snapshots_witness:
  "\<exists>ct' m' s' e. read_at demo_env demo_mv 0 \<lparr>txn_start_time = 5, txn_id = 0\<rparr> (0, 0) [] [0] demo_ct (\<lambda>_. 0)
       (mk_DeltaStoreMalloc [4294967296]) = Inr [5] \<and>
     deleteRecord demo_mv demo_txn (0, 0) demo_ct (\<lambda>_. 0) (mk_DeltaStoreMalloc [4294967296]) = Inr (ct', m', s') \<and>
     read_at demo_env demo_mv 0 \<lparr>txn_start_time = 5, txn_id = 0\<rparr> (0, 0) [] [0] ct' m' s' = Inl e"
proof -
  let ?s = "mk_DeltaStoreMalloc [4294967296]"
  obtain A where ok: "table_ok demo_env (malloc_store 2147483648 1) (pool_inv 2147483648 A) {(0, 0)} 0 demo_ct (\<lambda>_. 0) ?s {}"
    by (rule demo_table_ok)
  have mode: "full_mode demo_mv 0 (malloc_store 2147483648 1)" "Suc 0 < mv_fuel demo_mv" by (simp_all add: full_mode_def demo_mv_def)
  have txn: "unat (delta_version demo_txn) = 0" "partition_id demo_txn = 0"
    by (simp_all add: demo_txn_def mk_Txn_def get_delta_ver_def)
  have al: "dsm_allocate 2147483648 1 (record_size demo_ct + sizeof_VersionSingle) (partition_id demo_txn) ?s =
      Inr (6442450944, demo_pool [4294967296])"
    using demo_allocations(1) by (simp add: demo_ct_fields sizeof_VersionSingle_def txn)
  have before: "read_at demo_env demo_mv 0 \<lparr>txn_start_time = 5, txn_id = 0\<rparr> (0, 0) [] [0] demo_ct (\<lambda>_. 0) ?s = Inr [5]"
    by (simp add: read_at_def demo_ct_fields getIndexedRecord_def is_readable_def mk_IndexVal_def ts_t_min_def read_columns_def
        demo_elem write_buffer_def splice_at_def)
  have room: "49 + unat (record_size demo_ct) \<le> unat (2147483648 :: size_t)" by (simp add: demo_ct_fields)
  from delete_hides_from_older_snapshots [OF ok _ mode(1) txn(1) mode(2) demo_ct_fields(4) room al] before
  show ?thesis by fastforce
qed

end
