(* ===== verification/ArtNode.thy ===== *)
theory ArtNode
  imports Prelude
begin

text \<open>
  The nodes of the adaptive radix tree (\<^verbatim>\<open>index/ART/art_node.hpp\<close>, \<^verbatim>\<open>index/ART/art_node.cpp\<close>):
  leaves and inner nodes with room for 4, 16, 48 or 256 children, their version locks, looking up
  and inserting a child, and growing to the next kind. Every node has exactly one parent, so a
  node is a value here and the pointer to a child is the child itself.
\<close>

section \<open>Nodes\<close>

record ARTHeader =
  prefix_len :: "16 word"
  n_children :: "8 word"
  art_prefix :: "byte list"
  typeVersionLockObsolete :: "64 word"

datatype 'v ARTNode =
    ARTLeaf (node_hdr: ARTHeader) "byte list" 'v
  | ARTNode_4 (node_hdr: ARTHeader) "byte list" "'v ARTNode option list"
  | ARTNode_16 (node_hdr: ARTHeader) "byte list" "'v ARTNode option list"
  | ARTNode_48 (node_hdr: ARTHeader) "16 word list" "'v ARTNode option list"
  | ARTNode_256 (node_hdr: ARTHeader) "'v ARTNode option list"

primrec map_hdr :: "(ARTHeader \<Rightarrow> ARTHeader) \<Rightarrow> 'v ARTNode \<Rightarrow> 'v ARTNode" where
  "map_hdr f (ARTLeaf h k v) = ARTLeaf (f h) k v"
| "map_hdr f (ARTNode_4 h ks cs) = ARTNode_4 (f h) ks cs"
| "map_hdr f (ARTNode_16 h ks cs) = ARTNode_16 (f h) ks cs"
| "map_hdr f (ARTNode_48 h ix cs) = ARTNode_48 (f h) ix cs"
| "map_hdr f (ARTNode_256 h cs) = ARTNode_256 (f h) cs"

text \<open>The constructor of the base class: no prefix bytes yet, no children, unlocked.\<close>

definition mk_ARTHeader :: "nat \<Rightarrow> ARTHeader" where
  "mk_ARTHeader len = \<lparr>prefix_len = of_nat len, n_children = 0, art_prefix = [], typeVersionLockObsolete = 4\<rparr>"

definition mk_ARTLeaf :: "byte list \<Rightarrow> 'v \<Rightarrow> 'v ARTNode" where
  "mk_ARTLeaf key val = ARTLeaf (mk_ARTHeader 0) key val"

text \<open>\<^verbatim>\<open>ARTNode_4::create\<close>\<close>

definition mk_ARTNode_4 :: "nat \<Rightarrow> 'v ARTNode" where
  "mk_ARTNode_4 len = ARTNode_4 (mk_ARTHeader len) (replicate 4 0) (replicate 4 None)"

primrec isLeaf :: "'v ARTNode \<Rightarrow> bool" where
  "isLeaf (ARTLeaf h k v) = True"
| "isLeaf (ARTNode_4 h ks cs) = False"
| "isLeaf (ARTNode_16 h ks cs) = False"
| "isLeaf (ARTNode_48 h ix cs) = False"
| "isLeaf (ARTNode_256 h cs) = False"

primrec isFull :: "'v ARTNode \<Rightarrow> bool" where
  "isFull (ARTLeaf h k v) = True"
| "isFull (ARTNode_4 h ks cs) = (n_children h = 4)"
| "isFull (ARTNode_16 h ks cs) = (n_children h = 16)"
| "isFull (ARTNode_48 h ix cs) = (n_children h = 48)"
| "isFull (ARTNode_256 h cs) = False"

text \<open>The number of prefix bytes that agree with the key from \<open>depth\<close> on.\<close>

fun match_from :: "byte list \<Rightarrow> byte list \<Rightarrow> nat \<Rightarrow> nat \<Rightarrow> nat \<Rightarrow> nat result" where
  "match_from key pre depth len 0 = Inr len"
| "match_from key pre depth len (Suc n) =
     rbind (at_idx key (depth + len)) (\<lambda>a.
     rbind (at_idx pre len) (\<lambda>b.
     if a \<noteq> b then Inr len else match_from key pre depth (Suc len) n))"

definition prefix_match :: "ARTHeader \<Rightarrow> byte list \<Rightarrow> nat \<Rightarrow> nat result" where
  "prefix_match h key depth = match_from key (art_prefix h) depth 0 (unat (prefix_len h))"

section \<open>Version locks\<close>

definition isLocked :: "64 word \<Rightarrow> bool" where
  "isLocked version \<longleftrightarrow> version AND 2 = 2"

definition isObsolete :: "64 word \<Rightarrow> bool" where
  "isObsolete version \<longleftrightarrow> version AND 1 = 1"

text \<open>A version and whether the caller has to restart.\<close>

definition readLockOrRestart :: "ARTHeader \<Rightarrow> 64 word \<times> bool" where
  "readLockOrRestart h =
     (let version = typeVersionLockObsolete h in (version, isLocked version \<or> isObsolete version))"

text \<open>The flag is assigned, so an earlier request to restart is lost.\<close>

definition readUnlockOrRestart :: "64 word \<Rightarrow> ARTHeader \<Rightarrow> bool" where
  "readUnlockOrRestart startRead h \<longleftrightarrow> startRead \<noteq> typeVersionLockObsolete h"

text \<open>The compare-and-exchange: the header, and whether the caller has to restart.\<close>

definition upgradeToWriteLockOrRestart :: "64 word \<Rightarrow> ARTHeader \<Rightarrow> ARTHeader \<times> bool" where
  "upgradeToWriteLockOrRestart version h =
     (if typeVersionLockObsolete h = version then (h\<lparr>typeVersionLockObsolete := version + 2\<rparr>, False) else (h, True))"

definition writeUnlock :: "ARTHeader \<Rightarrow> ARTHeader" where
  "writeUnlock h = h\<lparr>typeVersionLockObsolete := typeVersionLockObsolete h + 2\<rparr>"

definition writeUnlockObsolete :: "ARTHeader \<Rightarrow> ARTHeader" where
  "writeUnlockObsolete h = h\<lparr>typeVersionLockObsolete := typeVersionLockObsolete h + 3\<rparr>"

section \<open>Looking up a child\<close>

text \<open>The loop of the 4-child node over all its places, and the vector comparison of the 16-child node.\<close>

fun scan_keys :: "byte \<Rightarrow> byte list \<Rightarrow> 'c option list \<Rightarrow> 'c option" where
  "scan_keys b (k # ks) (c # cs) = (if k = b then c else scan_keys b ks cs)"
| "scan_keys b _ _ = None"

primrec getChild :: "byte \<Rightarrow> 'v ARTNode \<Rightarrow> 'v ARTNode option result" where
  "getChild b (ARTLeaf h k v) = Inl NullDeref"
| "getChild b (ARTNode_4 h ks cs) = Inr (scan_keys b ks cs)"
| "getChild b (ARTNode_16 h ks cs) = Inr (scan_keys b (take (unat (n_children h)) ks) cs)"
| "getChild b (ARTNode_48 h ix cs) =
     rbind (at_idx ix (unat b)) (\<lambda>index. if index = 256 then Inr None else at_idx cs (unat index))"
| "getChild b (ARTNode_256 h cs) = at_idx cs (unat b)"

section \<open>Inserting a child\<close>

text \<open>The place of a key: the first of the used places whose key is not smaller.\<close>

fun key_pos :: "byte \<Rightarrow> nat \<Rightarrow> byte list \<Rightarrow> nat" where
  "key_pos b (Suc n) (k # ks) = (if b > k then Suc (key_pos b n ks) else 0)"
| "key_pos b _ _ = 0"

text \<open>\<^verbatim>\<open>memmove(xs + pos + 1, xs + pos, n - pos)\<close>\<close>

definition move_right :: "nat \<Rightarrow> nat \<Rightarrow> 'a list \<Rightarrow> 'a list" where
  "move_right pos n xs = take (Suc pos) xs @ take (n - pos) (drop pos xs) @ drop (Suc n) xs"

definition insert_sorted ::
  "nat \<Rightarrow> byte \<Rightarrow> 'c \<Rightarrow> ARTHeader \<Rightarrow> byte list \<Rightarrow> 'c option list \<Rightarrow> (ARTHeader \<times> byte list \<times> 'c option list) result" where
  "insert_sorted cap b child h ks cs =
     (let n = unat (n_children h); pos = key_pos b n ks
      in rbind (rassert (pos < cap) ''Position beyond node capacity'') (\<lambda>_.
         if ks ! pos = b \<and> cs ! pos \<noteq> None then Inr (h, ks, cs[pos := Some child])
         else rbind (if pos \<noteq> n
                     then rbind (rassert (n \<noteq> cap) ''!isFull()'') (\<lambda>_. Inr (move_right pos n ks, move_right pos n cs))
                     else Inr (ks, cs)) (\<lambda>(ks', cs').
              Inr (h\<lparr>n_children := n_children h + 1\<rparr>, ks'[pos := b], cs'[pos := Some child]))))"

primrec insertChild :: "byte \<Rightarrow> 'v ARTNode \<Rightarrow> 'v ARTNode \<Rightarrow> 'v ARTNode result" where
  "insertChild b child (ARTLeaf h k v) = Inl NullDeref"
| "insertChild b child (ARTNode_4 h ks cs) =
     rbind (insert_sorted 4 b child h ks cs) (\<lambda>(h', ks', cs'). Inr (ARTNode_4 h' ks' cs'))"
| "insertChild b child (ARTNode_16 h ks cs) =
     rbind (insert_sorted 16 b child h ks cs) (\<lambda>(h', ks', cs'). Inr (ARTNode_16 h' ks' cs'))"
| "insertChild b child (ARTNode_48 h ix cs) =
     rbind (at_idx ix (unat b)) (\<lambda>index.
     if n_children h < 48 \<and> index = 256
     then Inr (ARTNode_48 (h\<lparr>n_children := n_children h + 1\<rparr>) (ix[unat b := ucast (n_children h)])
                (cs[unat (n_children h) := Some child]))
     else if unat index < length cs then Inr (ARTNode_48 h ix (cs[unat index := Some child])) else Inl BadAccess)"
| "insertChild b child (ARTNode_256 h cs) =
     (if unat b < length cs then Inr (ARTNode_256 h (cs[unat b := Some child])) else Inl BadAccess)"

section \<open>Growing\<close>

text \<open>A new header with the prefix of the old node and a fresh lock.\<close>

definition grown_hdr :: "ARTHeader \<Rightarrow> 8 word \<Rightarrow> ARTHeader" where
  "grown_hdr h n = (mk_ARTHeader (unat (prefix_len h)))\<lparr>n_children := n, art_prefix := art_prefix h\<rparr>"

text \<open>\<^verbatim>\<open>ARTNode_16::create\<close>, \<^verbatim>\<open>ARTNode_48::create\<close> and \<^verbatim>\<open>ARTNode_256::create\<close>\<close>

definition mk_ARTNode_16 :: "ARTHeader \<Rightarrow> byte list \<Rightarrow> 'v ARTNode option list \<Rightarrow> 'v ARTNode" where
  "mk_ARTNode_16 h ks cs =
     (let n = unat (n_children h)
      in ARTNode_16 (grown_hdr h 4) (splice_at (map of_nat [0..<16]) 0 (take n ks))
           (splice_at (replicate 16 None) 0 (take n cs)))"

definition mk_ARTNode_48 :: "ARTHeader \<Rightarrow> byte list \<Rightarrow> 'v ARTNode option list \<Rightarrow> 'v ARTNode" where
  "mk_ARTNode_48 h ks cs =
     (let n = unat (n_children h)
      in ARTNode_48 (grown_hdr h (n_children h))
           (fold (\<lambda>i ix. ix[unat (ks ! i) := of_nat i]) [0..<n] (replicate 256 256))
           (splice_at (replicate 48 None) 0 (take n cs)))"

definition mk_ARTNode_256 :: "ARTHeader \<Rightarrow> 16 word list \<Rightarrow> 'v ARTNode option list \<Rightarrow> 'v ARTNode result" where
  "mk_ARTNode_256 h ix cs =
     rbind (rmap (\<lambda>b. rbind (at_idx ix b) (\<lambda>index. if index = 256 then Inr None else at_idx cs (unat index))) [0..<256])
       (\<lambda>children. Inr (ARTNode_256 (grown_hdr h (n_children h)) children))"

primrec grow :: "'v ARTNode \<Rightarrow> 'v ARTNode result" where
  "grow (ARTLeaf h k v) = Inl NullDeref"
| "grow (ARTNode_4 h ks cs) = Inr (mk_ARTNode_16 h ks cs)"
| "grow (ARTNode_16 h ks cs) = Inr (mk_ARTNode_48 h ks cs)"
| "grow (ARTNode_48 h ix cs) = mk_ARTNode_256 h ix cs"
| "grow (ARTNode_256 h cs) = Inl (RuntimeError ''Node 256 cannot grow'')"

section \<open>Children as a map\<close>

definition kids :: "'v ARTNode \<Rightarrow> byte \<Rightarrow> 'v ARTNode option" where
  "kids node b = (case getChild b node of Inl e \<Rightarrow> None | Inr c \<Rightarrow> c)"

text \<open>The first \<open>n\<close> places are used, in the order of their keys.\<close>

definition sorted_ok :: "nat \<Rightarrow> nat \<Rightarrow> byte list \<Rightarrow> 'c option list \<Rightarrow> bool" where
  "sorted_ok cap n ks cs \<longleftrightarrow>
     length ks = cap \<and> length cs = cap \<and> n \<le> cap \<and> (\<forall>i j. i < j \<longrightarrow> j < n \<longrightarrow> ks ! i < ks ! j) \<and>
     (\<forall>i < n. cs ! i \<noteq> None) \<and> (\<forall>i < cap. n \<le> i \<longrightarrow> cs ! i = None)"

definition index_ok :: "nat \<Rightarrow> 16 word list \<Rightarrow> 'c option list \<Rightarrow> bool" where
  "index_ok n ix cs \<longleftrightarrow>
     length ix = 256 \<and> length cs = 48 \<and> n \<le> 48 \<and> (\<forall>b < 256. ix ! b \<noteq> 256 \<longrightarrow> unat (ix ! b) < n) \<and>
     (\<forall>a < 256. \<forall>b < 256. ix ! a = ix ! b \<longrightarrow> ix ! a \<noteq> 256 \<longrightarrow> a = b)"

primrec inner_ok :: "'v ARTNode \<Rightarrow> bool" where
  "inner_ok (ARTLeaf h k v) = False"
| "inner_ok (ARTNode_4 h ks cs) = sorted_ok 4 (unat (n_children h)) ks cs"
| "inner_ok (ARTNode_16 h ks cs) = sorted_ok 16 (unat (n_children h)) ks cs"
| "inner_ok (ARTNode_48 h ix cs) = index_ok (unat (n_children h)) ix cs"
| "inner_ok (ARTNode_256 h cs) = (length cs = 256)"

lemma unat_byte: "unat (b :: byte) < 256"
  using unsigned_less [of b, where 'a = nat] by simp

lemma unat_byte_Suc: "unat (n :: byte) < 255 \<Longrightarrow> unat (n + 1) = Suc (unat n)"
  by (simp add: unat_word_ariths)

lemma scan_keys_first:
  "length cs = length ks \<Longrightarrow> i < length ks \<Longrightarrow> ks ! i = b \<Longrightarrow> \<forall>j < i. ks ! j \<noteq> b \<Longrightarrow> scan_keys b ks cs = cs ! i"
proof (induction b ks cs arbitrary: i rule: scan_keys.induct)
  case (1 b k ks c cs)
  show ?case
  proof (cases i)
    case (Suc i')
    then have "k \<noteq> b" using 1(5) by auto
    moreover have "\<forall>j < i'. ks ! j \<noteq> b" using 1(5) Suc by auto
    ultimately show ?thesis using 1 Suc by simp
  qed (use 1 in simp)
qed auto

lemma scan_keys_none: "\<forall>i < length ks. i < length cs \<longrightarrow> ks ! i = b \<longrightarrow> cs ! i = None \<Longrightarrow> scan_keys b ks cs = None"
proof (induction b ks cs rule: scan_keys.induct)
  case (1 b k ks c cs)
  have "\<forall>i < length ks. i < length cs \<longrightarrow> ks ! i = b \<longrightarrow> cs ! i = None"
    using 1(2) by (metis Suc_less_eq length_Cons nth_Cons_Suc)
  then show ?case using 1(1) 1(2) [rule_format, of 0] by auto
qed auto

lemma scan_keys_take: "scan_keys b (take n ks) cs = scan_keys b (take n ks) (take n cs)"
proof (induction n arbitrary: ks cs)
  case (Suc n)
  then show ?case by (cases ks; cases cs) auto
qed simp

text \<open>A node with sorted keys has the children at its used places.\<close>

definition used :: "nat \<Rightarrow> byte list \<Rightarrow> 'c option list \<Rightarrow> byte \<Rightarrow> 'c \<Rightarrow> bool" where
  "used n ks cs b c \<longleftrightarrow> (\<exists>i < n. ks ! i = b \<and> cs ! i = Some c)"

lemma sorted_keys_inj: "sorted_ok cap n ks cs \<Longrightarrow> i < n \<Longrightarrow> j < n \<Longrightarrow> ks ! i = ks ! j \<Longrightarrow> i = j"
  unfolding sorted_ok_def by (metis less_irrefl nat_neq_iff)

lemma scan_keys_used:
  assumes "sorted_ok cap n ks cs"
  shows "scan_keys b ks cs = Some c \<longleftrightarrow> used n ks cs b c" "scan_keys b (take n ks) cs = Some c \<longleftrightarrow> used n ks cs b c"
proof -
  have S: "length ks = cap" "length cs = cap" "n \<le> cap" "\<And>i. i < n \<Longrightarrow> cs ! i \<noteq> None" "\<And>i. i < cap \<Longrightarrow> n \<le> i \<Longrightarrow> cs ! i = None"
    using assms by (auto simp: sorted_ok_def)
  have "scan_keys b ks cs = Some c \<longleftrightarrow> used n ks cs b c" "scan_keys b (take n ks) (take n cs) = Some c \<longleftrightarrow> used n ks cs b c"
    if i: "i < n" "ks ! i = b" for i
  proof -
    have ne: "\<forall>j < i. ks ! j \<noteq> b"
    proof (intro allI impI notI)
      fix j assume "j < i" "ks ! j = b"
      then show False using sorted_keys_inj [OF assms, of j i] i by simp
    qed
    have "scan_keys b ks cs = cs ! i" by (rule scan_keys_first) (use S i ne in auto)
    moreover have "scan_keys b (take n ks) (take n cs) = take n cs ! i" by (rule scan_keys_first) (use S i ne in auto)
    moreover have "used n ks cs b c \<longleftrightarrow> cs ! i = Some c"
    proof
      assume "used n ks cs b c"
      then obtain j where j: "j < n" "ks ! j = b" "cs ! j = Some c" by (auto simp: used_def)
      then show "cs ! i = Some c" using sorted_keys_inj [OF assms j(1) i(1)] i(2) by simp
    qed (use i in \<open>auto simp: used_def\<close>)
    ultimately show "scan_keys b ks cs = Some c \<longleftrightarrow> used n ks cs b c"
      "scan_keys b (take n ks) (take n cs) = Some c \<longleftrightarrow> used n ks cs b c" using i by auto
  qed
  moreover have "scan_keys b ks cs = None" "scan_keys b (take n ks) (take n cs) = None" "\<not> used n ks cs b c"
    if "\<forall>i < n. ks ! i \<noteq> b"
  proof -
    show "scan_keys b ks cs = None"
    proof (rule scan_keys_none, intro allI impI)
      fix i assume "i < length ks" "ks ! i = b"
      then show "cs ! i = None" using S(1,5) that by (cases "i < n") auto
    qed
    show "scan_keys b (take n ks) (take n cs) = None" using S that by (intro scan_keys_none) auto
    show "\<not> used n ks cs b c" using that by (auto simp: used_def)
  qed
  ultimately show "scan_keys b ks cs = Some c \<longleftrightarrow> used n ks cs b c" "scan_keys b (take n ks) cs = Some c \<longleftrightarrow> used n ks cs b c"
    unfolding scan_keys_take [of b n ks cs] by (cases "\<forall>i < n. ks ! i \<noteq> b", simp, blast)+
qed

section \<open>Insertion adds one child\<close>

lemma key_pos_spec:
  "n \<le> length ks \<Longrightarrow> key_pos b n ks \<le> n \<and> (\<forall>j < key_pos b n ks. ks ! j < b) \<and>
     (key_pos b n ks < n \<longrightarrow> b \<le> ks ! key_pos b n ks)"
proof (induction b n ks rule: key_pos.induct)
  case (1 b n k ks)
  then show ?case by (auto simp: nth_Cons split: nat.split)
qed simp_all

lemma move_right_nth:
  assumes "n < length xs" "pos \<le> n"
  shows "length ((move_right pos n xs)[pos := x]) = length xs"
    "j < length xs \<Longrightarrow> (move_right pos n xs)[pos := x] ! j =
       (if j < pos then xs ! j else if j = pos then x else if j \<le> n then xs ! (j - 1) else xs ! j)"
proof -
  have len: "length (move_right pos n xs) = length xs" using assms by (simp add: move_right_def)
  then show "length ((move_right pos n xs)[pos := x]) = length xs" by simp
  have "move_right pos n xs ! j = (if j \<le> pos then xs ! j else if j \<le> n then xs ! (j - 1) else xs ! j)" if "j < length xs" for j
  proof -
    have "move_right pos n xs ! j = (if j < Suc pos then take (Suc pos) xs ! j
        else if j < Suc n then take (n - pos) (drop pos xs) ! (j - Suc pos) else drop (Suc n) xs ! (j - Suc n))"
      using assms that by (auto simp: move_right_def nth_append)
    then show ?thesis using assms that by (auto simp: add.commute)
  qed
  then show "(move_right pos n xs)[pos := x] ! j =
      (if j < pos then xs ! j else if j = pos then x else if j \<le> n then xs ! (j - 1) else xs ! j)" if "j < length xs"
    using that len assms by (cases "j = pos") auto
qed

lemma move_right_end: "n < length xs \<Longrightarrow> move_right n n xs = xs"
  by (simp add: move_right_def)

lemma sorted_insert:
  fixes c :: 'c
  assumes ok: "sorted_ok cap n ks cs" and n: "n < cap" and new: "\<forall>i < n. ks ! i \<noteq> b" and pos: "pos = key_pos b n ks"
  defines "ks' \<equiv> (move_right pos n ks)[pos := b]" and "cs' \<equiv> (move_right pos n cs)[pos := Some c]"
  shows "sorted_ok cap (Suc n) ks' cs'" "used (Suc n) ks' cs' b' c' \<longleftrightarrow> (if b' = b then c' = c else used n ks cs b' c')"
proof -
  have S: "length ks = cap" "length cs = cap" "\<And>i j. i < j \<Longrightarrow> j < n \<Longrightarrow> ks ! i < ks ! j" "\<And>i. i < n \<Longrightarrow> cs ! i \<noteq> None"
    "\<And>i. i < cap \<Longrightarrow> n \<le> i \<Longrightarrow> cs ! i = None" using ok by (auto simp: sorted_ok_def)
  have P: "pos \<le> n" "\<And>j. j < pos \<Longrightarrow> ks ! j < b" "pos < n \<Longrightarrow> b \<le> ks ! pos"
    using key_pos_spec [of n ks b] S(1) n pos by auto
  have after: "b < ks ! j" if "pos \<le> j" "j < n" for j
  proof -
    have "b < ks ! pos" using P(3) new that by (metis le_less_trans order_le_less)
    then show ?thesis using S(3) [of pos j] that by (cases "j = pos") auto
  qed
  have len: "length ks' = cap" "length cs' = cap" using move_right_nth(1) [of n ks pos b] move_right_nth(1) [of n cs pos "Some c"] S(1,2) n P(1)
    by (simp_all add: ks'_def cs'_def)
  have K: "ks' ! j = (if j < pos then ks ! j else if j = pos then b else if j \<le> n then ks ! (j - 1) else ks ! j)" if "j < cap" for j
    using move_right_nth(2) [of n ks pos j b] S(1) n P(1) that by (simp add: ks'_def)
  have C: "cs' ! j = (if j < pos then cs ! j else if j = pos then Some c else if j \<le> n then cs ! (j - 1) else cs ! j)" if "j < cap" for j
    using move_right_nth(2) [of n cs pos j "Some c"] S(2) n P(1) that by (simp add: cs'_def)
  have "ks' ! i < ks' ! j" if "i < j" "j < Suc n" for i j
  proof -
    have ij: "i < cap" "j < cap" "j - 1 < n \<or> j \<le> pos" using that n by auto
    consider "j < pos" | "j = pos" | "pos < j" by linarith
    then show ?thesis
    proof cases
      case 3
      then show ?thesis using K [OF ij(1)] K [OF ij(2)] that P(2) [of i] after [of "j - 1"] S(3) [of i "j - 1"] S(3) [of "i - 1" "j - 1"]
        by (cases "i < pos"; cases "i = pos") auto
    qed (use K [OF ij(1)] K [OF ij(2)] that P(1,2) S(3) [of i j] in auto)
  qed
  moreover have "cs' ! i \<noteq> None" if "i < Suc n" for i using C [of i] S(4) [of i] S(4) [of "i - 1"] that n P(1) by auto
  moreover have "cs' ! i = None" if "i < cap" "Suc n \<le> i" for i using C [OF that(1)] S(5) that P(1) by auto
  ultimately show "sorted_ok cap (Suc n) ks' cs'" using len n by (simp add: sorted_ok_def)
  show "used (Suc n) ks' cs' b' c' \<longleftrightarrow> (if b' = b then c' = c else used n ks cs b' c')"
  proof
    assume "used (Suc n) ks' cs' b' c'"
    then obtain i where i: "i < Suc n" "ks' ! i = b'" "cs' ! i = Some c'" by (auto simp: used_def)
    consider "i < pos" | "i = pos" | "pos < i" by linarith
    then show "if b' = b then c' = c else used n ks cs b' c'"
    proof cases
      case 1
      then have "ks ! i = b'" "cs ! i = Some c'" "i < n" using K [of i] C [of i] i n P(1) by auto
      then show ?thesis using new by (auto simp: used_def)
    next
      case 3
      then have "ks ! (i - 1) = b'" "cs ! (i - 1) = Some c'" "i - 1 < n" using K [of i] C [of i] i n by auto
      then show ?thesis using new by (auto simp: used_def)
    qed (use K [of i] C [of i] i n P(1) in auto)
  next
    assume *: "if b' = b then c' = c else used n ks cs b' c'"
    show "used (Suc n) ks' cs' b' c'"
    proof (cases "b' = b")
      case True
      then show ?thesis using * K [of pos] C [of pos] n P(1) by (auto simp: used_def intro: exI [of _ pos])
    next
      case False
      with * obtain i where i: "i < n" "ks ! i = b'" "cs ! i = Some c'" by (auto simp: used_def)
      then show ?thesis using K [of i] C [of i] K [of "Suc i"] C [of "Suc i"] n
        by (cases "i < pos") (auto simp: used_def intro: exI [of _ i] exI [of _ "Suc i"])
    qed
  qed
qed

lemma sorted_replace:
  assumes ok: "sorted_ok cap n ks cs" and i: "i < n" "ks ! i = b"
  shows "sorted_ok cap n ks (cs[i := Some c])" "key_pos b n ks = i"
    "used n ks (cs[i := Some c]) b' c' \<longleftrightarrow> (if b' = b then c' = c else used n ks cs b' c')"
proof -
  have S: "length ks = cap" "length cs = cap" "n \<le> cap" "\<And>i j. i < j \<Longrightarrow> j < n \<Longrightarrow> ks ! i < ks ! j"
    using ok by (auto simp: sorted_ok_def)
  show "sorted_ok cap n ks (cs[i := Some c])" using ok i by (auto simp: sorted_ok_def nth_list_update)
  show "key_pos b n ks = i"
  proof (rule ccontr)
    let ?p = "key_pos b n ks"
    have P: "?p \<le> n" "\<And>j. j < ?p \<Longrightarrow> ks ! j < b" "?p < n \<Longrightarrow> b \<le> ks ! ?p" using key_pos_spec [of n ks b] S(1,3) by auto
    assume "?p \<noteq> i"
    then consider "i < ?p" | "?p < i" by linarith
    then show False using P(2) [of i] P(3) S(4) [of ?p i] i by cases auto
  qed
  have len: "i < length cs" using i S by simp
  show "used n ks (cs[i := Some c]) b' c' \<longleftrightarrow> (if b' = b then c' = c else used n ks cs b' c')"
  proof (cases "b' = b")
    case True
    have "c' = c" if "used n ks (cs[i := Some c]) b c'"
    proof -
      from that obtain j where j: "j < n" "ks ! j = b" "cs[i := Some c] ! j = Some c'" by (auto simp: used_def)
      have "j = i" using sorted_keys_inj [OF ok j(1) i(1)] j(2) i(2) by simp
      then show ?thesis using j(3) len by simp
    qed
    moreover have "used n ks (cs[i := Some c]) b c" unfolding used_def using i len by (intro exI [of _ i]) simp
    ultimately show ?thesis using True by auto
  next
    case False
    have "(ks ! j = b' \<and> cs[i := Some c] ! j = Some c') = (ks ! j = b' \<and> cs ! j = Some c')" for j
      using False i(2) by (cases "j = i") auto
    then show ?thesis using False by (simp add: used_def)
  qed
qed

definition same_hdr :: "ARTHeader \<Rightarrow> ARTHeader \<Rightarrow> bool" where
  "same_hdr h h' \<longleftrightarrow> prefix_len h' = prefix_len h \<and> art_prefix h' = art_prefix h \<and>
     typeVersionLockObsolete h' = typeVersionLockObsolete h"

lemma insert_sorted_ok:
  assumes ok: "sorted_ok cap (unat (n_children h)) ks cs" and cap: "cap < 256"
    and room: "unat (n_children h) \<noteq> cap \<or> (\<exists>i < unat (n_children h). ks ! i = b)"
  shows "\<exists>h' ks' cs'. insert_sorted cap b c h ks cs = Inr (h', ks', cs') \<and> sorted_ok cap (unat (n_children h')) ks' cs' \<and>
    same_hdr h h' \<and>
    (\<forall>b' c'. used (unat (n_children h')) ks' cs' b' c' \<longleftrightarrow> (if b' = b then c' = c else used (unat (n_children h)) ks cs b' c'))"
proof (cases "\<exists>i < unat (n_children h). ks ! i = b")
  case True
  then obtain i where i: "i < unat (n_children h)" "ks ! i = b" by blast
  note R = sorted_replace [OF ok i]
  have "cs ! i \<noteq> None" "i < cap" using ok i by (auto simp: sorted_ok_def)
  then have "insert_sorted cap b c h ks cs = Inr (h, ks, cs[i := Some c])"
    using i R(2) by (simp add: insert_sorted_def Let_def)
  then show ?thesis using R(1,3) by (intro exI [of _ h] exI [of _ ks] exI [of _ "cs[i := Some c]"]) (auto simp: same_hdr_def)
next
  case False
  let ?n = "unat (n_children h)" and ?h = "h\<lparr>n_children := n_children h + 1\<rparr>"
  define pos where "pos = key_pos b ?n ks"
  have new: "\<forall>i < ?n. ks ! i \<noteq> b" using False by blast
  have n: "?n < cap" "length ks = cap" "length cs = cap" using room False ok by (auto simp: sorted_ok_def)
  have pos: "pos \<le> ?n" using key_pos_spec [of ?n ks b] n by (simp add: pos_def)
  have n': "unat (n_children ?h) = Suc ?n" using n(1) cap unat_byte_Suc [of "n_children h"] by simp
  note I = sorted_insert [OF ok n(1) new pos_def]
  have "\<not> (ks ! pos = b \<and> cs ! pos \<noteq> None)"
  proof (cases "pos < ?n")
    case True then show ?thesis using new by blast
  next
    case False then show ?thesis using ok pos n(1) by (auto simp: sorted_ok_def)
  qed
  then have "insert_sorted cap b c h ks cs = Inr (?h, (move_right pos ?n ks)[pos := b], (move_right pos ?n cs)[pos := Some c])"
    using pos n by (auto simp: insert_sorted_def Let_def pos_def [symmetric] move_right_end)
  then show ?thesis using I n' by (intro exI) (auto simp: same_hdr_def)
qed

lemma option_ext: "(\<And>c. x = Some c \<longleftrightarrow> y = Some c) \<Longrightarrow> x = y"
  by (cases y) auto

lemma kids_sorted:
  "inner_ok (ARTNode_4 h ks cs) \<Longrightarrow> kids (ARTNode_4 h ks cs) b = Some c \<longleftrightarrow> used (unat (n_children h)) ks cs b c"
  "inner_ok (ARTNode_16 h ks cs) \<Longrightarrow> kids (ARTNode_16 h ks cs) b = Some c \<longleftrightarrow> used (unat (n_children h)) ks cs b c"
  by (simp_all add: kids_def scan_keys_used)

lemma kids_48: "inner_ok (ARTNode_48 h ix cs) \<Longrightarrow>
    kids (ARTNode_48 h ix cs) b = (if ix ! unat b = 256 then None else cs ! unat (ix ! unat b))"
  using unat_byte [of b] by (auto simp: kids_def index_ok_def split: sum.split dest: at_idx_eq_Inr_iff [THEN iffD1])

lemma kids_256: "inner_ok (ARTNode_256 h cs) \<Longrightarrow> kids (ARTNode_256 h cs) b = cs ! unat b"
  using unat_byte [of b] by (simp add: kids_def)

lemma getChild_kids: "inner_ok node \<Longrightarrow> getChild b node = Inr (kids node b)"
proof (cases node)
  case (ARTNode_48 h ix cs)
  assume ok: "inner_ok node"
  then have "unat (ix ! unat b) < 48" if "ix ! unat b \<noteq> 256"
    using that unat_byte [of b] ARTNode_48 by (auto simp: index_ok_def)
  then show ?thesis using ok unat_byte [of b] ARTNode_48 by (auto simp: kids_def index_ok_def)
qed (use unat_byte [of b] in \<open>auto simp: kids_def\<close>)

lemma sorted_insertChild:
  assumes "\<And>h ks cs. inner_ok (N h ks cs) = sorted_ok cap (unat (n_children h)) ks cs" "\<And>h ks cs. node_hdr (N h ks cs) = h"
    and "\<And>h ks cs b c. inner_ok (N h ks cs) \<Longrightarrow> kids (N h ks cs) b = Some c \<longleftrightarrow> used (unat (n_children h)) ks cs b c"
    and "\<And>b c h ks cs. insertChild b c (N h ks cs) = rbind (insert_sorted cap b c h ks cs) (\<lambda>(h', ks', cs'). Inr (N h' ks' cs'))"
    and ok: "inner_ok (N h ks cs)" and cap: "cap < 256" and room: "unat (n_children h) \<noteq> cap \<or> kids (N h ks cs) b \<noteq> None"
  shows "\<exists>node'. insertChild b c (N h ks cs) = Inr node' \<and> inner_ok node' \<and> kids node' = (kids (N h ks cs))(b \<mapsto> c) \<and>
    same_hdr h (node_hdr node')"
proof -
  have "unat (n_children h) \<noteq> cap \<or> (\<exists>i < unat (n_children h). ks ! i = b)"
    using room assms(3) [OF ok, of b] by (auto simp: used_def)
  note room' = this
  have so: "sorted_ok cap (unat (n_children h)) ks cs" using ok unfolding assms(1) .
  from insert_sorted_ok [OF so cap room', of c] obtain h' ks' cs' where
    I: "insert_sorted cap b c h ks cs = Inr (h', ks', cs')" "sorted_ok cap (unat (n_children h')) ks' cs'" "same_hdr h h'"
      "\<forall>b' c'. used (unat (n_children h')) ks' cs' b' c' \<longleftrightarrow> (if b' = b then c' = c else used (unat (n_children h)) ks cs b' c')"
    by blast
  have ok': "inner_ok (N h' ks' cs')" unfolding assms(1) by (rule I(2))
  have "kids (N h' ks' cs') b' = ((kids (N h ks cs))(b \<mapsto> c)) b'" for b'
    using assms(3) [OF ok', of b'] assms(3) [OF ok, of b'] I(4) by (intro option_ext) (cases "b' = b", auto)
  then have "kids (N h' ks' cs') = (kids (N h ks cs))(b \<mapsto> c)" by blast
  moreover have "insertChild b c (N h ks cs) = Inr (N h' ks' cs')" unfolding assms(4) I(1) by simp
  moreover have "same_hdr h (node_hdr (N h' ks' cs'))" unfolding assms(2) by (rule I(3))
  ultimately show ?thesis using ok' by blast
qed

lemma insertChild_48:
  assumes ok: "inner_ok (ARTNode_48 h ix cs)" and room: "n_children h \<noteq> 48 \<or> kids (ARTNode_48 h ix cs) b \<noteq> None"
  shows "\<exists>node'. insertChild b c (ARTNode_48 h ix cs) = Inr node' \<and> inner_ok node' \<and>
    kids node' = (kids (ARTNode_48 h ix cs))(b \<mapsto> c) \<and> same_hdr h (node_hdr node')"
proof -
  have I: "length ix = 256" "length cs = 48" "unat (n_children h) \<le> 48" "\<And>a. a < 256 \<Longrightarrow> ix ! a \<noteq> 256 \<Longrightarrow> unat (ix ! a) < unat (n_children h)"
    "\<And>a b. a < 256 \<Longrightarrow> b < 256 \<Longrightarrow> ix ! a = ix ! b \<Longrightarrow> ix ! a \<noteq> 256 \<Longrightarrow> a = b"
    using ok by (auto simp: index_ok_def)
  note b = unat_byte [of b]
  show ?thesis
  proof (cases "ix ! unat b = 256")
    case True
    then have n: "unat (n_children h) < 48" using room kids_48 [OF ok, of b] I(3) by (auto simp: word_unat_eq_iff)
    let ?h = "h\<lparr>n_children := n_children h + 1\<rparr>" and ?ix = "ix[unat b := ucast (n_children h)]" and ?cs = "cs[unat (n_children h) := Some c]"
    have n': "unat (n_children ?h) = Suc (unat (n_children h))" using n unat_byte_Suc [of "n_children h"] by simp
    have u: "unat (ucast (n_children h) :: 16 word) = unat (n_children h)"
      using unat_byte [of "n_children h"] by (simp add: unsigned_ucast_eq take_bit_nat_eq_self)
    have ne: "(ucast (n_children h) :: 16 word) \<noteq> 256"
    proof
      assume "(ucast (n_children h) :: 16 word) = 256"
      then show False using u n by simp
    qed
    have ix: "?ix ! a = (if a = unat b then ucast (n_children h) else ix ! a)" if "a < 256" for a
      using that I(1) by simp
    have old: "ix ! a \<noteq> ucast (n_children h)" if "a < 256" "ix ! a \<noteq> 256" for a using I(4) [OF that] u by auto
    have ok': "inner_ok (ARTNode_48 ?h ?ix ?cs)"
      unfolding inner_ok.simps index_ok_def
    proof (intro conjI allI impI, goal_cases)
      case (4 a) then show ?case using ix [OF 4(1)] I(4) [of a] n' u by (cases "a = unat b") auto
    next
      case (5 x y) then show ?case using ix [of x] ix [of y] old [of x] old [of y] I(5) [of x y] ne by (auto split: if_splits)
    qed (use I n n' in simp_all)
    have "kids (ARTNode_48 ?h ?ix ?cs) b' = ((kids (ARTNode_48 h ix cs))(b \<mapsto> c)) b'" for b'
      using ix [OF unat_byte [of b']] kids_48 [OF ok'] kids_48 [OF ok] I(4) [OF unat_byte [of b']] I(2) n u ne by (auto simp: word_unat_eq_iff)
    moreover have "n_children h < 48" using n by (simp add: word_less_nat_alt)
    ultimately show ?thesis using True I(1) b ok' by (intro exI [of _ "ARTNode_48 ?h ?ix ?cs"]) (auto simp: same_hdr_def)
  next
    case False
    let ?i = "unat (ix ! unat b)" and ?cs = "cs[unat (ix ! unat b) := Some c]"
    have i: "?i < 48" using I(4) [OF b False] I(3) by simp
    have ok': "inner_ok (ARTNode_48 h ix ?cs)" using ok by (simp add: index_ok_def)
    have "kids (ARTNode_48 h ix ?cs) b' = ((kids (ARTNode_48 h ix cs))(b \<mapsto> c)) b'" for b'
    proof (cases "b' = b")
      case True then show ?thesis using kids_48 [OF ok', of b] False i I(2) by simp
    next
      case ne: False
      then have "ix ! unat b' \<noteq> ix ! unat b" if "ix ! unat b' \<noteq> 256" using I(5) [OF unat_byte [of b'] b _ that] by (auto simp: word_unat_eq_iff)
      then show ?thesis using kids_48 [OF ok', of b'] kids_48 [OF ok, of b'] ne by (auto simp: word_unat_eq_iff)
    qed
    then show ?thesis using False I(1,2) b i ok' by (intro exI [of _ "ARTNode_48 h ix ?cs"]) (auto simp: same_hdr_def)
  qed
qed

text \<open>A child can be put into a node that is not full, or in the place of a child it has.\<close>

lemma insertChild_ok:
  assumes ok: "inner_ok node" and room: "\<not> isFull node \<or> kids node b \<noteq> None"
  shows "\<exists>node'. insertChild b c node = Inr node' \<and> inner_ok node' \<and> kids node' = (kids node)(b \<mapsto> c) \<and>
    same_hdr (node_hdr node) (node_hdr node')"
proof (cases node)
  case (ARTNode_4 h ks cs)
  then have "unat (n_children h) \<noteq> 4 \<or> kids node b \<noteq> None" using room by (auto simp: word_unat_eq_iff)
  with sorted_insertChild [of ARTNode_4 4 h ks cs b c] ok ARTNode_4 show ?thesis by (simp add: kids_sorted(1))
next
  case (ARTNode_16 h ks cs)
  then have "unat (n_children h) \<noteq> 16 \<or> kids node b \<noteq> None" using room by (auto simp: word_unat_eq_iff)
  with sorted_insertChild [of ARTNode_16 16 h ks cs b c] ok ARTNode_16 show ?thesis by (simp add: kids_sorted(2))
next
  case (ARTNode_48 h ix cs)
  then show ?thesis using insertChild_48 [of h ix cs b c] ok room by simp
next
  case (ARTNode_256 h cs)
  then have len: "unat b < length cs" "length cs = 256" using ok unat_byte [of b] by simp_all
  have "kids (ARTNode_256 h (cs[unat b := Some c])) b' = ((kids (ARTNode_256 h cs))(b \<mapsto> c)) b'" for b'
    using len by (simp add: kids_256 nth_list_update word_unat_eq_iff)
  then show ?thesis using len ARTNode_256 by (intro exI [of _ "ARTNode_256 h (cs[unat b := Some c])"]) (auto simp: same_hdr_def)
qed (use ok in simp)

section \<open>Growth keeps the children\<close>

abbreviation key_index :: "byte list \<Rightarrow> nat \<Rightarrow> 16 word list" where
  "key_index ks n \<equiv> fold (\<lambda>i ix. ix[unat (ks ! i) := of_nat i]) [0..<n] (replicate 256 256)"

lemma key_index_length: "length (key_index ks n) = 256"
  by (induction n) simp_all

lemma key_index_hit:
  assumes "\<And>i j. i < n \<Longrightarrow> j < n \<Longrightarrow> ks ! i = ks ! j \<Longrightarrow> i = j" "i < n"
  shows "key_index ks n ! unat (ks ! i) = of_nat i"
  using assms
proof (induction n)
  case (Suc n)
  show ?case
  proof (cases "i = n")
    case True then show ?thesis using key_index_length [of ks n] unat_byte [of "ks ! n"] by simp
  next
    case False
    then have "unat (ks ! n) \<noteq> unat (ks ! i)" using Suc.prems(1) [of n i] Suc.prems(2) by (auto simp: word_unat_eq_iff)
    moreover have "key_index ks n ! unat (ks ! i) = of_nat i"
    proof (rule Suc.IH)
      show "a = b" if "a < n" "b < n" "ks ! a = ks ! b" for a b using Suc.prems(1) [of a b] that by simp
      show "i < n" using Suc.prems(2) False by simp
    qed
    ultimately show ?thesis by simp
  qed
qed simp

lemma key_index_miss: "\<forall>i < n. unat (ks ! i) \<noteq> b \<Longrightarrow> b < 256 \<Longrightarrow> key_index ks n ! b = 256"
proof (induction n)
  case (Suc n)
  then show ?case by (simp add: key_index_length)
qed simp

lemma splice_replicate_nth:
  assumes "n \<le> length cs" "n \<le> m"
  shows "length (splice_at (replicate m None) 0 (take n cs)) = m"
    "i < m \<Longrightarrow> splice_at (replicate m None) 0 (take n cs) ! i = (if i < n then cs ! i else None)"
  using assms by (auto simp: splice_at_def nth_append)

lemma grow_4:
  assumes ok: "inner_ok (ARTNode_4 h ks cs)" and full: "n_children h = 4"
  shows "inner_ok (mk_ARTNode_16 h ks cs)" "kids (mk_ARTNode_16 h ks cs) = kids (ARTNode_4 h ks cs)" "\<not> isFull (mk_ARTNode_16 h ks cs)"
proof -
  have S: "sorted_ok 4 4 ks cs" using ok full by simp
  define ks' :: "byte list" where "ks' = splice_at (map of_nat [0..<16]) 0 ks"
  define cs' where "cs' = splice_at (replicate 16 None) 0 cs"
  have len: "length ks = 4" "length cs = 4" using S by (simp_all add: sorted_ok_def)
  have node: "mk_ARTNode_16 h ks cs = ARTNode_16 (grown_hdr h 4) ks' cs'"
    using full len by (simp add: mk_ARTNode_16_def Let_def ks'_def cs'_def)
  have K: "length ks' = 16" "\<And>i. i < 4 \<Longrightarrow> ks' ! i = ks ! i" using len by (simp_all add: ks'_def splice_at_def nth_append)
  have C: "length cs' = 16" "\<And>i. i < 16 \<Longrightarrow> cs' ! i = (if i < 4 then cs ! i else None)"
    using splice_replicate_nth [of 4 cs 16] len by (simp_all add: cs'_def)
  have S': "sorted_ok 16 4 ks' cs'" using S K C by (auto simp: sorted_ok_def)
  then show ok': "inner_ok (mk_ARTNode_16 h ks cs)" by (simp add: node grown_hdr_def)
  have "used 4 ks' cs' b c = used 4 ks cs b c" for b c using K(2) C(2) by (auto simp: used_def)
  then have "kids (mk_ARTNode_16 h ks cs) b = kids (ARTNode_4 h ks cs) b" for b
    using kids_sorted(2) [OF ok' [unfolded node], of b] kids_sorted(1) [OF ok, of b] full
    by (intro option_ext) (simp add: node grown_hdr_def)
  then show "kids (mk_ARTNode_16 h ks cs) = kids (ARTNode_4 h ks cs)" by blast
  show "\<not> isFull (mk_ARTNode_16 h ks cs)" by (simp add: node grown_hdr_def)
qed

lemma grow_16:
  assumes ok: "inner_ok (ARTNode_16 h ks cs)"
  shows "inner_ok (mk_ARTNode_48 h ks cs)" "kids (mk_ARTNode_48 h ks cs) = kids (ARTNode_16 h ks cs)" "\<not> isFull (mk_ARTNode_48 h ks cs)"
proof -
  let ?n = "unat (n_children h)" and ?ix = "key_index ks (unat (n_children h))"
  have S: "sorted_ok 16 ?n ks cs" using ok by simp
  then have len: "length ks = 16" "length cs = 16" "?n \<le> 16" by (simp_all add: sorted_ok_def)
  define cs' where "cs' = splice_at (replicate 48 None) 0 (take ?n cs)"
  have node: "mk_ARTNode_48 h ks cs = ARTNode_48 (grown_hdr h (n_children h)) ?ix cs'"
    by (simp add: mk_ARTNode_48_def Let_def cs'_def)
  have C: "length cs' = 48" "\<And>i. i < 48 \<Longrightarrow> cs' ! i = (if i < ?n then cs ! i else None)"
    using splice_replicate_nth [of ?n cs 48] len by (simp_all add: cs'_def)
  have inj: "i = j" if "i < ?n" "j < ?n" "ks ! i = ks ! j" for i j using sorted_keys_inj [OF S that] .
  have ix: "?ix ! b = 256 \<and> (\<forall>i < ?n. unat (ks ! i) \<noteq> b) \<or> (\<exists>i < ?n. unat (ks ! i) = b \<and> ?ix ! b = of_nat i)" if "b < 256" for b
    using key_index_hit [OF inj, of ?n] key_index_miss [of ?n ks b] that by blast
  have u: "unat (of_nat i :: 16 word) = i" "(of_nat i :: 16 word) \<noteq> 256" if "i < ?n" for i
  proof -
    show "unat (of_nat i :: 16 word) = i" using that len(3) by (simp add: unsigned_of_nat take_bit_nat_eq_self)
    then show "(of_nat i :: 16 word) \<noteq> 256" using that len(3) by auto
  qed
  have "index_ok ?n ?ix cs'"
    unfolding index_ok_def
  proof (intro conjI allI impI, goal_cases)
    case (4 b) then show ?case using ix [OF 4(1)] u(1) by auto
  next
    case (5 x y)
    from ix [OF 5(1)] 5(4) obtain i where i: "i < ?n" "unat (ks ! i) = x" "?ix ! x = of_nat i" by auto
    from ix [OF 5(2)] 5(3,4) obtain j where j: "j < ?n" "unat (ks ! j) = y" "?ix ! y = of_nat j" by auto
    have "i = j" using u(1) [OF i(1)] u(1) [OF j(1)] i(3) j(3) 5(3) by metis
    then show ?case using i(2) j(2) by simp
  qed (use C len key_index_length in simp_all)
  then show ok': "inner_ok (mk_ARTNode_48 h ks cs)" by (simp add: node grown_hdr_def)
  have "kids (mk_ARTNode_48 h ks cs) b = Some c \<longleftrightarrow> kids (ARTNode_16 h ks cs) b = Some c" for b c
  proof -
    note k48 = kids_48 [OF ok' [unfolded node], of b, folded node] and k16 = kids_sorted(2) [OF ok, of b c]
    from ix [OF unat_byte [of b]] show ?thesis
    proof
      assume "?ix ! unat b = 256 \<and> (\<forall>i < ?n. unat (ks ! i) \<noteq> unat b)"
      then show ?thesis using k48 k16 by (auto simp: used_def)
    next
      assume "\<exists>i < ?n. unat (ks ! i) = unat b \<and> ?ix ! unat b = of_nat i"
      then obtain i where i: "i < ?n" "ks ! i = b" "?ix ! unat b = of_nat i" by (auto simp: word_unat_eq_iff)
      then have "kids (mk_ARTNode_48 h ks cs) b = cs ! i" using k48 u [OF i(1)] C(2) [of i] len(3) by simp
      moreover have "used ?n ks cs b c \<longleftrightarrow> cs ! i = Some c" using i(1,2) inj [OF i(1)] unfolding used_def by metis
      ultimately show ?thesis using k16 by simp
    qed
  qed
  then show "kids (mk_ARTNode_48 h ks cs) = kids (ARTNode_16 h ks cs)" by (intro ext option_ext)
  have "n_children h \<noteq> 48" using len(3) by auto
  then show "\<not> isFull (mk_ARTNode_48 h ks cs)" by (simp add: node grown_hdr_def)
qed

lemma grow_48:
  assumes ok: "inner_ok (ARTNode_48 h ix cs)"
  shows "\<exists>cs'. mk_ARTNode_256 h ix cs = Inr (ARTNode_256 (grown_hdr h (n_children h)) cs') \<and> length cs' = 256 \<and>
    kids (ARTNode_256 (grown_hdr h (n_children h)) cs') = kids (ARTNode_48 h ix cs)"
proof -
  have I: "length ix = 256" "length cs = 48" "\<And>a. a < 256 \<Longrightarrow> ix ! a \<noteq> 256 \<Longrightarrow> unat (ix ! a) < 48"
    using ok by (auto simp: index_ok_def)
  define g where "g = (\<lambda>b. if ix ! b = 256 then None else cs ! unat (ix ! b))"
  have "rmap (\<lambda>b. rbind (at_idx ix b) (\<lambda>index. if index = 256 then Inr None else at_idx cs (unat index))) [0..<256] = Inr (map g [0..<256])"
    using I by (intro rmap_all_Inr) (auto simp: g_def)
  then have "mk_ARTNode_256 h ix cs = Inr (ARTNode_256 (grown_hdr h (n_children h)) (map g [0..<256]))" by (simp add: mk_ARTNode_256_def)
  moreover have "kids (ARTNode_256 (grown_hdr h (n_children h)) (map g [0..<256])) b = kids (ARTNode_48 h ix cs) b" for b
    using unat_byte [of b] kids_48 [OF ok, of b] by (simp add: kids_256 g_def)
  ultimately show ?thesis by (intro exI [of _ "map g [0..<256]"]) auto
qed

lemma grow_ok:
  assumes ok: "inner_ok node" and full: "isFull node"
  shows "\<exists>node'. grow node = Inr node' \<and> inner_ok node' \<and> kids node' = kids node \<and> \<not> isFull node' \<and>
    prefix_len (node_hdr node') = prefix_len (node_hdr node) \<and> art_prefix (node_hdr node') = art_prefix (node_hdr node) \<and>
    typeVersionLockObsolete (node_hdr node') = 4"
proof (cases node)
  case (ARTNode_4 h ks cs)
  then show ?thesis using grow_4 [of h ks cs] ok full by (simp add: mk_ARTNode_16_def Let_def grown_hdr_def mk_ARTHeader_def)
next
  case (ARTNode_16 h ks cs)
  then show ?thesis using grow_16 [of h ks cs] ok by (simp add: mk_ARTNode_48_def Let_def grown_hdr_def mk_ARTHeader_def)
next
  case (ARTNode_48 h ix cs)
  then obtain cs' where "mk_ARTNode_256 h ix cs = Inr (ARTNode_256 (grown_hdr h (n_children h)) cs')" "length cs' = 256"
    "kids (ARTNode_256 (grown_hdr h (n_children h)) cs') = kids (ARTNode_48 h ix cs)" using grow_48 [of h ix cs] ok by auto
  then show ?thesis using ARTNode_48 by (simp add: grown_hdr_def mk_ARTHeader_def)
qed (use assms in simp_all)

end
