(* ===== verification/Art.thy ===== *)
theory Art
  imports ArtNode
begin

text \<open>
  The adaptive radix tree (\<^verbatim>\<open>index/ART/art.hpp\<close>), run by one thread: lookup and insertion with
  path compression and optimistic lock coupling. Keys are the bytes of an integer of fixed width.
\<close>

section \<open>Lookup\<close>

lemma scan_keys_mem: "scan_keys b ks cs = Some c \<Longrightarrow> Some c \<in> set cs"
  by (induction b ks cs rule: scan_keys.induct) (auto split: if_splits)

lemma size_child: "Some c \<in> set cs \<Longrightarrow> size c < Suc (size_list (size_option size) cs)"
  using size_list_estimation' [of "Some c" cs "size c" "size_option size"] by simp

lemma at_idx_mem: "at_idx xs i = Inr x \<Longrightarrow> x \<in> set xs"
  by (auto simp: at_idx_def split: if_splits)

lemma getChild_size: "getChild b node = Inr (Some c) \<Longrightarrow> size c < size node"
proof (cases node)
  case (ARTNode_48 h ix cs)
  assume "getChild b node = Inr (Some c)"
  then have "Some c \<in> set cs" using ARTNode_48 by (auto simp: rbind_eq_Inr_iff split: if_splits dest: at_idx_mem)
  then show ?thesis using ARTNode_48 size_child [of c cs] by simp
next
  case (ARTNode_256 h cs)
  assume "getChild b node = Inr (Some c)"
  then have "Some c \<in> set cs" using ARTNode_256 by (auto dest: at_idx_mem)
  then show ?thesis using ARTNode_256 size_child [of c cs] by simp
next
  case (ARTNode_4 h ks cs)
  assume "getChild b node = Inr (Some c)"
  then show ?thesis using ARTNode_4 size_child [of c cs] scan_keys_mem [of b ks cs c] by simp
next
  case (ARTNode_16 h ks cs)
  assume "getChild b node = Inr (Some c)"
  then show ?thesis using ARTNode_16 size_child [of c cs] scan_keys_mem [of b "take (unat (n_children h)) ks" cs c] by simp
qed simp

text \<open>The depth behind the prefix of a node, or nothing if the key does not have the prefix.\<close>

definition skip_prefix :: "ARTHeader \<Rightarrow> byte list \<Rightarrow> nat \<Rightarrow> nat option result" where
  "skip_prefix h key depth =
     (if prefix_len h = 0 then Inr (Some depth)
      else rbind (prefix_match h key depth) (\<lambda>len.
           Inr (if len \<noteq> unat (prefix_len h) then None else Some (depth + unat (prefix_len h)))))"

text \<open>
  One turn of the loop of \<^verbatim>\<open>getByKey_opt\<close>. \<open>parent\<close> is the header of the parent and the version read
  there. The result is the flag \<^verbatim>\<open>needRestart\<close> and the leaf. Both unlock calls assign the flag, so
  that a locked or obsolete child is not noticed; a missing child is dereferenced.
\<close>

function getByKey_opt ::
  "byte list \<Rightarrow> nat \<Rightarrow> (ARTHeader \<times> 64 word) option \<Rightarrow> 'v ARTNode \<Rightarrow> (bool \<times> (byte list \<times> 'v) option) result" where
  "getByKey_opt key depth parent node =
     (let h = node_hdr node; v = fst (readLockOrRestart h)
      in if (case parent of None \<Rightarrow> False | Some (ph, pv) \<Rightarrow> readUnlockOrRestart pv ph) then Inr (True, None)
         else if readUnlockOrRestart v h then Inr (True, None)
         else case node of
           ARTLeaf _ k val \<Rightarrow> Inr (readUnlockOrRestart v h, if key = k then Some (k, val) else None)
         | _ \<Rightarrow>
             rbind (skip_prefix h key depth) (\<lambda>d.
             case d of None \<Rightarrow> Inr (readUnlockOrRestart v h, None)
             | Some depth' \<Rightarrow>
                 rbind (at_idx key depth') (\<lambda>b.
                 case getChild b node of
                   Inl e \<Rightarrow> Inl e
                 | Inr None \<Rightarrow> Inl NullDeref
                 | Inr (Some child) \<Rightarrow> getByKey_opt key (depth' + 1) (Some (h, v)) child)))"
  by pat_completeness auto

termination
  by (relation "measure (\<lambda>(key, depth, parent, node). size node)") (auto simp del: getChild.simps ARTNode.size dest: getChild_size)

declare getByKey_opt.simps [simp del]

record 'v ART =
  art_root :: "'v ARTNode option"
  read_only :: bool

definition new_ART :: "'v ART" where
  "new_ART = \<lparr>art_root = None, read_only = False\<rparr>"

text \<open>The call for the root, where a locked or obsolete root is noticed, and the loop that repeats it.\<close>

definition find_once :: "byte list \<Rightarrow> 'v ART \<Rightarrow> (bool \<times> (byte list \<times> 'v) option) result" where
  "find_once key t =
     (case art_root t of
        None \<Rightarrow> Inr (False, None)
      | Some node \<Rightarrow> if snd (readLockOrRestart (node_hdr node)) then Inr (True, None) else getByKey_opt key 0 None node)"

fun find_impl :: "nat \<Rightarrow> byte list \<Rightarrow> 'v ART \<Rightarrow> (byte list \<times> 'v) option result" where
  "find_impl 0 key t = Inl Diverges"
| "find_impl (Suc fuel) key t =
     rbind (find_once key t) (\<lambda>(needRestart, res). if needRestart then find_impl fuel key t else Inr res)"

text \<open>\<^verbatim>\<open>find(key, value)\<close>: the value, if the key is there.\<close>

definition art_find :: "nat \<Rightarrow> byte list \<Rightarrow> 'v ART \<Rightarrow> 'v option result" where
  "art_find fuel key t = rbind (find_impl fuel key t) (\<lambda>res. Inr (map_option snd res))"

section \<open>Insertion\<close>

definition upgrade :: "64 word \<Rightarrow> 'v ARTNode \<Rightarrow> 'v ARTNode option" where
  "upgrade version node =
     (let (h, needRestart) = upgradeToWriteLockOrRestart version (node_hdr node)
      in if needRestart then None else Some (map_hdr (\<lambda>_. h) node))"

text \<open>The parent is locked and unlocked if there is one.\<close>

definition upgrade_parent :: "64 word \<Rightarrow> 'v ARTNode option \<Rightarrow> 'v ARTNode option option" where
  "upgrade_parent version parent = (case parent of None \<Rightarrow> Some None | Some p \<Rightarrow> map_option Some (upgrade version p))"

text \<open>
  The parent gets the node as its child for the byte before \<open>depth\<close>. When a node is changed where it
  is, the parent keeps its pointer; nodes are values here, so the changed value is put in its place.
\<close>

definition put_child :: "byte list \<Rightarrow> nat \<Rightarrow> 'v ARTNode \<Rightarrow> 'v ARTNode option \<Rightarrow> 'v ARTNode option result" where
  "put_child key depth child parent =
     (case parent of None \<Rightarrow> Inr None
      | Some p \<Rightarrow> rbind (at_idx key (depth - 1)) (\<lambda>b. rbind (insertChild b child p) (\<lambda>p'. Inr (Some p'))))"

text \<open>The new prefix of a node that takes the place of another.\<close>

definition copyPrefix_key :: "byte list \<Rightarrow> nat \<Rightarrow> nat \<Rightarrow> 'v ARTNode \<Rightarrow> 'v ARTNode result" where
  "copyPrefix_key k len depth node =
     rbind (rassert (length k \<ge> depth + len) ''sizeof(K) >= depth + len'') (\<lambda>_.
       Inr (map_hdr (\<lambda>h. h\<lparr>art_prefix := slice k depth len\<rparr>) node))"

definition copyPrefix_node :: "ARTHeader \<Rightarrow> nat \<Rightarrow> 'v ARTNode \<Rightarrow> 'v ARTNode result" where
  "copyPrefix_node source len dst =
     rbind (rassert (unat (prefix_len source) \<ge> len) ''source->prefix_len >= len'') (\<lambda>_.
     rbind (if len \<le> length (art_prefix source) then Inr (take len (art_prefix source)) else Inl BadAccess) (\<lambda>bs.
       Inr (map_hdr (\<lambda>h. h\<lparr>art_prefix := bs\<rparr>) dst)))"

text \<open>
  The outcomes: whether the insertion is done, the parent, and what the parent refers to now. The
  branch for a key that leaves the path inside the prefix of a node:
\<close>

definition split_prefix ::
  "byte list \<Rightarrow> 'v ARTNode \<Rightarrow> nat \<Rightarrow> 'v ARTNode option \<Rightarrow> 64 word \<Rightarrow> 64 word \<Rightarrow> 'v ARTNode \<Rightarrow> nat
     \<Rightarrow> (bool \<times> 'v ARTNode option \<times> 'v ARTNode) result" where
  "split_prefix key newLeaf depth parent parentVersion v node len =
     (case upgrade_parent parentVersion parent of
        None \<Rightarrow> Inr (False, parent, node)
      | Some parent1 \<Rightarrow>
          (case upgrade v node of
             None \<Rightarrow> Inr (False, map_option (map_hdr writeUnlock) parent1, node)
           | Some node1 \<Rightarrow>
               rbind (copyPrefix_node (node_hdr node1) len (mk_ARTNode_4 len)) (\<lambda>new0.
               rbind (at_idx key (depth + len)) (\<lambda>b1.
               rbind (insertChild b1 newLeaf new0) (\<lambda>new1.
               rbind (at_idx (art_prefix (node_hdr node1)) len) (\<lambda>b2.
               let node2 = map_hdr (\<lambda>h. writeUnlock (h\<lparr>prefix_len := prefix_len h - of_nat (len + 1),
                                                       art_prefix := drop (len + 1) (art_prefix h)\<rparr>)) node1
               in rbind (insertChild b2 node2 new1) (\<lambda>new2.
                  rbind (put_child key depth new2 parent1) (\<lambda>parent2.
                  Inr (True, map_option (map_hdr writeUnlock) parent2, new2)))))))))"

text \<open>The branch for a missing child: the leaf is added, to a larger node if this one is full.\<close>

definition add_leaf ::
  "byte list \<Rightarrow> 'v ARTNode \<Rightarrow> nat \<Rightarrow> nat \<Rightarrow> 'v ARTNode option \<Rightarrow> 64 word \<Rightarrow> 64 word \<Rightarrow> 'v ARTNode \<Rightarrow> byte
     \<Rightarrow> (bool \<times> 'v ARTNode option \<times> 'v ARTNode) result" where
  "add_leaf key newLeaf depth0 depth parent parentVersion v node b =
     (if isFull node
      then (case upgrade_parent parentVersion parent of
              None \<Rightarrow> Inr (False, parent, node)
            | Some parent1 \<Rightarrow>
                (case upgrade v node of
                   None \<Rightarrow> Inr (False, map_option (map_hdr writeUnlock) parent1, node)
                 | Some node1 \<Rightarrow>
                     rbind (grow node1) (\<lambda>node2.
                     rbind (insertChild b newLeaf node2) (\<lambda>node3.
                     rbind (put_child key depth0 node3 parent1) (\<lambda>parent2.
                     Inr (True, map_option (map_hdr writeUnlock) parent2, node3))))))
      else (case upgrade v node of
              None \<Rightarrow> Inr (False, parent, node)
            | Some node1 \<Rightarrow>
                if (case parent of None \<Rightarrow> False | Some p \<Rightarrow> readUnlockOrRestart parentVersion (node_hdr p))
                then Inr (False, parent, map_hdr writeUnlock node1)
                else rbind (insertChild b newLeaf node1) (\<lambda>node2.
                     let node3 = map_hdr writeUnlock node2
                     in rbind (put_child key depth0 node3 parent) (\<lambda>parent1. Inr (True, parent1, node3)))))"

text \<open>
  The loop that looks for the first byte in which two keys differ. It reads the byte before it
  compares the position with the width of the key.
\<close>

function first_difference :: "byte list \<Rightarrow> byte list \<Rightarrow> nat \<Rightarrow> nat result" where
  "first_difference key2 key i =
     rbind (at_idx key2 i) (\<lambda>a.
     rbind (at_idx key i) (\<lambda>b.
     if a = b \<and> i < length key
     then (if i + 1 = length key2 \<and> length key2 = length key then Inr (i + 1) else first_difference key2 key (i + 1))
     else Inr i))"
  by pat_completeness auto

termination
  by (relation "measure (\<lambda>(key2, key, i). length key - i)") auto

declare first_difference.simps [simp del]

text \<open>The branch for a leaf; the same key is left as it is.\<close>

definition split_leaf ::
  "byte list \<Rightarrow> 'v ARTNode \<Rightarrow> nat \<Rightarrow> 'v ARTNode option \<Rightarrow> 64 word \<Rightarrow> 64 word \<Rightarrow> 'v ARTNode \<Rightarrow> byte list
     \<Rightarrow> (bool \<times> 'v ARTNode option \<times> 'v ARTNode) result" where
  "split_leaf key newLeaf depth parent parentVersion v node key2 =
     (if (case parent of None \<Rightarrow> False | Some p \<Rightarrow> readUnlockOrRestart parentVersion (node_hdr p)) then Inr (False, parent, node)
      else rbind (first_difference key2 key depth) (\<lambda>i.
        if i \<ge> length key then Inr (True, parent, node)
        else (case upgrade_parent parentVersion parent of
                None \<Rightarrow> Inr (False, parent, node)
              | Some parent1 \<Rightarrow>
                  (case upgrade v node of
                     None \<Rightarrow> Inr (False, map_option (map_hdr writeUnlock) parent1, node)
                   | Some node1 \<Rightarrow>
                       rbind (copyPrefix_key key (i - depth) depth (mk_ARTNode_4 (i - depth))) (\<lambda>new0.
                       rbind (at_idx key2 i) (\<lambda>b2.
                       rbind (insertChild b2 (map_hdr writeUnlock node1) new0) (\<lambda>new1.
                       rbind (at_idx key i) (\<lambda>b1.
                       rbind (insertChild b1 newLeaf new1) (\<lambda>new2.
                       rbind (put_child key depth new2 parent1) (\<lambda>parent2.
                       Inr (True, map_option (map_hdr writeUnlock) parent2, new2)))))))))))"

function insert_recursive_opt ::
  "byte list \<Rightarrow> 'v ARTNode \<Rightarrow> nat \<Rightarrow> 'v ARTNode option \<Rightarrow> 64 word \<Rightarrow> 'v ARTNode
     \<Rightarrow> (bool \<times> 'v ARTNode option \<times> 'v ARTNode) result" where
  "insert_recursive_opt key newLeaf depth0 parent parentVersion node =
     (let h = node_hdr node; (v, needRestart) = readLockOrRestart h
      in if needRestart then Inr (False, parent, node)
         else rbind (if prefix_len h = 0 then Inr 0 else prefix_match h key depth0) (\<lambda>len.
              if len \<noteq> unat (prefix_len h) then split_prefix key newLeaf depth0 parent parentVersion v node len
              else if readUnlockOrRestart v h then Inr (False, parent, node)
              else let depth = depth0 + unat (prefix_len h)
                   in case node of
                        ARTLeaf _ key2 _ \<Rightarrow> split_leaf key newLeaf depth0 parent parentVersion v node key2
                      | _ \<Rightarrow>
                          rbind (at_idx key depth) (\<lambda>b.
                          case getChild b node of
                            Inl e \<Rightarrow> Inl e
                          | Inr None \<Rightarrow> add_leaf key newLeaf depth0 depth parent parentVersion v node b
                          | Inr (Some child) \<Rightarrow>
                              if (case parent of None \<Rightarrow> False | Some p \<Rightarrow> readUnlockOrRestart parentVersion (node_hdr p))
                              then Inr (False, parent, node)
                              else rbind (insert_recursive_opt key newLeaf (depth + 1) (Some node) v child) (\<lambda>(res, node', _).
                                   case node' of None \<Rightarrow> Inl NullDeref
                                   | Some node1 \<Rightarrow>
                                       rbind (put_child key depth0 node1 parent) (\<lambda>parent1. Inr (res, parent1, node1))))))"
  by pat_completeness auto

termination
  by (relation "measure (\<lambda>(key, newLeaf, depth, parent, version, node). size node)") (auto simp del: getChild.simps ARTNode.size dest: getChild_size)

declare insert_recursive_opt.simps [simp del]

definition insert_once :: "byte list \<Rightarrow> 'v ARTNode \<Rightarrow> 'v ARTNode option \<Rightarrow> (bool \<times> 'v ARTNode option) result" where
  "insert_once key newLeaf root =
     (case root of
        None \<Rightarrow> Inr (True, Some newLeaf)
      | Some node \<Rightarrow> rbind (insert_recursive_opt key newLeaf 0 None 0 node) (\<lambda>(res, _, node'). Inr (res, Some node')))"

fun insert_loop :: "nat \<Rightarrow> byte list \<Rightarrow> 'v ARTNode \<Rightarrow> 'v ARTNode option \<Rightarrow> 'v ARTNode option result" where
  "insert_loop 0 key newLeaf root = Inl Diverges"
| "insert_loop (Suc fuel) key newLeaf root =
     rbind (insert_once key newLeaf root) (\<lambda>(res, root'). if res then Inr root' else insert_loop fuel key newLeaf root')"

definition art_insert :: "nat \<Rightarrow> byte list \<Rightarrow> 'v \<Rightarrow> 'v ART \<Rightarrow> (bool \<times> 'v ART) result" where
  "art_insert fuel key val t =
     (if read_only t then Inr (False, t)
      else rbind (insert_loop fuel key (mk_ARTLeaf key val) (art_root t)) (\<lambda>root'. Inr (True, t\<lparr>art_root := root'\<rparr>)))"

end
