(* ===== verification/ArtMap.thy ===== *)
theory ArtMap
  imports Art
begin

text \<open>
  The adaptive radix tree as a map from keys to values: a tree in order has every key on the path
  of its bytes, insertion of a new key adds that key and nothing else, and lookup finds it.
\<close>

section \<open>Trees in order\<close>

definition unlocked :: "64 word \<Rightarrow> bool" where
  "unlocked v \<longleftrightarrow> unat v mod 4 = 0"

lemma unlocked_bits: "unlocked v \<Longrightarrow> \<not> isLocked v \<and> \<not> isObsolete v"
proof -
  assume "unlocked v"
  then have "4 dvd unat v" by (simp add: unlocked_def dvd_eq_mod_eq_0)
  then obtain q where "unat v = 4 * q" by (elim dvdE)
  then have "\<not> bit (unat v) 0" "\<not> bit (unat v) 1" by (simp_all add: bit_iff_odd)
  then have "\<not> bit v 0" "\<not> bit v 1" by (simp_all add: bit_unsigned_iff)
  moreover have "bit (v AND 2) 1 = bit v 1" "bit (2 :: 64 word) 1" "bit (v AND 1) 0 = bit v 0" "bit (1 :: 64 word) 0"
    by (simp_all add: bit_and_iff bit_numeral_rec)
  ultimately show ?thesis unfolding isLocked_def isObsolete_def by metis
qed

lemma unlocked_relock: "unlocked v \<Longrightarrow> unlocked (v + 2 + 2)"
proof -
  assume "unlocked v"
  have "unat (v + 2 + 2) mod 4 = (unat v + 4) mod 2 ^ 64 mod 4" by (simp add: unat_word_ariths add.assoc)
  also have "\<dots> = (unat v + 4) mod 4" by (rule mod_mod_cancel) simp
  finally show ?thesis using \<open>unlocked v\<close> by (simp add: unlocked_def)
qed

lemma unlocked_new: "unlocked 4"
  by (simp add: unlocked_def)

abbreviation node_lock :: "'v ARTNode \<Rightarrow> 64 word" where
  "node_lock node \<equiv> typeVersionLockObsolete (node_hdr node)"

abbreviation node_prefix :: "'v ARTNode \<Rightarrow> byte list" where
  "node_prefix node \<equiv> art_prefix (node_hdr node)"

text \<open>Keys have \<open>n\<close> bytes; \<open>pre\<close> are the bytes on the path to the node.\<close>

inductive art_wf :: "nat \<Rightarrow> byte list \<Rightarrow> 'v ARTNode \<Rightarrow> bool" for n where
  wf_leaf: "length k = n \<Longrightarrow> length pre \<le> n \<Longrightarrow> take (length pre) k = pre \<Longrightarrow> unlocked (typeVersionLockObsolete h) \<Longrightarrow>
    prefix_len h = 0 \<Longrightarrow> art_wf n pre (ARTLeaf h k v)"
| wf_inner: "inner_ok node \<Longrightarrow> unlocked (node_lock node) \<Longrightarrow> length (node_prefix node) = unat (prefix_len (node_hdr node)) \<Longrightarrow>
    length pre + length (node_prefix node) < n \<Longrightarrow>
    (\<forall>b c. kids node b = Some c \<longrightarrow> art_wf n (pre @ node_prefix node @ [b]) c) \<Longrightarrow> art_wf n pre node"

inductive art_has :: "'v ARTNode \<Rightarrow> byte list \<Rightarrow> 'v \<Rightarrow> bool" where
  has_leaf: "art_has (ARTLeaf h k v) k v"
| has_child: "kids node b = Some c \<Longrightarrow> art_has c k v \<Longrightarrow> art_has node k v"

inductive_cases art_wf_leafE: "art_wf n pre (ARTLeaf h k v)"
inductive_cases art_has_leafE: "art_has (ARTLeaf h k v) k' v'"

lemma kids_leaf [simp]: "kids (ARTLeaf h k v) b = None"
  by (simp add: kids_def)

lemma art_has_leaf [simp]: "art_has (ARTLeaf h k v) k' v' \<longleftrightarrow> k' = k \<and> v' = v"
  by (auto elim: art_has_leafE intro: has_leaf)

lemma inner_not_leaf: "inner_ok node \<Longrightarrow> \<not> isLeaf node"
  by (cases node) simp_all

lemma art_wf_inner:
  assumes "art_wf n pre node" "\<not> isLeaf node"
  shows "inner_ok node" "unlocked (node_lock node)" "length (node_prefix node) = unat (prefix_len (node_hdr node))"
    "length pre + length (node_prefix node) < n" "kids node b = Some c \<Longrightarrow> art_wf n (pre @ node_prefix node @ [b]) c"
  using assms by (auto elim: art_wf.cases)

lemma art_wf_unlocked: "art_wf n pre node \<Longrightarrow> unlocked (node_lock node)"
  by (auto elim: art_wf.cases)

lemma art_has_inner: "\<not> isLeaf node \<Longrightarrow> art_has node k v \<longleftrightarrow> (\<exists>b c. kids node b = Some c \<and> art_has c k v)"
  by (subst art_has.simps) (cases node; auto)

lemma take_path: "take (length (xs @ ys)) k = xs @ ys \<Longrightarrow> take (length xs) k = xs"
proof -
  assume "take (length (xs @ ys)) k = xs @ ys"
  then have "k = xs @ ys @ drop (length (xs @ ys)) k" by (metis append_assoc append_take_drop_id)
  then show ?thesis by (metis append_eq_conv_conj)
qed

lemma art_has_path: "art_has node k v \<Longrightarrow> art_wf n pre node \<Longrightarrow> length k = n \<and> length pre \<le> n \<and> take (length pre) k = pre"
proof (induction arbitrary: pre rule: art_has.induct)
  case (has_leaf h k v)
  then show ?case by (auto elim: art_wf_leafE)
next
  case (has_child node b c k v)
  have "\<not> isLeaf node" using has_child(1) by (cases node) auto
  then have "art_wf n (pre @ node_prefix node @ [b]) c" using art_wf_inner(5) has_child(1,4) by blast
  from has_child(3) [OF this] have k: "length k = n" "length (pre @ node_prefix node @ [b]) \<le> n"
    "take (length (pre @ node_prefix node @ [b])) k = pre @ node_prefix node @ [b]" by auto
  then show ?case using take_path [OF k(3)] by simp
qed

text \<open>Below an inner node, the byte behind its prefix decides which child can have a key.\<close>

lemma art_has_at:
  assumes wf: "art_wf n pre node" "\<not> isLeaf node" and k: "length k = n" "take (length pre) k = pre"
  shows "art_has node k v \<longleftrightarrow> slice k (length pre) (length (node_prefix node)) = node_prefix node \<and>
    (\<exists>c. kids node (k ! (length pre + length (node_prefix node))) = Some c \<and> art_has c k v)"
proof
  assume "art_has node k v"
  then obtain b c where c: "kids node b = Some c" "art_has c k v" using art_has_inner [OF wf(2)] by blast
  let ?p = "node_prefix node"
  from art_has_path [OF c(2) art_wf_inner(5) [OF wf c(1)]] have t: "take (length (pre @ ?p @ [b])) k = pre @ ?p @ [b]" by blast
  have d: "k = pre @ ?p @ [b] @ drop (length (pre @ ?p @ [b])) k" using t by (metis append_assoc append_take_drop_id)
  have "slice k (length pre) (length ?p) = ?p" by (subst d) (simp add: slice_def)
  moreover have "k ! (length pre + length ?p) = b" by (subst d) (simp add: nth_append)
  ultimately show "slice k (length pre) (length ?p) = ?p \<and> (\<exists>c. kids node (k ! (length pre + length ?p)) = Some c \<and> art_has c k v)"
    using c by blast
qed (auto intro: has_child)

section \<open>Matching a prefix\<close>

lemma match_from_ok:
  assumes "len + m = length pre" "depth + length pre \<le> length key" "\<forall>i < len. key ! (depth + i) = pre ! i"
  shows "\<exists>j. match_from key pre depth len m = Inr j \<and> j \<le> length pre \<and> (\<forall>i < j. key ! (depth + i) = pre ! i) \<and>
    (j < length pre \<longrightarrow> key ! (depth + j) \<noteq> pre ! j)"
  using assms
proof (induction m arbitrary: len)
  case (Suc m)
  have in_range: "depth + len < length key" "len < length pre" using Suc.prems by auto
  show ?case
  proof (cases "key ! (depth + len) = pre ! len")
    case True
    then have "\<forall>i < Suc len. key ! (depth + i) = pre ! i" using Suc.prems(3) by (simp add: less_Suc_eq)
    with Suc.IH [of "Suc len"] Suc.prems True in_range show ?thesis by simp
  next
    case False
    then show ?thesis using in_range Suc.prems(3) by simp
  qed
qed simp

lemma prefix_match_ok:
  assumes "length (art_prefix h) = unat (prefix_len h)" "depth + length (art_prefix h) \<le> length key"
  obtains j where "prefix_match h key depth = Inr j" "j \<le> length (art_prefix h)" "\<forall>i < j. key ! (depth + i) = art_prefix h ! i"
    "j < length (art_prefix h) \<Longrightarrow> key ! (depth + j) \<noteq> art_prefix h ! j"
  using match_from_ok [of 0 "unat (prefix_len h)" "art_prefix h" depth key] assms by (auto simp: prefix_match_def)

lemma slice_eq_iff: "length ys = m \<Longrightarrow> d + m \<le> length xs \<Longrightarrow> slice xs d m = ys \<longleftrightarrow> (\<forall>i < m. xs ! (d + i) = ys ! i)"
  by (auto simp: slice_def list_eq_iff_nth_eq)

lemma skip_prefix_ok:
  assumes "length (art_prefix h) = unat (prefix_len h)" "depth + length (art_prefix h) \<le> length key"
  shows "skip_prefix h key depth =
    Inr (if slice key depth (length (art_prefix h)) = art_prefix h then Some (depth + length (art_prefix h)) else None)"
proof (cases "prefix_len h = 0")
  case True
  then show ?thesis using assms by (simp add: skip_prefix_def slice_def)
next
  case False
  obtain j where j: "prefix_match h key depth = Inr j" "j \<le> length (art_prefix h)" "\<forall>i < j. key ! (depth + i) = art_prefix h ! i"
    "j < length (art_prefix h) \<Longrightarrow> key ! (depth + j) \<noteq> art_prefix h ! j"
    by (rule prefix_match_ok [OF assms]) (rule that)
  have "slice key depth (length (art_prefix h)) = art_prefix h \<longleftrightarrow> j = length (art_prefix h)"
    unfolding slice_eq_iff [OF refl assms(2)] using j(2-4) by (metis le_neq_implies_less)
  then show ?thesis using False j(1) assms(1) by (auto simp: skip_prefix_def)
qed

section \<open>Lookup\<close>

lemma readUnlock_same [simp]: "readUnlockOrRestart (typeVersionLockObsolete h) h = False"
  by (simp add: readUnlockOrRestart_def)

lemma readLock_fst [simp]: "fst (readLockOrRestart h) = typeVersionLockObsolete h"
  by (simp add: readLockOrRestart_def Let_def)

lemma readLock_unlocked: "unlocked (typeVersionLockObsolete h) \<Longrightarrow> readLockOrRestart h = (typeVersionLockObsolete h, False)"
  by (simp add: readLockOrRestart_def Let_def unlocked_bits)

definition read_from :: "(ARTHeader \<times> 64 word) option \<Rightarrow> bool" where
  "read_from parent \<longleftrightarrow> (\<forall>ph pv. parent = Some (ph, pv) \<longrightarrow> pv = typeVersionLockObsolete ph)"

lemma getByKey_leaf:
  "read_from parent \<Longrightarrow> getByKey_opt key depth parent (ARTLeaf h k v) = Inr (False, if key = k then Some (k, v) else None)"
  by (subst getByKey_opt.simps) (auto simp: Let_def read_from_def split: option.split)

lemma case_inner:
  "\<not> isLeaf node \<Longrightarrow> case_ARTNode f (\<lambda>_ _ _. B) (\<lambda>_ _ _. B) (\<lambda>_ _ _. B) (\<lambda>_ _. B) node = B"
  by (cases node) simp_all

lemma getByKey_inner:
  assumes "read_from parent" "\<not> isLeaf node"
  shows "getByKey_opt key depth parent node =
    rbind (skip_prefix (node_hdr node) key depth) (\<lambda>d.
      case d of None \<Rightarrow> Inr (False, None)
      | Some depth' \<Rightarrow>
          rbind (at_idx key depth') (\<lambda>b.
          case getChild b node of
            Inl e \<Rightarrow> Inl e
          | Inr None \<Rightarrow> Inl NullDeref
          | Inr (Some child) \<Rightarrow> getByKey_opt key (depth' + 1) (Some (node_hdr node, node_lock node)) child))"
  using assms by (subst getByKey_opt.simps) (auto simp: Let_def read_from_def case_inner split: option.split)

text \<open>
  A key that is there is found. For another key the search ends with nothing, or it follows a
  missing child and stops.
\<close>

lemma getByKey_ok:
  assumes "art_wf n pre node" "length key = n" "take (length pre) key = pre" "read_from parent"
  shows "art_has node key v \<Longrightarrow> getByKey_opt key (length pre) parent node = Inr (False, Some (key, v))"
    "\<forall>v. \<not> art_has node key v \<Longrightarrow> getByKey_opt key (length pre) parent node \<in> {Inr (False, None), Inl NullDeref}"
proof -
  have "(\<forall>v. art_has node key v \<longrightarrow> getByKey_opt key (length pre) parent node = Inr (False, Some (key, v))) \<and>
    ((\<forall>v. \<not> art_has node key v) \<longrightarrow> getByKey_opt key (length pre) parent node \<in> {Inr (False, None), Inl NullDeref})"
    using assms
  proof (induction arbitrary: parent rule: art_wf.induct)
    case (wf_leaf k pre h v)
    then show ?case by (simp add: getByKey_leaf)
  next
    case (wf_inner node pre)
    let ?p = "node_prefix node" and ?d = "length pre + length (node_prefix node)"
    have nl: "\<not> isLeaf node" using inner_not_leaf [OF wf_inner(1)] .
    have wf: "art_wf n pre node" using wf_inner(1-5) by (intro art_wf.wf_inner) blast+
    note has = art_has_at [OF wf nl wf_inner(6,7)]
    have len: "length pre + length ?p \<le> length key" "?d < length key" using wf_inner(4,6) by simp_all
    note run = getByKey_inner [OF wf_inner(8) nl, of key "length pre", unfolded skip_prefix_ok [OF wf_inner(3) len(1)]]
    show ?case
    proof (cases "slice key (length pre) (length ?p) = ?p")
      case False
      then show ?thesis using has run by simp
    next
      case True
      show ?thesis
      proof (cases "kids node (key ! ?d)")
        case None
        then show ?thesis using has run True len(2) getChild_kids [OF wf_inner(1)] by simp
      next
        case (Some c)
        have path: "take (length (pre @ ?p @ [key ! ?d])) key = pre @ ?p @ [key ! ?d]"
          using wf_inner(7) True len(2) by (simp add: take_Suc_conv_app_nth take_add slice_def)
        have "read_from (Some (node_hdr node, node_lock node))" by (simp add: read_from_def)
        from wf_inner(5) [rule_format, OF Some, THEN conjunct2, rule_format, OF wf_inner(6) path this]
        show ?thesis using has run True Some len(2) getChild_kids [OF wf_inner(1)] by simp
      qed
    qed
  qed
  then show "art_has node key v \<Longrightarrow> getByKey_opt key (length pre) parent node = Inr (False, Some (key, v))"
    "\<forall>v. \<not> art_has node key v \<Longrightarrow> getByKey_opt key (length pre) parent node \<in> {Inr (False, None), Inl NullDeref}" by blast+
qed

section \<open>Changing headers and hanging nodes into their parents\<close>

lemma map_hdr_simps [simp]:
  "node_hdr (map_hdr f node) = f (node_hdr node)" "isLeaf (map_hdr f node) = isLeaf node"
  by (cases node; simp)+

lemma map_hdr_map_hdr [simp]: "map_hdr f (map_hdr g node) = map_hdr (f \<circ> g) node"
  by (cases node) simp_all

lemma map_hdr_kids [simp]:
  assumes "n_children (f (node_hdr node)) = n_children (node_hdr node)"
  shows "kids (map_hdr f node) = kids node" "inner_ok (map_hdr f node) = inner_ok node" "isFull (map_hdr f node) = isFull node"
  using assms by (cases node; simp add: kids_def fun_eq_iff)+

lemma hdr_ops [simp]:
  "n_children (writeUnlock h) = n_children h" "art_prefix (writeUnlock h) = art_prefix h"
  "prefix_len (writeUnlock h) = prefix_len h" "typeVersionLockObsolete (writeUnlock h) = typeVersionLockObsolete h + 2"
  by (simp_all add: writeUnlock_def)

lemma upgrade_ok: "version = node_lock node \<Longrightarrow> upgrade version node =
    Some (map_hdr (\<lambda>_. (node_hdr node)\<lparr>typeVersionLockObsolete := node_lock node + 2\<rparr>) node)"
  by (simp add: upgrade_def upgradeToWriteLockOrRestart_def)

definition parent_ok :: "byte list \<Rightarrow> nat \<Rightarrow> 'v ARTNode option \<Rightarrow> 64 word \<Rightarrow> bool" where
  "parent_ok key depth parent pv \<longleftrightarrow>
     (\<forall>p. parent = Some p \<longrightarrow> 0 < depth \<and> depth \<le> length key \<and> inner_ok p \<and> kids p (key ! (depth - 1)) \<noteq> None \<and>
            node_lock p = pv \<and> unlocked pv)"

definition parent_upd :: "byte list \<Rightarrow> nat \<Rightarrow> 'v ARTNode \<Rightarrow> 'v ARTNode option \<Rightarrow> 'v ARTNode option \<Rightarrow> bool" where
  "parent_upd key depth node' parent parent' \<longleftrightarrow>
     (parent = None \<and> parent' = None) \<or>
     (\<exists>p p'. parent = Some p \<and> parent' = Some p' \<and> inner_ok p' \<and> kids p' = (kids p)(key ! (depth - 1) \<mapsto> node') \<and>
        unlocked (node_lock p') \<and> prefix_len (node_hdr p') = prefix_len (node_hdr p) \<and> node_prefix p' = node_prefix p)"

lemma parent_unchanged: "parent_ok key depth parent pv \<Longrightarrow>
    (case parent of None \<Rightarrow> False | Some p \<Rightarrow> readUnlockOrRestart pv (node_hdr p)) = False"
  by (auto simp: parent_ok_def readUnlockOrRestart_def split: option.split)

lemma put_in_place:
  assumes "parent_ok key depth parent pv"
  obtains parent' where "put_child key depth node' parent = Inr parent'" "parent_upd key depth node' parent parent'"
proof (cases parent)
  case None
  then show thesis by (intro that) (auto simp: put_child_def parent_upd_def)
next
  case (Some p)
  then have p: "0 < depth" "depth \<le> length key" "inner_ok p" "kids p (key ! (depth - 1)) \<noteq> None" "node_lock p = pv" "unlocked pv"
    using assms by (auto simp: parent_ok_def)
  from insertChild_ok [OF p(3), of "key ! (depth - 1)" node'] p(4) obtain p' where
    "insertChild (key ! (depth - 1)) node' p = Inr p'" "inner_ok p'" "kids p' = (kids p)(key ! (depth - 1) \<mapsto> node')"
    "same_hdr (node_hdr p) (node_hdr p')" by blast
  then show thesis using p Some by (intro that [of "Some p'"]) (auto simp: put_child_def parent_upd_def same_hdr_def)
qed

lemma put_locked:
  assumes "parent_ok key depth parent pv"
  obtains parent1 parent2 where "upgrade_parent pv parent = Some parent1" "put_child key depth node' parent1 = Inr parent2"
    "parent_upd key depth node' parent (map_option (map_hdr writeUnlock) parent2)"
proof (cases parent)
  case None
  then show thesis by (intro that) (auto simp: upgrade_parent_def put_child_def parent_upd_def)
next
  case (Some p)
  then have p: "0 < depth" "depth \<le> length key" "inner_ok p" "kids p (key ! (depth - 1)) \<noteq> None" "node_lock p = pv" "unlocked pv"
    using assms by (auto simp: parent_ok_def)
  let ?p1 = "map_hdr (\<lambda>_. (node_hdr p)\<lparr>typeVersionLockObsolete := node_lock p + 2\<rparr>) p"
  have up: "upgrade_parent pv parent = Some (Some ?p1)" using Some upgrade_ok [of pv p] p(5) by (simp add: upgrade_parent_def)
  have p1: "inner_ok ?p1" "kids ?p1 = kids p" using p(3) by simp_all
  from insertChild_ok [OF p1(1), of "key ! (depth - 1)" node'] p(4) p1(2) obtain p2 where
    p2: "insertChild (key ! (depth - 1)) node' ?p1 = Inr p2" "inner_ok p2" "kids p2 = (kids ?p1)(key ! (depth - 1) \<mapsto> node')"
    "same_hdr (node_hdr ?p1) (node_hdr p2)" by auto
  have "put_child key depth node' (Some ?p1) = Inr (Some p2)" using p2(1) p(1,2) by (simp add: put_child_def)
  moreover have "parent_upd key depth node' parent (map_option (map_hdr writeUnlock) (Some p2))"
    using Some p2 p1(2) p unlocked_relock [OF p(6)] by (simp add: parent_upd_def same_hdr_def add.assoc)
  ultimately show thesis using up by (intro that)
qed

text \<open>A new node with two children.\<close>

lemma fork:
  assumes "b1 \<noteq> b2" "len < 2 ^ 16" "length q = len"
  obtains new1 new2 where "insertChild b1 c1 (map_hdr (\<lambda>h. h\<lparr>art_prefix := q\<rparr>) (mk_ARTNode_4 len)) = Inr new1"
    "insertChild b2 c2 new1 = Inr new2" "inner_ok new2" "kids new2 = [b1 \<mapsto> c1, b2 \<mapsto> c2]" "node_lock new2 = 4"
    "node_prefix new2 = q" "prefix_len (node_hdr new2) = of_nat len" "length q = unat (prefix_len (node_hdr new2))"
proof -
  let ?h = "(mk_ARTHeader len)\<lparr>art_prefix := q\<rparr>"
  let ?new0 = "ARTNode_4 ?h [0, 0, 0, 0] [None, None, None, None]"
  let ?new1 = "ARTNode_4 (?h\<lparr>n_children := 1\<rparr>) [b1, 0, 0, 0] [Some c1, None, None, None]"
  have rep: "replicate 4 x = [x, x, x, x]" for x :: 'x by (simp add: numeral_eq_Suc)
  have i1: "insertChild b1 c1 ?new0 = Inr ?new1" by (simp add: insert_sorted_def Let_def mk_ARTHeader_def)
  have n0: "map_hdr (\<lambda>h. h\<lparr>art_prefix := q\<rparr>) (mk_ARTNode_4 len) = ?new0" by (simp add: mk_ARTNode_4_def rep)
  have ok1: "inner_ok ?new1" by (auto simp: sorted_ok_def less_Suc_eq nth_Cons' numeral_eq_Suc)
  have k1: "kids ?new1 = [b1 \<mapsto> c1]" by (auto simp: kids_def fun_eq_iff)
  from insertChild_ok [OF ok1, of b2 c2] obtain new2 where
    new2: "insertChild b2 c2 ?new1 = Inr new2" "inner_ok new2" "kids new2 = (kids ?new1)(b2 \<mapsto> c2)" "same_hdr (node_hdr ?new1) (node_hdr new2)"
    by auto
  have hdr: "node_lock new2 = 4" "node_prefix new2 = q" "prefix_len (node_hdr new2) = of_nat len"
    using new2(4) by (simp_all add: same_hdr_def mk_ARTHeader_def)
  have "unat (of_nat len :: 16 word) = len" using assms(2) by (simp add: unsigned_of_nat take_bit_nat_eq_self)
  then have len: "length q = unat (prefix_len (node_hdr new2))" using hdr(3) assms(3) by simp
  have two: "kids new2 = [b1 \<mapsto> c1, b2 \<mapsto> c2]" unfolding new2(3) k1 by simp
  show thesis by (rule that [OF i1 [folded n0] new2(1,2) two hdr len])
qed

section \<open>Insertion\<close>

definition ins_ok ::
  "nat \<Rightarrow> byte list \<Rightarrow> byte list \<Rightarrow> 'v \<Rightarrow> 'v ARTNode option \<Rightarrow> 'v ARTNode \<Rightarrow> (bool \<times> 'v ARTNode option \<times> 'v ARTNode) result \<Rightarrow> bool" where
  "ins_ok n pre key val parent node out \<longleftrightarrow>
     (\<exists>parent' node'. out = Inr (True, parent', node') \<and> art_wf n pre node' \<and>
        (\<forall>k v. art_has node' k v \<longleftrightarrow> art_has node k v \<or> k = key \<and> v = val) \<and> parent_upd key (length pre) node' parent parent')"

lemma wf_new_leaf: "length key = n \<Longrightarrow> take (length pre) key = pre \<Longrightarrow> art_wf n pre (mk_ARTLeaf key val)"
  unfolding mk_ARTLeaf_def mk_ARTHeader_def
  by (rule wf_leaf) (simp_all add: unlocked_new, metis length_take min.cobounded1)

lemma has_new_leaf [simp]: "art_has (mk_ARTLeaf key val) k v \<longleftrightarrow> k = key \<and> v = val"
  by (simp add: mk_ARTLeaf_def)

lemma fork_wf:
  assumes "inner_ok new" "kids new = [b1 \<mapsto> c1, b2 \<mapsto> c2]" "node_lock new = 4" "node_prefix new = q"
    "length q = unat (prefix_len (node_hdr new))" "length pre + length q < n" "b1 \<noteq> b2"
    "art_wf n (pre @ q @ [b1]) c1" "art_wf n (pre @ q @ [b2]) c2"
  shows "art_wf n pre new" "art_has new k v \<longleftrightarrow> art_has c1 k v \<or> art_has c2 k v"
proof -
  show "art_wf n pre new" using assms by (intro wf_inner) (auto simp: unlocked_new)
  have "\<not> isLeaf new" using inner_not_leaf assms(1) .
  from art_has_inner [OF this, of k v] assms(2,7) show "art_has new k v \<longleftrightarrow> art_has c1 k v \<or> art_has c2 k v" by auto
qed

lemma path_snoc:
  assumes "take (length pre) key = pre" "length pre + length q < length key" "\<forall>i < length q. key ! (length pre + i) = q ! i"
  shows "take (length (pre @ q @ [key ! (length pre + length q)])) key = pre @ q @ [key ! (length pre + length q)]"
proof -
  have "slice key (length pre) (length q) = q" using assms(2,3) by (subst slice_eq_iff) auto
  then show ?thesis using assms(1,2) by (simp add: take_Suc_conv_app_nth take_add slice_def)
qed

lemma split_prefix_ok:
  assumes wf: "art_wf n pre node" "\<not> isLeaf node" and key: "length key = n" "take (length pre) key = pre" "n < 2 ^ 16"
    and parent: "parent_ok key (length pre) parent pv"
    and j: "j < length (node_prefix node)" "\<forall>i < j. key ! (length pre + i) = node_prefix node ! i" "key ! (length pre + j) \<noteq> node_prefix node ! j"
  shows "ins_ok n pre key val parent node
    (split_prefix key (mk_ARTLeaf key val) (length pre) parent pv (node_lock node) node j)"
proof -
  let ?p = "node_prefix node" and ?leaf = "mk_ARTLeaf key val"
  note W = art_wf_inner [OF wf]
  define h1 where "h1 = (node_hdr node)\<lparr>typeVersionLockObsolete := node_lock node + 2\<rparr>"
  define node2 where "node2 = map_hdr (\<lambda>h. writeUnlock (h\<lparr>prefix_len := prefix_len h - of_nat (j + 1), art_prefix := drop (j + 1) (art_prefix h)\<rparr>))
    (map_hdr (\<lambda>_. h1) node)"
  have q: "length (take j ?p) = j" using j(1) by simp
  have small: "j < 2 ^ 16" "j + 1 < 2 ^ 16" using j(1) W(4) key(3) by simp_all
  obtain new1 new2 where new: "insertChild (key ! (length pre + j)) ?leaf (map_hdr (\<lambda>h. h\<lparr>art_prefix := take j ?p\<rparr>) (mk_ARTNode_4 j)) = Inr new1"
    "insertChild (?p ! j) node2 new1 = Inr new2" "inner_ok new2" "kids new2 = [key ! (length pre + j) \<mapsto> ?leaf, ?p ! j \<mapsto> node2]"
    "node_lock new2 = 4" "node_prefix new2 = take j ?p" "prefix_len (node_hdr new2) = of_nat j" "length (take j ?p) = unat (prefix_len (node_hdr new2))"
    by (rule fork [OF j(3) small(1) q]) (rule that)
  obtain parent1 parent2 where par: "upgrade_parent pv parent = Some parent1" "put_child key (length pre) new2 parent1 = Inr parent2"
    "parent_upd key (length pre) new2 parent (map_option (map_hdr writeUnlock) parent2)"
    by (rule put_locked [OF parent]) (rule that)
  have hdr2: "node_prefix node2 = drop (j + 1) ?p" "unlocked (node_lock node2)" "kids node2 = kids node" "inner_ok node2"
    "prefix_len (node_hdr node2) = prefix_len (node_hdr node) - of_nat (j + 1)"
    using unlocked_relock [OF W(2)] W(1) by (simp_all add: node2_def h1_def)
  have plen: "unat (prefix_len (node_hdr node2)) = length (drop (j + 1) ?p)"
  proof -
    have "unat (of_nat (j + 1) :: 16 word) = j + 1" using small(2) by (simp add: unsigned_of_nat take_bit_nat_eq_self del: of_nat_Suc)
    moreover have "(of_nat (j + 1) :: 16 word) \<le> prefix_len (node_hdr node)" unfolding word_le_nat_alt calculation using j(1) W(3) by simp
    ultimately show ?thesis using W(3) unfolding hdr2(5) by (simp add: unat_sub)
  qed
  have path: "(pre @ take j ?p @ [?p ! j]) @ drop (j + 1) ?p = pre @ ?p"
    using id_take_nth_drop [OF j(1)] by (metis Suc_eq_plus1 append.assoc append_Cons append_Nil)
  have wf2: "art_wf n (pre @ take j ?p @ [?p ! j]) node2"
    using hdr2 plen W(4,5) j(1) path by (intro wf_inner) (auto simp flip: append_assoc)
  have "\<forall>i < length (take j ?p). key ! (length pre + i) = take j ?p ! i" using j(2) by simp
  then have wf1: "art_wf n (pre @ take j ?p @ [key ! (length pre + j)]) ?leaf"
    using path_snoc [OF key(2), of "take j ?p"] j(1) W(4) key(1) by (intro wf_new_leaf) (auto simp: min_def)
  have room: "length pre + length (take j ?p) < n" using j(1) W(4) by simp
  note new_wf = fork_wf(1) [OF new(3-6,8) room j(3) wf1 wf2] and new_has = fork_wf(2) [OF new(3-6,8) room j(3) wf1 wf2]
  have "art_has node2 k v \<longleftrightarrow> art_has node k v" for k v
    using art_has_inner [of node2 k v] art_has_inner [OF wf(2), of k v] wf(2) hdr2(3) by (simp add: node2_def)
  moreover have "split_prefix key ?leaf (length pre) parent pv (node_lock node) node j = Inr (True, map_option (map_hdr writeUnlock) parent2, new2)"
    using par new(1) new(2) [unfolded node2_def h1_def] j(1) W(3,4) key(1) upgrade_ok [OF refl, of node]
    by (simp add: split_prefix_def copyPrefix_node_def Let_def)
  ultimately show ?thesis using new_wf new_has par(3) by (auto simp: ins_ok_def)
qed

lemma ex_map_add:
  assumes "f x = None"
  shows "(\<exists>b c. (f(x \<mapsto> l)) b = Some c \<and> P c) \<longleftrightarrow> (\<exists>b c. f b = Some c \<and> P c) \<or> P l" (is "?L \<longleftrightarrow> ?R")
proof
  show "?L \<Longrightarrow> ?R" by (auto split: if_splits)
  assume ?R
  then consider b c where "f b = Some c" "P c" | "P l" by blast
  then show ?L
  proof cases
    case (1 b c)
    then have "b \<noteq> x" using assms by auto
    then show ?thesis using 1 by (intro exI [of _ b] exI [of _ c]) simp
  next
    case 2 then show ?thesis by (intro exI [of _ x] exI [of _ l]) simp
  qed
qed

lemma add_leaf_ok:
  assumes wf: "art_wf n pre node" "\<not> isLeaf node" and key: "length key = n" "take (length pre) key = pre"
    and parent: "parent_ok key (length pre) parent pv"
    and match: "slice key (length pre) (length (node_prefix node)) = node_prefix node"
    and free: "kids node (key ! d) = None" "d = length pre + length (node_prefix node)"
  shows "ins_ok n pre key val parent node
    (add_leaf key (mk_ARTLeaf key val) (length pre) d parent pv (node_lock node) node (key ! d))"
proof -
  let ?leaf = "mk_ARTLeaf key val"
  note W = art_wf_inner [OF wf]
  have path: "take (length (pre @ node_prefix node @ [key ! d])) key = pre @ node_prefix node @ [key ! d]"
    using path_snoc [OF key(2), of "node_prefix node"] W(4) key(1) match free(2) by (simp add: slice_eq_iff)
  note leaf_wf = wf_new_leaf [OF key(1) path, of val]
  have result: "art_wf n pre node'" "art_has node' k v \<longleftrightarrow> art_has node k v \<or> k = key \<and> v = val"
    if "inner_ok node'" "kids node' = (kids node)(key ! d \<mapsto> ?leaf)" "unlocked (node_lock node')"
      "prefix_len (node_hdr node') = prefix_len (node_hdr node)" "node_prefix node' = node_prefix node" for node' k v
  proof -
    show "art_wf n pre node'" using that W leaf_wf by (intro wf_inner) (auto split: if_splits)
    show "art_has node' k v \<longleftrightarrow> art_has node k v \<or> k = key \<and> v = val"
      unfolding art_has_inner [OF inner_not_leaf [OF that(1)], of k v] art_has_inner [OF wf(2), of k v] that(2)
      using ex_map_add [of "kids node" "key ! d", OF free(1), of ?leaf "\<lambda>c. art_has c k v"] by simp
  qed
  let ?node1 = "map_hdr (\<lambda>_. (node_hdr node)\<lparr>typeVersionLockObsolete := node_lock node + 2\<rparr>) node"
  have node1: "inner_ok ?node1" "kids ?node1 = kids node" "isFull ?node1 = isFull node" using W(1) by simp_all
  show ?thesis
  proof (cases "isFull node")
    case True
    from grow_ok [OF node1(1)] node1(2,3) True obtain node2 where node2: "grow ?node1 = Inr node2" "inner_ok node2" "kids node2 = kids node"
      "\<not> isFull node2" "prefix_len (node_hdr node2) = prefix_len (node_hdr node)" "node_prefix node2 = node_prefix node" "node_lock node2 = 4"
      by auto
    from insertChild_ok [OF node2(2), of "key ! d" ?leaf] node2(4) obtain node3 where node3: "insertChild (key ! d) ?leaf node2 = Inr node3"
      "inner_ok node3" "kids node3 = (kids node2)(key ! d \<mapsto> ?leaf)" "same_hdr (node_hdr node2) (node_hdr node3)" by blast
    obtain parent1 parent2 where par: "upgrade_parent pv parent = Some parent1" "put_child key (length pre) node3 parent1 = Inr parent2"
      "parent_upd key (length pre) node3 parent (map_option (map_hdr writeUnlock) parent2)"
      by (rule put_locked [OF parent]) (rule that)
    have "add_leaf key ?leaf (length pre) d parent pv (node_lock node) node (key ! d) = Inr (True, map_option (map_hdr writeUnlock) parent2, node3)"
      using True par node2(1) node3(1) upgrade_ok [OF refl, of node] by (simp add: add_leaf_def)
    then show ?thesis using result [of node3] node2 node3 par(3) by (simp add: ins_ok_def same_hdr_def unlocked_new)
  next
    case False
    from insertChild_ok [OF node1(1), of "key ! d" ?leaf] node1(2,3) False obtain node2 where node2: "insertChild (key ! d) ?leaf ?node1 = Inr node2"
      "inner_ok node2" "kids node2 = (kids node)(key ! d \<mapsto> ?leaf)" "same_hdr (node_hdr ?node1) (node_hdr node2)" by auto
    let ?node3 = "map_hdr writeUnlock node2"
    obtain parent1 where par: "put_child key (length pre) ?node3 parent = Inr parent1" "parent_upd key (length pre) ?node3 parent parent1"
      by (rule put_in_place [OF parent])
    have "add_leaf key ?leaf (length pre) d parent pv (node_lock node) node (key ! d) = Inr (True, parent1, ?node3)"
      using False par node2(1) upgrade_ok [OF refl, of node] parent_unchanged [OF parent] by (simp add: add_leaf_def)
    moreover have "unlocked (node_lock ?node3)" using node2(4) unlocked_relock [OF W(2)] by (simp add: same_hdr_def)
    ultimately show ?thesis using result [of ?node3] node2 par(2) by (simp add: ins_ok_def same_hdr_def)
  qed
qed

lemma first_difference_ok:
  assumes "length key2 = length key" "i < length key" "take i key2 = take i key" "key2 \<noteq> key"
  shows "\<exists>j. first_difference key2 key i = Inr j \<and> i \<le> j \<and> j < length key \<and> take j key2 = take j key \<and> key2 ! j \<noteq> key ! j"
  using assms
proof (induction key2 key i rule: first_difference.induct)
  case (1 key2 key i)
  have i: "i < length key2" "i < length key" using 1(2,3) by simp_all
  show ?case
  proof (cases "key2 ! i = key ! i")
    case False
    then show ?thesis using i 1(4) by (subst first_difference.simps) simp
  next
    case True
    then have same: "take (i + 1) key2 = take (i + 1) key" using i 1(4) by (simp add: take_Suc_conv_app_nth)
    then have "i + 1 \<noteq> length key2" using 1(2,5) by auto
    then have more: "i + 1 < length key" using i(2) 1(2) by simp
    have "\<exists>j. first_difference key2 key (i + 1) = Inr j \<and> i + 1 \<le> j \<and> j < length key \<and> take j key2 = take j key \<and> key2 ! j \<noteq> key ! j"
      by (rule 1(1) [of "key ! i" "key ! i"]) (use i more same 1(2,5) \<open>i + 1 \<noteq> length key2\<close> in simp_all)
    then obtain j where "first_difference key2 key (i + 1) = Inr j" "i + 1 \<le> j" "j < length key" "take j key2 = take j key" "key2 ! j \<noteq> key ! j"
      by blast
    then show ?thesis using i True 1(2) \<open>i + 1 \<noteq> length key2\<close> by (subst first_difference.simps) auto
  qed
qed

lemma split_leaf_ok:
  assumes wf: "art_wf n pre (ARTLeaf h key2 v2)" and key: "length key = n" "take (length pre) key = pre" "n < 2 ^ 16" "key2 \<noteq> key"
    and parent: "parent_ok key (length pre) parent pv"
  shows "ins_ok n pre key val parent (ARTLeaf h key2 v2)
    (split_leaf key (mk_ARTLeaf key val) (length pre) parent pv (typeVersionLockObsolete h) (ARTLeaf h key2 v2) key2)"
proof -
  let ?node = "ARTLeaf h key2 v2" and ?leaf = "mk_ARTLeaf key val"
  have W: "length key2 = n" "take (length pre) key2 = pre" "unlocked (typeVersionLockObsolete h)" "prefix_len h = 0" "length pre \<le> n"
    using wf by (auto elim: art_wf_leafE)
  have "length pre < n" using W(1,2,5) key(1,2,4) by (metis le_neq_implies_less take_all_iff order_refl)
  then obtain i where i: "first_difference key2 key (length pre) = Inr i" "length pre \<le> i" "i < length key" "take i key2 = take i key" "key2 ! i \<noteq> key ! i"
    using first_difference_ok [of key2 key "length pre"] W(1,2) key by auto
  define q where "q = slice key (length pre) (i - length pre)"
  have q: "length q = i - length pre" "\<forall>j < length q. key ! (length pre + j) = q ! j" "\<forall>j < length q. key2 ! (length pre + j) = q ! j"
  proof -
    show len: "length q = i - length pre" using i(2,3) by (simp add: q_def slice_def)
    show "\<forall>j < length q. key ! (length pre + j) = q ! j" using i(2,3) by (simp add: q_def slice_def)
    have "key2 ! (length pre + j) = key ! (length pre + j)" if "j < length q" for j
      using that len i(2,4) by (metis add_diff_inverse_nat add_less_cancel_left less_diff_conv2 nth_take add.commute not_less)
    then show "\<forall>j < length q. key2 ! (length pre + j) = q ! j" using i(2,3) by (simp add: q_def slice_def)
  qed
  have at: "length pre + length q = i" using q(1) i(2) by simp
  let ?old = "map_hdr writeUnlock (map_hdr (\<lambda>_. h\<lparr>typeVersionLockObsolete := typeVersionLockObsolete h + 2\<rparr>) ?node)"
  have small: "i - length pre < 2 ^ 16" using i(3) key(1,3) by simp
  obtain new1 new2 where new: "insertChild (key2 ! i) ?old (map_hdr (\<lambda>h. h\<lparr>art_prefix := q\<rparr>) (mk_ARTNode_4 (i - length pre))) = Inr new1"
    "insertChild (key ! i) ?leaf new1 = Inr new2" "inner_ok new2" "kids new2 = [key2 ! i \<mapsto> ?old, key ! i \<mapsto> ?leaf]" "node_lock new2 = 4"
    "node_prefix new2 = q" "prefix_len (node_hdr new2) = of_nat (i - length pre)" "length q = unat (prefix_len (node_hdr new2))"
    by (rule fork [OF i(5) small q(1)]) (rule that)
  obtain parent1 parent2 where par: "upgrade_parent pv parent = Some parent1" "put_child key (length pre) new2 parent1 = Inr parent2"
    "parent_upd key (length pre) new2 parent (map_option (map_hdr writeUnlock) parent2)"
    by (rule put_locked [OF parent]) (rule that)
  have room: "length pre + length q < n" using at i(3) key(1) by simp
  have "art_wf n (pre @ q @ [key2 ! i]) (ARTLeaf (writeUnlock (h\<lparr>typeVersionLockObsolete := typeVersionLockObsolete h + 2\<rparr>)) key2 v2)"
    using path_snoc [OF W(2) _ q(3)] W(1,4) at i(3) key(1) unlocked_relock [OF W(3)] by (intro wf_leaf) simp_all
  then have wf2: "art_wf n (pre @ q @ [key2 ! i]) ?old" by simp
  have wf1: "art_wf n (pre @ q @ [key ! i]) ?leaf"
    using path_snoc [OF key(2) _ q(2)] at i(3) key(1) by (intro wf_new_leaf) simp_all
  note new_wf = fork_wf(1) [OF new(3-6,8) room i(5) wf2 wf1] and new_has = fork_wf(2) [OF new(3-6,8) room i(5) wf2 wf1]
  have "split_leaf key ?leaf (length pre) parent pv (typeVersionLockObsolete h) ?node key2 =
      Inr (True, map_option (map_hdr writeUnlock) parent2, new2)"
    using par new(1,2) i(1-3) W(1) key(1) upgrade_ok [of "typeVersionLockObsolete h" ?node] parent_unchanged [OF parent]
    by (simp add: split_leaf_def copyPrefix_key_def q_def [symmetric])
  then show ?thesis using new_wf new_has par(3) by (auto simp: ins_ok_def)
qed

lemma insert_leaf_eq:
  assumes "unlocked (typeVersionLockObsolete h)" "prefix_len h = 0"
  shows "insert_recursive_opt key newLeaf depth parent pv (ARTLeaf h key2 v2) =
    split_leaf key newLeaf depth parent pv (typeVersionLockObsolete h) (ARTLeaf h key2 v2) key2"
  using assms by (subst insert_recursive_opt.simps) (simp add: readLock_unlocked Let_def)

lemma insert_inner_eq:
  assumes "unlocked (node_lock node)" "\<not> isLeaf node" "parent_ok key depth parent pv"
  shows "insert_recursive_opt key newLeaf depth parent pv node =
    rbind (if prefix_len (node_hdr node) = 0 then Inr 0 else prefix_match (node_hdr node) key depth) (\<lambda>len.
      if len \<noteq> unat (prefix_len (node_hdr node)) then split_prefix key newLeaf depth parent pv (node_lock node) node len
      else let depth' = depth + unat (prefix_len (node_hdr node))
           in rbind (at_idx key depth') (\<lambda>b.
              case getChild b node of
                Inl e \<Rightarrow> Inl e
              | Inr None \<Rightarrow> add_leaf key newLeaf depth depth' parent pv (node_lock node) node b
              | Inr (Some child) \<Rightarrow>
                  rbind (insert_recursive_opt key newLeaf (depth' + 1) (Some node) (node_lock node) child) (\<lambda>(res, node', _).
                  case node' of None \<Rightarrow> Inl NullDeref
                  | Some node1 \<Rightarrow> rbind (put_child key depth node1 parent) (\<lambda>parent1. Inr (res, parent1, node1)))))"
  using assms(1,2)
  by (subst insert_recursive_opt.simps)
    (simp add: readLock_unlocked Let_def case_inner parent_unchanged [OF assms(3)] cong: if_cong sum.case_cong option.case_cong)

text \<open>The number of matching prefix bytes, also for an empty prefix.\<close>

lemma insert_prefix_match:
  assumes "length (art_prefix h) = unat (prefix_len h)" "depth + length (art_prefix h) \<le> length key"
  obtains j where "(if prefix_len h = 0 then Inr 0 else prefix_match h key depth) = Inr j" "j \<le> length (art_prefix h)"
    "\<forall>i < j. key ! (depth + i) = art_prefix h ! i" "j < length (art_prefix h) \<Longrightarrow> key ! (depth + j) \<noteq> art_prefix h ! j"
proof (cases "prefix_len h = 0")
  case True
  then show thesis using assms(1) by (intro that [of 0]) auto
next
  case False
  then show thesis using prefix_match_ok [OF assms] that by auto
qed

lemma ex_map_upd: "(\<exists>b x. (m(a \<mapsto> c)) b = Some x \<and> P x) \<longleftrightarrow> P c \<or> (\<exists>b x. b \<noteq> a \<and> m b = Some x \<and> P x)"
  by (auto split: if_splits)

lemma ex_map_except:
  "m a = Some c \<Longrightarrow> (\<exists>b x. m b = Some x \<and> P x) \<longleftrightarrow> P c \<or> (\<exists>b x. b \<noteq> a \<and> m b = Some x \<and> P x)"
  by (metis option.inject)

lemma insert_below_ok:
  assumes wf: "art_wf n pre node" "\<not> isLeaf node" and key: "length key = n" "take (length pre) key = pre"
    and parent: "parent_ok key (length pre) parent pv"
    and match: "slice key (length pre) (length (node_prefix node)) = node_prefix node"
    and child: "kids node (key ! d) = Some c" "d = length pre + length (node_prefix node)"
    and below: "ins_ok n (pre @ node_prefix node @ [key ! d]) key val (Some node) c out"
  shows "ins_ok n pre key val parent node
    (rbind out (\<lambda>(res, node', _). case node' of None \<Rightarrow> Inl NullDeref
       | Some node1 \<Rightarrow> rbind (put_child key (length pre) node1 parent) (\<lambda>parent1. Inr (res, parent1, node1))))"
proof -
  note W = art_wf_inner [OF wf]
  from below child(2) obtain node1 c' where out: "out = Inr (True, Some node1, c')" "art_wf n (pre @ node_prefix node @ [key ! d]) c'"
    "\<forall>k v. art_has c' k v \<longleftrightarrow> art_has c k v \<or> k = key \<and> v = val"
    and node1: "inner_ok node1" "kids node1 = (kids node)(key ! d \<mapsto> c')" "unlocked (node_lock node1)"
      "prefix_len (node_hdr node1) = prefix_len (node_hdr node)" "node_prefix node1 = node_prefix node"
    by (auto simp: ins_ok_def parent_upd_def)
  have wf1: "art_wf n pre node1"
  proof (rule wf_inner [OF node1(1,3)])
    show "\<forall>b x. kids node1 b = Some x \<longrightarrow> art_wf n (pre @ node_prefix node1 @ [b]) x"
      using W(5) out(2) unfolding node1(2,5) by (metis fun_upd_apply option.inject)
    show "length pre + length (node_prefix node1) < n" unfolding node1(5) by (rule W(4))
    show "length (node_prefix node1) = unat (prefix_len (node_hdr node1))" unfolding node1(4,5) by (rule W(3))
  qed
  have has: "art_has node1 k v \<longleftrightarrow> art_has node k v \<or> k = key \<and> v = val" for k v
  proof -
    have "art_has node1 k v \<longleftrightarrow> (\<exists>b x. kids node1 b = Some x \<and> art_has x k v)" by (rule art_has_inner [OF inner_not_leaf [OF node1(1)]])
    also have "\<dots> \<longleftrightarrow> art_has c' k v \<or> (\<exists>b x. b \<noteq> key ! d \<and> kids node b = Some x \<and> art_has x k v)"
      unfolding node1(2) by (rule ex_map_upd)
    also have "\<dots> \<longleftrightarrow> (\<exists>b x. kids node b = Some x \<and> art_has x k v) \<or> k = key \<and> v = val"
      unfolding ex_map_except [where m = "kids node", OF child(1)] using out(3) by blast
    finally show ?thesis using art_has_inner [OF wf(2), of k v] by simp
  qed
  obtain parent1 where "put_child key (length pre) node1 parent = Inr parent1" "parent_upd key (length pre) node1 parent parent1"
    by (rule put_in_place [OF parent])
  then show ?thesis using out(1) wf1 has by (simp add: ins_ok_def)
qed

lemma insert_recursive_ok:
  assumes "art_wf n pre node" "length key = n" "take (length pre) key = pre" "n < 2 ^ 16" "\<forall>v. \<not> art_has node key v"
    "parent_ok key (length pre) parent pv"
  shows "ins_ok n pre key val parent node (insert_recursive_opt key (mk_ARTLeaf key val) (length pre) parent pv node)"
  using assms
proof (induction arbitrary: parent pv rule: art_wf.induct)
  case (wf_leaf k pre h v)
  have "art_wf n pre (ARTLeaf h k v)" using wf_leaf(1-5) by (rule art_wf.wf_leaf)
  moreover have "k \<noteq> key" using wf_leaf(9) by auto
  ultimately show ?case using split_leaf_ok wf_leaf(4-8,10) by (simp add: insert_leaf_eq)
next
  case (wf_inner node pre)
  let ?p = "node_prefix node" and ?d = "length pre + length (node_prefix node)"
  have nl: "\<not> isLeaf node" using inner_not_leaf [OF wf_inner(1)] .
  have wf: "art_wf n pre node" using wf_inner(1-5) by (intro art_wf.wf_inner) blast+
  have len: "length pre + length ?p \<le> length key" "?d < length key" using wf_inner(4,6) by simp_all
  obtain j where j: "(if prefix_len (node_hdr node) = 0 then Inr 0 else prefix_match (node_hdr node) key (length pre)) = Inr j" "j \<le> length ?p"
    "\<forall>i < j. key ! (length pre + i) = ?p ! i" "j < length ?p \<Longrightarrow> key ! (length pre + j) \<noteq> ?p ! j"
    by (rule insert_prefix_match [OF wf_inner(3) len(1)]) (rule that)
  note run = insert_inner_eq [OF wf_inner(2) nl wf_inner(10), of "mk_ARTLeaf key val", unfolded j(1) rbind_Inr wf_inner(3) [symmetric]]
  show ?case
  proof (cases "j = length ?p")
    case False
    then have "j < length ?p" using j(2) by simp
    then show ?thesis using False run split_prefix_ok [OF wf nl wf_inner(6-8,10) _ j(3) j(4)] by simp
  next
    case True
    have match: "slice key (length pre) (length ?p) = ?p" using j(3) True len(1) by (simp add: slice_eq_iff)
    show ?thesis
    proof (cases "kids node (key ! ?d)")
      case None
      then show ?thesis using run True len(2) getChild_kids [OF wf_inner(1)] add_leaf_ok [OF wf nl wf_inner(6,7,10) match None refl]
        by (simp add: Let_def)
    next
      case (Some c)
      let ?pre = "pre @ ?p @ [key ! ?d]"
      have path: "take (length ?pre) key = ?pre" using path_snoc [OF wf_inner(7) len(2)] j(3) True by simp
      have "\<forall>v. \<not> art_has c key v" using wf_inner(9) has_child [OF Some] by blast
      moreover have "parent_ok key (length ?pre) (Some node) (node_lock node)"
        using wf_inner(1,2) Some len(2) by (simp add: parent_ok_def)
      ultimately have below: "ins_ok n ?pre key val (Some node) c
          (insert_recursive_opt key (mk_ARTLeaf key val) (length ?pre) (Some node) (node_lock node) c)"
        using wf_inner(5) [rule_format, OF Some, THEN conjunct2, rule_format, OF wf_inner(6) path wf_inner(8)] by simp
      show ?thesis using insert_below_ok [OF wf nl wf_inner(6,7,10) match Some refl below] run True len(2) getChild_kids [OF wf_inner(1)] Some
        by (simp add: Let_def)
    qed
  qed
qed

section \<open>The tree as a map\<close>

definition tree_has :: "'v ART \<Rightarrow> byte list \<Rightarrow> 'v \<Rightarrow> bool" where
  "tree_has t k v \<longleftrightarrow> (\<exists>node. art_root t = Some node \<and> art_has node k v)"

definition tree_ok :: "nat \<Rightarrow> 'v ART \<Rightarrow> bool" where
  "tree_ok n t \<longleftrightarrow> (\<forall>node. art_root t = Some node \<longrightarrow> art_wf n [] node)"

text \<open>The loop of \<^verbatim>\<open>insert\<close> needs one round when no other thread runs.\<close>

lemma art_insert_step:
  assumes "tree_ok n t" "\<not> read_only t" "length key = n" "n < 2 ^ 16" "\<forall>v. \<not> tree_has t key v"
  obtains t' where "art_insert (Suc fuel) key val t = Inr (True, t')" "tree_ok n t'" "\<not> read_only t'"
    "\<And>k v. tree_has t' k v \<longleftrightarrow> tree_has t k v \<or> k = key \<and> v = val"
proof (cases "art_root t")
  case None
  show thesis
    by (rule that [of "t\<lparr>art_root := Some (mk_ARTLeaf key val)\<rparr>"])
      (use None assms(2,3) wf_new_leaf [of key n "[]" val] in \<open>simp_all add: art_insert_def insert_once_def tree_ok_def tree_has_def\<close>)
next
  case (Some node)
  have "ins_ok n [] key val None node (insert_recursive_opt key (mk_ARTLeaf key val) (length ([] :: byte list)) None 0 node)"
    by (rule insert_recursive_ok) (use Some assms in \<open>simp_all add: tree_ok_def tree_has_def parent_ok_def\<close>)
  then obtain node' where "insert_recursive_opt key (mk_ARTLeaf key val) 0 None 0 node = Inr (True, None, node')"
    "art_wf n [] node'" "\<forall>k v. art_has node' k v \<longleftrightarrow> art_has node k v \<or> k = key \<and> v = val"
    by (auto simp: ins_ok_def parent_upd_def)
  then show thesis
    using Some assms(2) by (intro that [of "t\<lparr>art_root := Some node'\<rparr>"]) (simp_all add: art_insert_def insert_once_def tree_ok_def tree_has_def)
qed

lemma art_find_step:
  assumes "tree_ok n t" "length key = n"
  shows "tree_has t key v \<Longrightarrow> art_find (Suc fuel) key t = Inr (Some v)"
    "\<forall>v. \<not> tree_has t key v \<Longrightarrow> art_find (Suc fuel) key t \<in> {Inr None, Inl NullDeref}"
proof -
  have wf: "art_wf n [] node" if "art_root t = Some node" for node using assms(1) that by (simp add: tree_ok_def)
  note get = getByKey_ok [OF wf assms(2), of _ None]
  show "art_find (Suc fuel) key t = Inr (Some v)" if has: "tree_has t key v"
  proof -
    obtain node where node: "art_root t = Some node" "art_has node key v" using has by (auto simp: tree_has_def)
    then have "getByKey_opt key 0 None node = Inr (False, Some (key, v))" using get(1) [OF node(1), of v] by (simp add: read_from_def)
    then show ?thesis using node(1) art_wf_unlocked [OF wf [OF node(1)]] by (simp add: art_find_def find_once_def readLock_unlocked)
  qed
  show "art_find (Suc fuel) key t \<in> {Inr None, Inl NullDeref}" if no: "\<forall>v. \<not> tree_has t key v"
  proof (cases "art_root t")
    case (Some node)
    then have "getByKey_opt key 0 None node \<in> {Inr (False, None), Inl NullDeref}"
      using get(2) [OF Some] no by (simp add: read_from_def tree_has_def)
    then show ?thesis using Some art_wf_unlocked [OF wf [OF Some]] by (auto simp: art_find_def find_once_def readLock_unlocked)
  qed (simp add: art_find_def find_once_def)
qed

text \<open>Insertions one after the other, as a thread makes them.\<close>

definition insert_all :: "nat \<Rightarrow> (byte list \<times> 'v) list \<Rightarrow> 'v ART \<Rightarrow> 'v ART result" where
  "insert_all fuel = rfold (\<lambda>(k, v) t. rbind (art_insert fuel k v t) (\<lambda>(_, t'). Inr t'))"

lemma insert_all_ok:
  assumes "tree_ok n t" "\<not> read_only t" "n < 2 ^ 16" "\<forall>(k, v) \<in> set kvs. length k = n" "distinct (map fst kvs)"
    "\<forall>(k, v) \<in> set kvs. \<forall>w. \<not> tree_has t k w"
  shows "\<exists>t'. insert_all (Suc fuel) kvs t = Inr t' \<and> tree_ok n t' \<and>
    (\<forall>k v. tree_has t' k v \<longleftrightarrow> tree_has t k v \<or> (k, v) \<in> set kvs)"
  using assms
proof (induction kvs arbitrary: t)
  case Nil
  then show ?case by (simp add: insert_all_def)
next
  case (Cons kv kvs)
  obtain k v where kv: "kv = (k, v)" by (cases kv)
  obtain t1 where t1: "art_insert (Suc fuel) k v t = Inr (True, t1)" "tree_ok n t1" "\<not> read_only t1"
    "\<And>k' v'. tree_has t1 k' v' \<longleftrightarrow> tree_has t k' v' \<or> k' = k \<and> v' = v"
    by (rule art_insert_step [of n t k fuel v]) (use Cons.prems kv in auto)
  have fresh: "\<forall>(k', v') \<in> set kvs. \<forall>w. \<not> tree_has t1 k' w"
    using Cons.prems(5,6) t1(4) kv by (auto simp: image_iff)
  have "\<forall>(k', v') \<in> set kvs. length k' = n" "distinct (map fst kvs)" using Cons.prems(4,5) by simp_all
  from Cons.IH [OF t1(2,3) Cons.prems(3) this fresh] obtain t' where
    "insert_all (Suc fuel) kvs t1 = Inr t'" "tree_ok n t'" "\<forall>k' v'. tree_has t' k' v' \<longleftrightarrow> tree_has t1 k' v' \<or> (k', v') \<in> set kvs" by blast
  then show ?case using t1(1,4) kv by (auto simp: insert_all_def)
qed

text \<open>The tree with two keys that part after \<open>p\<close>: one inner node over two leaves.\<close>

lemma first_difference_at:
  assumes "length r1 = length r2" "b1 \<noteq> b2"
  shows "first_difference (p @ b1 # r1) (p @ b2 # r2) 0 = Inr (length p)"
proof -
  let ?k1 = "p @ b1 # r1" and ?k2 = "p @ b2 # r2"
  obtain j where j: "first_difference ?k1 ?k2 0 = Inr j" "j < length ?k2" "take j ?k1 = take j ?k2" "?k1 ! j \<noteq> ?k2 ! j"
    using first_difference_ok [of ?k1 ?k2 0] assms by auto
  have "\<not> j < length p" using j(4) by (auto simp: nth_append)
  moreover have "\<not> length p < j"
  proof
    assume "length p < j"
    then have "take j ?k1 ! length p = b1" "take j ?k2 ! length p = b2" by (simp_all del: take_append)
    then show False using j(3) assms(2) by simp
  qed
  ultimately show ?thesis using j(1) by simp
qed

lemma insert_two:
  assumes "length r1 = length r2" "b1 \<noteq> b2" "length p + length r1 < 2 ^ 16 - 1"
  obtains node h1 where "insert_all (Suc fuel) [(p @ b1 # r1, v1), (p @ b2 # r2, v2)] new_ART = Inr \<lparr>art_root = Some node, read_only = False\<rparr>"
    "inner_ok node" "kids node = [b1 \<mapsto> ARTLeaf h1 (p @ b1 # r1) v1, b2 \<mapsto> mk_ARTLeaf (p @ b2 # r2) v2]" "node_lock node = 4"
    "node_prefix node = p" "length p = unat (prefix_len (node_hdr node))" "unlocked (typeVersionLockObsolete h1)" "prefix_len h1 = 0"
proof -
  let ?k1 = "p @ b1 # r1" and ?k2 = "p @ b2 # r2" and ?h = "mk_ARTHeader 0"
  let ?old = "map_hdr writeUnlock (map_hdr (\<lambda>_. ?h\<lparr>typeVersionLockObsolete := typeVersionLockObsolete ?h + 2\<rparr>) (ARTLeaf ?h ?k1 v1))"
  let ?h1 = "writeUnlock (?h\<lparr>typeVersionLockObsolete := typeVersionLockObsolete ?h + 2\<rparr>)"
  have lock: "unlocked (typeVersionLockObsolete ?h)" "prefix_len ?h = 0" by (simp_all add: mk_ARTHeader_def unlocked_new)
  have small: "length p < 2 ^ 16" using assms(3) by simp
  obtain new1 new2 where new: "insertChild b1 ?old (map_hdr (\<lambda>h. h\<lparr>art_prefix := p\<rparr>) (mk_ARTNode_4 (length p))) = Inr new1"
    "insertChild b2 (mk_ARTLeaf ?k2 v2) new1 = Inr new2" "inner_ok new2" "kids new2 = [b1 \<mapsto> ?old, b2 \<mapsto> mk_ARTLeaf ?k2 v2]" "node_lock new2 = 4"
    "node_prefix new2 = p" "prefix_len (node_hdr new2) = of_nat (length p)" "length p = unat (prefix_len (node_hdr new2))"
    by (rule fork [OF assms(2) small refl]) (rule that)
  have "split_leaf ?k2 (mk_ARTLeaf ?k2 v2) 0 None 0 (typeVersionLockObsolete ?h) (ARTLeaf ?h ?k1 v1) ?k1 = Inr (True, None, new2)"
    using new(1,2) first_difference_at [OF assms(1,2)] upgrade_ok [of "typeVersionLockObsolete ?h" "ARTLeaf ?h ?k1 v1"]
    by (simp add: split_leaf_def copyPrefix_key_def upgrade_parent_def put_child_def slice_def)
  then have run: "insert_all (Suc fuel) [(?k1, v1), (?k2, v2)] new_ART = Inr \<lparr>art_root = Some new2, read_only = False\<rparr>"
    using insert_leaf_eq [OF lock, of ?k2 "mk_ARTLeaf ?k2 v2" 0 None 0 ?k1 v1]
    by (simp add: insert_all_def art_insert_def insert_once_def new_ART_def mk_ARTLeaf_def)
  have kids2: "kids new2 = [b1 \<mapsto> ARTLeaf ?h1 ?k1 v1, b2 \<mapsto> mk_ARTLeaf ?k2 v2]" using new(4) by simp
  have "unlocked (typeVersionLockObsolete ?h1)" "prefix_len ?h1 = 0" using unlocked_relock [OF lock(1)] lock(2) by simp_all
  then show thesis by (rule that [OF run new(3) kids2 new(5,6,8)])
qed

lemma first_difference_same: "i < length k \<Longrightarrow> first_difference k k i = Inr (length k)"
proof (induction "length k - i" arbitrary: i)
  case (Suc m)
  then show ?case
    by (cases "Suc i = length k") (subst first_difference.simps, simp add: at_idx_def)+
qed simp

lemma insert_all_new:
  fixes kvs :: "(byte list \<times> 'v) list"
  assumes "n < 2 ^ 16" "\<forall>(k, v) \<in> set kvs. length k = n" "distinct (map fst kvs)"
  obtains t where "insert_all (Suc fuel) kvs new_ART = Inr t" "tree_ok n t" "\<And>k v. tree_has t k v \<longleftrightarrow> (k, v) \<in> set kvs"
proof -
  have new: "tree_ok n (new_ART :: 'v ART)" "\<not> read_only (new_ART :: 'v ART)" "\<not> tree_has (new_ART :: 'v ART) k v" for k v
    by (simp_all add: new_ART_def tree_ok_def tree_has_def)
  from insert_all_ok [OF new(1,2) assms, of fuel] new(3) that show thesis by auto
qed

section \<open>Properties\<close>

text \<open>
  C4. A tree that starts empty and gets keys of one width, all different, in any order, takes every
  insertion in the first round of its restart loop, and afterwards the lookup of each key gives the
  value inserted with it. The lookup of a key that was not inserted gives no value: it reports that
  the key is not there, or follows a missing child.\<close>

theorem art_inserted_keys_are_found:
  fixes kvs :: "(byte list \<times> 'v) list"
  assumes "n < 2 ^ 16" "\<forall>(k, v) \<in> set kvs. length k = n" "distinct (map fst kvs)"
  shows "\<exists>t. insert_all (Suc fuel) kvs new_ART = Inr t \<and>
    (\<forall>(k, v) \<in> set kvs. art_find (Suc fuel) k t = Inr (Some v)) \<and>
    (\<forall>k. length k = n \<longrightarrow> k \<notin> fst ` set kvs \<longrightarrow> art_find (Suc fuel) k t \<in> {Inr None, Inl NullDeref})"
proof -
  obtain t where t: "insert_all (Suc fuel) kvs new_ART = Inr t" "tree_ok n t" "\<And>k v. tree_has t k v \<longleftrightarrow> (k, v) \<in> set kvs"
    by (rule insert_all_new [OF assms, of fuel]) (rule that)
  have "art_find (Suc fuel) k t = Inr (Some v)" if "(k, v) \<in> set kvs" for k v
    using art_find_step(1) [OF t(2)] t(3) assms(2) that by fastforce
  moreover have "art_find (Suc fuel) k t \<in> {Inr None, Inl NullDeref}" if "length k = n" "k \<notin> fst ` set kvs" for k
    using that t(3) by (intro art_find_step(2) [OF t(2)]) (auto simp: image_iff)
  ultimately show ?thesis using t(1) by blast
qed

definition demo_keys :: "(byte list \<times> nat) list" where
  "demo_keys = [([1, 7, 0], 10), ([1, 7, 1], 11), ([2, 0, 0], 12), ([1, 7, 2], 13), ([1, 7, 3], 14), ([1, 7, 4], 15), ([1, 9, 0], 16)]"

theorem art_inserted_keys_are_found_witness:
  "\<exists>t. insert_all 1 demo_keys new_ART = Inr t \<and> art_find 1 [1, 7, 4] t = Inr (Some 15) \<and> art_find 1 [2, 0, 0] t = Inr (Some 12)"
  using art_inserted_keys_are_found [of 3 demo_keys 0] by (auto simp: demo_keys_def)

text \<open>
  Adding a child to an inner node, which is replaced by a node of the next size when it is full,
  works for every node in order: the new child is found under its byte, the children under all other
  bytes stay, and the node is in order again.\<close>

lemma node_add_child:
  assumes "inner_ok node"
  shows "\<exists>node1 node2. (if isFull node then grow node else Inr node) = Inr node1 \<and> insertChild b c node1 = Inr node2 \<and>
    inner_ok node2 \<and> (\<forall>b'. getChild b' node2 = (if b' = b then Inr (Some c) else getChild b' node))"
proof -
  obtain node1 where node1: "(if isFull node then grow node else Inr node) = Inr node1" "inner_ok node1" "kids node1 = kids node" "\<not> isFull node1"
    using grow_ok [OF assms] assms by (cases "isFull node") auto
  with insertChild_ok [of node1 b c] obtain node2 where "insertChild b c node1 = Inr node2" "inner_ok node2" "kids node2 = (kids node1)(b \<mapsto> c)" by blast
  then show ?thesis using node1 getChild_kids [of node2] getChild_kids [OF assms] by auto
qed

lemma node_add_child_grown:
  "\<exists>node2. rbind (grow (ARTNode_4 ((mk_ARTHeader 0)\<lparr>n_children := 4\<rparr>) [1, 3, 5, 7] (map (\<lambda>v. Some (mk_ARTLeaf [v] v)) [1, 3, 5, 7]))) (insertChild 4 (mk_ARTLeaf [4] 4)) = Inr node2 \<and>
     getChild 4 node2 = Inr (Some (mk_ARTLeaf [4] 4)) \<and> getChild 5 node2 = Inr (Some (mk_ARTLeaf [5] (5 :: byte)))"
proof -
  let ?node = "ARTNode_4 ((mk_ARTHeader 0)\<lparr>n_children := 4\<rparr>) [1, 3, 5, 7] (map (\<lambda>v. Some (mk_ARTLeaf [v] v)) [1, 3, 5, 7 :: byte])"
  have four: "unat (4 :: byte) = 4" "j < 4 \<longleftrightarrow> j = 0 \<or> j = 1 \<or> j = 2 \<or> j = 3"
    "j < 3 \<longleftrightarrow> j = 0 \<or> j = 1 \<or> j = 2" "j < 2 \<longleftrightarrow> j = 0 \<or> j = 1" for j :: nat by auto
  have ok: "inner_ok ?node" by (auto simp: sorted_ok_def four)
  have "getChild 5 ?node = Inr (Some (mk_ARTLeaf [5] 5))" by simp
  then show ?thesis using node_add_child [OF ok, of 4 "mk_ARTLeaf [4] 4"] by (auto simp: rbind_def)
qed

text \<open>
  Looking up a key that leaves the tree at an inner node without a child for its next byte does
  not report a missing key: the null child is dereferenced. It happens for every key that agrees
  with two inserted keys up to the byte where they part and has a third value there.\<close>

lemma art_find_missing_child:
  assumes "length r1 = length r2" "length r3 = length r1" "distinct [b1, b2, b3]" "length p + length r1 < 2 ^ 16 - 1"
  shows "\<exists>t. insert_all (Suc fuel) [(p @ b1 # r1, v1), (p @ b2 # r2, v2)] new_ART = Inr t \<and>
    art_find (Suc fuel) (p @ b3 # r3) t = Inl NullDeref"
proof -
  have ne: "b1 \<noteq> b2" using assms(3) by simp
  obtain node h1 where t: "insert_all (Suc fuel) [(p @ b1 # r1, v1), (p @ b2 # r2, v2)] new_ART = Inr \<lparr>art_root = Some node, read_only = False\<rparr>"
    and node: "inner_ok node" "kids node = [b1 \<mapsto> ARTLeaf h1 (p @ b1 # r1) v1, b2 \<mapsto> mk_ARTLeaf (p @ b2 # r2) v2]" "node_lock node = 4"
    "node_prefix node = p" "length p = unat (prefix_len (node_hdr node))"
    by (rule insert_two [OF assms(1) ne assms(4)]) (rule that)
  have nl: "\<not> isLeaf node" using node(1) by (rule inner_not_leaf)
  have "skip_prefix (node_hdr node) (p @ b3 # r3) 0 = Inr (Some (length p))"
    using skip_prefix_ok [of "node_hdr node" 0 "p @ b3 # r3"] node(4,5) by (simp add: slice_def)
  then have "getByKey_opt (p @ b3 # r3) 0 None node = Inl NullDeref"
    using getByKey_inner [of None node "p @ b3 # r3" 0] nl getChild_kids [OF node(1), of b3] assms(3) node(2) by (auto simp: read_from_def)
  then have "art_find (Suc fuel) (p @ b3 # r3) \<lparr>art_root = Some node, read_only = False\<rparr> = Inl NullDeref"
    using node(3) by (simp add: art_find_def find_once_def readLock_unlocked unlocked_new)
  then show ?thesis using t by blast
qed

lemma art_find_missing_child_witness:
  "\<exists>t. insert_all 1 [([9, 1, 0], 10), ([9, 2, 0], 20 :: nat)] new_ART = Inr t \<and> art_find 1 [9, 3, 0] t = Inl NullDeref"
  using art_find_missing_child [of "[0]" "[0]" "[0]" 1 2 3 "[9]" 0 10 20] by simp

text \<open>Inserting a key that is under an inner root: the two keys are compared from the byte of the leaf on.\<close>

lemma insert_again_root:
  assumes node: "inner_ok node" "unlocked (node_lock node)" "node_prefix node = p" "length p = unat (prefix_len (node_hdr node))"
    and child: "kids node b = Some (ARTLeaf h (p @ b # r) v)" and leaf: "unlocked (typeVersionLockObsolete h)" "prefix_len h = 0"
  shows "insert_recursive_opt (p @ b # r) newLeaf 0 None 0 node =
    (if r = [] then Inl BadAccess else Inr (True, None, node))"
proof -
  let ?key = "p @ b # r" and ?c = "ARTLeaf h (p @ b # r) v"
  have at: "getChild (?key ! length p) node = Inr (Some ?c)" "at_idx ?key (length p) = Inr (?key ! length p)"
    using getChild_kids [OF node(1), of b] child by simp_all
  obtain j where j: "(if prefix_len (node_hdr node) = 0 then Inr 0 else prefix_match (node_hdr node) ?key 0) = Inr j" "j \<le> length p"
    "j < length p \<Longrightarrow> ?key ! (0 + j) \<noteq> p ! j"
    by (rule insert_prefix_match [of "node_hdr node" 0 ?key, unfolded node(3)]) (use node(4) in \<open>auto simp: nth_append\<close>)
  have "j = length p" using j(2,3) by (cases "j = length p") (auto simp: nth_append)
  have par: "parent_ok ?key 0 None 0" by (simp add: parent_ok_def)
  have diff: "first_difference ?key ?key (length p + 1) = (if r = [] then Inl BadAccess else Inr (length ?key))" 
    using first_difference_same [of "length p + 1" ?key] by (auto simp: first_difference.simps [of _ _ "Suc (length p)"] at_idx_def)
  have below: "insert_recursive_opt ?key newLeaf (length p + 1) (Some node) (node_lock node) ?c =
    (if r = [] then Inl BadAccess else Inr (True, Some node, ?c))"
    unfolding insert_leaf_eq [OF leaf] split_leaf_def diff by simp
  show ?thesis
    unfolding insert_inner_eq [OF node(2) inner_not_leaf [OF node(1)] par, of newLeaf]
      j(1) rbind_Inr \<open>j = length p\<close> node(4) [symmetric] add_0 Let_def at
    using below by (simp add: put_child_def)
qed

text \<open>
  Inserting a key a second time reports success and leaves the first value in place when the
  leaf of the key hangs above the last byte. When the leaf hangs below the last byte, the comparison
  of the two keys starts behind them and reads memory that is not part of a key.\<close>

lemma art_insert_again:
  assumes "length r1 = length r2" "b1 \<noteq> b2" "length p + length r1 < 2 ^ 16 - 1"
  shows "\<exists>t. insert_all (Suc fuel) [(p @ b1 # r1, v1), (p @ b2 # r2, v2)] new_ART = Inr t \<and>
    (if r1 = [] then art_insert (Suc fuel) (p @ b1 # r1) w t = Inl BadAccess
     else \<exists>t'. art_insert (Suc fuel) (p @ b1 # r1) w t = Inr (True, t') \<and> art_find (Suc fuel) (p @ b1 # r1) t' = Inr (Some v1))"
proof -
  let ?key = "p @ b1 # r1" and ?n = "Suc (length p + length r1)"
  obtain node h1 where t: "insert_all (Suc fuel) [(p @ b1 # r1, v1), (p @ b2 # r2, v2)] new_ART = Inr \<lparr>art_root = Some node, read_only = False\<rparr>"
    and node: "inner_ok node" "kids node = [b1 \<mapsto> ARTLeaf h1 ?key v1, b2 \<mapsto> mk_ARTLeaf (p @ b2 # r2) v2]" "node_lock node = 4"
    "node_prefix node = p" "length p = unat (prefix_len (node_hdr node))" and leaf: "unlocked (typeVersionLockObsolete h1)" "prefix_len h1 = 0"
    by (rule insert_two [OF assms]) (rule that)
  have nl: "unlocked (node_lock node)" "kids node b1 = Some (ARTLeaf h1 ?key v1)" using node(2,3) assms(2) by (simp_all add: unlocked_new)
  note run = insert_again_root [OF node(1) nl(1) node(4,5) nl(2) leaf, of "mk_ARTLeaf ?key w"]
  let ?t = "\<lparr>art_root = Some node, read_only = False\<rparr>"
  have "art_insert (Suc fuel) ?key w ?t = (if r1 = [] then Inl BadAccess else Inr (True, ?t))"
    using run by (simp add: art_insert_def insert_once_def)
  moreover have "art_find (Suc fuel) ?key ?t = Inr (Some v1)"
  proof (rule insert_all_new [of ?n "[(?key, v1), (p @ b2 # r2, v2)]" fuel])
    show "art_find (Suc fuel) ?key ?t = Inr (Some v1)"
      if "insert_all (Suc fuel) [(?key, v1), (p @ b2 # r2, v2)] new_ART = Inr t'" "tree_ok ?n t'"
        "\<And>k v. tree_has t' k v \<longleftrightarrow> (k, v) \<in> set [(?key, v1), (p @ b2 # r2, v2)]" for t'
      using art_find_step(1) [OF that(2), of ?key v1 fuel] that(1,3) t by simp
  qed (use assms in auto)
  ultimately show ?thesis using t by auto
qed

lemma art_insert_again_witness:
  "(\<exists>t. insert_all 1 [([9, 1], 10), ([9, 2], 20 :: nat)] new_ART = Inr t \<and> art_insert 1 [9, 1] 30 t = Inl BadAccess)"
  using art_insert_again [of "[]" "[]" 1 2 "[9]" 0 10 20 30] by simp

end
