(* ===== verification/RadixCluster.thy ===== *)
theory RadixCluster
  imports Prelude "HOL-Library.Multiset"
begin

text \<open>
  Radix clustering (\<^verbatim>\<open>util/radix/joins/radix-join.cpp\<close>): the counting pass, the start of every cluster,
  the copying pass, and the two passes of \<^verbatim>\<open>partitionHT\<close>. The key width is a type parameter: 32 bits
  in the joins and 64 bits in the aggregations (\<^verbatim>\<open>util/radix/aggregations/radix-aggr.cpp\<close>), which have
  the same code.
\<close>

section \<open>Arrays that may hold uninitialised elements\<close>

type_synonym 'a mem = "'a option list"

definition malloc_n :: "nat \<Rightarrow> 'a mem" where
  "malloc_n n = replicate n None"

definition calloc_n :: "nat \<Rightarrow> 'a \<Rightarrow> 'a mem" where
  "calloc_n n zero = replicate n (Some zero)"

definition mem_read :: "'a mem \<Rightarrow> nat \<Rightarrow> 'a result" where
  "mem_read m i = rbind (at_idx m i) (\<lambda>x. case x of None \<Rightarrow> Inl BadAccess | Some a \<Rightarrow> Inr a)"

definition mem_write :: "'a mem \<Rightarrow> nat \<Rightarrow> 'a \<Rightarrow> 'a mem result" where
  "mem_write m i a = (if i < length m then Inr (m[i := Some a]) else Inl BadAccess)"

lemma mem_read_Some [simp]: "i < length m \<Longrightarrow> m ! i = Some a \<Longrightarrow> mem_read m i = Inr a"
  by (simp add: mem_read_def)

lemma mem_read_map [simp]: "i < length xs \<Longrightarrow> mem_read (map Some xs @ rest) i = Inr (xs ! i)"
  by (simp add: mem_read_def nth_append)

lemma mem_write_ok [simp]: "i < length m \<Longrightarrow> mem_write m i a = Inr (m[i := Some a])"
  by (simp add: mem_write_def)

section \<open>Clustering\<close>

record 'k tuple_t =
  key :: 'k
  payload :: "64 word"

definition HASH_BIT_MODULO :: "'k :: len word \<Rightarrow> 32 word \<Rightarrow> nat \<Rightarrow> 32 word" where
  "HASH_BIT_MODULO k m nbits = ucast (drop_bit nbits (k AND ucast m))"

text \<open>The loop over the tuples that counts them per cluster.\<close>

definition count_tuples :: "('t \<Rightarrow> nat) \<Rightarrow> 't mem \<Rightarrow> nat \<Rightarrow> 32 word mem \<Rightarrow> 32 word mem result" where
  "count_tuples cluster input n =
     rfold (\<lambda>i counts. rbind (mem_read input i) (\<lambda>t.
            rbind (mem_read counts (cluster t)) (\<lambda>c. mem_write counts (cluster t) (c + 1)))) [0..<n]"

text \<open>The loop that gives every cluster its start; \<^verbatim>\<open>offset\<close> has 32 bits.\<close>

fun cluster_starts :: "32 word \<Rightarrow> 32 word mem \<Rightarrow> nat mem result" where
  "cluster_starts offset [] = Inr []"
| "cluster_starts offset (None # counts) = Inl BadAccess"
| "cluster_starts offset (Some c # counts) =
     rbind (cluster_starts (offset + c) counts) (\<lambda>dst. Inr (Some (unat offset) # dst))"

text \<open>The loop that copies the tuples to their clusters.\<close>

definition copy_tuples ::
  "('t \<Rightarrow> nat) \<Rightarrow> 't mem \<Rightarrow> nat \<Rightarrow> nat mem \<times> 't mem \<Rightarrow> (nat mem \<times> 't mem) result" where
  "copy_tuples cluster input n =
     rfold (\<lambda>i (dst, out). rbind (mem_read input i) (\<lambda>t.
            rbind (mem_read dst (cluster t)) (\<lambda>p.
            rbind (mem_write out p t) (\<lambda>out'.
            rbind (mem_write dst (cluster t) (p + 1)) (\<lambda>dst'. Inr (dst', out')))))) [0..<n]"

text \<open>The clustering of \<open>ntuples\<close> tuples, the number that both overloads hold in 32 bits.\<close>

definition radix_cluster_nopadding ::
  "'k :: len word tuple_t mem \<Rightarrow> 'k word tuple_t mem \<Rightarrow> 32 word \<Rightarrow> nat \<Rightarrow> nat \<Rightarrow> 'k word tuple_t mem result" where
  "radix_cluster_nopadding out input ntuples R D =
     (let M = push_bit R (push_bit D 1 - 1); fanOut = push_bit D (1 :: 32 word);
          cluster = (\<lambda>t. unat (HASH_BIT_MODULO (key t) M R))
      in rbind (count_tuples cluster input (unat ntuples) (calloc_n (unat fanOut) 0)) (\<lambda>tuples_per_cluster.
         rbind (cluster_starts 0 tuples_per_cluster) (\<lambda>dst.
         rbind (copy_tuples cluster input (unat ntuples) (dst, out)) (\<lambda>(_, out'). Inr out'))))"

text \<open>\<^verbatim>\<open>NUM_RADIX_BITS\<close>, \<^verbatim>\<open>NUM_PASSES\<close> and the padding behind a temporary relation, counted in tuples.\<close>

definition NUM_RADIX_BITS :: nat where
  "NUM_RADIX_BITS = 14"

definition NUM_PASSES :: nat where
  "NUM_PASSES = 2"

definition RELATION_PADDING :: nat where
  "RELATION_PADDING =
     (3 * 64 div 16) * (2 ^ (NUM_RADIX_BITS - NUM_RADIX_BITS div NUM_PASSES) + 1) * 2 ^ (NUM_RADIX_BITS div NUM_PASSES)"

text \<open>
  The two passes of clustering of a relation, whose number of tuples has 32 bits: to a temporary
  relation, and back to the input.
\<close>

definition pass1 :: "'k :: len word tuple_t mem \<Rightarrow> 32 word \<Rightarrow> 'k word tuple_t mem result" where
  "pass1 tuples n =
     radix_cluster_nopadding (malloc_n (unat n + RELATION_PADDING)) tuples n 0 (NUM_RADIX_BITS div NUM_PASSES)"

definition pass2 :: "'k :: len word tuple_t mem \<Rightarrow> 'k word tuple_t mem \<Rightarrow> 32 word \<Rightarrow> 'k word tuple_t mem result" where
  "pass2 tuples out n =
     radix_cluster_nopadding tuples out n (NUM_RADIX_BITS div NUM_PASSES) (NUM_RADIX_BITS - NUM_RADIX_BITS div NUM_PASSES)"

definition low_bits :: "'k :: len word tuple_t \<Rightarrow> nat" where
  "low_bits t = unat (ucast (key t AND (push_bit NUM_RADIX_BITS 1 - 1)) :: 32 word)"

text \<open>
  \<^verbatim>\<open>partitionHT\<close> takes the number of tuples as a 64-bit number. The temporary relation and the last loop have
  that size, but clustering copies the number to 32 bits. The counters of the last loop, as of those
  in \<^verbatim>\<open>RJStepwise\<close>, have type \<^verbatim>\<open>int\<close>.
\<close>

definition count_per_cluster :: "'k :: len word tuple_t mem \<Rightarrow> nat \<Rightarrow> 32 word mem result" where
  "count_per_cluster tuples n =
     rfold (\<lambda>i counts. rbind (mem_read tuples i) (\<lambda>t.
            rbind (mem_read counts (low_bits t)) (\<lambda>c.
              if c = 2 ^ 31 - 1 then Inl SignedOverflow else mem_write counts (low_bits t) (c + 1))))
       [0..<n] (calloc_n (2 ^ NUM_RADIX_BITS) 0)"

definition partitionHT :: "'k :: len word tuple_t mem \<Rightarrow> size_t \<Rightarrow> ('k word tuple_t mem \<times> 32 word mem) result" where
  "partitionHT tuples num_tuples =
     rbind (radix_cluster_nopadding (malloc_n (unat num_tuples + RELATION_PADDING)) tuples (ucast num_tuples)
              0 (NUM_RADIX_BITS div NUM_PASSES)) (\<lambda>out.
     rbind (radix_cluster_nopadding tuples out (ucast num_tuples)
              (NUM_RADIX_BITS div NUM_PASSES) (NUM_RADIX_BITS - NUM_RADIX_BITS div NUM_PASSES)) (\<lambda>tuples'.
     rbind (count_per_cluster tuples' (unat num_tuples)) (\<lambda>counts. Inr (tuples', counts))))"

section \<open>Counting and copying\<close>

text \<open>The loops read the input from front to back.\<close>

lemma rfold_read:
  "rfold (\<lambda>i s. rbind (mem_read (map Some xs @ rest) i) (\<lambda>t. g t s)) [0..<length xs] s = rfold g xs s"
proof (induction xs arbitrary: rest rule: rev_induct)
  case (snoc x xs)
  have "mem_read (map Some (xs @ [x]) @ rest) (length xs) = Inr x" by (simp add: mem_read_def nth_append)
  then show ?case using snoc [of "Some x # rest"] by (simp add: rfold_snoc)
qed simp

abbreviation size_of :: "('t \<Rightarrow> nat) \<Rightarrow> 't list \<Rightarrow> nat \<Rightarrow> nat" where
  "size_of f xs c \<equiv> length (filter (\<lambda>t. f t = c) xs)"

lemma count_loop:
  assumes "\<forall>t \<in> set xs. f t < length cs"
  shows "rfold (\<lambda>t counts. rbind (mem_read counts (f t)) (\<lambda>c. mem_write counts (f t) (c + 1))) xs (map Some cs) =
    Inr (map (\<lambda>c. Some (cs ! c + of_nat (size_of f xs c))) [0..<length cs])"
  using assms
proof (induction xs arbitrary: cs)
  case Nil
  show ?case by (auto intro: nth_equalityI)
next
  case (Cons t xs)
  let ?cs = "cs[f t := cs ! f t + 1]"
  have "f t < length cs" using Cons.prems by simp
  then have "rfold (\<lambda>t counts. rbind (mem_read counts (f t)) (\<lambda>c. mem_write counts (f t) (c + 1))) (t # xs) (map Some cs) =
      rfold (\<lambda>t counts. rbind (mem_read counts (f t)) (\<lambda>c. mem_write counts (f t) (c + 1))) xs (map Some ?cs)"
    by (simp add: map_update)
  also have "\<dots> = Inr (map (\<lambda>c. Some (?cs ! c + of_nat (size_of f xs c))) [0..<length ?cs])"
    using Cons.prems by (intro Cons.IH) simp
  also have "\<dots> = Inr (map (\<lambda>c. Some (cs ! c + of_nat (size_of f (t # xs) c))) [0..<length cs])"
    by (simp add: nth_list_update algebra_simps)
  finally show ?case .
qed

lemma count_tuples_ok:
  assumes "\<forall>t \<in> set xs. f t < F"
  shows "count_tuples f (map Some xs @ rest) (length xs) (calloc_n F 0) = Inr (map (\<lambda>c. Some (of_nat (size_of f xs c))) [0..<F])"
proof -
  have "calloc_n F 0 = map Some (replicate F (0 :: 32 word))" by (simp add: calloc_n_def)
  moreover have "map (\<lambda>c. Some (replicate F 0 ! c + of_nat (size_of f xs c))) [0..<F] = map (\<lambda>c. Some (of_nat (size_of f xs c) :: 32 word)) [0..<F]"
    by simp
  ultimately show ?thesis
    unfolding count_tuples_def rfold_read using count_loop [of xs f "replicate F (0 :: 32 word)"] assms by simp
qed

text \<open>The clusters one after the other, and where they start.\<close>

definition clusters :: "('t \<Rightarrow> nat) \<Rightarrow> nat \<Rightarrow> 't list \<Rightarrow> 't list" where
  "clusters f F xs = concat (map (\<lambda>c. filter (\<lambda>t. f t = c) xs) [0..<F])"

definition start_of :: "('t \<Rightarrow> nat) \<Rightarrow> 't list \<Rightarrow> nat \<Rightarrow> nat" where
  "start_of f xs c = length (clusters f c xs)"

lemma clusters_Suc: "clusters f (Suc F) xs = clusters f F xs @ filter (\<lambda>t. f t = F) xs"
  by (simp add: clusters_def)

lemma start_of_0 [simp]: "start_of f xs 0 = 0"
  by (simp add: start_of_def clusters_def)

lemma start_of_Suc [simp]: "start_of f xs (Suc c) = start_of f xs c + size_of f xs c"
  by (simp add: start_of_def clusters_Suc)

lemma start_of_mono: "c \<le> c' \<Longrightarrow> start_of f xs c \<le> start_of f xs c'"
  by (rule lift_Suc_mono_le) simp_all

lemma length_clusters_below: "length (clusters f F xs) = length (filter (\<lambda>t. f t < F) xs)"
proof (induction F)
  case (Suc F)
  have "length (filter (\<lambda>t. f t < Suc F) xs) = length (filter (\<lambda>t. f t < F) xs) + size_of f xs F"
    by (induction xs) auto
  then show ?case using Suc by (simp add: clusters_Suc)
qed (simp add: clusters_def)

lemma length_clusters: "\<forall>t \<in> set xs. f t < F \<Longrightarrow> length (clusters f F xs) = length xs"
  by (simp add: length_clusters_below cong: filter_cong)

lemma start_of_le: "start_of f xs c \<le> length xs"
  by (simp add: start_of_def length_clusters_below)

lemma clusters_at:
  assumes "i < start_of f xs F"
  obtains c j where "c < F" "j < size_of f xs c" "i = start_of f xs c + j" "clusters f F xs ! i = filter (\<lambda>t. f t = c) xs ! j"
  using assms
proof (induction F arbitrary: thesis)
  case (Suc F)
  show ?case
  proof (cases "i < start_of f xs F")
    case True
    show ?thesis
    proof (rule Suc.IH [OF _ True])
      fix c j assume "c < F" "j < size_of f xs c" "i = start_of f xs c + j" "clusters f F xs ! i = filter (\<lambda>t. f t = c) xs ! j"
      then show ?thesis using True by (intro Suc.prems(1) [of c j]) (simp_all add: clusters_Suc nth_append start_of_def)
    qed
  next
    case False
    then show ?thesis using Suc.prems(2)
      by (intro Suc.prems(1) [of F "i - start_of f xs F"]) (auto simp: clusters_Suc nth_append start_of_def)
  qed
qed simp

lemma cluster_starts_from:
  assumes "start_of f xs (c + k) < 2 ^ 32"
  shows "cluster_starts (of_nat (start_of f xs c)) (map (\<lambda>c. Some (of_nat (size_of f xs c))) [c..<c + k]) =
    Inr (map (\<lambda>c. Some (start_of f xs c)) [c..<c + k])"
  using assms
proof (induction k arbitrary: c)
  case (Suc k)
  have "start_of f xs c \<le> start_of f xs (c + Suc k)" by (rule start_of_mono) simp
  then have "unat (of_nat (start_of f xs c) :: 32 word) = start_of f xs c" using Suc.prems by (simp add: unsigned_of_nat take_bit_nat_eq_self)
  moreover have "cluster_starts (of_nat (start_of f xs (Suc c))) (map (\<lambda>c. Some (of_nat (size_of f xs c))) [Suc c..<Suc c + k]) =
    Inr (map (\<lambda>c. Some (start_of f xs c)) [Suc c..<Suc c + k])" using Suc.prems by (intro Suc.IH) simp
  moreover have "[c..<c + Suc k] = c # [Suc c..<Suc c + k]" by (simp add: upt_conv_Cons del: upt_Suc)
  ultimately show ?case by (simp del: upt_Suc)
qed simp

lemma cluster_starts_ok:
  assumes "length xs < 2 ^ 32"
  shows "cluster_starts 0 (map (\<lambda>c. Some (of_nat (size_of f xs c))) [0..<F]) = Inr (map (\<lambda>c. Some (start_of f xs c)) [0..<F])"
  using cluster_starts_from [of f xs 0 F] assms start_of_le [of f xs F] by simp

text \<open>
  Copying fills every cluster from its start on, in the order of the input, and writes nowhere else.
  \<open>st\<close> are the starts, and \<open>cap\<close> the room of the clusters.
\<close>

definition filled :: "('t \<Rightarrow> nat) \<Rightarrow> nat \<Rightarrow> (nat \<Rightarrow> nat) \<Rightarrow> 't list \<Rightarrow> 't mem \<Rightarrow> 't mem \<Rightarrow> bool" where
  "filled f F st xs out out' \<longleftrightarrow> length out' = length out \<and>
     (\<forall>c < F. \<forall>j < size_of f xs c. out' ! (st c + j) = Some (filter (\<lambda>t. f t = c) xs ! j)) \<and>
     (\<forall>p. (\<forall>c < F. \<not> (st c \<le> p \<and> p < st c + size_of f xs c)) \<longrightarrow> out' ! p = out ! p)"

lemma filled_snoc:
  assumes "filled f F st xs out out'" "f t < F" "st (f t) + size_of f xs (f t) < length out"
    and apart: "\<And>c. c < F \<Longrightarrow> c \<noteq> f t \<Longrightarrow> st c + size_of f xs c \<le> st (f t) \<or> st (f t) + size_of f xs (f t) < st c"
  shows "filled f F st (xs @ [t]) out (out'[st (f t) + size_of f xs (f t) := Some t])"
  unfolding filled_def
proof (intro conjI allI impI)
  let ?p = "st (f t) + size_of f xs (f t)"
  show "length (out'[?p := Some t]) = length out" using assms(1) by (simp add: filled_def)
  show "out'[?p := Some t] ! (st c + j) = Some (filter (\<lambda>t. f t = c) (xs @ [t]) ! j)" if "c < F" "j < size_of f (xs @ [t]) c" for c j
  proof (cases "c = f t")
    case True
    then show ?thesis using assms that by (cases "j = size_of f xs c") (auto simp: filled_def nth_append)
  next
    case False
    then have "j < size_of f xs c" "st c + j \<noteq> ?p" using that apart [of c] by auto
    then show ?thesis using False assms(1) that by (simp add: filled_def)
  qed
  show "out'[?p := Some t] ! p = out ! p" if outside: "\<forall>c < F. \<not> (st c \<le> p \<and> p < st c + size_of f (xs @ [t]) c)" for p
  proof -
    have "p \<noteq> ?p" using outside [rule_format, OF assms(2)] by auto
    moreover have "\<not> (st c \<le> p \<and> p < st c + size_of f xs c)" if c: "c < F" for c
    proof -
      have "size_of f xs c \<le> size_of f (xs @ [t]) c" by simp
      then show ?thesis using outside [rule_format, OF c] by linarith
    qed
    ultimately show ?thesis using assms(1) by (simp add: filled_def)
  qed
qed

lemma copy_loop:
  assumes "\<forall>t \<in> set xs. f t < F" "\<forall>c < F. st c + cap c \<le> length out" "\<forall>c < F. size_of f xs c \<le> cap c"
    and apart: "\<forall>c < F. \<forall>d < F. c \<noteq> d \<longrightarrow> st c + cap c \<le> st d \<or> st d + cap d \<le> st c"
  shows "\<exists>out'. rfold (\<lambda>t (dst, out). rbind (mem_read dst (f t)) (\<lambda>p. rbind (mem_write out p t) (\<lambda>out'.
            rbind (mem_write dst (f t) (p + 1)) (\<lambda>dst'. Inr (dst', out'))))) xs (map (\<lambda>c. Some (st c)) [0..<F], out) =
        Inr (map (\<lambda>c. Some (st c + size_of f xs c)) [0..<F], out') \<and> filled f F st xs out out'"
  using assms(1,3)
proof (induction xs rule: rev_induct)
  case Nil
  then show ?case by (simp add: filled_def)
next
  case (snoc t xs)
  have ft: "f t < F" using snoc.prems(1) by simp
  have room: "\<forall>c < F. size_of f xs c \<le> cap c" "size_of f xs (f t) < cap (f t)"
  proof -
    have "size_of f xs c \<le> size_of f (xs @ [t]) c" for c by simp
    then show "\<forall>c < F. size_of f xs c \<le> cap c" using snoc.prems(2) order_trans by blast
    show "size_of f xs (f t) < cap (f t)" using snoc.prems(2) [rule_format, OF ft] by simp
  qed
  obtain out' where out': "filled f F st xs out out'"
    "rfold (\<lambda>t (dst, out). rbind (mem_read dst (f t)) (\<lambda>p. rbind (mem_write out p t) (\<lambda>out'.
        rbind (mem_write dst (f t) (p + 1)) (\<lambda>dst'. Inr (dst', out'))))) xs (map (\<lambda>c. Some (st c)) [0..<F], out) =
      Inr (map (\<lambda>c. Some (st c + size_of f xs c)) [0..<F], out')"
    using snoc.IH snoc.prems(1) room(1) by auto
  let ?p = "st (f t) + size_of f xs (f t)"
  have p: "?p < length out" "length out' = length out" using assms(2) ft room(2) out'(1) by (fastforce simp: filled_def)+
  have "filled f F st (xs @ [t]) out (out'[?p := Some t])"
  proof (rule filled_snoc [OF out'(1) ft p(1)])
    fix c assume "c < F" "c \<noteq> f t"
    then have "st c + cap c \<le> st (f t) \<or> st (f t) + cap (f t) \<le> st c" "size_of f xs c \<le> cap c" using apart ft room(1) by blast+
    then show "st c + size_of f xs c \<le> st (f t) \<or> ?p < st c" using room(2) by linarith
  qed
  moreover have "(map (\<lambda>c. Some (st c + size_of f xs c)) [0..<F])[f t := Some (?p + 1)] = map (\<lambda>c. Some (st c + size_of f (xs @ [t]) c)) [0..<F]"
    using ft by (auto simp: nth_list_update intro!: nth_equalityI)
  ultimately show ?case using out'(2) ft p by (simp add: rfold_snoc)
qed

lemma copy_tuples_ok:
  assumes "\<forall>t \<in> set xs. f t < F" "length xs \<le> length out"
  shows "copy_tuples f (map Some xs @ rest) (length xs) (map (\<lambda>c. Some (start_of f xs c)) [0..<F], out) =
    Inr (map (\<lambda>c. Some (start_of f xs (Suc c))) [0..<F], map Some (clusters f F xs) @ drop (length xs) out)"
proof -
  let ?st = "start_of f xs"
  have loop: "copy_tuples f (map Some xs @ rest) (length xs) = rfold (\<lambda>t (dst, out). rbind (mem_read dst (f t)) (\<lambda>p. rbind (mem_write out p t) (\<lambda>out'.
        rbind (mem_write dst (f t) (p + 1)) (\<lambda>dst'. Inr (dst', out'))))) xs"
    unfolding copy_tuples_def case_prod_unfold by (rule ext) (rule rfold_read)
  have "?st c + size_of f xs c \<le> length xs" for c using start_of_le [of f xs "Suc c"] by simp
  then have room: "\<forall>c < F. ?st c + size_of f xs c \<le> length out" using assms(2) order_trans by blast
  have apart: "\<forall>c < F. \<forall>d < F. c \<noteq> d \<longrightarrow> ?st c + size_of f xs c \<le> ?st d \<or> ?st d + size_of f xs d \<le> ?st c"
    using start_of_mono [of "Suc _" _ f xs] by (metis Suc_leI nat_neq_iff start_of_Suc)
  from copy_loop [OF assms(1) room _ apart] obtain out' where out': "filled f F ?st xs out out'"
    "copy_tuples f (map Some xs @ rest) (length xs) (map (\<lambda>c. Some (?st c)) [0..<F], out) =
      Inr (map (\<lambda>c. Some (?st c + size_of f xs c)) [0..<F], out')"
    unfolding loop by auto
  have len: "length (clusters f F xs) = length xs" "length out' = length out" using length_clusters [OF assms(1)] out'(1) by (simp_all add: filled_def)
  have "out' = map Some (clusters f F xs) @ drop (length xs) out"
  proof (rule nth_equalityI)
    show "length out' = length (map Some (clusters f F xs) @ drop (length xs) out)" using len assms(2) by simp
    fix i assume i: "i < length out'"
    show "out' ! i = (map Some (clusters f F xs) @ drop (length xs) out) ! i"
    proof (cases "i < length xs")
      case True
      then have "i < start_of f xs F" using len(1) by (simp add: start_of_def)
      then obtain c j where "c < F" "j < size_of f xs c" "i = ?st c + j" "clusters f F xs ! i = filter (\<lambda>t. f t = c) xs ! j"
        by (rule clusters_at)
      then show ?thesis using True len(1) out'(1) by (simp add: nth_append filled_def)
    next
      case False
      then have "\<not> (?st c \<le> i \<and> i < ?st c + size_of f xs c)" for c using start_of_le [of f xs "Suc c"] by simp
      then show ?thesis using False i len out'(1) assms(2) by (simp add: nth_append filled_def)
    qed
  qed
  then show ?thesis using out'(2) by simp
qed

lemma hash_take: "R + D \<le> 32 \<Longrightarrow> HASH_BIT_MODULO k (push_bit R (2 ^ D - 1)) R = ucast (take_bit D (drop_bit R k))"
  unfolding HASH_BIT_MODULO_def mask_eq_exp_minus_1 [symmetric]
  by (rule bit_word_eqI) (auto simp: bit_simps dest: bit_imp_le_length)

lemma hash_value: "R + D \<le> 32 \<Longrightarrow> unat (HASH_BIT_MODULO k (push_bit R (2 ^ D - 1)) R) = unat k div 2 ^ R mod 2 ^ D"
  using take_bit_nat_eq_self [OF unsigned_less [of k, where 'a = nat]]
  by (simp add: hash_take unsigned_ucast_eq unsigned_take_bit_eq unsigned_drop_bit_eq take_bit_take_bit flip: take_bit_eq_mod drop_bit_eq_div)

text \<open>Clustering sorts the tuples by the \<open>D\<close> bits above the lowest \<open>R\<close> and keeps their order otherwise.\<close>

abbreviation radix_of :: "nat \<Rightarrow> nat \<Rightarrow> 'k :: len word tuple_t \<Rightarrow> nat" where
  "radix_of R D t \<equiv> unat (key t) div 2 ^ R mod 2 ^ D"

lemma radix_cluster_ok:
  assumes "unat n = length xs" "length xs \<le> length out" "R + D \<le> 32" "D < 32"
  shows "radix_cluster_nopadding out (map Some xs @ rest) n R D =
    Inr (map Some (clusters (radix_of R D) (2 ^ D) xs) @ drop (length xs) out)"
proof -
  let ?f = "radix_of R D"
  have small: "\<forall>t \<in> set xs. ?f t < 2 ^ D" "length xs < 2 ^ 32" using unsigned_less [of n, where 'a = nat] assms(1) by simp_all
  have "unat (of_nat (2 ^ D) :: 32 word) = 2 ^ D"
    using assms(4) power_strict_increasing [of D 32 "2 :: nat"] by (simp add: unat_of_nat del: of_nat_power)
  then have "unat (2 ^ D :: 32 word) = 2 ^ D" by simp
  then show ?thesis
    using count_tuples_ok [OF small(1), of rest] cluster_starts_ok [OF small(2), of ?f "2 ^ D"] copy_tuples_ok [OF small(1) assms(2), of rest]
    by (simp add: radix_cluster_nopadding_def hash_value [OF assms(3)] assms(1))
qed

section \<open>The two passes\<close>

lemma filter_clusters:
  "filter (\<lambda>t. g t = d) (clusters f F xs) = concat (map (\<lambda>c. filter (\<lambda>t. f t = c \<and> g t = d) xs) [0..<F])"
  by (simp add: clusters_def filter_concat comp_def conj_commute)

lemma filter_own_cluster:
  assumes "c < F"
  shows "filter (\<lambda>t. f t = c) (clusters f F xs) = filter (\<lambda>t. f t = c) xs"
proof -
  have "concat (map (\<lambda>b. if b = c then ys else []) [0..<m]) = (if c < m then ys else [])" for ys :: "'a list" and m
    by (induction m) auto
  moreover have "filter (\<lambda>t. f t = c) (clusters f F xs) = concat (map (\<lambda>b. if b = c then filter (\<lambda>t. f t = c) xs else []) [0..<F])"
    unfolding filter_clusters by (intro arg_cong [of _ _ concat] map_cong) (auto intro: filter_cong)
  ultimately show ?thesis using assms by simp
qed

lemma upt_mult: "[0..<G * F] = concat (map (\<lambda>d. map (\<lambda>c. d * F + c) [0..<F]) [0..<G])"
proof (induction G)
  case (Suc G)
  have "[0..<Suc G * F] = [0..<G * F + F]" by (simp only: mult_Suc add.commute)
  also have "\<dots> = [0..<G * F] @ [G * F..<G * F + F]" by (rule upt_add_eq_append) simp
  finally have "[0..<Suc G * F] = [0..<G * F] @ [G * F..<G * F + F]" .
  moreover have "[G * F..<G * F + F] = map (\<lambda>c. G * F + c) [0..<F]"
    using map_add_upt [of "G * F" F] by (simp only: add.commute)
  ultimately show ?case using Suc by simp
qed simp

lemma concat_map_concat: "concat (map h (concat (map k ds))) = concat (map (\<lambda>d. concat (map h (k d))) ds)"
  by (induction ds) simp_all

text \<open>Clustering by one digit and then by the next higher digit is clustering by both.\<close>

lemma clusters_twice:
  assumes "\<forall>t \<in> set xs. f t < F"
  shows "clusters g G (clusters f F xs) = clusters (\<lambda>t. g t * F + f t) (G * F) xs"
proof -
  have "filter (\<lambda>t. f t = c \<and> g t = d) xs = filter (\<lambda>t. g t * F + f t = d * F + c) xs" if "c < F" for c d
  proof (rule filter_cong [OF refl])
    fix t assume "t \<in> set xs"
    then have "(g t * F + f t) div F = g t" "(g t * F + f t) mod F = f t" "(d * F + c) div F = d" "(d * F + c) mod F = c"
      using assms that by auto
    then show "(f t = c \<and> g t = d) = (g t * F + f t = d * F + c)" by metis
  qed
  then have "concat (map (\<lambda>c. filter (\<lambda>t. f t = c \<and> g t = d) xs) [0..<F]) =
      concat (map (\<lambda>c. filter (\<lambda>t. g t * F + f t = d * F + c) xs) [0..<F])" for d
    by (intro arg_cong [of _ _ concat] map_cong) simp_all
  then have "clusters g G (clusters f F xs) =
      concat (map (\<lambda>d. concat (map (\<lambda>c. filter (\<lambda>t. g t * F + f t = d * F + c) xs) [0..<F])) [0..<G])"
    by (subst clusters_def) (simp add: filter_clusters)
  also have "\<dots> = clusters (\<lambda>t. g t * F + f t) (G * F) xs"
    unfolding clusters_def upt_mult by (simp add: concat_map_concat comp_def)
  finally show ?thesis .
qed

lemma low_bits_value: "low_bits t = unat (key t) mod 2 ^ 14"
proof -
  have "low_bits t = unat (ucast (take_bit 14 (key t)) :: 32 word)"
    by (simp add: low_bits_def NUM_RADIX_BITS_def take_bit_eq_mask mask_eq_exp_minus_1 push_bit_of_1)
  then have "low_bits t = take_bit 14 (unat (key t))"
    using take_bit_nat_eq_self [OF unsigned_less [of "key t", where 'a = nat]]
    by (simp add: unsigned_ucast_eq unsigned_take_bit_eq take_bit_take_bit)
  then show ?thesis by (simp add: take_bit_eq_mod)
qed

lemma two_passes_ok:
  fixes xs :: "'k :: len word tuple_t list"
  assumes "unat n = length xs"
  obtains out where "pass1 (map Some xs) n = Inr out" "pass2 (map Some xs) out n = Inr (map Some (clusters low_bits (2 ^ NUM_RADIX_BITS) xs))"
proof -
  let ?f = "radix_of 0 7" and ?g = "radix_of 7 7" and ?pad = "malloc_n (unat n + RELATION_PADDING)"
  let ?ys = "clusters ?f (2 ^ 7) xs"
  have len: "length ?ys = length xs" by (intro length_clusters) simp
  have first: "pass1 (map Some xs) n = Inr (map Some ?ys @ drop (length xs) ?pad)"
    using radix_cluster_ok [of n xs ?pad 0 7 "[]"] assms by (simp add: malloc_n_def pass1_def NUM_RADIX_BITS_def NUM_PASSES_def)
  have second: "pass2 (map Some xs) (map Some ?ys @ rest) n = Inr (map Some (clusters ?g (2 ^ 7) ?ys))" for rest
    using radix_cluster_ok [of n ?ys "map Some xs" 7 7 rest] assms len by (simp add: pass2_def NUM_RADIX_BITS_def NUM_PASSES_def)
  have "?g t * 2 ^ 7 + ?f t = low_bits t" for t :: "'k word tuple_t"
    unfolding low_bits_value using mod_mult2_eq [of "unat (key t)" "2 ^ 7" "2 ^ 7"] by simp
  moreover have "clusters ?g (2 ^ 7) ?ys = clusters (\<lambda>t. ?g t * 2 ^ 7 + ?f t) (2 ^ 7 * 2 ^ 7) xs" by (intro clusters_twice) simp
  ultimately have "clusters ?g (2 ^ 7) ?ys = clusters low_bits (2 ^ NUM_RADIX_BITS) xs" by (simp add: NUM_RADIX_BITS_def)
  then show thesis using that [OF first] second by simp
qed

lemma low_bits_less: "low_bits t < 2 ^ NUM_RADIX_BITS"
  by (simp add: low_bits_value NUM_RADIX_BITS_def)

text \<open>As long as there are fewer than 2^31 tuples, the counters of type \<^verbatim>\<open>int\<close> count like the others.\<close>

lemma count_per_cluster_ok:
  fixes xs :: "'k :: len word tuple_t list"
  assumes "length xs < 2 ^ 31"
  shows "count_per_cluster (map Some xs) (length xs) = Inr (map (\<lambda>c. Some (of_nat (size_of low_bits xs c))) [0..<2 ^ NUM_RADIX_BITS])"
proof -
  let ?step = "\<lambda>t counts. rbind (mem_read counts (low_bits t)) (\<lambda>c.
    if c = 2 ^ 31 - 1 then Inl SignedOverflow else mem_write counts (low_bits t) (c + (1 :: 32 word)))"
  let ?sizes = "\<lambda>xs. map (\<lambda>c. Some (of_nat (size_of low_bits xs c) :: 32 word)) [0..<2 ^ NUM_RADIX_BITS]"
  have "rfold ?step xs (calloc_n (2 ^ NUM_RADIX_BITS) 0) = Inr (?sizes xs)"
    using assms
  proof (induction xs rule: rev_induct)
    case Nil
    show ?case by (simp add: calloc_n_def map_replicate_trivial)
  next
    case (snoc t xs)
    let ?c = "of_nat (size_of low_bits xs (low_bits t)) :: 32 word"
    have small: "size_of low_bits xs (low_bits t) < 2 ^ 31 - 1"
      using le_less_trans [OF length_filter_le, of xs "2 ^ 31 - 1"] snoc.prems by simp
    then have "unat ?c = size_of low_bits xs (low_bits t)" by (simp add: unsigned_of_nat take_bit_nat_eq_self)
    then have "unat ?c \<noteq> unat (2 ^ 31 - 1 :: 32 word)" using small by simp
    then have ne: "?c \<noteq> 2 ^ 31 - 1" by metis
    have "mem_read (?sizes xs) (low_bits t) = Inr ?c" by (rule mem_read_Some) (simp_all add: low_bits_less)
    then have "?step t (?sizes xs) = Inr ((?sizes xs)[low_bits t := Some (?c + 1)])"
      using ne mem_write_ok [of "low_bits t" "?sizes xs"] low_bits_less [of t] by simp
    also have "(?sizes xs)[low_bits t := Some (?c + 1)] = ?sizes (xs @ [t])"
      by (rule nth_equalityI) (simp_all add: nth_list_update low_bits_less add.commute)
    finally show ?case using snoc by (simp add: rfold_snoc)
  qed
  then show ?thesis using rfold_read [of xs "[]" ?step] by (simp add: count_per_cluster_def)
qed

lemma partitionHT_run:
  fixes xs :: "'k :: len word tuple_t list" and n :: size_t
  assumes n: "unat n = length xs" and small: "length xs < 2 ^ 31"
  shows "partitionHT (map Some xs) n =
    Inr (map Some (clusters low_bits (2 ^ NUM_RADIX_BITS) xs), map (\<lambda>c. Some (of_nat (size_of low_bits xs c))) [0..<2 ^ NUM_RADIX_BITS])"
proof -
  let ?ys = "clusters low_bits (2 ^ NUM_RADIX_BITS) xs" and ?n = "ucast n :: 32 word"
  have len: "length ?ys = length xs" by (intro length_clusters) (simp add: low_bits_less)
  have "filter (\<lambda>t. low_bits t = c) ?ys = filter (\<lambda>t. low_bits t = c) xs" if "c < 2 ^ NUM_RADIX_BITS" for c
    using that by (rule filter_own_cluster)
  then have same: "map (\<lambda>c. Some (of_nat (size_of low_bits ?ys c))) [0..<2 ^ NUM_RADIX_BITS] =
      map (\<lambda>c. Some (of_nat (size_of low_bits xs c) :: 32 word)) [0..<2 ^ NUM_RADIX_BITS]"
    by (intro map_cong) simp_all
  have counted: "count_per_cluster (map Some ?ys) (unat n) = Inr (map (\<lambda>c. Some (of_nat (size_of low_bits xs c))) [0..<2 ^ NUM_RADIX_BITS])"
    using count_per_cluster_ok [of ?ys] small unfolding same len n .
  have trunc: "unat ?n = length xs" using n small by (simp add: unsigned_ucast_eq take_bit_nat_eq_self)
  obtain out where "pass1 (map Some xs) ?n = Inr out" "pass2 (map Some xs) out ?n = Inr (map Some ?ys)" by (rule two_passes_ok [OF trunc])
  then show ?thesis using counted n trunc by (simp add: partitionHT_def pass1_def pass2_def)
qed

end
