(* ===== verification/RadixJoin.thy ===== *)
theory RadixJoin
  imports RadixCluster
begin

text \<open>
  The radix join (\<^verbatim>\<open>util/radix/joins/radix-join.cpp\<close>): bucket chaining hash tables, the probe, and the
  join of two relations cluster by cluster. The join counts exactly the pairs with equal keys.
\<close>

section \<open>Hash tables\<close>

definition NEXT_POW_2 :: "32 word \<Rightarrow> 32 word" where
  "NEXT_POW_2 V =
     (let V = V - 1; V = V OR drop_bit 1 V; V = V OR drop_bit 2 V; V = V OR drop_bit 4 V;
          V = V OR drop_bit 8 V; V = V OR drop_bit 16 V
      in V + 1)"

record HT =
  ht_bucket :: "32 word mem"
  ht_next :: "32 word mem"
  ht_mask :: "32 word"

text \<open>One turn of the loop that links tuple \<open>i\<close> into its bucket; positions start from 1.\<close>

definition link_tuple ::
  "32 word \<Rightarrow> 'k :: len word tuple_t mem \<Rightarrow> nat \<Rightarrow> 32 word mem \<times> 32 word mem \<Rightarrow> (32 word mem \<times> 32 word mem) result" where
  "link_tuple MASK tuples i = (\<lambda>(nxt, bucket).
     rbind (mem_read tuples i) (\<lambda>t.
     let idx = unat (HASH_BIT_MODULO (key t) MASK NUM_RADIX_BITS)
     in rbind (mem_read bucket idx) (\<lambda>b.
        rbind (mem_write nxt i b) (\<lambda>nxt'.
        rbind (mem_write bucket idx (of_nat (i + 1))) (\<lambda>bucket'. Inr (nxt', bucket'))))))"

definition bucket_chaining_join_prepare :: "'k :: len word tuple_t mem \<Rightarrow> 32 word \<Rightarrow> HT result" where
  "bucket_chaining_join_prepare tuples numR =
     (let N = NEXT_POW_2 numR; MASK = push_bit NUM_RADIX_BITS (N - 1)
      in rbind (rfold (link_tuple MASK tuples) [0..<unat numR] (malloc_n (unat numR), calloc_n (unat N) 0)) (\<lambda>(nxt, bucket).
         Inr \<lparr>ht_bucket = bucket, ht_next = nxt, ht_mask = MASK\<rparr>))"

text \<open>The loop over the chain of a bucket; the fuel is the number of links and one more.\<close>

fun probe_loop :: "nat \<Rightarrow> 'k :: len word \<Rightarrow> 'k word tuple_t mem \<Rightarrow> 32 word mem \<Rightarrow> 32 word \<Rightarrow> 64 word \<Rightarrow> 64 word result" where
  "probe_loop 0 k tuples nxt hit matches = Inl Diverges"
| "probe_loop (Suc fuel) k tuples nxt hit matches =
     (if \<not> 0 <s hit then Inr matches
      else rbind (mem_read tuples (unat (hit - 1))) (\<lambda>t.
           rbind (mem_read nxt (unat (hit - 1))) (\<lambda>hit'.
           probe_loop fuel k tuples nxt hit' (if k = key t then matches + 1 else matches))))"

declare probe_loop.simps [simp del]

definition bucket_chaining_join_probe :: "'k :: len word tuple_t mem \<Rightarrow> HT \<Rightarrow> 'k word tuple_t \<Rightarrow> 64 word result" where
  "bucket_chaining_join_probe tuples ht s =
     rbind (mem_read (ht_bucket ht) (unat (HASH_BIT_MODULO (key s) (ht_mask ht) NUM_RADIX_BITS))) (\<lambda>hit.
       probe_loop (Suc (length (ht_next ht))) (key s) tuples (ht_next ht) hit 0)"

section \<open>The join\<close>

text \<open>The body of the loop over the clusters: the starts of the next clusters and the result so far.\<close>

definition join_cluster ::
  "'k :: len word tuple_t mem \<Rightarrow> 'k word tuple_t mem \<Rightarrow> 32 word mem \<Rightarrow> 32 word mem \<Rightarrow> nat
     \<Rightarrow> 32 word \<times> 32 word \<times> 64 word \<Rightarrow> (32 word \<times> 32 word \<times> 64 word) result" where
  "join_cluster relR relS R_count S_count i = (\<lambda>(r, s, res).
     rbind (mem_read R_count i) (\<lambda>nR.
     rbind (mem_read S_count i) (\<lambda>nS.
     if 0 <s nR \<and> 0 <s nS
     then let tmpR = drop (unat r) relR; tmpS = drop (unat s) relS
          in rbind (bucket_chaining_join_prepare tmpR nR) (\<lambda>ht.
             rbind (rfold (\<lambda>j res. rbind (mem_read tmpS j) (\<lambda>t.
                      rbind (bucket_chaining_join_probe tmpR ht t) (\<lambda>m. Inr (res + m)))) [0..<unat nS] res) (\<lambda>res'.
             Inr (r + nR, s + nS, res')))
     else Inr (r + nR, s + nS, res))))"

definition RJStepwise ::
  "'k :: len word tuple_t mem \<Rightarrow> 32 word \<Rightarrow> 'k word tuple_t mem \<Rightarrow> 32 word
     \<Rightarrow> (64 word \<times> 'k word tuple_t mem \<times> 'k word tuple_t mem) result" where
  "RJStepwise relR nR relS nS =
     rbind (pass1 relR nR) (\<lambda>outR.
     rbind (pass1 relS nS) (\<lambda>outS.
     rbind (pass2 relR outR nR) (\<lambda>relR'.
     rbind (pass2 relS outS nS) (\<lambda>relS'.
     rbind (count_per_cluster relR' (unat nR)) (\<lambda>R_count.
     rbind (count_per_cluster relS' (unat nS)) (\<lambda>S_count.
     rbind (rfold (join_cluster relR' relS' R_count S_count) [0..<2 ^ NUM_RADIX_BITS] (0, 0, 0)) (\<lambda>(_, _, res).
     Inr (res, relR', relS'))))))))"

section \<open>The next power of two\<close>

definition smear :: "32 word \<Rightarrow> 32 word" where
  "smear w = (let V = w; V = V OR drop_bit 1 V; V = V OR drop_bit 2 V; V = V OR drop_bit 4 V;
          V = V OR drop_bit 8 V; V = V OR drop_bit 16 V in V)"

lemma ex_less_double: "(\<exists>j < 2 * m. P j) \<longleftrightarrow> (\<exists>j < m. P j) \<or> (\<exists>j < m. P (m + j))" for m :: nat
proof
  assume "\<exists>j < 2 * m. P j"
  then obtain j where j: "j < 2 * m" "P j" by blast
  show "(\<exists>j < m. P j) \<or> (\<exists>j < m. P (m + j))"
  proof (cases "j < m")
    case True
    then show ?thesis using j by blast
  next
    case False
    then have "j - m < m" "P (m + (j - m))" using j by simp_all
    then show ?thesis by blast
  qed
next
  assume "(\<exists>j < m. P j) \<or> (\<exists>j < m. P (m + j))"
  then obtain j where "j < m" "P j \<or> P (m + j)" by blast
  then have "j < 2 * m" "m + j < 2 * m" "P j \<or> P (m + j)" by simp_all
  then show "\<exists>j < 2 * m. P j" by blast
qed

lemma or_shift_bits:
  assumes "\<And>n. bit V n \<longleftrightarrow> (\<exists>j < m. bit w (n + j))"
  shows "bit (V OR drop_bit m V) n \<longleftrightarrow> (\<exists>j < 2 * m. bit (w :: 32 word) (n + j))"
  unfolding ex_less_double [of m "\<lambda>j. bit w (n + j)"] by (simp add: bit_or_iff bit_drop_bit_eq assms add.assoc add.left_commute)

lemma bit_smear: "bit (smear w) n \<longleftrightarrow> (\<exists>j < 32. bit w (n + j))"
proof -
  have 1: "bit w n \<longleftrightarrow> (\<exists>j < 1. bit w (n + j))" for n by simp
  note 2 = or_shift_bits [OF 1] note 4 = or_shift_bits [OF 2] note 8 = or_shift_bits [OF 4] note 16 = or_shift_bits [OF 8]
  note 32 = or_shift_bits [OF 16]
  show ?thesis unfolding smear_def Let_def using 32 [of n] by simp
qed

lemma smear_mask:
  assumes "2 ^ k \<le> unat w" "unat w < 2 ^ Suc k"
  shows "smear w = mask (Suc k)"
proof (rule bit_word_eqI)
  fix n assume n: "n < LENGTH(32)"
  have bits: "bit w m \<longleftrightarrow> odd (unat w div 2 ^ m)" for m by (simp add: bit_unsigned_iff flip: bit_iff_odd)
  have "unat w div 2 ^ k = 1" using assms by (intro div_nat_eqI) simp_all
  then have top: "bit w k" using bits by simp
  have above: "\<not> bit w m" if "k < m" for m
  proof -
    have "unat w < 2 ^ m" using assms(2) that power_increasing [of "Suc k" m "2 :: nat"] by (metis Suc_leI less_le_trans one_le_numeral)
    then show ?thesis using bits by simp
  qed
  have "k < 32" using top bit_imp_le_length [of w k] by simp
  have "(\<exists>j < 32. bit w (n + j)) \<longleftrightarrow> n \<le> k"
  proof
    show "\<exists>j < 32. bit w (n + j)" if "n \<le> k" using that top \<open>k < 32\<close> by (intro exI [of _ "k - n"]) simp
    show "n \<le> k" if "\<exists>j < 32. bit w (n + j)" using that above trans_less_add1 not_le by blast
  qed
  then show "bit (smear w) n = bit (mask (Suc k) :: 32 word) n" using n unfolding bit_smear by (simp add: bit_simps less_Suc_eq_le)
qed

lemma smear_0: "smear 0 = 0"
  by (simp add: smear_def)

lemma mask_add_1: "mask n + 1 = (2 ^ n :: 32 word)"
  by (simp add: mask_eq_exp_minus_1)

lemma next_pow_2_smear: "NEXT_POW_2 V = smear (V - 1) + 1"
  by (simp add: NEXT_POW_2_def smear_def Let_def)

lemma next_pow_2_wraps:
  assumes "unat V = 0 \<or> 2 ^ 31 < unat V"
  shows "NEXT_POW_2 V = 0"
proof -
  have "2 ^ 31 \<le> unat (V - 1)"
  proof (cases "V = 0")
    case False
    then have "unat (V - 1) = unat V - 1" by (simp add: unat_minus_one)
    then show ?thesis using assms False by (simp add: unat_eq_zero)
  qed (simp add: unsigned_minus_1_eq_mask mask_eq_exp_minus_1)
  moreover have "unat (V - 1) < 2 ^ Suc 31" using unsigned_less [of "V - 1", where 'a = nat] by simp
  ultimately have "smear (V - 1) = mask 32" using smear_mask [of 31 "V - 1"] by simp
  then show ?thesis using mask_add_1 [of 32] by (simp add: next_pow_2_smear)
qed

text \<open>The exponent \<open>k\<close> is the least with \<open>V \<le> 2 ^ k\<close>.\<close>

lemma next_pow_2_value:
  assumes "0 < unat V" "unat V \<le> 2 ^ 31"
  obtains k where "NEXT_POW_2 V = 2 ^ k" "k \<le> 31" "unat V \<le> 2 ^ k" "\<And>j. unat V \<le> 2 ^ j \<Longrightarrow> k \<le> j"
proof -
  note next_eq = next_pow_2_smear [of V]
  have minus: "unat (V - 1) = unat V - 1" using assms(1) by (simp add: unat_minus_one unat_gt_0)
  show thesis
  proof (cases "unat V = 1")
    case True
    then have "V = 1" by (simp add: word_unat_eq_iff)
    then show thesis using next_eq by (intro that [of 0]) (simp_all add: smear_0)
  next
    case False
    then have "1 \<le> unat V - 1" using assms(1) by simp
    then obtain k where k: "2 ^ k \<le> unat V - 1" "unat V - 1 < 2 ^ Suc k" using ex_power_ivl1 [of 2 "unat V - 1"] by auto
    have "NEXT_POW_2 V = 2 ^ Suc k" using smear_mask [of k "V - 1"] k mask_add_1 [of "Suc k"] by (simp add: next_eq minus)
    moreover have "(2 :: nat) ^ k < 2 ^ 31" using k(1) assms by linarith
    then have "Suc k \<le> 31" using power_less_imp_less_exp [of "2 :: nat" k 31] by (simp add: Suc_le_eq)
    moreover have "Suc k \<le> j" if "unat V \<le> 2 ^ j" for j
    proof -
      have "(2 :: nat) ^ k < 2 ^ j" using k(1) assms(1) that by linarith
      then show ?thesis by (simp add: Suc_le_eq)
    qed
    ultimately show thesis using k(2) by (intro that [of "Suc k"]) auto
  qed
qed

section \<open>Chains\<close>

lemma hash_le: "unat (HASH_BIT_MODULO k (push_bit n w) n) \<le> unat w"
proof -
  have "HASH_BIT_MODULO k (push_bit n w) n = (ucast (drop_bit n k) AND take_bit (32 - n) w) AND w"
    unfolding HASH_BIT_MODULO_def by (rule bit_word_eqI) (auto simp: bit_simps dest: bit_imp_le_length)
  then show ?thesis unfolding word_le_nat_alt [symmetric] by (simp only: word_and_le1)
qed

text \<open>The links from \<open>hit\<close> on go through the positions \<open>ps\<close> and end.\<close>

primrec chain :: "32 word mem \<Rightarrow> 32 word \<Rightarrow> nat list \<Rightarrow> bool" where
  "chain nxt hit [] \<longleftrightarrow> hit = 0"
| "chain nxt hit (p # ps) \<longleftrightarrow> hit = of_nat (Suc p) \<and> p < length nxt \<and> (\<exists>hit'. nxt ! p = Some hit' \<and> chain nxt hit' ps)"

lemma chain_update: "chain nxt hit ps \<Longrightarrow> i \<notin> set ps \<Longrightarrow> chain (nxt[i := v]) hit ps"
  by (induction ps arbitrary: hit) auto

text \<open>The positions below \<open>i\<close> of the tuples of a bucket, the last one first.\<close>

definition members :: "(nat \<Rightarrow> nat) \<Rightarrow> nat \<Rightarrow> nat \<Rightarrow> nat list" where
  "members h i b = rev (filter (\<lambda>p. h p = b) [0..<i])"

lemma members_Suc: "members h (Suc i) b = (if h i = b then [i] else []) @ members h i b"
  by (simp add: members_def)

lemma members_less: "p \<in> set (members h i b) \<Longrightarrow> p < i"
  by (simp add: members_def)

definition linked :: "(nat \<Rightarrow> nat) \<Rightarrow> nat \<Rightarrow> nat \<Rightarrow> 32 word mem \<Rightarrow> 32 word mem \<Rightarrow> bool" where
  "linked h N i nxt bucket \<longleftrightarrow> length bucket = N \<and>
     (\<forall>b < N. \<exists>hit. bucket ! b = Some hit \<and> chain nxt hit (members h i b))"

lemma linked_step:
  assumes "linked h N i nxt bucket" "h i < N" "i < length nxt"
  obtains hit where "mem_read bucket (h i) = Inr hit" "linked h N (Suc i) (nxt[i := Some hit]) (bucket[h i := Some (of_nat (Suc i))])"
proof -
  obtain hit where hit: "bucket ! h i = Some hit" "chain nxt hit (members h i (h i))" using assms(1,2) by (auto simp: linked_def)
  have new: "chain (nxt[i := Some hit]) x (members h i b)" if "chain nxt x (members h i b)" for x b
    using that chain_update members_less by blast
  have "\<exists>hit'. bucket[h i := Some (of_nat (Suc i))] ! b = Some hit' \<and> chain (nxt[i := Some hit]) hit' (members h (Suc i) b)" if b: "b < N" for b
  proof (cases "b = h i")
    case True
    then show ?thesis using assms b hit new by (simp add: members_Suc linked_def)
  next
    case False
    then show ?thesis using assms(1) b new by (auto simp: members_Suc linked_def)
  qed
  then show thesis using assms(1,2) hit(1) by (intro that [of hit]) (simp_all add: linked_def)
qed

lemma link_all:
  fixes xs :: "'k :: len word tuple_t list"
  assumes "\<And>t :: 'k word tuple_t. unat (HASH_BIT_MODULO (key t) MASK NUM_RADIX_BITS) < N" "i \<le> length xs"
  defines "h \<equiv> \<lambda>p. unat (HASH_BIT_MODULO (key (xs ! p)) MASK NUM_RADIX_BITS)"
  shows "\<exists>nxt bucket. rfold (link_tuple MASK (map Some xs @ rest)) [0..<i] (malloc_n (length xs), calloc_n N 0) = Inr (nxt, bucket) \<and>
    length nxt = length xs \<and> linked h N i nxt bucket"
  using assms(2)
proof (induction i)
  case 0
  then show ?case by (simp add: linked_def members_def malloc_n_def calloc_n_def)
next
  case (Suc i)
  then obtain nxt bucket where run: "rfold (link_tuple MASK (map Some xs @ rest)) [0..<i] (malloc_n (length xs), calloc_n N 0) = Inr (nxt, bucket)"
    and inv: "length nxt = length xs" "linked h N i nxt bucket" by auto
  have i: "h i < N" "i < length nxt" using assms(1) Suc.prems inv(1) by (simp_all add: h_def)
  obtain hit where hit: "mem_read bucket (h i) = Inr hit" "linked h N (Suc i) (nxt[i := Some hit]) (bucket[h i := Some (of_nat (Suc i))])"
    by (rule linked_step [OF inv(2) i])
  have "length bucket = N" using inv(2) by (simp add: linked_def)
  then have "link_tuple MASK (map Some xs @ rest) i (nxt, bucket) = Inr (nxt[i := Some hit], bucket[h i := Some (of_nat (Suc i))])"
    using hit(1) i Suc.prems by (simp add: link_tuple_def h_def Let_def)
  then show ?case using run inv(1) hit(2) by (simp add: rfold_snoc)
qed

text \<open>The table that \<^verbatim>\<open>bucket_chaining_join_prepare\<close> builds has the chain of every bucket.\<close>

lemma prepare_ok:
  fixes xs :: "'k :: len word tuple_t list"
  assumes "unat n = length xs" "0 < length xs" "length xs \<le> 2 ^ 31"
  obtains ht where "bucket_chaining_join_prepare (map Some xs @ rest) n = Inr ht" "length (ht_next ht) = length xs"
    "linked (\<lambda>p. unat (HASH_BIT_MODULO (key (xs ! p)) (ht_mask ht) NUM_RADIX_BITS)) (length (ht_bucket ht)) (length xs) (ht_next ht) (ht_bucket ht)"
    "\<And>t :: 'k word tuple_t. unat (HASH_BIT_MODULO (key t) (ht_mask ht) NUM_RADIX_BITS) < length (ht_bucket ht)"
proof -
  define N MASK where "N = NEXT_POW_2 n" and "MASK = push_bit NUM_RADIX_BITS (N - 1)"
  have "N \<noteq> 0"
  proof (rule next_pow_2_value [of n])
    fix k assume "NEXT_POW_2 n = 2 ^ k" "k \<le> 31"
    then show "N \<noteq> 0" by (simp add: N_def)
  qed (use assms in simp_all)
  then have range: "unat (HASH_BIT_MODULO (key t) MASK NUM_RADIX_BITS) < unat N" for t :: "'k word tuple_t"
  proof -
    have "unat (N - 1) < unat N" using \<open>N \<noteq> 0\<close> by (simp add: unat_minus_one unat_gt_0)
    then show ?thesis using hash_le [of "key t" NUM_RADIX_BITS "N - 1"] unfolding MASK_def by linarith
  qed
  from link_all [OF this order_refl, of xs rest] obtain nxt bucket where
    "rfold (link_tuple MASK (map Some xs @ rest)) [0..<length xs] (malloc_n (length xs), calloc_n (unat N) 0) = Inr (nxt, bucket)"
    "length nxt = length xs" "linked (\<lambda>p. unat (HASH_BIT_MODULO (key (xs ! p)) MASK NUM_RADIX_BITS)) (unat N) (length xs) nxt bucket"
    by auto
  then show thesis
    using range assms(1) by (intro that [of "\<lparr>ht_bucket = bucket, ht_next = nxt, ht_mask = MASK\<rparr>"])
      (simp_all add: bucket_chaining_join_prepare_def Let_def linked_def flip: N_def MASK_def)
qed

lemma hit_of_position:
  assumes "p < 2 ^ 31 - 1"
  shows "0 <s (of_nat (Suc p) :: 32 word)" "unat (of_nat (Suc p) - 1 :: 32 word) = p"
proof -
  show "unat (of_nat (Suc p) - 1 :: 32 word) = p" using assms by (simp add: unat_of_nat)
  have "signed_take_bit 31 (int (Suc p)) = int (Suc p)" using assms by (simp add: signed_take_bit_int_eq_self_iff)
  then have "sint (of_nat (Suc p) :: 32 word) = int (Suc p)" by (simp add: signed_of_nat del: of_nat_Suc)
  then show "0 <s (of_nat (Suc p) :: 32 word)" by (simp add: word_sless_alt)
qed

text \<open>Following a chain of \<open>m\<close> links takes \<open>m + 1\<close> turns and counts the positions with the key.\<close>

lemma probe_chain:
  assumes "chain nxt hit ps" "\<forall>p \<in> set ps. p < length xs" "length xs < 2 ^ 31" "length ps < fuel"
  shows "probe_loop fuel k (map Some xs @ rest) nxt hit matches = Inr (matches + of_nat (length (filter (\<lambda>p. key (xs ! p) = k) ps)))"
  using assms(1,2,4)
proof (induction ps arbitrary: hit matches fuel)
  case Nil
  then obtain m where "fuel = Suc m" "hit = 0" by (cases fuel) simp_all
  then show ?case by (simp add: probe_loop.simps)
next
  case (Cons p ps)
  then obtain m where m: "fuel = Suc m" "length ps < m" by (cases fuel) simp_all
  from Cons.prems(1) obtain hit' where hit: "hit = of_nat (Suc p)" "p < length nxt" "nxt ! p = Some hit'" "chain nxt hit' ps" by auto
  have p: "p < 2 ^ 31 - 1" "p < length xs" using Cons.prems(2) assms(3) by auto
  have at: "0 <s hit" "unat (hit - 1) = p" unfolding hit(1) by (rule hit_of_position [OF p(1)])+
  have "probe_loop m k (map Some xs @ rest) nxt hit' (if k = key (xs ! p) then matches + 1 else matches) =
      Inr ((if k = key (xs ! p) then matches + 1 else matches) + of_nat (length (filter (\<lambda>p. key (xs ! p) = k) ps)))"
    using Cons.IH [OF hit(4) _ m(2)] Cons.prems(2) by simp
  then show ?case
    unfolding m(1) probe_loop.simps at(2) using at(1) hit(2,3) p(2) by (auto simp: add.assoc add.left_commute)
qed

lemma length_filter_nth: "length (filter (\<lambda>p. P (xs ! p)) [0..<length xs]) = length (filter P xs)"
proof -
  have "filter P xs = filter P (map (nth xs) [0..<length xs])" by (simp add: map_nth)
  also have "\<dots> = map (nth xs) (filter (\<lambda>p. P (xs ! p)) [0..<length xs])" by (simp add: filter_map comp_def)
  finally show ?thesis by simp
qed

abbreviation matches_in :: "'k tuple_t list \<Rightarrow> 'k tuple_t \<Rightarrow> nat" where
  "matches_in R s \<equiv> length (filter (\<lambda>t. key t = key s) R)"

text \<open>A probe of a prepared table counts the tuples with the key, with any fuel above the number of tuples.\<close>

lemma probe_any_fuel:
  fixes xs :: "'k :: len word tuple_t list"
  assumes "linked (\<lambda>p. unat (HASH_BIT_MODULO (key (xs ! p)) (ht_mask ht) NUM_RADIX_BITS)) (length (ht_bucket ht)) (length xs) (ht_next ht) (ht_bucket ht)"
    "unat (HASH_BIT_MODULO (key s) (ht_mask ht) NUM_RADIX_BITS) < length (ht_bucket ht)"
    "length xs < 2 ^ 31" "length xs < fuel"
  shows "rbind (mem_read (ht_bucket ht) (unat (HASH_BIT_MODULO (key s) (ht_mask ht) NUM_RADIX_BITS))) (\<lambda>hit.
      probe_loop fuel (key s) (map Some xs @ rest) (ht_next ht) hit 0) = Inr (of_nat (matches_in xs s))"
proof -
  let ?h = "\<lambda>p. unat (HASH_BIT_MODULO (key (xs ! p)) (ht_mask ht) NUM_RADIX_BITS)"
  let ?b = "unat (HASH_BIT_MODULO (key s) (ht_mask ht) NUM_RADIX_BITS)"
  let ?ps = "members ?h (length xs) ?b"
  obtain hit where hit: "ht_bucket ht ! ?b = Some hit" "chain (ht_next ht) hit ?ps" using assms(1,2) by (auto simp: linked_def)
  have "length ?ps \<le> length xs" unfolding members_def using length_filter_le [of "\<lambda>p. ?h p = ?b" "[0..<length xs]"] by simp
  then have run: "probe_loop fuel (key s) (map Some xs @ rest) (ht_next ht) hit 0 =
      Inr (of_nat (length (filter (\<lambda>p. key (xs ! p) = key s) ?ps)))"
    using probe_chain [OF hit(2) _ assms(3)] members_less assms(4) by simp
  have "length (filter (\<lambda>p. key (xs ! p) = key s) ?ps) = length (filter (\<lambda>p. key (xs ! p) = key s \<and> ?h p = ?b) [0..<length xs])"
    by (simp add: members_def conj_commute flip: rev_filter)
  also have "\<dots> = length (filter (\<lambda>p. key (xs ! p) = key s) [0..<length xs])" by (intro arg_cong [of _ _ length] filter_cong) auto
  also have "\<dots> = matches_in xs s" by (rule length_filter_nth)
  finally show ?thesis using run hit(1) assms(2) by simp
qed

lemma probe_ok:
  fixes xs :: "'k :: len word tuple_t list"
  assumes "linked (\<lambda>p. unat (HASH_BIT_MODULO (key (xs ! p)) (ht_mask ht) NUM_RADIX_BITS)) (length (ht_bucket ht)) (length xs) (ht_next ht) (ht_bucket ht)"
    "unat (HASH_BIT_MODULO (key s) (ht_mask ht) NUM_RADIX_BITS) < length (ht_bucket ht)"
    "length xs < 2 ^ 31" "length (ht_next ht) = length xs"
  shows "bucket_chaining_join_probe (map Some xs @ rest) ht s = Inr (of_nat (matches_in xs s))"
  using probe_any_fuel [OF assms(1-3), of "Suc (length (ht_next ht))"] assms(4) by (simp add: bucket_chaining_join_probe_def)

section \<open>Clusters of two relations\<close>

lemma clusters_split: "c < F \<Longrightarrow> \<exists>rest. clusters f F xs = clusters f c xs @ filter (\<lambda>t. f t = c) xs @ rest"
proof (induction F)
  case (Suc F)
  then show ?case by (cases "c = F") (auto simp: clusters_Suc)
qed simp

lemma drop_to_cluster:
  assumes "c < F" "length xs < 2 ^ 32"
  obtains rest where "drop (unat (of_nat (start_of f xs c) :: 32 word)) (map Some (clusters f F xs)) = map Some (filter (\<lambda>t. f t = c) xs) @ rest"
proof -
  obtain rest where "clusters f F xs = clusters f c xs @ filter (\<lambda>t. f t = c) xs @ rest" using clusters_split assms(1) by blast
  moreover have "unat (of_nat (start_of f xs c) :: 32 word) = start_of f xs c"
    using start_of_le [of f xs c] assms(2) by (simp add: unat_of_nat)
  ultimately show thesis using that [of "map Some rest"] by (simp add: start_of_def)
qed

lemma sless_of_nat: "n < 2 ^ 31 \<Longrightarrow> 0 <s (of_nat n :: 32 word) \<longleftrightarrow> 0 < n"
proof (cases n)
  case (Suc p)
  assume "n < 2 ^ 31"
  then have "p < 2 ^ 31 - 1" using Suc by simp
  from hit_of_position(1) [OF this] Suc show ?thesis by simp
qed simp

lemma rfold_sum: "\<forall>t \<in> set ys. f t = Inr (of_nat (m t)) \<Longrightarrow>
    rfold (\<lambda>t res. rbind (f t) (\<lambda>x. Inr (res + x))) ys (of_nat res) = Inr (of_nat (res + sum_list (map m ys)) :: 64 word)"
proof (induction ys arbitrary: res)
  case (Cons t ys)
  then show ?case using Cons.IH [of "res + m t"] by (simp add: add.assoc)
qed simp

lemma low_bits_key: "key t = key s \<Longrightarrow> low_bits t = low_bits s"
  by (simp add: low_bits_value)

lemma matches_in_cluster: "low_bits s = c \<Longrightarrow> matches_in (filter (\<lambda>t. low_bits t = c) R) s = matches_in R s"
proof -
  assume c: "low_bits s = c"
  have "low_bits t = c \<and> key t = key s \<longleftrightarrow> key t = key s" for t using low_bits_key [of t s] c by blast
  then show ?thesis by simp
qed

text \<open>The pairs of one cluster.\<close>

lemma join_pairs:
  fixes R S :: "'k :: len word tuple_t list" and c :: nat
  defines "Rc \<equiv> filter (\<lambda>t. low_bits t = c) R" and "Sc \<equiv> filter (\<lambda>t. low_bits t = c) S"
  assumes "length R < 2 ^ 31" "length S < 2 ^ 31" "Rc \<noteq> []"
  shows "rbind (bucket_chaining_join_prepare (map Some Rc @ restR) (of_nat (length Rc))) (\<lambda>ht.
      rfold (\<lambda>j res. rbind (mem_read (map Some Sc @ restS) j) (\<lambda>t. rbind (bucket_chaining_join_probe (map Some Rc @ restR) ht t) (\<lambda>m. Inr (res + m))))
        [0..<length Sc] (of_nat res)) = Inr (of_nat (res + sum_list (map (matches_in R) Sc)))"
proof -
  have len: "length Rc < 2 ^ 31" using assms(3) length_filter_le [of "\<lambda>t. low_bits t = c" R] unfolding Rc_def by (rule le_less_trans [rotated])
  then have n: "unat (of_nat (length Rc) :: 32 word) = length Rc" by (simp add: unat_of_nat)
  have some: "0 < length Rc" "length Rc \<le> 2 ^ 31" using assms(5) len by simp_all
  obtain ht where ht: "bucket_chaining_join_prepare (map Some Rc @ restR) (of_nat (length Rc)) = Inr ht" "length (ht_next ht) = length Rc"
    "linked (\<lambda>p. unat (HASH_BIT_MODULO (key (Rc ! p)) (ht_mask ht) NUM_RADIX_BITS)) (length (ht_bucket ht)) (length Rc) (ht_next ht) (ht_bucket ht)"
    "\<And>t :: 'k word tuple_t. unat (HASH_BIT_MODULO (key t) (ht_mask ht) NUM_RADIX_BITS) < length (ht_bucket ht)"
    by (rule prepare_ok [OF n some, of restR]) (rule that)
  have "bucket_chaining_join_probe (map Some Rc @ restR) ht t = Inr (of_nat (matches_in R t))" if "t \<in> set Sc" for t
    using probe_ok [OF ht(3) ht(4) [of t] len ht(2), of restR] that matches_in_cluster [of t c R] by (simp add: Rc_def Sc_def)
  then show ?thesis unfolding ht(1) rbind_Inr rfold_read by (intro rfold_sum) blast
qed

text \<open>The state of the loop over the clusters before cluster \<open>i\<close>.\<close>

definition before_cluster :: "'k :: len word tuple_t list \<Rightarrow> 'k word tuple_t list \<Rightarrow> nat \<Rightarrow> 32 word \<times> 32 word \<times> 64 word" where
  "before_cluster R S i = (of_nat (start_of low_bits R i), of_nat (start_of low_bits S i),
     of_nat (sum_list (map (matches_in R) (clusters low_bits i S))))"

lemma join_cluster_ok:
  fixes R S :: "'k :: len word tuple_t list"
  assumes len: "length R < 2 ^ 31" "length S < 2 ^ 31" and i: "i < F"
  defines "sizes \<equiv> \<lambda>xs :: 'k word tuple_t list. map (\<lambda>c. Some (of_nat (size_of low_bits xs c) :: 32 word)) [0..<F]"
  shows "join_cluster (map Some (clusters low_bits F R)) (map Some (clusters low_bits F S)) (sizes R) (sizes S) i (before_cluster R S i) =
    Inr (before_cluster R S (Suc i))"
proof -
  let ?Rc = "filter (\<lambda>t. low_bits t = i) R" and ?Sc = "filter (\<lambda>t. low_bits t = i) S"
  have small: "length ?Rc < 2 ^ 31" "length ?Sc < 2 ^ 31"
    by (rule le_less_trans [OF length_filter_le len(1)], rule le_less_trans [OF length_filter_le len(2)])
  have read: "mem_read (sizes xs) i = Inr (of_nat (size_of low_bits xs i))" for xs using i by (simp add: sizes_def)
  have next_state: "before_cluster R S (Suc i) = (of_nat (start_of low_bits R i) + of_nat (length ?Rc), of_nat (start_of low_bits S i) + of_nat (length ?Sc),
      of_nat (sum_list (map (matches_in R) (clusters low_bits i S)) + sum_list (map (matches_in R) ?Sc)))"
    by (simp add: before_cluster_def clusters_Suc)
  show ?thesis
  proof (cases "?Rc = [] \<or> ?Sc = []")
    case True
    have "matches_in R s = 0" if "s \<in> set ?Sc" for s
    proof -
      have "low_bits s = i" using that by simp
      moreover have "?Sc \<noteq> []" using that by fastforce
      then have "?Rc = []" using True by blast
      ultimately show ?thesis using matches_in_cluster [of s i R] by (metis filter.simps(1) list.size(3))
    qed
    then have zero: "sum_list (map (matches_in R) ?Sc) = 0" by (simp add: sum_list_eq_0_iff)
    show ?thesis using True sless_of_nat [OF small(1)] sless_of_nat [OF small(2)] read
      unfolding next_state zero by (auto simp: join_cluster_def before_cluster_def)
  next
    case False
    obtain restR where R: "drop (unat (of_nat (start_of low_bits R i) :: 32 word)) (map Some (clusters low_bits F R)) = map Some ?Rc @ restR"
      by (rule drop_to_cluster [OF i, of R low_bits]) (use len in simp)
    obtain restS where S: "drop (unat (of_nat (start_of low_bits S i) :: 32 word)) (map Some (clusters low_bits F S)) = map Some ?Sc @ restS"
      by (rule drop_to_cluster [OF i, of S low_bits]) (use len in simp)
    have n: "unat (of_nat (length ?Sc) :: 32 word) = length ?Sc" using small(2) by (simp add: unat_of_nat)
    have ne: "?Rc \<noteq> []" using False by simp
    note pairs = join_pairs [OF len ne, of restR restS "sum_list (map (matches_in R) (clusters low_bits i S))"]
    show ?thesis
      using False sless_of_nat [OF small(1)] sless_of_nat [OF small(2)] pairs
      unfolding join_cluster_def before_cluster_def prod.case read rbind_Inr R S Let_def n
      by (auto simp: rbind_def clusters_Suc split: sum.splits)
  qed
qed

lemma mset_clusters: "\<forall>t \<in> set xs. f t < F \<Longrightarrow> mset (clusters f F xs) = mset xs"
proof -
  have "mset (clusters f F xs) = mset (filter (\<lambda>t. f t < F) xs)"
  proof (induction F)
    case (Suc F)
    have "mset (filter (\<lambda>t. f t < Suc F) xs) = mset (filter (\<lambda>t. f t < F) xs) + mset (filter (\<lambda>t. f t = F) xs)"
      by (induction xs) auto
    then show ?case using Suc by (simp add: clusters_Suc)
  qed (simp add: clusters_def)
  then show "\<forall>t \<in> set xs. f t < F \<Longrightarrow> ?thesis" by (simp cong: filter_cong)
qed

lemma RJStepwise_run:
  fixes R S :: "'k :: len word tuple_t list"
  assumes n: "unat nR = length R" "unat nS = length S" and len: "length R < 2 ^ 31" "length S < 2 ^ 31"
  shows "RJStepwise (map Some R) nR (map Some S) nS =
    Inr (of_nat (sum_list (map (matches_in R) S)), map Some (clusters low_bits (2 ^ NUM_RADIX_BITS) R), map Some (clusters low_bits (2 ^ NUM_RADIX_BITS) S))"
proof -
  define F :: nat where "F = 2 ^ NUM_RADIX_BITS"
  define sizes where "sizes = (\<lambda>xs :: 'k word tuple_t list. map (\<lambda>c. Some (of_nat (size_of low_bits xs c) :: 32 word)) [0..<F])"
  have below: "\<forall>t \<in> set xs. low_bits t < F" for xs :: "'k word tuple_t list" by (simp add: F_def low_bits_less)
  have count: "count_per_cluster (map Some (clusters low_bits F xs)) (length xs) = Inr (sizes xs)"
    if "length xs < 2 ^ 31" for xs :: "'k word tuple_t list"
    using count_per_cluster_ok [of "clusters low_bits F xs"] length_clusters [OF below [of xs]] that
    by (simp add: sizes_def filter_own_cluster F_def cong: map_cong)
  have loop: "rfold (join_cluster (map Some (clusters low_bits F R)) (map Some (clusters low_bits F S)) (sizes R) (sizes S)) [0..<i] (0, 0, 0) =
      Inr (before_cluster R S i)" if "i \<le> F" for i
    using that
  proof (induction i)
    case 0
    then show ?case by (simp add: before_cluster_def clusters_def)
  next
    case (Suc i)
    then show ?case using join_cluster_ok [OF len, of i F] by (simp add: rfold_snoc sizes_def)
  qed
  obtain outR where R: "pass1 (map Some R) nR = Inr outR" "pass2 (map Some R) outR nR = Inr (map Some (clusters low_bits F R))"
    unfolding F_def by (rule two_passes_ok [OF n(1)])
  obtain outS where S: "pass1 (map Some S) nS = Inr outS" "pass2 (map Some S) outS nS = Inr (map Some (clusters low_bits F S))"
    unfolding F_def by (rule two_passes_ok [OF n(2)])
  have "sum_list (map (matches_in R) (clusters low_bits F S)) = sum_list (map (matches_in R) S)"
    unfolding sum_mset_sum_list [symmetric] mset_map mset_clusters [OF below] ..
  then show ?thesis
    using R S count [OF len(1)] count [OF len(2)] loop [of F] n by (simp add: RJStepwise_def before_cluster_def flip: F_def)
qed

lemma length_filter_product:
  "length (filter (\<lambda>(r, s). key r = key s) (List.product R S)) = sum_list (map (matches_in R) S)"
proof -
  have "length (filter (\<lambda>(r, s). key r = key s) (List.product R S)) = sum_list (map (\<lambda>r. length (filter (\<lambda>s. key r = key s) S)) R)"
    by (induction R) (simp_all add: filter_map comp_def)
  also have "\<dots> = sum_list (map (matches_in R) S)"
  proof (induction R)
    case (Cons r R)
    have "sum_list (map (matches_in (r # R)) S) = length (filter (\<lambda>s. key r = key s) S) + sum_list (map (matches_in R) S)"
      by (induction S) auto
    then show ?case using Cons by simp
  qed simp
  finally show ?thesis .
qed

lemma sorted_clusters: "sorted (map f (clusters f F xs))"
proof (induction F)
  case (Suc F)
  have "\<forall>t \<in> set (clusters f F xs). f t < F" by (auto simp: clusters_def)
  moreover have "sorted (map f (filter (\<lambda>t. f t = F) xs))" by (induction xs) auto
  ultimately show ?case using Suc by (auto simp: clusters_Suc sorted_append)
qed (simp add: clusters_def)

section \<open>Properties\<close>

lemma sum_matches_bound: "sum_list (map (matches_in R) S) \<le> length S * length R"
proof -
  have "sum_list (map (matches_in R) S) \<le> sum_list (map (\<lambda>_. length R) S)" by (intro sum_list_mono) simp
  then show ?thesis by (simp add: sum_list_triv)
qed

text \<open>
  C5. The radix join of two relations of fewer than 2^31 tuples returns the number of pairs with equal
  keys, as the nested-loop join counts them. It reads no uninitialised element and no element outside
  of its arrays, every chain that it follows ends, the result does not overflow, and the two relations
  have the same tuples afterwards, in the order of the lowest 14 bits of their keys.\<close>

theorem radix_join_counts_pairs:
  fixes R S :: "'k :: len word tuple_t list"
  assumes "unat nR = length R" "unat nS = length S" "length R < 2 ^ 31" "length S < 2 ^ 31"
  shows "\<exists>res R' S'. RJStepwise (map Some R) nR (map Some S) nS = Inr (res, map Some R', map Some S') \<and>
    unat res = length (filter (\<lambda>(r, s). key r = key s) (List.product R S)) \<and>
    mset R' = mset R \<and> mset S' = mset S \<and> sorted (map low_bits R') \<and> sorted (map low_bits S')"
proof -
  let ?R = "clusters low_bits (2 ^ NUM_RADIX_BITS) R" and ?S = "clusters low_bits (2 ^ NUM_RADIX_BITS) S"
  have small: "sum_list (map (matches_in R) S) < 2 ^ 64"
  proof -
    have "sum_list (map (matches_in R) S) \<le> length S * length R" by (rule sum_matches_bound)
    also have "\<dots> \<le> 2 ^ 31 * 2 ^ 31" using assms(3,4) by (intro mult_le_mono) simp_all
    finally show ?thesis by simp
  qed
  have "unat (of_nat (sum_list (map (matches_in R) S)) :: 64 word) = length (filter (\<lambda>(r, s). key r = key s) (List.product R S))"
    using small by (simp add: unat_of_nat length_filter_product)
  moreover have "mset ?R = mset R" "mset ?S = mset S" by (auto intro!: mset_clusters simp: low_bits_less)
  ultimately show ?thesis using RJStepwise_run [OF assms] sorted_clusters by blast
qed

theorem radix_join_counts_pairs_witness:
  "\<exists>R' S'. RJStepwise (map (\<lambda>k. Some \<lparr>key = k, payload = 0\<rparr>) [1, 16385, 1, 7 :: 32 word]) 4
     (map (\<lambda>k. Some \<lparr>key = k, payload = 9\<rparr>) [1, 7, 1]) 3 = Inr (5, map Some R', map Some S')"
proof -
  let ?R = "map (\<lambda>k. \<lparr>key = k, payload = 0\<rparr>) [1, 16385, 1, 7 :: 32 word]" and ?S = "map (\<lambda>k. \<lparr>key = k, payload = 9\<rparr>) [1, 7, 1 :: 32 word]"
  have sizes: "unat (4 :: 32 word) = length ?R" "unat (3 :: 32 word) = length ?S" by simp_all
  have small: "length ?R < 2 ^ 31" "length ?S < 2 ^ 31" by simp_all
  obtain res R' S' where "RJStepwise (map Some ?R) 4 (map Some ?S) 3 = Inr (res, map Some R', map Some S')"
    "unat res = length (filter (\<lambda>(r, s). key r = key s) (List.product ?R ?S))"
    using radix_join_counts_pairs [OF sizes small] by blast
  moreover have "length (filter (\<lambda>(r, s). key r = key s) (List.product ?R ?S)) = 5" by simp
  moreover have "res = 5" if "unat res = 5" using that by (simp add: word_unat_eq_iff)
  ultimately show ?thesis by auto
qed

text \<open>
  C32. The loop of a probe ends: in the table built over fewer than 2^31 tuples, a probe for any key makes
  at most as many turns as there are tuples, and one more to see the end of the chain. With any fuel
  above the number of tuples it counts the tuples with the key.\<close>

theorem probe_loop_ends:
  fixes xs :: "'k :: len word tuple_t list"
  assumes "unat n = length xs" "0 < length xs" "length xs < 2 ^ 31"
  shows "\<exists>ht. bucket_chaining_join_prepare (map Some xs @ rest) n = Inr ht \<and>
    (\<forall>k fuel. length xs < fuel \<longrightarrow>
       rbind (mem_read (ht_bucket ht) (unat (HASH_BIT_MODULO k (ht_mask ht) NUM_RADIX_BITS))) (\<lambda>hit.
         probe_loop fuel k (map Some xs @ rest) (ht_next ht) hit 0) = Inr (of_nat (length (filter (\<lambda>t. key t = k) xs))))"
proof -
  have le: "length xs \<le> 2 ^ 31" using assms(3) by simp
  obtain ht where ht: "bucket_chaining_join_prepare (map Some xs @ rest) n = Inr ht" "length (ht_next ht) = length xs"
    "linked (\<lambda>p. unat (HASH_BIT_MODULO (key (xs ! p)) (ht_mask ht) NUM_RADIX_BITS)) (length (ht_bucket ht)) (length xs) (ht_next ht) (ht_bucket ht)"
    "\<And>t :: 'k word tuple_t. unat (HASH_BIT_MODULO (key t) (ht_mask ht) NUM_RADIX_BITS) < length (ht_bucket ht)"
    by (rule prepare_ok [OF assms(1,2) le, of rest]) (rule that)
  show ?thesis
  proof (intro exI [of _ ht] conjI allI impI ht(1))
    fix k fuel assume "length xs < fuel"
    from probe_any_fuel [OF ht(3) ht(4) [of "\<lparr>key = k, payload = 0\<rparr>"] assms(3) this, of rest]
    show "rbind (mem_read (ht_bucket ht) (unat (HASH_BIT_MODULO k (ht_mask ht) NUM_RADIX_BITS))) (\<lambda>hit.
         probe_loop fuel k (map Some xs @ rest) (ht_next ht) hit 0) = Inr (of_nat (length (filter (\<lambda>t. key t = k) xs)))" by simp
  qed
qed

theorem probe_loop_ends_witness:
  "\<exists>ht. bucket_chaining_join_prepare [Some \<lparr>key = 5 :: 32 word, payload = 0\<rparr>, Some \<lparr>key = 5, payload = 1\<rparr>] 2 = Inr ht \<and>
     rbind (mem_read (ht_bucket ht) (unat (HASH_BIT_MODULO (5 :: 32 word) (ht_mask ht) NUM_RADIX_BITS))) (\<lambda>hit.
       probe_loop 3 (5 :: 32 word) [Some \<lparr>key = 5, payload = 0\<rparr>, Some \<lparr>key = 5, payload = 1\<rparr>] (ht_next ht) hit 0) = Inr 2"
proof -
  let ?xs = "[\<lparr>key = 5 :: 32 word, payload = 0\<rparr>, \<lparr>key = 5, payload = 1\<rparr>]"
  have n: "unat (2 :: 32 word) = length ?xs" "0 < length ?xs" "length ?xs < 2 ^ 31" by simp_all
  obtain ht where ht: "bucket_chaining_join_prepare (map Some ?xs @ []) 2 = Inr ht"
    "\<And>k fuel. length ?xs < fuel \<Longrightarrow> rbind (mem_read (ht_bucket ht) (unat (HASH_BIT_MODULO k (ht_mask ht) NUM_RADIX_BITS))) (\<lambda>hit.
         probe_loop fuel k (map Some ?xs @ []) (ht_next ht) hit 0) = Inr (of_nat (length (filter (\<lambda>t. key t = k) ?xs)))"
    using probe_loop_ends [OF n, of "[]"] by blast
  show ?thesis using ht(1) ht(2) [of 3 5] by (intro exI [of _ ht]) simp
qed

text \<open>
  C33. \<^verbatim>\<open>NEXT_POW_2\<close> gives the least power of two that is not below its argument, for arguments from 1 to
  2^31. For 0 and for larger arguments it wraps to 0, and the bucket array would have no element.\<close>

theorem next_pow_2_least:
  "if unat V = 0 \<or> 2 ^ 31 < unat V then NEXT_POW_2 V = 0
   else \<exists>k. NEXT_POW_2 V = 2 ^ k \<and> k \<le> 31 \<and> unat V \<le> 2 ^ k \<and> 2 ^ k < 2 * unat V"
proof (cases "unat V = 0 \<or> 2 ^ 31 < unat V")
  case False
  then have range: "0 < unat V" "unat V \<le> 2 ^ 31" by auto
  obtain k where k: "NEXT_POW_2 V = 2 ^ k" "k \<le> 31" "unat V \<le> 2 ^ k" "\<And>j. unat V \<le> 2 ^ j \<Longrightarrow> k \<le> j"
    by (rule next_pow_2_value [OF range]) (rule that)
  have "2 ^ k < 2 * unat V"
  proof (cases k)
    case (Suc j)
    then have "2 ^ j < unat V" using k(4) [of j] by (metis Suc_n_not_le_n not_le)
    then show ?thesis using Suc by simp
  qed (use range in simp)
  then show ?thesis using False k(1-3) by auto
qed (use next_pow_2_wraps in simp)

lemma sint_of_small: "n < 2 ^ 31 \<Longrightarrow> sint (of_nat n :: 32 word) = int n"
  by (simp add: signed_of_nat signed_take_bit_int_eq_self)

text \<open>
  C34. Partitioning fewer than 2^31 tuples, as generated code calls it, rearranges the tuples so that those
  with the same lowest 14 key bits are next to each other, in the order of these bits and within a
  cluster in their old order, and reports the size of every cluster. The number of tuples is a
  64-bit argument that the clustering copies to 32 bits, and the sizes are numbers of type \<^verbatim>\<open>int\<close>, hence
  the bound.\<close>

theorem partition_is_stable:
  assumes "unat n = length xs" and "length xs < 2 ^ 31"
  shows "\<exists>ys counts. partitionHT (map Some xs) n = Inr (map Some ys, map Some counts) \<and> sorted (map low_bits ys) \<and>
    (\<forall>c < 2 ^ NUM_RADIX_BITS. filter (\<lambda>t. low_bits t = c) ys = filter (\<lambda>t. low_bits t = c) xs \<and>
       sint (counts ! c) = int (length (filter (\<lambda>t. low_bits t = c) xs))) \<and> length counts = 2 ^ NUM_RADIX_BITS"
proof -
  let ?ys = "clusters low_bits (2 ^ NUM_RADIX_BITS) xs" and ?counts = "map (\<lambda>c. of_nat (size_of low_bits xs c)) [0..<2 ^ NUM_RADIX_BITS]"
  have "partitionHT (map Some xs) n = Inr (map Some (clusters low_bits (2 ^ NUM_RADIX_BITS) xs), map Some ?counts)"
    using partitionHT_run [OF assms] by (simp add: comp_def)
  moreover have "length ?counts = 2 ^ NUM_RADIX_BITS" "\<forall>c < 2 ^ NUM_RADIX_BITS. ?counts ! c = of_nat (size_of low_bits xs c)" by simp_all
  moreover have "sint (of_nat (size_of low_bits xs c) :: 32 word) = int (size_of low_bits xs c)" for c
    by (rule sint_of_small) (rule le_less_trans [OF length_filter_le assms(2)])
  moreover have "sorted (map low_bits ?ys)" "\<forall>c < 2 ^ NUM_RADIX_BITS. filter (\<lambda>t. low_bits t = c) ?ys = filter (\<lambda>t. low_bits t = c) xs"
    by (simp_all add: sorted_clusters filter_own_cluster)
  ultimately show ?thesis by (intro exI [of _ ?ys] exI [of _ ?counts]) simp
qed

theorem partition_is_stable_witness:
  "\<exists>ys counts. partitionHT [Some \<lparr>key = 5, payload = 1\<rparr>, Some \<lparr>key = 3, payload = 2\<rparr>, Some \<lparr>key = 16389 :: 32 word, payload = 3\<rparr>] 3 =
      Inr (map Some ys, map Some counts) \<and> filter (\<lambda>t. low_bits t = 5) ys = [\<lparr>key = 5, payload = 1\<rparr>, \<lparr>key = 16389, payload = 3\<rparr>] \<and>
      sint (counts ! 5) = 2"
proof -
  let ?xs = "[\<lparr>key = 5, payload = 1\<rparr>, \<lparr>key = 3, payload = 2\<rparr>, \<lparr>key = 16389 :: 32 word, payload = 3\<rparr>]"
  have n: "unat (3 :: size_t) = length ?xs" "length ?xs < 2 ^ 31" by simp_all
  have five: "filter (\<lambda>t. low_bits t = 5) ?xs = [\<lparr>key = 5, payload = 1\<rparr>, \<lparr>key = 16389, payload = 3\<rparr>]" "5 < (2 :: nat) ^ NUM_RADIX_BITS"
    by (simp_all add: low_bits_value NUM_RADIX_BITS_def)
  obtain ys counts where "partitionHT (map Some ?xs) 3 = Inr (map Some ys, map Some counts)"
    "filter (\<lambda>t. low_bits t = 5) ys = filter (\<lambda>t. low_bits t = 5) ?xs" "sint (counts ! 5) = int (length (filter (\<lambda>t. low_bits t = 5) ?xs))"
    using partition_is_stable [OF n] five(2) by blast
  then show ?thesis unfolding five(1) by (intro exI [of _ ys] exI [of _ counts]) simp
qed

end
