(* ===== verification/Atois.thy ===== *)
theory Atois
  imports Prelude
begin

text \<open>
  Reading decimal integers from text: the code that the query engine generates
  (\<^verbatim>\<open>olap/lib/util/atois.cpp\<close>) and the library functions of the same names
  (\<^verbatim>\<open>olap/lib/util/functions.cpp\<close>). A definition of the first group is the function that the emitted
  instructions compute; 32-bit arithmetic wraps around. Only the functions for ten characters can leave
  the range of 32 bits. In the library function, in C++, that overflow is undefined; the model takes it to
  wrap around as well, as the instructions do that a compiler emits for it without optimising on it.
\<close>

section \<open>Generated code\<close>

text \<open>The subtraction is done on bytes, and its result is sign-extended.\<close>

definition gen_digit :: "byte \<Rightarrow> 32 word" where
  "gen_digit b = scast (b - 48)"

definition gen_digits :: "nat \<Rightarrow> byte list \<Rightarrow> 32 word list result" where
  "gen_digits n buf = rmap (\<lambda>i. rbind (at_idx buf i) (\<lambda>b. Inr (gen_digit b))) [0..<n]"

definition gen_atoi1 :: "byte list \<Rightarrow> 32 word result" where
  "gen_atoi1 buf = rbind (gen_digits 1 buf) (\<lambda>d. Inr (d ! 0))"

definition gen_atoi2 :: "byte list \<Rightarrow> 32 word result" where
  "gen_atoi2 buf = rbind (gen_digits 2 buf) (\<lambda>d. Inr (10 * d ! 0 + d ! 1))"

definition gen_atoi3 :: "byte list \<Rightarrow> 32 word result" where
  "gen_atoi3 buf = rbind (gen_digits 3 buf) (\<lambda>d. Inr (100 * d ! 0 + 10 * d ! 1 + d ! 2))"

definition gen_atoi4 :: "byte list \<Rightarrow> 32 word result" where
  "gen_atoi4 buf = rbind (gen_digits 4 buf) (\<lambda>d. Inr (1000 * d ! 0 + 100 * d ! 1 + 10 * d ! 2 + d ! 3))"

definition gen_atoi5 :: "byte list \<Rightarrow> 32 word result" where
  "gen_atoi5 buf = rbind (gen_digits 5 buf) (\<lambda>d. Inr (10000 * d ! 0 + 1000 * d ! 1 + 100 * d ! 2 + 10 * d ! 3 + d ! 4))"

definition gen_atoi6 :: "byte list \<Rightarrow> 32 word result" where
  "gen_atoi6 buf = rbind (gen_digits 6 buf) (\<lambda>d. Inr (100000 * d ! 0 + 10000 * d ! 1 + 1000 * d ! 2 + 100 * d ! 3 + 10 * d ! 4 + d ! 5))"

definition gen_atoi7 :: "byte list \<Rightarrow> 32 word result" where
  "gen_atoi7 buf = rbind (gen_digits 7 buf) (\<lambda>d. Inr (1000000 * d ! 0 + 100000 * d ! 1 + 10000 * d ! 2 + 1000 * d ! 3 + 100 * d ! 4 + 10 * d ! 5 + d ! 6))"

definition gen_atoi8 :: "byte list \<Rightarrow> 32 word result" where
  "gen_atoi8 buf = rbind (gen_digits 8 buf) (\<lambda>d. Inr (10000000 * d ! 0 + 1000000 * d ! 1 + 100000 * d ! 2 + 10000 * d ! 3 + 1000 * d ! 4 + 100 * d ! 5 +
       10 * d ! 6 + d ! 7))"

definition gen_atoi9 :: "byte list \<Rightarrow> 32 word result" where
  "gen_atoi9 buf = rbind (gen_digits 9 buf) (\<lambda>d. Inr (100000000 * d ! 0 + 10000000 * d ! 1 + 1000000 * d ! 2 + 100000 * d ! 3 + 10000 * d ! 4 +
       1000 * d ! 5 + 100 * d ! 6 + 10 * d ! 7 + d ! 8))"

definition gen_atoi10 :: "byte list \<Rightarrow> 32 word result" where
  "gen_atoi10 buf = rbind (gen_digits 10 buf) (\<lambda>d. Inr (1000000000 * d ! 0 + 100000000 * d ! 1 + 10000000 * d ! 2 + 1000000 * d ! 3 + 100000 * d ! 4 +
       10000 * d ! 5 + 1000 * d ! 6 + 100 * d ! 7 + 10 * d ! 8 + d ! 9))"

text \<open>
  The switch over the length. The code goes on behind the switch, or, for another length, traps in a
  parallel context and otherwise returns -1 from the generated function.
\<close>

datatype flow = Continue "32 word" | Return "32 word"

definition gen_atois :: "bool \<Rightarrow> byte list \<Rightarrow> 32 word \<Rightarrow> flow result" where
  "gen_atois parallel buf len =
     (let store = (\<lambda>r. rbind r (\<lambda>v. Inr (Continue v)))
      in if len = 1 then store (gen_atoi1 buf)
         else if len = 2 then store (gen_atoi2 buf)
         else if len = 3 then store (gen_atoi3 buf)
         else if len = 4 then store (gen_atoi4 buf)
         else if len = 5 then store (gen_atoi5 buf)
         else if len = 6 then store (gen_atoi6 buf)
         else if len = 7 then store (gen_atoi7 buf)
         else if len = 8 then store (gen_atoi8 buf)
         else if len = 9 then store (gen_atoi9 buf)
         else if len = 10 then store (gen_atoi10 buf)
         else if parallel then Inl (Fatal ''trap'') else Inr (Return (- 1)))"

section \<open>Library functions\<close>

text \<open>A character is promoted to \<^verbatim>\<open>int\<close> before the subtraction.\<close>

definition lib_digit :: "byte \<Rightarrow> 32 word" where
  "lib_digit b = scast b - 48"

definition lib_digits :: "nat \<Rightarrow> byte list \<Rightarrow> 32 word list result" where
  "lib_digits n buf = rmap (\<lambda>i. rbind (at_idx buf i) (\<lambda>b. Inr (lib_digit b))) [0..<n]"

definition lib_atoi1 :: "byte list \<Rightarrow> 32 word result" where
  "lib_atoi1 buf = rbind (lib_digits 1 buf) (\<lambda>d. Inr (d ! 0))"

definition lib_atoi2 :: "byte list \<Rightarrow> 32 word result" where
  "lib_atoi2 buf = rbind (lib_digits 2 buf) (\<lambda>d. Inr (10 * d ! 0 + d ! 1))"

definition lib_atoi3 :: "byte list \<Rightarrow> 32 word result" where
  "lib_atoi3 buf = rbind (lib_digits 3 buf) (\<lambda>d. Inr (100 * d ! 0 + 10 * d ! 1 + d ! 2))"

definition lib_atoi4 :: "byte list \<Rightarrow> 32 word result" where
  "lib_atoi4 buf = rbind (lib_digits 4 buf) (\<lambda>d. Inr (1000 * d ! 0 + 100 * d ! 1 + 10 * d ! 2 + d ! 3))"

definition lib_atoi5 :: "byte list \<Rightarrow> 32 word result" where
  "lib_atoi5 buf = rbind (lib_digits 5 buf) (\<lambda>d. Inr (10000 * d ! 0 + 1000 * d ! 1 + 100 * d ! 2 + 10 * d ! 3 + d ! 4))"

definition lib_atoi6 :: "byte list \<Rightarrow> 32 word result" where
  "lib_atoi6 buf = rbind (lib_digits 6 buf) (\<lambda>d. Inr (100000 * d ! 0 + 10000 * d ! 1 + 1000 * d ! 2 + 100 * d ! 3 + 10 * d ! 4 + d ! 5))"

definition lib_atoi7 :: "byte list \<Rightarrow> 32 word result" where
  "lib_atoi7 buf = rbind (lib_digits 7 buf) (\<lambda>d. Inr (1000000 * d ! 0 + 100000 * d ! 1 + 10000 * d ! 2 + 1000 * d ! 3 + 100 * d ! 4 + 10 * d ! 5 + d ! 6))"

definition lib_atoi8 :: "byte list \<Rightarrow> 32 word result" where
  "lib_atoi8 buf = rbind (lib_digits 8 buf) (\<lambda>d. Inr (10000000 * d ! 0 + 1000000 * d ! 1 + 100000 * d ! 2 + 10000 * d ! 3 + 1000 * d ! 4 + 100 * d ! 5 +
       10 * d ! 6 + d ! 7))"

definition lib_atoi9 :: "byte list \<Rightarrow> 32 word result" where
  "lib_atoi9 buf = rbind (lib_digits 9 buf) (\<lambda>d. Inr (100000000 * d ! 0 + 10000000 * d ! 1 + 1000000 * d ! 2 + 100000 * d ! 3 + 10000 * d ! 4 +
       1000 * d ! 5 + 100 * d ! 6 + 10 * d ! 7 + d ! 8))"

definition lib_atoi10 :: "byte list \<Rightarrow> 32 word result" where
  "lib_atoi10 buf = rbind (lib_digits 10 buf) (\<lambda>d. Inr (1000000000 * d ! 0 + 100000000 * d ! 1 + 10000000 * d ! 2 + 1000000 * d ! 3 + 100000 * d ! 4 +
       10000 * d ! 5 + 1000 * d ! 6 + 100 * d ! 7 + 10 * d ! 8 + d ! 9))"

definition lib_atois :: "byte list \<Rightarrow> 32 word \<Rightarrow> 32 word result" where
  "lib_atois buf len =
     (if len = 1 then lib_atoi1 buf
      else if len = 2 then lib_atoi2 buf
      else if len = 3 then lib_atoi3 buf
      else if len = 4 then lib_atoi4 buf
      else if len = 5 then lib_atoi5 buf
      else if len = 6 then lib_atoi6 buf
      else if len = 7 then lib_atoi7 buf
      else if len = 8 then lib_atoi8 buf
      else if len = 9 then lib_atoi9 buf
      else if len = 10 then lib_atoi10 buf
      else Inl (RuntimeError ''[ATOIS: ] Invalid Size ''))"

text \<open>Decimal output of an integer, as the stream operator of \<^verbatim>\<open>flushInt\<close> writes it.\<close>

fun decimal :: "nat \<Rightarrow> byte list" where
  "decimal n = (if n < 10 then [of_nat (48 + n)] else decimal (n div 10) @ [of_nat (48 + n mod 10)])"

declare decimal.simps [simp del]

definition flushInt :: "int \<Rightarrow> byte list \<Rightarrow> byte list" where
  "flushInt x out = out @ (if x < 0 then 45 # decimal (nat (- x)) else decimal (nat x))"

section \<open>Reading digits\<close>

text \<open>Horner's rule over the digits.\<close>

definition horner :: "32 word list \<Rightarrow> 32 word" where
  "horner = foldl (\<lambda>acc d. 10 * acc + d) 0"

lemma read_digits: "rmap (\<lambda>i. rbind (at_idx buf i) (\<lambda>b. Inr (f b))) [0..<n] =
    (if n \<le> length buf then Inr (map f (take n buf)) else Inl BadAccess)"
proof (induction n)
  case (Suc n)
  have "rmap g (xs @ [x]) = rbind (rmap g xs) (\<lambda>ys. rbind (g x) (\<lambda>y. Inr (ys @ [y])))" for g :: "nat \<Rightarrow> 'a result" and xs x
    by (induction xs) (simp_all add: rbind_def split: sum.split)
  then show ?case using Suc by (auto simp: at_idx_def take_Suc_conv_app_nth)
qed simp

lemma horner_take: "0 < n \<Longrightarrow> n \<le> length d \<Longrightarrow> horner (take n d) = 10 * horner (take (n - 1) d) + d ! (n - 1)"
  by (cases n) (simp_all add: horner_def take_Suc_conv_app_nth)

lemma horner_weights:
  shows "length d = 1 \<Longrightarrow> d ! 0 = horner d"
    and "length d = 2 \<Longrightarrow> 10 * d ! 0 + d ! 1 = horner d"
    and "length d = 3 \<Longrightarrow> 100 * d ! 0 + 10 * d ! 1 + d ! 2 = horner d"
    and "length d = 4 \<Longrightarrow> 1000 * d ! 0 + 100 * d ! 1 + 10 * d ! 2 + d ! 3 = horner d"
    and "length d = 5 \<Longrightarrow> 10000 * d ! 0 + 1000 * d ! 1 + 100 * d ! 2 + 10 * d ! 3 + d ! 4 = horner d"
    and "length d = 6 \<Longrightarrow> 100000 * d ! 0 + 10000 * d ! 1 + 1000 * d ! 2 + 100 * d ! 3 + 10 * d ! 4 + d ! 5 = horner d"
    and "length d = 7 \<Longrightarrow> 1000000 * d ! 0 + 100000 * d ! 1 + 10000 * d ! 2 + 1000 * d ! 3 + 100 * d ! 4 + 10 * d ! 5 + d ! 6 = horner d"
    and "length d = 8 \<Longrightarrow> 10000000 * d ! 0 + 1000000 * d ! 1 + 100000 * d ! 2 + 10000 * d ! 3 + 1000 * d ! 4 + 100 * d ! 5 + 10 * d ! 6 + d ! 7 = horner d"
    and "length d = 9 \<Longrightarrow> 100000000 * d ! 0 + 10000000 * d ! 1 + 1000000 * d ! 2 + 100000 * d ! 3 + 10000 * d ! 4 + 1000 * d ! 5 + 100 * d ! 6 + 10 * d ! 7 + d ! 8 = horner d"
    and "length d = 10 \<Longrightarrow> 1000000000 * d ! 0 + 100000000 * d ! 1 + 10000000 * d ! 2 + 1000000 * d ! 3 + 100000 * d ! 4 + 10000 * d ! 5 + 1000 * d ! 6 + 100 * d ! 7 + 10 * d ! 8 + d ! 9 = horner d"
proof -
  have step: "horner (take n d) = 10 * horner (take (n - 1) d) + d ! (n - 1)" if "length d = m" "n \<le> m" "0 < n" for n m
    using that by (intro horner_take) simp_all
  have none: "horner (take 0 d) = 0" by (simp add: horner_def)
  show "d ! 0 = horner d" if "length d = 1"
    using none step [OF that, of 1] that by (simp add: algebra_simps)
  show "10 * d ! 0 + d ! 1 = horner d" if "length d = 2"
    using none step [OF that, of 1] step [OF that, of 2] that by (simp add: algebra_simps)
  show "100 * d ! 0 + 10 * d ! 1 + d ! 2 = horner d" if "length d = 3"
    using none step [OF that, of 1] step [OF that, of 2] step [OF that, of 3] that by (simp add: algebra_simps)
  show "1000 * d ! 0 + 100 * d ! 1 + 10 * d ! 2 + d ! 3 = horner d" if "length d = 4"
    using none step [OF that, of 1] step [OF that, of 2] step [OF that, of 3] step [OF that, of 4] that by (simp add: algebra_simps)
  show "10000 * d ! 0 + 1000 * d ! 1 + 100 * d ! 2 + 10 * d ! 3 + d ! 4 = horner d" if "length d = 5"
    using none step [OF that, of 1] step [OF that, of 2] step [OF that, of 3] step [OF that, of 4] step [OF that, of 5] that by (simp add: algebra_simps)
  show "100000 * d ! 0 + 10000 * d ! 1 + 1000 * d ! 2 + 100 * d ! 3 + 10 * d ! 4 + d ! 5 = horner d" if "length d = 6"
    using none step [OF that, of 1] step [OF that, of 2] step [OF that, of 3] step [OF that, of 4] step [OF that, of 5] step [OF that, of 6] that by (simp add: algebra_simps)
  show "1000000 * d ! 0 + 100000 * d ! 1 + 10000 * d ! 2 + 1000 * d ! 3 + 100 * d ! 4 + 10 * d ! 5 + d ! 6 = horner d" if "length d = 7"
    using none step [OF that, of 1] step [OF that, of 2] step [OF that, of 3] step [OF that, of 4] step [OF that, of 5] step [OF that, of 6] step [OF that, of 7] that by (simp add: algebra_simps)
  show "10000000 * d ! 0 + 1000000 * d ! 1 + 100000 * d ! 2 + 10000 * d ! 3 + 1000 * d ! 4 + 100 * d ! 5 + 10 * d ! 6 + d ! 7 = horner d" if "length d = 8"
    using none step [OF that, of 1] step [OF that, of 2] step [OF that, of 3] step [OF that, of 4] step [OF that, of 5] step [OF that, of 6] step [OF that, of 7] step [OF that, of 8] that by (simp add: algebra_simps)
  show "100000000 * d ! 0 + 10000000 * d ! 1 + 1000000 * d ! 2 + 100000 * d ! 3 + 10000 * d ! 4 + 1000 * d ! 5 + 100 * d ! 6 + 10 * d ! 7 + d ! 8 = horner d" if "length d = 9"
    using none step [OF that, of 1] step [OF that, of 2] step [OF that, of 3] step [OF that, of 4] step [OF that, of 5] step [OF that, of 6] step [OF that, of 7] step [OF that, of 8] step [OF that, of 9] that by (simp add: algebra_simps)
  show "1000000000 * d ! 0 + 100000000 * d ! 1 + 10000000 * d ! 2 + 1000000 * d ! 3 + 100000 * d ! 4 + 10000 * d ! 5 + 1000 * d ! 6 + 100 * d ! 7 + 10 * d ! 8 + d ! 9 = horner d" if "length d = 10"
    using none step [OF that, of 1] step [OF that, of 2] step [OF that, of 3] step [OF that, of 4] step [OF that, of 5] step [OF that, of 6] step [OF that, of 7] step [OF that, of 8] step [OF that, of 9] step [OF that, of 10] that by (simp add: algebra_simps)
qed

definition parsed :: "(byte \<Rightarrow> 32 word) \<Rightarrow> byte list \<Rightarrow> nat \<Rightarrow> 32 word result" where
  "parsed f buf n = (if n \<le> length buf then Inr (horner (map f (take n buf))) else Inl BadAccess)"

text \<open>Each routine reads its digits and combines them by Horner's rule.\<close>

lemma gen_atoi_parsed:
  shows "gen_atoi1 buf = parsed gen_digit buf 1"
    and "gen_atoi2 buf = parsed gen_digit buf 2"
    and "gen_atoi3 buf = parsed gen_digit buf 3"
    and "gen_atoi4 buf = parsed gen_digit buf 4"
    and "gen_atoi5 buf = parsed gen_digit buf 5"
    and "gen_atoi6 buf = parsed gen_digit buf 6"
    and "gen_atoi7 buf = parsed gen_digit buf 7"
    and "gen_atoi8 buf = parsed gen_digit buf 8"
    and "gen_atoi9 buf = parsed gen_digit buf 9"
    and "gen_atoi10 buf = parsed gen_digit buf 10"
proof -
  have len: "length (map gen_digit (take n buf)) = n" if "n \<le> length buf" for n using that by simp
  show "gen_atoi1 buf = parsed gen_digit buf 1"
    unfolding gen_atoi1_def gen_digits_def read_digits parsed_def using horner_weights(1) [OF len [of 1]]
    by (cases "1 \<le> length buf") (simp_all only: if_True if_False rbind_Inr rbind_Inl)
  show "gen_atoi2 buf = parsed gen_digit buf 2"
    unfolding gen_atoi2_def gen_digits_def read_digits parsed_def using horner_weights(2) [OF len [of 2]]
    by (cases "2 \<le> length buf") (simp_all only: if_True if_False rbind_Inr rbind_Inl)
  show "gen_atoi3 buf = parsed gen_digit buf 3"
    unfolding gen_atoi3_def gen_digits_def read_digits parsed_def using horner_weights(3) [OF len [of 3]]
    by (cases "3 \<le> length buf") (simp_all only: if_True if_False rbind_Inr rbind_Inl)
  show "gen_atoi4 buf = parsed gen_digit buf 4"
    unfolding gen_atoi4_def gen_digits_def read_digits parsed_def using horner_weights(4) [OF len [of 4]]
    by (cases "4 \<le> length buf") (simp_all only: if_True if_False rbind_Inr rbind_Inl)
  show "gen_atoi5 buf = parsed gen_digit buf 5"
    unfolding gen_atoi5_def gen_digits_def read_digits parsed_def using horner_weights(5) [OF len [of 5]]
    by (cases "5 \<le> length buf") (simp_all only: if_True if_False rbind_Inr rbind_Inl)
  show "gen_atoi6 buf = parsed gen_digit buf 6"
    unfolding gen_atoi6_def gen_digits_def read_digits parsed_def using horner_weights(6) [OF len [of 6]]
    by (cases "6 \<le> length buf") (simp_all only: if_True if_False rbind_Inr rbind_Inl)
  show "gen_atoi7 buf = parsed gen_digit buf 7"
    unfolding gen_atoi7_def gen_digits_def read_digits parsed_def using horner_weights(7) [OF len [of 7]]
    by (cases "7 \<le> length buf") (simp_all only: if_True if_False rbind_Inr rbind_Inl)
  show "gen_atoi8 buf = parsed gen_digit buf 8"
    unfolding gen_atoi8_def gen_digits_def read_digits parsed_def using horner_weights(8) [OF len [of 8]]
    by (cases "8 \<le> length buf") (simp_all only: if_True if_False rbind_Inr rbind_Inl)
  show "gen_atoi9 buf = parsed gen_digit buf 9"
    unfolding gen_atoi9_def gen_digits_def read_digits parsed_def using horner_weights(9) [OF len [of 9]]
    by (cases "9 \<le> length buf") (simp_all only: if_True if_False rbind_Inr rbind_Inl)
  show "gen_atoi10 buf = parsed gen_digit buf 10"
    unfolding gen_atoi10_def gen_digits_def read_digits parsed_def using horner_weights(10) [OF len [of 10]]
    by (cases "10 \<le> length buf") (simp_all only: if_True if_False rbind_Inr rbind_Inl)
qed

lemma lib_atoi_parsed:
  shows "lib_atoi1 buf = parsed lib_digit buf 1"
    and "lib_atoi2 buf = parsed lib_digit buf 2"
    and "lib_atoi3 buf = parsed lib_digit buf 3"
    and "lib_atoi4 buf = parsed lib_digit buf 4"
    and "lib_atoi5 buf = parsed lib_digit buf 5"
    and "lib_atoi6 buf = parsed lib_digit buf 6"
    and "lib_atoi7 buf = parsed lib_digit buf 7"
    and "lib_atoi8 buf = parsed lib_digit buf 8"
    and "lib_atoi9 buf = parsed lib_digit buf 9"
    and "lib_atoi10 buf = parsed lib_digit buf 10"
proof -
  have len: "length (map lib_digit (take n buf)) = n" if "n \<le> length buf" for n using that by simp
  show "lib_atoi1 buf = parsed lib_digit buf 1"
    unfolding lib_atoi1_def lib_digits_def read_digits parsed_def using horner_weights(1) [OF len [of 1]]
    by (cases "1 \<le> length buf") (simp_all only: if_True if_False rbind_Inr rbind_Inl)
  show "lib_atoi2 buf = parsed lib_digit buf 2"
    unfolding lib_atoi2_def lib_digits_def read_digits parsed_def using horner_weights(2) [OF len [of 2]]
    by (cases "2 \<le> length buf") (simp_all only: if_True if_False rbind_Inr rbind_Inl)
  show "lib_atoi3 buf = parsed lib_digit buf 3"
    unfolding lib_atoi3_def lib_digits_def read_digits parsed_def using horner_weights(3) [OF len [of 3]]
    by (cases "3 \<le> length buf") (simp_all only: if_True if_False rbind_Inr rbind_Inl)
  show "lib_atoi4 buf = parsed lib_digit buf 4"
    unfolding lib_atoi4_def lib_digits_def read_digits parsed_def using horner_weights(4) [OF len [of 4]]
    by (cases "4 \<le> length buf") (simp_all only: if_True if_False rbind_Inr rbind_Inl)
  show "lib_atoi5 buf = parsed lib_digit buf 5"
    unfolding lib_atoi5_def lib_digits_def read_digits parsed_def using horner_weights(5) [OF len [of 5]]
    by (cases "5 \<le> length buf") (simp_all only: if_True if_False rbind_Inr rbind_Inl)
  show "lib_atoi6 buf = parsed lib_digit buf 6"
    unfolding lib_atoi6_def lib_digits_def read_digits parsed_def using horner_weights(6) [OF len [of 6]]
    by (cases "6 \<le> length buf") (simp_all only: if_True if_False rbind_Inr rbind_Inl)
  show "lib_atoi7 buf = parsed lib_digit buf 7"
    unfolding lib_atoi7_def lib_digits_def read_digits parsed_def using horner_weights(7) [OF len [of 7]]
    by (cases "7 \<le> length buf") (simp_all only: if_True if_False rbind_Inr rbind_Inl)
  show "lib_atoi8 buf = parsed lib_digit buf 8"
    unfolding lib_atoi8_def lib_digits_def read_digits parsed_def using horner_weights(8) [OF len [of 8]]
    by (cases "8 \<le> length buf") (simp_all only: if_True if_False rbind_Inr rbind_Inl)
  show "lib_atoi9 buf = parsed lib_digit buf 9"
    unfolding lib_atoi9_def lib_digits_def read_digits parsed_def using horner_weights(9) [OF len [of 9]]
    by (cases "9 \<le> length buf") (simp_all only: if_True if_False rbind_Inr rbind_Inl)
  show "lib_atoi10 buf = parsed lib_digit buf 10"
    unfolding lib_atoi10_def lib_digits_def read_digits parsed_def using horner_weights(10) [OF len [of 10]]
    by (cases "10 \<le> length buf") (simp_all only: if_True if_False rbind_Inr rbind_Inl)
qed

lemma length_cases: "len = 1 \<or> len = 2 \<or> len = 3 \<or> len = 4 \<or> len = 5 \<or> len = 6 \<or> len = 7 \<or> len = 8 \<or> len = 9 \<or> len = (10 :: 32 word)
    \<longleftrightarrow> 0 < unat len \<and> unat len \<le> 10"
  unfolding word_unat_eq_iff by (simp, arith)

lemma lib_atois_value:
  "lib_atois buf len = (if 0 < unat len \<and> unat len \<le> 10 then parsed lib_digit buf (unat len) else Inl (RuntimeError ''[ATOIS: ] Invalid Size ''))"
proof (cases "0 < unat len \<and> unat len \<le> 10")
  case True
  then show ?thesis unfolding length_cases [symmetric] by (elim disjE) (simp_all add: lib_atois_def lib_atoi_parsed)
next
  case False
  then show ?thesis unfolding length_cases [symmetric] by (simp add: lib_atois_def)
qed

lemma gen_atois_value:
  "gen_atois parallel buf len = (if 0 < unat len \<and> unat len \<le> 10 then rbind (parsed gen_digit buf (unat len)) (\<lambda>v. Inr (Continue v))
     else if parallel then Inl (Fatal ''trap'') else Inr (Return (- 1)))"
proof (cases "0 < unat len \<and> unat len \<le> 10")
  case True
  then show ?thesis unfolding length_cases [symmetric] by (elim disjE) (simp_all add: gen_atois_def gen_atoi_parsed)
next
  case False
  then show ?thesis unfolding length_cases [symmetric] by (simp add: gen_atois_def)
qed

lemma digit_ascii:
  assumes "b < 128"
  shows "gen_digit b = lib_digit b"
proof -
  have "\<forall>n \<in> set [0..<128]. gen_digit (of_nat n) = lib_digit (of_nat n)" by code_simp
  moreover have "unat b < 128" using assms by (simp add: word_less_nat_alt)
  ultimately have "gen_digit (of_nat (unat b)) = lib_digit (of_nat (unat b))" by (metis atLeastLessThan_iff set_upt zero_le)
  then show ?thesis by simp
qed

section \<open>Decimal output\<close>

lemma horner_snoc: "horner (xs @ [x]) = 10 * horner xs + x"
  by (simp add: horner_def)

lemma horner_Cons: "horner (x # xs) = 10 ^ length xs * x + horner xs"
  by (induction xs rule: rev_induct) (simp_all add: horner_def algebra_simps)

lemma lib_digit_value: "k < 10 \<Longrightarrow> lib_digit (of_nat (48 + k)) = of_nat k"
proof -
  have "\<forall>k \<in> set [0..<10]. lib_digit (of_nat (48 + k)) = of_nat k" by code_simp
  then show "k < 10 \<Longrightarrow> ?thesis" by (metis atLeastLessThan_iff set_upt zero_le)
qed

lemma horner_decimal: "horner (map lib_digit (decimal n)) = of_nat n"
proof (induction n rule: decimal.induct)
  case (1 n)
  show ?case
  proof (cases "n < 10")
    case True
    then show ?thesis using lib_digit_value [of n] by (simp add: decimal.simps [of n] horner_def)
  next
    case False
    have "of_nat (10 * (n div 10) + n mod 10) = (of_nat n :: 32 word)" by simp
    then have split: "10 * of_nat (n div 10) + of_nat (n mod 10) = (of_nat n :: 32 word)" unfolding of_nat_add of_nat_mult by simp
    show ?thesis using False 1 lib_digit_value [of "n mod 10"] by (subst decimal.simps) (simp add: horner_snoc split)
  qed
qed

lemma length_decimal: "0 < k \<Longrightarrow> length (decimal n) \<le> k \<longleftrightarrow> n < 10 ^ k"
proof (induction n arbitrary: k rule: decimal.induct)
  case (1 n)
  show ?case
  proof (cases "n < 10")
    case True
    then have "n < 10 ^ k" using 1(2) power_increasing [of 1 k "10 :: nat"] by simp
    then show ?thesis using True 1(2) by (simp add: decimal.simps [of n])
  next
    case False
    obtain j where j: "k = Suc j" using 1(2) by (cases k) auto
    have "length (decimal n) \<le> k \<longleftrightarrow> length (decimal (n div 10)) \<le> j" using False j by (simp add: decimal.simps [of n])
    also have "\<dots> \<longleftrightarrow> n div 10 < 10 ^ j"
    proof (cases j)
      case 0
      have "0 < length (decimal (n div 10))" by (simp add: decimal.simps [of "n div 10"])
      then show ?thesis using 0 False by auto
    qed (use 1(1) False in simp)
    also have "\<dots> \<longleftrightarrow> n < 10 ^ k" using j by (auto simp: div_less_iff_less_mult mult.commute)
    finally show ?thesis .
  qed
qed

lemma decimal_nonempty: "0 < length (decimal n)"
  by (simp add: decimal.simps [of n])

section \<open>Properties\<close>

text \<open>
  C35. Reading back the decimal output of a 32-bit integer: a value that is not negative is read
  exactly, also with ten digits, and without an overflow. The minus sign is read as a digit of value -3,
  so a negative value with at most nine digits is read as a different number, and one with ten digits
  is refused for its length. With a sign and nine digits the sum overflows, which the model takes to
  wrap around.\<close>

theorem atois_of_flushed_int:
  assumes "- (2 ^ 31) \<le> x" "x < 2 ^ 31"
  shows "lib_atois (flushInt x [] @ rest) (of_nat (length (flushInt x []))) =
    (if 0 \<le> x then Inr (of_int x)
     else if - (10 ^ 9) < x then Inr (of_int (- x - 3 * 10 ^ length (decimal (nat (- x)))))
     else Inl (RuntimeError ''[ATOIS: ] Invalid Size ''))"
proof -
  have ten: "length (decimal (nat \<bar>x\<bar>)) \<le> 10" using assms length_decimal [of 10 "nat \<bar>x\<bar>"] by simp
  let ?n = "length (flushInt x [])"
  have n: "unat (of_nat ?n :: 32 word) = ?n" using ten by (auto simp: flushInt_def unat_of_nat)
  show ?thesis
  proof (cases "0 \<le> x")
    case True
    then have "?n \<le> 10" "0 < ?n" using ten decimal_nonempty by (simp_all add: flushInt_def)
    then show ?thesis using True horner_decimal [of "nat x"] unfolding lib_atois_value n parsed_def by (simp add: flushInt_def)
  next
    case False
    have nine: "length (decimal (nat (- x))) \<le> 9 \<longleftrightarrow> - (10 ^ 9) < x" using length_decimal [of 9 "nat (- x)"] False by auto
    have "lib_digit 45 = - 3" by code_simp
    then show ?thesis using False nine horner_decimal [of "nat (- x)"]
      unfolding lib_atois_value n parsed_def by (auto simp: flushInt_def horner_Cons algebra_simps)
  qed
qed

theorem atois_of_flushed_int_witness:
  "lib_atois (flushInt 2147483647 []) 10 = Inr 2147483647 \<and> lib_atois (flushInt (- 25) []) 3 = Inr (- 275)"
proof -
  have "lib_atois (flushInt 2147483647 [] @ []) (of_nat (length (flushInt 2147483647 []))) = Inr 2147483647"
    using atois_of_flushed_int [of 2147483647 "[]"] by simp
  moreover have "lib_atois (flushInt (- 25) [] @ []) (of_nat (length (flushInt (- 25) []))) = Inr (- 275)"
    using atois_of_flushed_int [of "- 25" "[]"] by (simp add: decimal.simps)
  moreover have "length (flushInt 2147483647 []) = 10" "length (flushInt (- 25) []) = 3" by (simp_all add: flushInt_def decimal.simps)
  ultimately show ?thesis by simp
qed

text \<open>
  C36. On text of ASCII characters the generated code computes what the library function computes, for
  every length and every buffer, digits or not, overflows of the library function taken to wrap around. Where the library function throws because of the
  length, generated code traps in a parallel context and returns -1 otherwise.\<close>

theorem generated_atois_equals_library:
  assumes "\<forall>b \<in> set buf. b < 128"
  shows "gen_atois parallel buf len =
    (case lib_atois buf len of
       Inr v \<Rightarrow> Inr (Continue v)
     | Inl (RuntimeError _) \<Rightarrow> (if parallel then Inl (Fatal ''trap'') else Inr (Return (- 1)))
     | Inl e \<Rightarrow> Inl e)"
proof -
  have digits: "map gen_digit (take n buf) = map lib_digit (take n buf)" for n
    using assms digit_ascii in_set_takeD by (intro map_cong) fastforce+
  show ?thesis unfolding gen_atois_value lib_atois_value parsed_def digits by simp
qed

theorem generated_atois_equals_library_witness:
  "gen_atois False [52, 50, 65] 2 = Inr (Continue 42)"
  using generated_atois_equals_library [of "[52, 50, 65]" False 2]
  by (simp add: lib_atois_value parsed_def horner_def lib_digit_def)

end
