(* ===== verification/DictEncode.thy ===== *)
theory DictEncode
  imports Prelude "HOL-Library.List_Lexorder"
begin

text \<open>
  The order-preserving dictionary that binary output builds for strings
  (\<^verbatim>\<open>flushBinarystr\<close> and \<^verbatim>\<open>flushDictIfExists\<close> in \<^verbatim>\<open>olap/lib/util/functions.cpp\<close>). A new string gets a code
  halfway between the codes of its neighbours. The dictionary of a stream is a \<^verbatim>\<open>std::map\<close>, which is
  the list of its entries in the order of the keys here.
\<close>

section \<open>Operations\<close>

type_synonym dict = "(byte list \<times> int) list"

text \<open>\<^verbatim>\<open>std::numeric_limits<int32_t>::max()\<close>\<close>

definition int32_max :: int where
  "int32_max = 2147483647"

text \<open>The position of the first entry with a greater key.\<close>

definition upper_bound :: "byte list \<Rightarrow> dict \<Rightarrow> nat" where
  "upper_bound key d = length (takeWhile (\<lambda>e. fst e \<le> key) d)"

definition emplace :: "byte list \<Rightarrow> int \<Rightarrow> dict \<Rightarrow> dict" where
  "emplace key dkey d = take (upper_bound key d) d @ (key, dkey) # drop (upper_bound key d) d"

definition first_codes :: "byte list \<Rightarrow> dict \<Rightarrow> int" where
  "first_codes key d =
     (if d = [] then int32_max div 2
      else let dkey = int32_max div 4 in if key > fst (hd d) then dkey * 3 else dkey)"

definition lower_code :: "byte list \<Rightarrow> dict \<Rightarrow> int" where
  "lower_code key d = (let it = upper_bound key d in if it = 0 then 0 else snd (d ! (it - 1)))"

definition greater_code :: "byte list \<Rightarrow> dict \<Rightarrow> int" where
  "greater_code key d = (let it = upper_bound key d in if it = length d then int32_max - 1 else snd (d ! it))"

definition middle_code :: "int \<Rightarrow> int \<Rightarrow> int result" where
  "middle_code lower_key greater_key =
     rbind (rassert (lower_key \<le> greater_key) ''lower_key <= greater_key'') (\<lambda>_.
     let dkey = (greater_key AND lower_key) + (greater_key XOR lower_key) div 2
     in rbind (rassert (lower_key < dkey) ''lower_key < dkey'') (\<lambda>_.
        rbind (rassert (greater_key > dkey) ''greater_key > dkey'') (\<lambda>_. Inr dkey)))"

text \<open>The four bytes of an integer, the lowest first.\<close>

definition flushBinary_impl :: "int \<Rightarrow> byte list \<Rightarrow> byte list" where
  "flushBinary_impl x out = out @ map (\<lambda>i. of_int (x div 256 ^ i)) [0..<4]"

definition flushBinarystr :: "byte list \<Rightarrow> dict \<times> byte list \<Rightarrow> (dict \<times> byte list) result" where
  "flushBinarystr key = (\<lambda>(d, out).
     rbind (case map_of d key of
              Some dkey \<Rightarrow> Inr (dkey, d)
            | None \<Rightarrow> rbind (if length d < 2 then Inr (first_codes key d) else middle_code (lower_code key d) (greater_code key d))
                       (\<lambda>dkey. Inr (dkey, emplace key dkey d))) (\<lambda>(dkey, d').
     Inr (d', flushBinary_impl dkey out)))"

text \<open>Writing the dictionary: the entries in order, with the assertion on their codes.\<close>

fun flushDict :: "int \<Rightarrow> dict \<Rightarrow> dict result" where
  "flushDict prev [] = Inr []"
| "flushDict prev (e # es) =
     rbind (rassert (snd e > prev) ''e.second > prev'') (\<lambda>_. rbind (flushDict (snd e) es) (\<lambda>out. Inr (e # out)))"

section \<open>The code between two codes\<close>

lemma average: "(a AND b) + (a XOR b) div 2 = (a + b) div 2" for a b :: int
proof -
  have "(a XOR b) AND (a AND b) = 0" by (rule bit_eqI) (auto simp: bit_simps)
  then have "(a XOR b) + (a AND b) = (a XOR b) OR (a AND b)" by (simp add: disjunctive_add_eq_or)
  also have "\<dots> = a OR b" by (rule bit_eqI) (auto simp: bit_simps)
  finally have "a + b = 2 * (a AND b) + (a XOR b)" using plus_and_or [of a b] by linarith
  then show ?thesis by simp
qed

lemma middle_code_eq:
  "middle_code l g = (if l \<le> g then if l < (l + g) div 2 then Inr ((l + g) div 2) else Inl (Assertion ''lower_key < dkey'')
     else Inl (Assertion ''lower_key <= greater_key''))"
  by (auto simp: middle_code_def average rassert_def Let_def add.commute)

lemma middle_code_ok: "l + 2 \<le> g \<Longrightarrow> middle_code l g = Inr ((l + g) div 2)"
  by (simp add: middle_code_eq)

section \<open>Gaps between codes\<close>

text \<open>The codes increase from \<open>l\<close> to the largest one by at least \<open>g\<close> each.\<close>

fun gaps_ok :: "int \<Rightarrow> int \<Rightarrow> dict \<Rightarrow> bool" where
  "gaps_ok g l [] \<longleftrightarrow> l + g \<le> int32_max - 1"
| "gaps_ok g l (e # es) \<longleftrightarrow> l + g \<le> snd e \<and> gaps_ok g (snd e) es"

lemma gaps_ok_mono: "gaps_ok g l d \<Longrightarrow> g' \<le> g \<Longrightarrow> gaps_ok g' l d"
  by (induction d arbitrary: l) auto

lemma upper_bound_Cons: "upper_bound key (e # d) = (if fst e \<le> key then Suc (upper_bound key d) else 0)"
  by (simp add: upper_bound_def)

lemma upper_bound_le: "upper_bound key d \<le> length d"
  by (simp add: upper_bound_def length_takeWhile_le)

lemma emplace_Cons: "emplace key c (e # d) = (if fst e \<le> key then e # emplace key c d else (key, c) # e # d)"
  by (simp add: emplace_def upper_bound_Cons)

text \<open>The neighbours, with \<open>l\<close> for the code before the first entry.\<close>

fun lower_from :: "int \<Rightarrow> byte list \<Rightarrow> dict \<Rightarrow> int" where
  "lower_from l key [] = l"
| "lower_from l key (e # d) = (if fst e \<le> key then lower_from (snd e) key d else l)"

lemma lower_from_nth: "lower_from l key d = (if upper_bound key d = 0 then l else snd (d ! (upper_bound key d - 1)))"
proof (induction d arbitrary: l)
  case (Cons e d)
  then show ?case by (cases "upper_bound key d") (auto simp: upper_bound_Cons)
qed (simp add: upper_bound_def)

lemma lower_code_from: "lower_code key d = lower_from 0 key d"
  by (simp add: lower_code_def lower_from_nth Let_def)

lemma greater_code_Cons: "greater_code key (e # d) = (if fst e \<le> key then greater_code key d else snd e)"
  by (simp add: greater_code_def upper_bound_Cons Let_def)

lemma greater_code_Nil: "greater_code key [] = int32_max - 1"
  by (simp add: greater_code_def upper_bound_def)

text \<open>A code in the middle of the neighbours halves one gap.\<close>

lemma insert_in_gap:
  assumes "gaps_ok g l d"
  shows "lower_from l key d + g \<le> greater_code key d"
    "0 \<le> g \<Longrightarrow> gaps_ok (g div 2) l (emplace key ((lower_from l key d + greater_code key d) div 2) d)"
  using assms
proof (induction d arbitrary: l)
  case Nil
  { case 1 then show ?case by (simp add: greater_code_Nil) }
  { case 2 then show ?case by (simp add: greater_code_Nil emplace_def upper_bound_def) linarith }
next
  case (Cons e d)
  { case 1 then show ?case using Cons.IH(1) [of "snd e"] by (auto simp: greater_code_Cons) }
  { case 2
    have half: "gaps_ok (g div 2) (snd e) d" using 2 by (auto intro: gaps_ok_mono)
    have "l + g div 2 \<le> (l + snd e) div 2 \<and> (l + snd e) div 2 + g div 2 \<le> snd e" "l + g div 2 \<le> snd e" using 2 by auto
    then show ?case using 2 half Cons.IH(2) [of "snd e"] by (auto simp: greater_code_Cons emplace_Cons) }
qed

section \<open>Order of the keys\<close>

lemma emplace_entries [simp]: "set (emplace key c d) = insert (key, c) (set d)" "length (emplace key c d) = Suc (length d)"
proof -
  have "set d = set (take (upper_bound key d) d @ drop (upper_bound key d) d)" by simp
  then show "set (emplace key c d) = insert (key, c) (set d)" unfolding emplace_def set_append by auto
  show "length (emplace key c d) = Suc (length d)" using upper_bound_le [of key d] by (simp add: emplace_def)
qed

lemma emplace_sorted: "sorted_wrt (<) (map fst d) \<Longrightarrow> key \<notin> fst ` set d \<Longrightarrow> sorted_wrt (<) (map fst (emplace key c d))"
proof (induction d)
  case Nil
  then show ?case by (simp add: emplace_def)
next
  case (Cons e d)
  show ?case
  proof (cases "fst e \<le> key")
    case True
    then have "fst e < key" using Cons.prems(2) by auto
    then show ?thesis using True Cons by (auto simp: emplace_Cons)
  next
    case False
    then show ?thesis using Cons.prems by (auto simp: emplace_Cons)
  qed
qed

lemma map_of_emplace:
  assumes "sorted_wrt (<) (map fst d)" "key \<notin> fst ` set d"
  shows "map_of (emplace key c d) = (map_of d)(key \<mapsto> c)"
proof -
  have distinct: "distinct (map fst d)" "distinct (map fst (emplace key c d))"
    using assms emplace_sorted strict_sorted_iff by blast+
  then show ?thesis using assms(2) by (intro map_of_inject_set [THEN iffD2, of "emplace key c d" "(key, c) # d", simplified]) auto
qed

section \<open>Sequences of strings\<close>

text \<open>The least gap in a dictionary of \<open>n\<close> entries.\<close>

definition gap :: "nat \<Rightarrow> int" where
  "gap n = 2 ^ (31 - n) - (if n \<le> 2 then 2 else 1)"

lemma gap_Suc:
  assumes "2 \<le> n" "n \<le> 29"
  shows "2 \<le> gap n" "gap (Suc n) \<le> gap n div 2"
proof -
  have "31 - n = Suc (30 - n)" "Suc 0 \<le> 30 - n" using assms by simp_all
  moreover have "(2 :: int) ^ Suc 0 \<le> 2 ^ (30 - n)" using calculation(2) by (intro power_increasing) simp_all
  moreover have "p - 1 \<le> (2 * p - 1) div 2" for p :: int by presburger
  ultimately show "2 \<le> gap n" "gap (Suc n) \<le> gap n div 2" using assms(1) by (simp_all add: gap_def)
qed

lemma gap_pos: "n \<le> 30 \<Longrightarrow> 0 < gap n"
proof -
  assume "n \<le> 30"
  then have "(2 :: int) ^ 1 \<le> 2 ^ (31 - n)" by (intro power_increasing) simp_all
  moreover have "(2 :: int) ^ 29 \<le> 2 ^ (31 - n)" if "n \<le> 2" using that by (intro power_increasing) simp_all
  ultimately show ?thesis by (auto simp: gap_def)
qed

text \<open>
  After the strings \<open>ks\<close>: the dictionary has exactly them, its codes keep their gaps, and the output
  is the code of each of them in the dictionary.
\<close>

definition dict_inv :: "byte list list \<Rightarrow> dict \<Rightarrow> byte list \<Rightarrow> bool" where
  "dict_inv ks d out \<longleftrightarrow> sorted_wrt (<) (map fst d) \<and> fst ` set d = set ks \<and> gaps_ok (gap (length d)) 0 d \<and>
     (length d = 1 \<longrightarrow> snd (hd d) = int32_max div 2) \<and>
     out = concat (map (\<lambda>k. flushBinary_impl (the (map_of d k)) []) ks)"

lemma dict_inv_size: "dict_inv ks d out \<Longrightarrow> length d = card (set ks)"
  using distinct_card [of "map fst d"] by (simp add: dict_inv_def strict_sorted_iff)

lemma flushBinary_append: "flushBinary_impl x out = out @ flushBinary_impl x []"
  by (simp add: flushBinary_impl_def)

text \<open>The new code and the gaps it leaves.\<close>

lemma new_code:
  assumes "dict_inv ks d out" "key \<notin> set ks" "length d \<le> 29"
  obtains c where "(if length d < 2 then Inr (first_codes key d) else middle_code (lower_code key d) (greater_code key d)) = Inr c"
    "gaps_ok (gap (Suc (length d))) 0 (emplace key c d)" "length d = 0 \<longrightarrow> c = int32_max div 2"
proof -
  have gaps: "gaps_ok (gap (length d)) 0 d" and one: "length d = 1 \<Longrightarrow> snd (hd d) = int32_max div 2" using assms(1) by (simp_all add: dict_inv_def)
  consider "d = []" | e where "d = [e]" | "2 \<le> length d" by (cases d rule: remdups_adj.cases) auto
  then show thesis
  proof cases
    case 1
    then show thesis by (intro that [of "int32_max div 2"]) (simp_all add: first_codes_def emplace_def upper_bound_def gap_def int32_max_def)
  next
    case (2 e)
    then have "key \<noteq> fst e" using assms(1,2) by (auto simp: dict_inv_def)
    then show thesis using 2 one
      by (intro that [of "first_codes key d"]) (auto simp: first_codes_def emplace_Cons emplace_def upper_bound_def gap_def int32_max_def)
  next
    case 3
    let ?c = "(lower_code key d + greater_code key d) div 2"
    have "middle_code (lower_code key d) (greater_code key d) = Inr ?c"
      using insert_in_gap(1) [OF gaps, of key] gap_Suc(1) [OF 3 assms(3)] by (intro middle_code_ok) (simp add: lower_code_from)
    moreover have "gaps_ok (gap (Suc (length d))) 0 (emplace key ?c d)"
      using insert_in_gap(2) [OF gaps, of key] gap_Suc [OF 3 assms(3)] by (auto simp: lower_code_from intro: gaps_ok_mono)
    ultimately show thesis using 3 by (intro that [of ?c]) auto
  qed
qed

lemma flushBinarystr_step:
  assumes inv: "dict_inv ks d out" and few: "card (set (ks @ [key])) \<le> 30"
  obtains d' out' where "flushBinarystr key (d, out) = Inr (d', out')" "dict_inv (ks @ [key]) d' out'"
proof (cases "key \<in> set ks")
  case True
  then have "map_of d key \<noteq> None" using inv by (simp add: dict_inv_def map_of_eq_None_iff)
  then obtain c where c: "map_of d key = Some c" by blast
  then have "flushBinarystr key (d, out) = Inr (d, out @ flushBinary_impl c [])" by (simp add: flushBinarystr_def flushBinary_append [of c out])
  then show thesis by (rule that) (use c True inv in \<open>simp add: dict_inv_def insert_absorb\<close>)
next
  case False
  have "length d \<le> 29" using dict_inv_size [OF inv] few False by simp
  then obtain c where c: "(if length d < 2 then Inr (first_codes key d) else middle_code (lower_code key d) (greater_code key d)) = Inr c"
    "gaps_ok (gap (Suc (length d))) 0 (emplace key c d)" "length d = 0 \<longrightarrow> c = int32_max div 2"
    by (rule new_code [OF inv False]) (rule that)
  have d: "sorted_wrt (<) (map fst d)" "key \<notin> fst ` set d" "fst ` set d = set ks" using inv False by (simp_all add: dict_inv_def)
  have none: "map_of d key = None" using d(2) by (simp add: map_of_eq_None_iff)
  have "map_of (emplace key c d) k = map_of d k" if "k \<in> set ks" for k using map_of_emplace [OF d(1,2)] that False by auto
  then have old: "map (\<lambda>k. flushBinary_impl (the (map_of (emplace key c d) k)) []) ks = map (\<lambda>k. flushBinary_impl (the (map_of d k)) []) ks" by simp
  have "length d = 0 \<Longrightarrow> emplace key c d = [(key, c)]" by (simp add: emplace_def upper_bound_def)
  moreover have "map_of (emplace key c d) key = Some c" using map_of_emplace [OF d(1,2)] by simp
  then have "out @ flushBinary_impl c [] = concat (map (\<lambda>k. flushBinary_impl (the (map_of (emplace key c d) k)) []) (ks @ [key]))"
    unfolding map_append concat_append old using inv by (simp add: dict_inv_def)
  ultimately have "dict_inv (ks @ [key]) (emplace key c d) (out @ flushBinary_impl c [])"
    using c(2,3) d(3) emplace_sorted [OF d(1,2), of c] unfolding dict_inv_def by simp
  moreover have "flushBinarystr key (d, out) = Inr (emplace key c d, out @ flushBinary_impl c [])"
    using c(1) none by (simp add: flushBinarystr_def flushBinary_append [of c out])
  ultimately show thesis using that by blast
qed

definition encode_all :: "byte list list \<Rightarrow> (dict \<times> byte list) result" where
  "encode_all keys = rfold flushBinarystr keys ([], [])"

lemma encode_all_ok:
  assumes "card (set keys) \<le> 30"
  shows "\<exists>d out. encode_all keys = Inr (d, out) \<and> dict_inv keys d out"
  using assms
proof (induction keys rule: rev_induct)
  case Nil
  then show ?case by (simp add: encode_all_def dict_inv_def gap_def int32_max_def)
next
  case (snoc key ks)
  have "card (set ks) \<le> 30" using snoc.prems card_insert_le [of "set ks" key] by simp
  then obtain d out where "encode_all ks = Inr (d, out)" and inv: "dict_inv ks d out" using snoc.IH by blast
  moreover obtain d' out' where "flushBinarystr key (d, out) = Inr (d', out')" "dict_inv (ks @ [key]) d' out'"
    by (rule flushBinarystr_step [OF inv snoc.prems])
  ultimately show ?case by (simp add: encode_all_def rfold_snoc)
qed

lemma gaps_codes: "gaps_ok g l d \<Longrightarrow> 0 < g \<Longrightarrow> sorted_wrt (<) (map snd d) \<and> (\<forall>e \<in> set d. l < snd e)"
  by (induction d arbitrary: l) force+

lemma flushDict_ok: "sorted_wrt (<) (map snd d) \<Longrightarrow> \<forall>e \<in> set d. prev < snd e \<Longrightarrow> flushDict prev d = Inr d"
  by (induction d arbitrary: prev) auto

section \<open>Strings in decreasing order\<close>

text \<open>Every new string comes first, so its code is half the smallest code.\<close>

lemma emplace_first: "d \<noteq> [] \<Longrightarrow> key < fst (hd d) \<Longrightarrow> lower_code key d = 0 \<and> greater_code key d = snd (hd d) \<and> emplace key c d = (key, c) # d"
  by (cases d) (auto simp: lower_code_from greater_code_Cons emplace_Cons not_le [symmetric])

lemma decreasing_codes:
  assumes "sorted_wrt (>) ks" "ks \<noteq> []" "length ks \<le> 30"
  shows "\<exists>d out. encode_all ks = Inr (d, out) \<and> d \<noteq> [] \<and> length d = length ks \<and> fst (hd d) = last ks \<and> fst ` set d = set ks \<and>
    snd (hd d) = 2 ^ (31 - length ks) - 1"
  using assms
proof (induction ks rule: rev_induct)
  case (snoc key ks)
  show ?case
  proof (cases "ks = []")
    case True
    then show ?thesis by (simp add: encode_all_def flushBinarystr_def first_codes_def emplace_def upper_bound_def int32_max_def)
  next
    case False
    then obtain d out where d: "encode_all ks = Inr (d, out)" "d \<noteq> []" "length d = length ks" "fst (hd d) = last ks" "fst ` set d = set ks"
        "snd (hd d) = 2 ^ (31 - length ks) - 1"
      using snoc by (auto simp: sorted_wrt_append)
    have below: "key < fst (hd d)" using snoc.prems(1) False d(4) by (simp add: sorted_wrt_append)
    have new: "map_of d key = None" using snoc.prems(1) d(5) by (auto simp: sorted_wrt_append map_of_eq_None_iff)
    let ?c = "2 ^ (30 - length ks) - 1 :: int"
    have exp: "31 - length ks = Suc (30 - length ks)" "31 - length (ks @ [key]) = 30 - length ks" "1 \<le> 30 - length ks" using snoc.prems(3) False by auto
    have big: "(2 :: int) ^ 1 \<le> 2 ^ (30 - length ks)" using exp(3) by (intro power_increasing) simp_all
    have half: "(0 + (2 * p - 1)) div 2 = p - 1" for p :: int by presburger
    have "(if length d < 2 then Inr (first_codes key d) else middle_code (lower_code key d) (greater_code key d)) = Inr ?c"
    proof (cases "length d < 2")
      case True
      then have "length ks = 1" using False d(3) by (cases ks) auto
      then show ?thesis using True below d(2) by (simp add: first_codes_def int32_max_def)
    next
      case long: False
      have "middle_code 0 (2 * 2 ^ (30 - length ks) - 1) = Inr ?c" unfolding middle_code_eq half using big by simp
      then show ?thesis using long emplace_first [OF d(2) below] d(6) exp(1) by simp
    qed
    then have "flushBinarystr key (d, out) = Inr ((key, ?c) # d, flushBinary_impl ?c out)"
      using new emplace_first [OF d(2) below] by (simp add: flushBinarystr_def)
    then show ?thesis using d exp by (simp add: encode_all_def rfold_snoc)
  qed
qed simp

section \<open>Properties\<close>

lemma increasing_iff:
  fixes xs :: "'a :: linorder list"
  assumes "sorted_wrt (<) xs" "i < length xs" "j < length xs"
  shows "xs ! i < xs ! j \<longleftrightarrow> i < j"
proof (cases i j rule: linorder_cases)
  case greater
  then have "xs ! j < xs ! i" using sorted_wrt_nth_less [OF assms(1)] assms(2) by blast
  then show ?thesis using greater by simp
qed (use sorted_wrt_nth_less [OF assms(1)] assms(3) in auto)

lemma entries_of_inv:
  assumes inv: "dict_inv keys d out" and few: "card (set keys) \<le> 30"
  shows "sorted_wrt (<) (map snd d)" "\<forall>e \<in> set d. 0 < snd e"
    "\<And>k1 k2. k1 \<in> set keys \<Longrightarrow> k2 \<in> set keys \<Longrightarrow> the (map_of d k1) < the (map_of d k2) \<longleftrightarrow> k1 < k2"
proof -
  have "gaps_ok (gap (length d)) 0 d" "0 < gap (length d)" using inv few dict_inv_size [OF inv] gap_pos by (simp_all add: dict_inv_def)
  then show codes: "sorted_wrt (<) (map snd d)" "\<forall>e \<in> set d. 0 < snd e" using gaps_codes by blast+
  have keys: "sorted_wrt (<) (map fst d)" "fst ` set d = set keys" using inv by (simp_all add: dict_inv_def)
  have at: "\<exists>n < length d. k = fst (d ! n)" if "k \<in> set keys" for k
    using that unfolding keys(2) [symmetric] by (force simp: in_set_conv_nth)
  fix k1 k2 assume "k1 \<in> set keys" "k2 \<in> set keys"
  then obtain i j where ij: "i < length d" "j < length d" "k1 = fst (d ! i)" "k2 = fst (d ! j)" using at by meson
  have nth: "map_of d (fst (d ! n)) = Some (snd (d ! n))" if "n < length d" for n
    using keys(1) that by (intro map_of_is_SomeI) (auto simp: strict_sorted_iff)
  have "fst (d ! i) < fst (d ! j) \<longleftrightarrow> i < j" "snd (d ! i) < snd (d ! j) \<longleftrightarrow> i < j"
    using increasing_iff [OF keys(1)] increasing_iff [OF codes(1)] ij(1,2) by simp_all
  then show "the (map_of d k1) < the (map_of d k2) \<longleftrightarrow> k1 < k2" using ij nth by simp
qed

text \<open>
  C37. Any sequence of strings with at most 30 different ones is written without a failing assertion. The
  codes in the output are those of the final dictionary, also for strings written before the
  dictionary had its last entry, and codes compare as the strings do. Writing the dictionary passes
  its assertion.\<close>

theorem dictionary_preserves_order:
  assumes "card (set keys) \<le> 30"
  shows "\<exists>d out. encode_all keys = Inr (d, out) \<and> flushDict (- int32_max - 1) d = Inr d \<and>
    (\<exists>code. out = concat (map (\<lambda>k. flushBinary_impl (code k) []) keys) \<and> (\<forall>k \<in> set keys. map_of d k = Some (code k)) \<and>
       (\<forall>k1 \<in> set keys. \<forall>k2 \<in> set keys. code k1 < code k2 \<longleftrightarrow> k1 < k2))"
proof -
  obtain d out where d: "encode_all keys = Inr (d, out)" and inv: "dict_inv keys d out" using encode_all_ok [OF assms] by blast
  note entries = entries_of_inv [OF inv assms]
  let ?code = "\<lambda>k. the (map_of d k)"
  have "\<forall>e \<in> set d. - int32_max - 1 < snd e" using entries(2) by (auto simp: int32_max_def)
  then have "flushDict (- int32_max - 1) d = Inr d" by (rule flushDict_ok [OF entries(1)])
  moreover have "map_of d k = Some (?code k)" if "k \<in> set keys" for k
    using that inv by (cases "map_of d k") (auto simp: dict_inv_def map_of_eq_None_iff)
  moreover have "out = concat (map (\<lambda>k. flushBinary_impl (?code k) []) keys)" using inv by (simp add: dict_inv_def)
  ultimately show ?thesis using d entries(3) by (intro exI [of _ d] exI [of _ out] conjI exI [of _ ?code]) auto
qed

theorem dictionary_preserves_order_witness:
  "\<exists>d out. encode_all [[98], [97], [98], [99, 1], [99]] = Inr (d, out) \<and> flushDict (- int32_max - 1) d = Inr d \<and> length out = 20"
proof -
  let ?ks = "[[98], [97], [98], [99, 1], [99 :: byte]]"
  have "card (set ?ks) \<le> 30" by (rule order_trans [OF card_length]) simp
  then obtain d out code where "encode_all ?ks = Inr (d, out)" "flushDict (- int32_max - 1) d = Inr d"
    "out = concat (map (\<lambda>k. flushBinary_impl (code k) []) ?ks)"
    using dictionary_preserves_order by blast
  then show ?thesis by (simp add: flushBinary_impl_def)
qed

text \<open>
  C38. The codes run out: of 31 strings in decreasing order, whatever they are, the last one finds no code
  between 0 and the code of its neighbour, and an assertion fails.\<close>

theorem dictionary_codes_run_out:
  assumes "sorted_wrt (>) keys" "length keys = 31"
  shows "encode_all keys = Inl (Assertion ''lower_key < dkey'')"
proof -
  obtain ks key where keys: "keys = ks @ [key]" using assms(2) by (cases keys rule: rev_cases) auto
  have ks: "sorted_wrt (>) ks" "ks \<noteq> []" "length ks \<le> 30" "length ks = 30" using assms keys by (auto simp: sorted_wrt_append)
  obtain d out where d: "encode_all ks = Inr (d, out)" "d \<noteq> []" "length d = length ks" "fst (hd d) = last ks" "fst ` set d = set ks" "snd (hd d) = 1"
    using decreasing_codes [OF ks(1-3)] ks(4) by auto
  have below: "key < fst (hd d)" "map_of d key = None"
    using assms(1) keys ks(2) d(4,5) by (auto simp: sorted_wrt_append map_of_eq_None_iff)
  have "middle_code (lower_code key d) (greater_code key d) = Inl (Assertion ''lower_key < dkey'')"
    using emplace_first [OF d(2) below(1)] d(6) by (simp add: middle_code_eq)
  then have "flushBinarystr key (d, out) = Inl (Assertion ''lower_key < dkey'')" using below(2) d(3) ks(4) by (simp add: flushBinarystr_def)
  then show ?thesis using d(1) keys by (simp add: encode_all_def rfold_snoc)
qed

theorem dictionary_codes_run_out_witness:
  "encode_all (map (\<lambda>i. [of_nat (31 - i)]) [0..<31]) = Inl (Assertion ''lower_key < dkey'')"
proof (rule dictionary_codes_run_out)
  show "sorted_wrt (>) (map (\<lambda>i. [of_nat (31 - i) :: byte]) [0..<31])" by code_simp
qed simp

end
