(* ===== verification/DateExtract.thy ===== *)
theory DateExtract
  imports Prelude "HOL-Library.Signed_Division"
begin

text \<open>
  Extraction of calendar fields from a date
  (\<^verbatim>\<open>visit(ExtractExpression)\<close> of \<^verbatim>\<open>olap/lib/expressions/expressions-generator.cpp\<close>). A date is a 64-bit
  number of milliseconds since 1970. The definitions are the functions that the emitted 64-bit
  instructions compute; they are compared with a calendar that counts days one by one.
\<close>

section \<open>Signed division of machine words\<close>

text \<open>The LLVM instructions sdiv and srem on operands for which they are defined.\<close>

definition ll_sdiv :: "'a :: len word \<Rightarrow> 'a word \<Rightarrow> 'a word" where
  "ll_sdiv a b = word_of_int (sint a sdiv sint b)"

definition ll_srem :: "'a :: len word \<Rightarrow> 'a word \<Rightarrow> 'a word" where
  "ll_srem a b = word_of_int (sint a smod sint b)"

section \<open>The emitted code\<close>

datatype extract_unit =
    MILLISECOND | SECOND | MINUTE | HOUR | DAYOFWEEK | ISO_DAYOFWEEK | DAYOFMONTH | DAYOFYEAR
  | WEEK | MONTH | QUARTER | YEAR | ISO_YEAR | DECADE | CENTURY | MILLENNIUM

definition floorDiv :: "64 word \<Rightarrow> 64 word \<Rightarrow> 64 word" where
  "floorDiv x y =
    (let r = ll_sdiv x y
     in if sint (x XOR y) < 0 \<and> r * y \<noteq> x then r - 1 else r)"

definition floorMod :: "64 word \<Rightarrow> 64 word \<Rightarrow> 64 word" where
  "floorMod x y = x - floorDiv x y * y"

abbreviation MS_PER_S :: "32 word" where
  "MS_PER_S \<equiv> 1000"

abbreviation MS_PER_M :: "32 word" where
  "MS_PER_M \<equiv> 60000"

abbreviation MS_PER_H :: "32 word" where
  "MS_PER_H \<equiv> 3600000"

abbreviation MS_PER_DAY :: "64 word" where
  "MS_PER_DAY \<equiv> 86400000"

abbreviation EPOCH_JULIAN :: "64 word" where
  "EPOCH_JULIAN \<equiv> 2440588"

definition julian :: "64 word \<Rightarrow> 64 word" where
  "julian v = v div MS_PER_DAY + EPOCH_JULIAN"

definition civil_fields :: "64 word \<Rightarrow> 64 word \<times> 64 word \<times> 64 word" where
  "civil_fields v =
    (let j = julian v + 32044;
         g = ll_sdiv j 146097;
         dg = ll_srem j 146097;
         c = ll_sdiv ((ll_sdiv dg 36524 + 1) * 3) 4;
         dc = dg - c * 36524;
         b = ll_sdiv dc 1461;
         db = ll_srem dc 1461;
         a = ll_sdiv ((ll_sdiv db 365 + 1) * 3) 4;
         da = db - a * 365;
         y = (g * 400 + c * 100) + (b * 4 + a);
         m = ll_sdiv (da * 5 + 308) 153 - 2;
         d = (da - ll_sdiv ((m + 4) * 153) 5) + 122
     in ((y - 4800) + ll_sdiv (m + 2) 12, ll_srem (m + 2) 12 + 1, d + 1))"

definition year_of :: "64 word \<Rightarrow> 64 word" where
  "year_of v = fst (civil_fields v)"

definition month_of :: "64 word \<Rightarrow> 64 word" where
  "month_of v = fst (snd (civil_fields v))"

definition day_of :: "64 word \<Rightarrow> 64 word" where
  "day_of v = snd (snd (civil_fields v))"

definition vtime :: "64 word \<Rightarrow> 32 word" where
  "vtime v = ucast (floorMod v MS_PER_DAY)"

fun getYearDiv :: "extract_unit \<Rightarrow> 64 word result" where
  "getYearDiv YEAR = Inr 1"
| "getYearDiv DECADE = Inr 10"
| "getYearDiv CENTURY = Inr 100"
| "getYearDiv MILLENNIUM = Inr 1000"
| "getYearDiv _ = Inl (Assertion ''false'')"

fun getYearAbsOffset :: "extract_unit \<Rightarrow> 64 word result" where
  "getYearAbsOffset YEAR = Inr 0"
| "getYearAbsOffset DECADE = Inr 0"
| "getYearAbsOffset CENTURY = Inr 99"
| "getYearAbsOffset MILLENNIUM = Inr 999"
| "getYearAbsOffset _ = Inl (Assertion ''false'')"

definition year_unit :: "extract_unit \<Rightarrow> (64 word \<Rightarrow> 64 word) result" where
  "year_unit u =
    rbind (getYearAbsOffset u) (\<lambda>aoff.
    rbind (getYearDiv u) (\<lambda>ydiv.
      Inr (\<lambda>v. let year = year_of v;
                   soff = (if sint year > 0 then aoff else - aoff)
               in ll_sdiv (year + soff) ydiv)))"

definition day_of_year_code :: "64 word \<Rightarrow> 64 word" where
  "day_of_year_code v =
    (let y = year_of v + 4799
     in ((365 * y + ll_sdiv y 4) - ll_sdiv y 100) + (ll_sdiv y 400 - 31738))"

text \<open>
  The switch over the unit. Its value is the function that the generated code computes, or the error
  thrown while the code is generated. The last instruction brings the value to the 32 bits of the
  result type.
\<close>

fun visit_Extract :: "extract_unit \<Rightarrow> (64 word \<Rightarrow> 32 word) result" where
  "visit_Extract MILLISECOND = Inr (\<lambda>v. vtime v mod MS_PER_S)"
| "visit_Extract SECOND = Inr (\<lambda>v. (vtime v div MS_PER_S) mod 60)"
| "visit_Extract MINUTE = Inr (\<lambda>v. (vtime v div MS_PER_M) mod 60)"
| "visit_Extract HOUR = Inr (\<lambda>v. vtime v div MS_PER_H)"
| "visit_Extract DAYOFWEEK = Inr (\<lambda>v. ucast (floorMod (julian v + 1) 7 + 1))"
| "visit_Extract ISO_DAYOFWEEK = Inr (\<lambda>v. ucast (floorMod (julian v) 7 + 1))"
| "visit_Extract DAYOFMONTH = Inr (\<lambda>v. ucast (day_of v))"
| "visit_Extract DAYOFYEAR = Inr (\<lambda>v. ucast (day_of_year_code v))"
| "visit_Extract WEEK = Inl (RuntimeError ''[ExpressionGeneratorVisitor]: Unknown extract unit'')"
| "visit_Extract MONTH = Inr (\<lambda>v. ucast (month_of v))"
| "visit_Extract QUARTER = Inr (\<lambda>v. ucast ((month_of v + 2) div 3))"
| "visit_Extract ISO_YEAR = Inl (RuntimeError ''[ExpressionGeneratorVisitor]: Unknown extract unit'')"
| "visit_Extract u = rbind (year_unit u) (\<lambda>f. Inr (\<lambda>v. ucast (f v)))"

section \<open>The calendar\<close>

definition leap_year :: "int \<Rightarrow> bool" where
  "leap_year y \<longleftrightarrow> 4 dvd y \<and> (\<not> 100 dvd y \<or> 400 dvd y)"

definition days_in_month :: "int \<Rightarrow> int \<Rightarrow> int" where
  "days_in_month y m =
    (if m = 2 then if leap_year y then 29 else 28
     else if m = 4 \<or> m = 6 \<or> m = 9 \<or> m = 11 then 30 else 31)"

type_synonym civil_date = "int \<times> int \<times> int"

fun next_day :: "civil_date \<Rightarrow> civil_date" where
  "next_day (y, m, d) =
    (if d < days_in_month y m then (y, m, d + 1)
     else if m < 12 then (y, m + 1, 1) else (y + 1, 1, 1))"

primrec civil :: "nat \<Rightarrow> civil_date" where
  "civil 0 = (1970, 1, 1)"
| "civil (Suc n) = next_day (civil n)"

section \<open>Day numbers\<close>

definition before_year :: "int \<Rightarrow> int" where
  "before_year y = 365 * (y - 1) + (y - 1) div 4 - (y - 1) div 100 + (y - 1) div 400"

definition before_month :: "int \<Rightarrow> int \<Rightarrow> int" where
  "before_month y m =
    (if m = 1 then 0 else if m = 2 then 31
     else (153 * (m - 3) + 2) div 5 + (if leap_year y then 60 else 59))"

fun day_number :: "civil_date \<Rightarrow> int" where
  "day_number (y, m, d) = before_year y + before_month y m + d"

fun valid_date :: "civil_date \<Rightarrow> bool" where
  "valid_date (y, m, d) \<longleftrightarrow> 1 \<le> m \<and> m \<le> 12 \<and> 1 \<le> d \<and> d \<le> days_in_month y m"

lemma div_pred: "(y :: int) div k = (y - 1) div k + (if k dvd y then 1 else 0)" if "k > 1"
proof (cases "k dvd y")
  case True
  then obtain q where q: "y = k * q" by (rule dvdE)
  have "(k * q - 1) div k = (k * (q - 1) + (k - 1)) div k" by (simp add: algebra_simps)
  also have "\<dots> = q - 1" using that by (subst div_mult_self4) auto
  finally show ?thesis using True q that by simp
next
  case False
  then have "y mod k \<noteq> 0" by (simp add: dvd_eq_mod_eq_0)
  moreover have "0 \<le> y mod k" "y mod k < k" using that by auto
  ultimately have "0 \<le> y mod k - 1" "y mod k - 1 < k" by linarith+
  moreover have "y - 1 = k * (y div k) + (y mod k - 1)" by simp
  ultimately have "(y - 1) div k = y div k" by (rule int_div_pos_eq [rotated])
  with False show ?thesis by simp
qed

lemma leap_day_count:
  assumes "d400 \<Longrightarrow> d100" "d100 \<Longrightarrow> d4"
  shows "365 * y + (p + (if d4 then 1 else 0)) - (q + (if d100 then 1 else 0)) + (r + (if d400 then 1 else 0)) =
    365 * (y - 1) + p - q + r + (if d4 \<and> (\<not> d100 \<or> d400) then 366 else 365 :: int)"
  using assms by (cases d4; cases d100; cases d400; simp)

lemma before_year_Suc: "before_year (y + 1) = before_year y + (if leap_year y then 366 else 365)"
proof -
  have dvd: "400 dvd y \<Longrightarrow> 100 dvd y" "100 dvd y \<Longrightarrow> 4 dvd y"
    by (erule dvd_trans [rotated], simp)+
  have "before_year (y + 1) = 365 * y + y div 4 - y div 100 + y div 400"
    unfolding before_year_def by (simp only: add_diff_cancel_right')
  also have "\<dots> = 365 * y + ((y - 1) div 4 + (if 4 dvd y then 1 else 0)) -
      ((y - 1) div 100 + (if 100 dvd y then 1 else 0)) + ((y - 1) div 400 + (if 400 dvd y then 1 else 0))"
    by (simp only: div_pred [of 4 y] div_pred [of 100 y] div_pred [of 400 y] one_less_numeral_iff semiring_norm)
  also have "\<dots> = before_year y + (if leap_year y then 366 else 365)"
    unfolding before_year_def leap_year_def by (rule leap_day_count) (fact dvd)+
  finally show ?thesis .
qed

lemma month_cases:
  "1 \<le> (m :: int) \<Longrightarrow> m \<le> 12 \<Longrightarrow>
    m = 1 \<or> m = 2 \<or> m = 3 \<or> m = 4 \<or> m = 5 \<or> m = 6 \<or> m = 7 \<or> m = 8 \<or> m = 9 \<or> m = 10 \<or> m = 11 \<or> m = 12"
  by arith

lemma before_month_Suc:
  assumes "1 \<le> m" "m < 12"
  shows "before_month y (m + 1) = before_month y m + days_in_month y m"
proof -
  have "m = 1 \<or> m = 2 \<or> m = 3 \<or> m = 4 \<or> m = 5 \<or> m = 6 \<or> m = 7 \<or> m = 8 \<or> m = 9 \<or> m = 10 \<or> m = 11"
    using month_cases [of m] assms by simp
  then show ?thesis by (elim disjE; simp add: before_month_def days_in_month_def)
qed

lemma next_day_number:
  assumes "valid_date x"
  shows "valid_date (next_day x) \<and> day_number (next_day x) = day_number x + 1"
proof -
  obtain y m d where x: "x = (y, m, d)" by (cases x)
  have pos: "1 \<le> days_in_month y' m'" for y' m' by (simp add: days_in_month_def)
  consider "d < days_in_month y m" | "d = days_in_month y m" "m < 12" | "d = days_in_month y m" "m = 12"
    using assms x by force
  then show ?thesis
  proof cases
    case 1
    then show ?thesis using assms x by simp
  next
    case 2
    then show ?thesis using assms x pos before_month_Suc [of m y] by simp
  next
    case 3
    then show ?thesis using assms x pos before_year_Suc [of y]
      by (auto simp: before_month_def days_in_month_def)
  qed
qed

lemma civil_number: "valid_date (civil n) \<and> day_number (civil n) = int n + 719163"
proof (induction n)
  case 0
  show ?case by (simp add: before_year_def before_month_def days_in_month_def)
next
  case (Suc n)
  then have "valid_date (next_day (civil n))" "day_number (next_day (civil n)) = int n + 719163 + 1"
    using next_day_number [of "civil n"] by metis+
  then show ?case unfolding civil.simps of_nat_Suc by linarith
qed

lemma before_year_less: "y < y' \<Longrightarrow> before_year (y + 1) \<le> before_year y'"
proof (induction "nat (y' - y - 1)" arbitrary: y')
  case 0
  then have "y' = y + 1" by simp
  then show ?case by simp
next
  case (Suc n)
  then have "before_year (y + 1) \<le> before_year (y' - 1)" by simp
  then show ?case using before_year_Suc [of "y' - 1"] by (simp split: if_splits)
qed

lemma before_month_less: "1 \<le> m \<Longrightarrow> m < m' \<Longrightarrow> m' \<le> 12 \<Longrightarrow> before_month y (m + 1) \<le> before_month y m'"
  by (auto simp: before_month_def zdiv_mono1)

lemma month_part:
  assumes "valid_date (y, m, d)"
  shows "0 \<le> before_month y m"
    and "m < 12 \<Longrightarrow> before_month y m + d \<le> before_month y (m + 1)"
    and "before_month y m + d \<le> (if leap_year y then 366 else 365)"
proof -
  have "3 \<le> m \<Longrightarrow> 0 \<le> (153 * (m - 3) + 2) div 5" by (subst pos_imp_zdiv_nonneg_iff) auto
  then show "0 \<le> before_month y m" using assms unfolding before_month_def by auto
  show "m < 12 \<Longrightarrow> before_month y m + d \<le> before_month y (m + 1)"
    using assms before_month_Suc [of m y] by simp
  have "m < 12 \<or> m = 12" using assms by auto
  then show "before_month y m + d \<le> (if leap_year y then 366 else 365)"
  proof
    assume m: "m < 12"
    have "before_month y (m + 1) \<le> before_month y 12"
      using before_month_less [of m 12 y] assms m by simp
    moreover have "before_month y 12 \<le> (if leap_year y then 366 else 365)" by (simp add: before_month_def)
    moreover have "before_month y (m + 1) = before_month y m + days_in_month y m" "d \<le> days_in_month y m"
      using assms m before_month_Suc [of m y] by simp_all
    ultimately show ?thesis by linarith
  next
    assume "m = 12"
    then show ?thesis using assms by (simp add: before_month_def days_in_month_def)
  qed
qed

lemma day_number_inj:
  assumes x: "valid_date (y, m, d)" and x': "valid_date (y', m', d')"
    and eq: "day_number (y, m, d) = day_number (y', m', d')"
  shows "(y, m, d) = (y', m', d')"
proof -
  note year = before_year_less [of y y'] before_year_less [of y' y] before_year_Suc [of y] before_year_Suc [of y']
    month_part(1,3) [OF x] month_part(1,3) [OF x']
  have "1 \<le> d" "1 \<le> d'" using x x' by auto
  then have y: "y = y'" using year eq by (cases y y' rule: linorder_cases) auto
  have "1 \<le> m" "m \<le> 12" "1 \<le> m'" "m' \<le> 12" using x x' by auto
  then have m: "m = m'"
    using before_month_less [of m m' y] before_month_less [of m' m y] month_part(2) [OF x] month_part(2) [OF x']
      eq y \<open>1 \<le> d\<close> \<open>1 \<le> d'\<close>
    by (cases m m' rule: linorder_cases) auto
  show ?thesis using eq y m by simp
qed

section \<open>The arithmetic of the code over the integers\<close>

definition quarter :: "int \<Rightarrow> int \<Rightarrow> int" where
  "quarter k x = (x div k + 1) * 3 div 4"

definition ymd :: "int \<Rightarrow> civil_date" where
  "ymd j =
    (let g = j div 146097;
         dg = j mod 146097;
         c = quarter 36524 dg;
         dc = dg - c * 36524;
         b = dc div 1461;
         db = dc mod 1461;
         a = quarter 365 db;
         da = db - a * 365;
         y = (g * 400 + c * 100) + (b * 4 + a);
         m = (da * 5 + 308) div 153 - 2;
         d = (da - (m + 4) * 153 div 5) + 122
     in ((y - 4800) + (m + 2) div 12, (m + 2) mod 12 + 1, d + 1))"

lemma quarter_bounds:
  assumes "0 < k" "0 \<le> x" "x \<le> 4 * k"
  shows "0 \<le> quarter k x" "quarter k x \<le> 3" "0 \<le> x - quarter k x * k" "x - quarter k x * k \<le> k"
    and "x - quarter k x * k = k \<Longrightarrow> quarter k x = 3"
proof -
  define q r where "q = x div k" and "r = x mod k"
  have x: "x = k * q + r" "0 \<le> r" "r < k" using assms(1) by (simp_all add: q_def r_def)
  have "0 \<le> q" using assms by (simp add: q_def pos_imp_zdiv_nonneg_iff)
  have "q < 5"
  proof (rule ccontr)
    assume "\<not> q < 5"
    then have "k * 5 \<le> k * q" using assms(1) by simp
    then show False using x assms by linarith
  qed
  then consider "q = 0" | "q = 1" | "q = 2" | "q = 3" | "q = 4" using \<open>0 \<le> q\<close> by linarith
  then have "(quarter k x = q \<and> q \<le> 3) \<or> (quarter k x = 3 \<and> q = 4)"
    unfolding quarter_def q_def [symmetric] by cases simp_all
  then show "0 \<le> quarter k x" "quarter k x \<le> 3" "0 \<le> x - quarter k x * k" "x - quarter k x * k \<le> k"
    "x - quarter k x * k = k \<Longrightarrow> quarter k x = 3"
    using x assms \<open>0 \<le> q\<close> by (auto simp: algebra_simps)
qed

text \<open>The month that starts in March, for each of the 366 days that follow the first of March.\<close>

definition month_ok :: "int \<Rightarrow> bool" where
  "month_ok da =
    (let m = (da * 5 + 308) div 153 - 2; d = (da - (m + 4) * 153 div 5) + 122
     in 0 \<le> m \<and> m \<le> 11 \<and> da = (153 * m + 2) div 5 + d \<and> 0 \<le> d \<and>
        (if m = 11 then d \<le> 27 \<or> (d = 28 \<and> da = 365) else d + 1 \<le> days_in_month 0 ((m + 2) mod 12 + 1)))"

lemma month_ok_all: "list_all month_ok [0..365]"
  by code_simp

lemma month_ok: "0 \<le> da \<Longrightarrow> da \<le> 365 \<Longrightarrow> month_ok da"
  using month_ok_all by (simp add: list_all_iff)

lemma before_year_4800: "before_year (y + 1 - 4800) = 365 * y + y div 4 - y div 100 + y div 400 - 1753164"
proof -
  have "(y - 4800) div 4 = y div 4 - 1200" "(y - 4800) div 100 = y div 100 - 48" "(y - 4800) div 400 = y div 400 - 12"
    using div_mult_self1 [of 4 y "- 1200"] div_mult_self1 [of 100 y "- 48"] div_mult_self1 [of 400 y "- 12"] by simp_all
  moreover have "y + 1 - 4800 - 1 = y - 4800" by simp
  moreover have "365 * (y - 4800) + (p - 1200) - (q - 48) + (r - 12) = 365 * y + p - q + r - 1753164" for p q r by simp
  ultimately show ?thesis unfolding before_year_def by (simp only:)
qed

lemma march_year:
  assumes "month_ok da" and m: "m = (da * 5 + 308) div 153 - 2" and d: "d = (da - (m + 4) * 153 div 5) + 122"
    and leap: "da = 365 \<Longrightarrow> leap_year (y + 1 - 4800)"
  shows "valid_date ((y - 4800) + (m + 2) div 12, (m + 2) mod 12 + 1, d + 1) \<and>
    day_number ((y - 4800) + (m + 2) div 12, (m + 2) mod 12 + 1, d + 1) =
      365 * y + y div 4 - y div 100 + y div 400 + da - 1753469"
proof -
  have ok: "0 \<le> m" "m \<le> 11" "da = (153 * m + 2) div 5 + d" "0 \<le> d"
      "m = 11 \<Longrightarrow> d \<le> 27 \<or> (d = 28 \<and> da = 365)"
      "m \<noteq> 11 \<Longrightarrow> d + 1 \<le> days_in_month 0 ((m + 2) mod 12 + 1)"
    using assms(1) m d by (simp_all add: month_ok_def Let_def split: if_splits)
  consider "m \<le> 9" | "m = 10" | "m = 11" using ok(1,2) by linarith
  then show ?thesis
  proof cases
    case 1
    then have *: "(m + 2) div 12 = 0" "(m + 2) mod 12 = m + 2" using ok(1) by (simp_all add: div_pos_pos_trivial)
    have "days_in_month (y - 4800) (m + 3) = days_in_month 0 (m + 3)" using ok(1) by (simp add: days_in_month_def)
    moreover have "before_year (y - 4800) + (if leap_year (y - 4800) then 60 else 59) = before_year (y + 1 - 4800) - 306"
      using before_year_Suc [of "y - 4800"] by (auto simp: algebra_simps)
    ultimately show ?thesis using 1 ok(1,3,4,6) * before_year_4800 [of y] by (auto simp: before_month_def algebra_simps)
  next
    case 2
    then show ?thesis using ok(3,4,6) before_year_4800 [of y] by (auto simp: before_month_def days_in_month_def algebra_simps)
  next
    case 3
    then show ?thesis using ok(3-5) leap before_year_4800 [of y] by (auto simp: before_month_def days_in_month_def algebra_simps)
  qed
qed

lemma year_parts:
  assumes "0 \<le> a" "a \<le> 3" "0 \<le> b" "b \<le> 24" "0 \<le> c" "c \<le> 3"
  shows "((g * 400 + c * 100) + (b * 4 + a)) div 4 = 100 * g + 25 * c + (b :: int)"
    and "((g * 400 + c * 100) + (b * 4 + a)) div 100 = 4 * g + c"
    and "((g * 400 + c * 100) + (b * 4 + a)) div 400 = g"
  using assms by auto

text \<open>The parts that the code splits a day number into.\<close>

lemma ymd_bounds:
  assumes "0 \<le> j" and parts: "g = j div 146097" "dg = j mod 146097" "c = quarter 36524 dg" "dc = dg - c * 36524"
    "b = dc div 1461" "db = dc mod 1461" "a = quarter 365 db" "da = db - a * 365"
  shows "0 \<le> g" "0 \<le> dg" "dg \<le> 146096" "0 \<le> c" "c \<le> 3" "0 \<le> dc" "dc \<le> 36524" "dc = 36524 \<Longrightarrow> c = 3"
    "0 \<le> b" "b \<le> 24" "0 \<le> db" "db \<le> 1460" "0 \<le> a" "a \<le> 3" "0 \<le> da" "da \<le> 365" "da = 365 \<Longrightarrow> a = 3"
proof -
  show dg: "0 \<le> g" "0 \<le> dg" "dg \<le> 146096"
    using assms(1) pos_mod_bound [of 146097 j] by (simp_all add: parts(1,2) pos_imp_zdiv_nonneg_iff)
  show c: "0 \<le> c" "c \<le> 3" "0 \<le> dc" "dc \<le> 36524" "dc = 36524 \<Longrightarrow> c = 3"
    using quarter_bounds [of 36524 dg] dg unfolding parts(3,4) by simp_all
  show db: "0 \<le> db" "db \<le> 1460" using pos_mod_bound [of 1461 dc] by (simp_all add: parts(6))
  have "dc div 1461 \<le> 36524 div 1461" using c(4) by (intro zdiv_mono1) simp_all
  then show "0 \<le> b" "b \<le> 24" using c(3) by (simp_all add: parts(5) pos_imp_zdiv_nonneg_iff)
  show "0 \<le> a" "a \<le> 3" "0 \<le> da" "da \<le> 365" "da = 365 \<Longrightarrow> a = 3"
    using quarter_bounds [of 365 db] db unfolding parts(7,8) by simp_all
qed

lemma ymd_correct:
  assumes "0 \<le> j"
  shows "valid_date (ymd j) \<and> day_number (ymd j) = j - 1753469"
proof -
  define g dg where parts1: "g = j div 146097" "dg = j mod 146097"
  define c where parts2: "c = quarter 36524 dg"
  define dc where parts3: "dc = dg - c * 36524"
  define b db where parts4: "b = dc div 1461" "db = dc mod 1461"
  define a where parts5: "a = quarter 365 db"
  define da where parts6: "da = db - a * 365"
  note parts = parts1 parts2 parts3 parts4 parts5 parts6
  note bounds = ymd_bounds [OF assms parts]
  define y where "y = (g * 400 + c * 100) + (b * 4 + a)"
  note div = year_parts [OF bounds(13,14,9,10,4,5), of g, folded y_def]
  have j: "j = 365 * y + y div 4 - y div 100 + y div 400 + da"
  proof -
    have "j = 146097 * g + dg" by (simp add: parts1)
    moreover have "dg = c * 36524 + dc" by (simp add: parts3)
    moreover have "dc = 1461 * b + db" by (simp add: parts4)
    moreover have "db = a * 365 + da" by (simp add: parts6)
    ultimately have "j = 146097 * g + (c * 36524 + (1461 * b + (a * 365 + da)))" by (simp only:)
    then show ?thesis unfolding div unfolding y_def by simp
  qed
  have leap: "leap_year (y + 1 - 4800)" if "da = 365"
  proof -
    have a: "a = 3" using that bounds(17) by simp
    have "db = 1460" using that parts(8) a by simp
    then have "b = 24 \<Longrightarrow> c = 3" using parts(5,6) bounds(8) mult_div_mod_eq [of 1461 dc] by simp
    then have "b = 24 \<Longrightarrow> y + 1 - 4800 = 400 * (g + 1 - 12)" using a by (simp add: y_def)
    then have "b = 24 \<Longrightarrow> leap_year (y + 1 - 4800)" by (simp add: leap_year_def)
    moreover have four: "y + 1 - 4800 = 4 * (100 * g + 25 * c + b + 1 - 1200)" using a by (simp add: y_def)
    moreover have "\<not> 100 dvd y + 1 - 4800" if "b \<noteq> 24"
    proof -
      have "0 < 4 * b + 4" "4 * b + 4 < 100" using bounds(9,10) that by auto
      then have "\<not> 100 dvd 4 * b + 4" by (simp only: zdvd_not_zless) (auto dest: zdvd_not_zless)
      moreover have "y + 1 - 4800 = (4 * b + 4) + 100 * (4 * g + c - 48)" using a by (simp add: y_def)
      ultimately show ?thesis by (simp only: dvd_add_times_triv_right_iff) (metis dvd_add_left_iff dvd_triv_left)
    qed
    ultimately show ?thesis unfolding leap_year_def by (metis dvd_triv_left)
  qed
  have "ymd j = ((y - 4800) + ((da * 5 + 308) div 153 - 2 + 2) div 12, ((da * 5 + 308) div 153 - 2 + 2) mod 12 + 1,
      (da - ((da * 5 + 308) div 153 - 2 + 4) * 153 div 5) + 122 + 1)"
    unfolding ymd_def Let_def parts(1-8) y_def by simp
  then show ?thesis using march_year [OF month_ok [OF bounds(15,16)] refl refl, of y] leap j by simp
qed

lemma civil_ymd: "civil n = ymd (int n + 2472632)"
proof -
  obtain y m d y' m' d' where c: "civil n = (y, m, d)" and e: "ymd (int n + 2472632) = (y', m', d')"
    by (metis prod_cases3)
  show ?thesis using civil_number [of n] ymd_correct [of "int n + 2472632"] day_number_inj [of y m d y' m' d']
    unfolding c e by simp
qed

section \<open>From machine words to integers\<close>

abbreviation W :: "int \<Rightarrow> 64 word" where
  "W \<equiv> of_int"

lemma sint_W: "0 \<le> a \<Longrightarrow> a < 2 ^ 63 \<Longrightarrow> sint (W a) = a"
  by (simp add: signed_of_int signed_take_bit_int_eq_self)

lemma uint_W: "0 \<le> a \<Longrightarrow> a < 2 ^ 64 \<Longrightarrow> uint (W a) = a"
  by (simp add: unsigned_of_int take_bit_int_eq_self)

lemma ll_sdiv_W: "0 \<le> a \<Longrightarrow> a < 2 ^ 63 \<Longrightarrow> 0 < b \<Longrightarrow> b < 2 ^ 63 \<Longrightarrow> ll_sdiv (W a) (W b) = W (a div b)"
  by (cases "a = 0") (simp_all add: ll_sdiv_def sint_W signed_divide_int_def)

lemma ll_srem_W: "0 \<le> a \<Longrightarrow> a < 2 ^ 63 \<Longrightarrow> 0 < b \<Longrightarrow> b < 2 ^ 63 \<Longrightarrow> ll_srem (W a) (W b) = W (a mod b)"
  by (cases "a = 0") (simp_all add: ll_srem_def sint_W signed_modulo_int_def signed_divide_int_def minus_mult_div_eq_mod mult.commute)

lemma udiv_W: "0 \<le> a \<Longrightarrow> a < 2 ^ 64 \<Longrightarrow> 0 < b \<Longrightarrow> b < 2 ^ 64 \<Longrightarrow> W a div W b = W (a div b)"
  by (simp add: word_div_def uint_W)

lemma umod_W: "0 \<le> a \<Longrightarrow> a < 2 ^ 64 \<Longrightarrow> 0 < b \<Longrightarrow> b < 2 ^ 64 \<Longrightarrow> W a mod W b = W (a mod b)"
  by (simp add: word_mod_def uint_W)

lemma floorMod_W:
  assumes "0 \<le> a" "a < 2 ^ 63" "0 < b" "b < 2 ^ 63"
  shows "floorMod (W a) (W b) = W (a mod b)"
proof -
  have "sint (W a XOR W b) = a XOR b" using sint_W assms
    by (simp add: signed_xor_eq)
  moreover have "0 \<le> a XOR b" using assms by simp
  ultimately have "floorDiv (W a) (W b) = W (a div b)" using assms by (simp add: floorDiv_def ll_sdiv_W)
  then show ?thesis by (simp add: floorMod_def minus_div_mult_eq_mod flip: of_int_mult of_int_diff)
qed


lemma quarter_W:
  assumes "0 \<le> x" "x < 2 ^ 60" "0 < k" "k < 2 ^ 63"
  shows "ll_sdiv ((ll_sdiv (W x) (W k) + 1) * 3) 4 = W (quarter k x)"
proof -
  have "x div k \<le> x" using zdiv_mono2 [of x 1 k] assms by simp
  moreover have "0 \<le> x div k" using assms by (simp add: pos_imp_zdiv_nonneg_iff)
  ultimately have "0 \<le> (x div k + 1) * 3" "(x div k + 1) * 3 < 2 ^ 63" using assms by auto
  then show ?thesis using ll_sdiv_W [of "(x div k + 1) * 3" 4] ll_sdiv_W [of x k] assms by (simp add: quarter_def)
qed

fun W3 :: "civil_date \<Rightarrow> 64 word \<times> 64 word \<times> 64 word" where
  "W3 (y, m, d) = (W y, W m, W d)"

lemma civil_fields_W:
  assumes "0 \<le> t" "t < 2 ^ 64"
  shows "julian (W t) = W (t div 86400000 + 2440588)" "civil_fields (W t) = W3 (ymd (t div 86400000 + 2472632))"
proof -
  define j where "j = t div 86400000 + 2472632"
  have "t div 86400000 \<le> 2 ^ 64 div 86400000" using assms by (intro zdiv_mono1) simp_all
  moreover have "0 \<le> t div 86400000" using assms by (simp add: pos_imp_zdiv_nonneg_iff)
  ultimately have j: "0 \<le> j" "j < 2 ^ 40" by (simp_all add: j_def)
  show jul: "julian (W t) = W (t div 86400000 + 2440588)" using udiv_W [of t 86400000] assms by (simp add: julian_def)
  define g dg where parts1: "g = j div 146097" "dg = j mod 146097"
  define c where parts2: "c = quarter 36524 dg"
  define dc where parts3: "dc = dg - c * 36524"
  define b db where parts4: "b = dc div 1461" "db = dc mod 1461"
  define a where parts5: "a = quarter 365 db"
  define da where parts6: "da = db - a * 365"
  define m where m: "m = (da * 5 + 308) div 153 - 2"
  note bounds = ymd_bounds [OF j(1) parts1 parts2 parts3 parts4 parts5 parts6]
  have mb: "0 \<le> m" "m \<le> 11" using month_ok [OF bounds(15,16)] by (simp_all add: month_ok_def Let_def m)
  have w1: "julian (W t) + 32044 = W j" by (simp add: jul j_def)
  have w2: "ll_sdiv (W j) 146097 = W g" "ll_srem (W j) 146097 = W dg"
    using ll_sdiv_W [of j 146097] ll_srem_W [of j 146097] j by (simp_all add: parts1)
  have w3: "ll_sdiv ((ll_sdiv (W dg) 36524 + 1) * 3) 4 = W c" using quarter_W [of dg 36524] bounds(2,3) by (simp add: parts2)
  have w4: "W dg - W c * 36524 = W dc" by (simp add: parts3)
  have w5: "ll_sdiv (W dc) 1461 = W b" "ll_srem (W dc) 1461 = W db"
    using ll_sdiv_W [of dc 1461] ll_srem_W [of dc 1461] bounds(6,7) by (simp_all add: parts4)
  have w6: "ll_sdiv ((ll_sdiv (W db) 365 + 1) * 3) 4 = W a" using quarter_W [of db 365] bounds(11,12) by (simp add: parts5)
  have w7: "W db - W a * 365 = W da" by (simp add: parts6)
  have w8: "ll_sdiv (W da * 5 + 308) 153 - 2 = W m"
    using ll_sdiv_W [of "da * 5 + 308" 153] bounds(15,16) by (simp add: m)
  have w9: "ll_sdiv ((W m + 4) * 153) 5 = W ((m + 4) * 153 div 5)" using ll_sdiv_W [of "(m + 4) * 153" 5] mb by simp
  have w10: "ll_sdiv (W m + 2) 12 = W ((m + 2) div 12)" "ll_srem (W m + 2) 12 = W ((m + 2) mod 12)"
    using ll_sdiv_W [of "m + 2" 12] ll_srem_W [of "m + 2" 12] mb by simp_all
  have "ymd j = (g * 400 + c * 100 + (b * 4 + a) - 4800 + (m + 2) div 12, (m + 2) mod 12 + 1,
      da - (m + 4) * 153 div 5 + 122 + 1)"
    unfolding ymd_def Let_def parts1 parts2 parts3 parts4 parts5 parts6 m by (rule refl)
  then show "civil_fields (W t) = W3 (ymd (t div 86400000 + 2472632))"
    unfolding civil_fields_def Let_def w1 w2 w3 w4 w5 w6 w7 w8 w9 w10 j_def [symmetric] by simp
qed

lemma civil_year_ge: "civil n = (y, m, d) \<Longrightarrow> 1970 \<le> y"
proof (induction n arbitrary: y m d)
  case (Suc n)
  obtain y' m' d' where "civil n = (y', m', d')" by (metis prod_cases3)
  then show ?case using Suc.IH [of y' m' d'] Suc.prems by (auto split: if_splits)
qed simp

lemma civil_bounds:
  assumes "civil n = (y, m, d)"
  shows "1970 \<le> y" "365 * (y - 1) \<le> int n + 719163" "1 \<le> m" "m \<le> 12" "1 \<le> d" "d \<le> 31"
proof -
  show y: "1970 \<le> y" by (rule civil_year_ge [OF assms])
  have v: "valid_date (y, m, d)" "before_year y + before_month y m + d = int n + 719163"
    using civil_number [of n] by (simp_all add: assms)
  have "(y - 1) div 100 \<le> (y - 1) div 4" "0 \<le> (y - 1) div 400"
    using zdiv_mono2 [of "y - 1" 4 100] y by (simp_all add: pos_imp_zdiv_nonneg_iff)
  then have "365 * (y - 1) \<le> before_year y" unfolding before_year_def by linarith
  then show "365 * (y - 1) \<le> int n + 719163" using v month_part(1) [OF v(1)] by simp
  show "1 \<le> m" "m \<le> 12" "1 \<le> d" "d \<le> 31" using v(1) by (auto simp: days_in_month_def split: if_splits)
qed

lemma civil_of_number:
  assumes "valid_date (y, m, d)" "day_number (y, m, d) = int n + 719163"
  shows "civil n = (y, m, d)"
proof -
  obtain y' m' d' where c: "civil n = (y', m', d')" by (metis prod_cases3)
  then show ?thesis using civil_number [of n] day_number_inj [of y m d y' m' d'] assms by simp
qed

lemma first_of_year:
  assumes "civil n = (y, m, d)"
  obtains n0 where "n0 \<le> n" "civil n0 = (y, 1, 1)" "int n0 = before_year y - 719162"
proof -
  have "1970 \<le> y" by (rule civil_year_ge [OF assms])
  then have "before_year 1970 \<le> before_year y" using before_year_less [of 1969 y] by (cases "y = 1970") auto
  moreover have "before_year 1970 = 719162" by (simp add: before_year_def)
  ultimately have ge: "719162 \<le> before_year y" by simp
  then have n0: "int (nat (before_year y - 719162)) = before_year y - 719162" by simp
  have "civil (nat (before_year y - 719162)) = (y, 1, 1)"
    by (rule civil_of_number) (simp_all add: ge before_month_def days_in_month_def)
  moreover have "before_year y - 719162 \<le> int n"
    using civil_number [of n] month_part(1) [of y m d] by (simp add: assms)
  then have "nat (before_year y - 719162) \<le> n" using n0 by linarith
  ultimately show ?thesis using that n0 by blast
qed

section \<open>The extracted fields\<close>

definition extract_at :: "extract_unit \<Rightarrow> 64 word \<Rightarrow> int result" where
  "extract_at u v = rbind (visit_Extract u) (\<lambda>f. Inr (sint (f v)))"

lemma ucast_W: "0 \<le> a \<Longrightarrow> a < 2 ^ 64 \<Longrightarrow> ucast (W a) = (of_int a :: 32 word)"
  by (simp only: ucast_eq uint_W)

lemma sint_V: "0 \<le> a \<Longrightarrow> a < 2 ^ 31 \<Longrightarrow> sint (of_int a :: 32 word) = a"
  by (simp add: signed_of_int signed_take_bit_int_eq_self)

lemma sint_ucast_W: "0 \<le> a \<Longrightarrow> a < 2 ^ 31 \<Longrightarrow> sint (ucast (W a) :: 32 word) = a"
  by (simp add: ucast_W sint_V)

lemma udiv_V: "0 \<le> a \<Longrightarrow> a < 2 ^ 32 \<Longrightarrow> 0 < b \<Longrightarrow> b < 2 ^ 32 \<Longrightarrow> (of_int a :: 32 word) div of_int b = of_int (a div b)"
  by (simp add: word_div_def unsigned_of_int take_bit_int_eq_self)

lemma umod_V: "0 \<le> a \<Longrightarrow> a < 2 ^ 32 \<Longrightarrow> 0 < b \<Longrightarrow> b < 2 ^ 32 \<Longrightarrow> (of_int a :: 32 word) mod of_int b = of_int (a mod b)"
  by (simp add: word_mod_def unsigned_of_int take_bit_int_eq_self)

lemma vtime_W:
  assumes "0 \<le> t" "t < 2 ^ 63"
  shows "vtime (W t) = of_int (t mod 86400000)"
proof -
  have "t mod 86400000 < 86400000" by simp
  then show ?thesis using floorMod_W [of t 86400000] assms by (simp add: vtime_def ucast_W)
qed

lemma civil_words:
  assumes "0 \<le> t" "t < 2 ^ 64" "civil (nat (t div 86400000)) = (y, m, d)"
  shows "year_of (W t) = W y" "month_of (W t) = W m" "day_of (W t) = W d"
proof -
  have "0 \<le> t div 86400000" using assms by (simp add: pos_imp_zdiv_nonneg_iff)
  then have "ymd (t div 86400000 + 2472632) = (y, m, d)" using civil_ymd [of "nat (t div 86400000)"] assms(3) by simp
  then show "year_of (W t) = W y" "month_of (W t) = W m" "day_of (W t) = W d"
    using civil_fields_W(2) [OF assms(1,2)] by (simp_all add: year_of_def month_of_def day_of_def)
qed

lemma year_unit_W:
  assumes "0 \<le> t" "t < 2 ^ 64" "civil (nat (t div 86400000)) = (y, m, d)" "y < 2 ^ 30"
    and "getYearAbsOffset u = Inr (W aoff)" "getYearDiv u = Inr (W k)" "0 \<le> aoff" "aoff \<le> 999" "0 < k" "k \<le> 1000"
  shows "\<exists>f. year_unit u = Inr f \<and> sint (ucast (f (W t)) :: 32 word) = (y + aoff) div k"
proof -
  have y: "0 < y" using civil_year_ge [OF assms(3)] by simp
  have q: "0 \<le> (y + aoff) div k" "(y + aoff) div k \<le> y + aoff"
    using zdiv_mono2 [of "y + aoff" 1 k] y assms by (simp_all add: pos_imp_zdiv_nonneg_iff)
  have "sint (W y) = y" using y assms(4) by (intro sint_W) simp_all
  moreover have "ll_sdiv (W y + W aoff) (W k) = W ((y + aoff) div k)"
    using ll_sdiv_W [of "y + aoff" k] y assms by simp
  ultimately show ?thesis
    using y q assms(4,8) civil_words(1) [OF assms(1-3)] by (simp add: year_unit_def assms(5,6) Let_def sint_ucast_W)
qed

lemma day_of_year_code_W:
  assumes "0 \<le> t" "t < 2 ^ 64" "civil (nat (t div 86400000)) = (y, m, d)" "y < 2 ^ 30"
  shows "day_of_year_code (W t) = W (before_year y + 1721426)"
proof -
  define y' where "y' = y + 4799"
  have y': "0 \<le> y'" "y' < 2 ^ 31" using civil_year_ge [OF assms(3)] assms(4) by (simp_all add: y'_def)
  have "year_of (W t) + 4799 = W y'" using civil_words(1) [OF assms(1-3)] by (simp add: y'_def)
  moreover have "ll_sdiv (W y') 4 = W (y' div 4)" "ll_sdiv (W y') 100 = W (y' div 100)" "ll_sdiv (W y') 400 = W (y' div 400)"
    using ll_sdiv_W [of y' 4] ll_sdiv_W [of y' 100] ll_sdiv_W [of y' 400] y' by simp_all
  ultimately have "day_of_year_code (W t) = W (((365 * y' + y' div 4) - y' div 100) + (y' div 400 - 31738))"
    by (simp add: day_of_year_code_def Let_def)
  moreover have "((365 * y' + y' div 4) - y' div 100) + (y' div 400 - 31738) = before_year y + 1721426"
    using before_year_4800 [of y'] by (simp add: y'_def)
  ultimately show ?thesis by simp
qed

lemma mod_mult_div: "0 < b \<Longrightarrow> 0 < c \<Longrightarrow> p = b * c \<Longrightarrow> a mod p div b = a div b mod (c :: int)"
  by (simp add: zmod_zmult2_eq div_add1_eq)

lemma time_fields:
  assumes "0 \<le> T" "T < 2 ^ 63"
  shows "extract_at HOUR (W T) = Inr (T div 3600000 mod 24)" "extract_at MINUTE (W T) = Inr (T div 60000 mod 60)"
    "extract_at SECOND (W T) = Inr (T div 1000 mod 60)"
proof -
  define s where "s = T mod 86400000"
  have s: "0 \<le> s" "s < 86400000" by (simp_all add: s_def)
  have q: "0 \<le> s div k" "s div k \<le> s" if "0 < k" for k
    using zdiv_mono2 [of s 1 k] s that by (simp_all add: pos_imp_zdiv_nonneg_iff)
  have d: "(of_int s :: 32 word) div 3600000 = of_int (s div 3600000)" "(of_int s :: 32 word) div 60000 = of_int (s div 60000)"
      "(of_int s :: 32 word) div 1000 = of_int (s div 1000)"
    using udiv_V [of s 3600000] udiv_V [of s 60000] udiv_V [of s 1000] s by simp_all
  have m: "(of_int (s div 60000) :: 32 word) mod 60 = of_int (s div 60000 mod 60)"
      "(of_int (s div 1000) :: 32 word) mod 60 = of_int (s div 1000 mod 60)"
    using umod_V [of "s div 60000" 60] umod_V [of "s div 1000" 60] q [of 60000] q [of 1000] s by simp_all
  have e: "s div 3600000 = T div 3600000 mod 24" "s div 60000 mod 60 = T div 60000 mod 60" "s div 1000 mod 60 = T div 1000 mod 60"
    unfolding s_def
    by (rule mod_mult_div, simp_all only: mod_mult_div [of 60000 1440 86400000] mod_mult_div [of 1000 86400 86400000])
      (simp_all add: mod_mod_cancel)
  have small: "x mod 24 < 2 ^ 31" "x mod 60 < 2 ^ 31" for x :: int
    using order.strict_trans [of "x mod 24" 24 "2 ^ 31"] order.strict_trans [of "x mod 60" 60 "2 ^ 31"] by simp_all
  show "extract_at HOUR (W T) = Inr (T div 3600000 mod 24)" "extract_at MINUTE (W T) = Inr (T div 60000 mod 60)"
    "extract_at SECOND (W T) = Inr (T div 1000 mod 60)"
    by (simp_all add: extract_at_def vtime_W [OF assms] s_def [symmetric] d m e small sint_V)
qed

lemma day_of_week:
  assumes "0 \<le> T" "T < 2 ^ 64"
  shows "extract_at DAYOFWEEK (W T) = Inr ((T div 86400000 + 4) mod 7 + 1)"
proof -
  have "T div 86400000 \<le> 2 ^ 64 div 86400000" "0 \<le> T div 86400000"
    using assms zdiv_mono1 [of T "2 ^ 64" 86400000] by (simp_all add: pos_imp_zdiv_nonneg_iff)
  then have "floorMod (julian (W T) + 1) 7 = W ((T div 86400000 + 2440589) mod 7)"
    using floorMod_W [of "T div 86400000 + 2440589" 7] civil_fields_W(1) [OF assms] by (simp add: add.commute)
  moreover have "(T div 86400000 + 2440589) mod 7 = (T div 86400000 + 4) mod 7"
    using mod_add_right_eq [of "T div 86400000" 2440589 7] by simp
  moreover have "0 \<le> (T div 86400000 + 4) mod 7 + 1" "(T div 86400000 + 4) mod 7 + 1 < 2 ^ 31"
    using pos_mod_bound [of 7 "T div 86400000 + 4"] by simp_all
  ultimately show ?thesis
    using sint_ucast_W [of "(T div 86400000 + 4) mod 7 + 1"] by (simp add: extract_at_def)
qed

lemma extract_fields:
  assumes "t < 2 ^ 63" and "civil (t div 86400000) = (y, m, d)"
  shows "extract_at YEAR (of_nat t) = Inr y" and "extract_at MONTH (of_nat t) = Inr m"
    and "extract_at DAYOFMONTH (of_nat t) = Inr d" and "extract_at QUARTER (of_nat t) = Inr ((m + 2) div 3)"
    and "extract_at DECADE (of_nat t) = Inr (y div 10)" and "extract_at CENTURY (of_nat t) = Inr ((y + 99) div 100)"
    and "extract_at MILLENNIUM (of_nat t) = Inr ((y + 999) div 1000)"
    and "extract_at HOUR (of_nat t) = Inr (int (t div 3600000 mod 24))"
    and "extract_at MINUTE (of_nat t) = Inr (int (t div 60000 mod 60))"
    and "extract_at SECOND (of_nat t) = Inr (int (t div 1000 mod 60))"
    and "extract_at DAYOFWEEK (of_nat t) = Inr ((int (t div 86400000) + 4) mod 7 + 1)"
proof -
  define T n where "T = int t" and "n = t div 86400000"
  have T: "0 \<le> T" "T < 2 ^ 63" "T < 2 ^ 64" using assms(1) by (simp_all add: T_def)
  have n: "int n = T div 86400000" "nat (T div 86400000) = n" by (simp_all add: T_def n_def nat_div_distrib zdiv_int)
  have word: "of_nat t = W T" by (simp add: T_def)
  have nmax: "int n \<le> 2 ^ 63 div 86400000" unfolding n(1) using T(2) by (intro zdiv_mono1) simp_all
  have c: "civil (nat (T div 86400000)) = (y, m, d)" using assms(2) by (simp add: n n_def)
  note b = civil_bounds [OF c, unfolded n(2)]
  have y: "0 \<le> y" "y < 2 ^ 30" using b(1,2) nmax by simp_all
  note w = civil_words [OF T(1,3) c] and yu = year_unit_W [OF T(1,3) c y(2)]
  show "extract_at YEAR (of_nat t) = Inr y" "extract_at DECADE (of_nat t) = Inr (y div 10)"
    "extract_at CENTURY (of_nat t) = Inr ((y + 99) div 100)" "extract_at MILLENNIUM (of_nat t) = Inr ((y + 999) div 1000)"
    using yu [of YEAR 0 1] yu [of DECADE 0 10] yu [of CENTURY 99 100] yu [of MILLENNIUM 999 1000]
    by (auto simp: extract_at_def word)
  show "extract_at MONTH (of_nat t) = Inr m" "extract_at DAYOFMONTH (of_nat t) = Inr d"
    using b(3-6) by (simp_all add: extract_at_def word w sint_ucast_W)
  have "(W m + 2) div 3 = W ((m + 2) div 3)" using udiv_W [of "m + 2" 3] b(3,4) by simp
  moreover have "0 \<le> (m + 2) div 3" "(m + 2) div 3 < 2 ^ 31" using b(3,4) by auto
  ultimately show "extract_at QUARTER (of_nat t) = Inr ((m + 2) div 3)" by (simp add: extract_at_def word w sint_ucast_W)
  show "extract_at DAYOFWEEK (of_nat t) = Inr ((int (t div 86400000) + 4) mod 7 + 1)"
    unfolding word n_def [symmetric] n(1) by (rule day_of_week [OF T(1,3)])
  have hms: "int (t div 3600000 mod 24) = T div 3600000 mod 24" "int (t div 60000 mod 60) = T div 60000 mod 60"
      "int (t div 1000 mod 60) = T div 1000 mod 60"
    by (simp_all add: T_def zdiv_int zmod_int)
  show "extract_at HOUR (of_nat t) = Inr (int (t div 3600000 mod 24))"
    "extract_at MINUTE (of_nat t) = Inr (int (t div 60000 mod 60))"
    "extract_at SECOND (of_nat t) = Inr (int (t div 1000 mod 60))"
    unfolding word hms by (rule time_fields [OF T(1,2)])+
qed

text \<open>
  C39. For a date from 1970 on, the extracted year, month and day are those of the calendar that counts
  the days from 1 January 1970 one by one, for every value of 64 bits; quarter, decade, century and
  millennium follow from them; the hour, minute and second are those of the time of the day; and the
  days of the week repeat after seven days, 1 January 1970 being a Thursday (5, with Sunday as 1).\<close>

theorem extract_civil_date:
  assumes "t < 2 ^ 63" and "civil (t div 86400000) = (y, m, d)"
  shows "extract_at YEAR (of_nat t) = Inr y \<and> extract_at MONTH (of_nat t) = Inr m \<and> extract_at DAYOFMONTH (of_nat t) = Inr d \<and>
    extract_at QUARTER (of_nat t) = Inr ((m + 2) div 3) \<and> extract_at DECADE (of_nat t) = Inr (y div 10) \<and>
    extract_at CENTURY (of_nat t) = Inr ((y + 99) div 100) \<and> extract_at MILLENNIUM (of_nat t) = Inr ((y + 999) div 1000) \<and>
    extract_at HOUR (of_nat t) = Inr (int (t div 3600000 mod 24)) \<and>
    extract_at MINUTE (of_nat t) = Inr (int (t div 60000 mod 60)) \<and>
    extract_at SECOND (of_nat t) = Inr (int (t div 1000 mod 60)) \<and>
    extract_at DAYOFWEEK (of_nat t) = Inr ((int (t div 86400000) + 4) mod 7 + 1)"
  by (intro conjI extract_fields [OF assms])

theorem extract_civil_date_witness:
  "extract_at YEAR 951786000000 = Inr 2000 \<and> extract_at MONTH 951786000000 = Inr 2 \<and> extract_at DAYOFMONTH 951786000000 = Inr 29"
proof -
  have "civil (951786000000 div 86400000) = (2000, 2, 29)"
    by (rule civil_of_number) (simp_all add: days_in_month_def leap_year_def before_year_def before_month_def)
  then show ?thesis using extract_civil_date [of 951786000000 2000 2 29] by simp
qed

text \<open>
  C40. For a date from 1970 on, below 2^57 milliseconds, the day of the year is not what the code returns: the value is the Julian day number of the
  first of January, which is the same for all days of a year and never below 2440588. The subtraction from the
  day number of the date is missing.\<close>

theorem extract_dayofyear_is_first_of_january:
  assumes "t < 2 ^ 57" and "civil (t div 86400000) = (y, m, d)"
  shows "\<exists>n0. n0 \<le> t div 86400000 \<and> civil n0 = (y, 1, 1) \<and> extract_at DAYOFYEAR (of_nat t) = Inr (int n0 + 2440588)"
proof -
  obtain n0 where n0: "n0 \<le> t div 86400000" "civil n0 = (y, 1, 1)" "int n0 = before_year y - 719162"
    by (rule first_of_year [OF assms(2)])
  have "int (t div 86400000) \<le> int (2 ^ 57 div 86400000)" using assms(1) by (intro of_nat_mono div_le_mono) simp
  then have n: "int n0 < 2 ^ 31 - 2440588" "int (t div 86400000) < 2 ^ 31" using n0(1) by simp_all
  have y: "y < 2 ^ 30" using civil_bounds(2) [OF assms(2)] n(2) by simp
  have "nat (int t div 86400000) = t div 86400000" by (simp add: nat_div_distrib)
  then have "day_of_year_code (W (int t)) = W (int n0 + 2440588)"
    using day_of_year_code_W [of "int t" y m d] assms y n0(3) by simp
  then have "extract_at DAYOFYEAR (of_nat t) = Inr (int n0 + 2440588)"
    using sint_ucast_W [of "int n0 + 2440588"] n(1) by (simp add: extract_at_def)
  then show ?thesis using n0 by blast
qed

theorem extract_dayofyear_is_first_of_january_witness:
  "\<exists>n0. n0 \<le> 11016 \<and> civil n0 = (2000, 1, 1) \<and> extract_at DAYOFYEAR 951786000000 = Inr (int n0 + 2440588)"
proof -
  have "civil (951786000000 div 86400000) = (2000, 2, 29)"
    by (rule civil_of_number) (simp_all add: days_in_month_def leap_year_def before_year_def before_month_def)
  then show ?thesis using extract_dayofyear_is_first_of_january [of 951786000000 2000 2 29] by simp
qed

text \<open>The days before 1970: the unsigned division takes them for dates after the year 292 000 000.\<close>

lemma extract_before_1970:
  assumes "- (2 ^ 63) \<le> t" "t < 0"
  shows "\<exists>y. extract_at YEAR (of_int t) = Inr y \<and> 292000000 < y"
proof -
  define T where "T = t + 2 ^ 64"
  have T: "2 ^ 63 \<le> T" "T < 2 ^ 64" using assms by (simp_all add: T_def)
  have word: "W t = W T" by (simp add: T_def)
  obtain y m d where c: "civil (nat (T div 86400000)) = (y, m, d)" by (metis prod_cases3)
  have "2 ^ 63 div 86400000 \<le> T div 86400000" "T div 86400000 \<le> 2 ^ 64 div 86400000" using T by (intro zdiv_mono1; simp)+
  then have n: "106751991167 \<le> T div 86400000" "T div 86400000 \<le> 213503982334" by simp_all
  have y: "y < 2 ^ 30" using civil_bounds(1,2) [OF c] n by simp
  have "292000000 < y"
  proof (rule ccontr)
    assume "\<not> 292000000 < y"
    then have "before_year (y + 1) \<le> before_year 292000001" using before_year_less [of y 292000001] by simp
    moreover have "before_year 292000001 = 106650810000" by (simp add: before_year_def)
    moreover have "day_number (y, m, d) \<le> before_year (y + 1)"
      using month_part(3) [of y m d] civil_number [of "nat (T div 86400000)"] before_year_Suc [of y] by (simp add: c)
    moreover have "day_number (y, m, d) = T div 86400000 + 719163" using civil_number [of "nat (T div 86400000)"] n by (simp add: c)
    ultimately show False using n by simp
  qed
  moreover have "extract_at YEAR (W T) = Inr y"
    using year_unit_W [of T y m d YEAR 0 1] T c y by (auto simp: extract_at_def)
  ultimately show ?thesis using word by auto
qed

end
