(* ===== verification/LLVMCode.thy ===== *)
theory LLVMCode
  imports DateExtract
begin

text \<open>
  The language that the query engine generates: typed values and the instructions of the LLVM IR
  builder that the expression visitors use. A piece of code is the type of its value and the function
  that computes the value at run time, from a run-time environment of any type. A builder function
  that is given operands of the wrong types fails an assertion; an instruction whose result is not
  defined (a division by zero, a shift by the width) fails at run time. The arithmetic of double
  precision numbers is a parameter.
\<close>

section \<open>Recursion under a fallible map\<close>

lemma rmap_cong [fundef_cong]:
  "xs = ys \<Longrightarrow> (\<And>x. x \<in> set ys \<Longrightarrow> f x = g x) \<Longrightarrow> rmap f xs = rmap g ys"
  by (induction ys arbitrary: xs) auto

lemma rbind_cong [fundef_cong]: "m = m' \<Longrightarrow> (\<And>x. m' = Inr x \<Longrightarrow> f x = g x) \<Longrightarrow> rbind m f = rbind m' g"
  by (cases m') auto

section \<open>Types and values\<close>

text \<open>
  The structure of a byte pointer and a length that represents a string is a type of its own: no record type
  has its layout. Its value is the bytes that the pointer and the length denote.
\<close>

datatype ltype = TInt nat | TDouble | TPtr ltype | TString | TStruct "ltype list"

datatype 'f lval =
    I1 "1 word"
  | I32 "32 word"
  | I64 "64 word"
  | FP 'f
  | StringObject "byte list"
  | Ptr ltype "64 word"
  | Struct "'f lval list"

fun type_of :: "'f lval \<Rightarrow> ltype" where
  "type_of (I1 _) = TInt 1"
| "type_of (I32 _) = TInt 32"
| "type_of (I64 _) = TInt 64"
| "type_of (FP _) = TDouble"
| "type_of (StringObject _) = TString"
| "type_of (Ptr t _) = TPtr t"
| "type_of (Struct vs) = TStruct (map type_of vs)"

record 'f float_ops =
  fadd :: "'f \<Rightarrow> 'f \<Rightarrow> 'f"
  fsub :: "'f \<Rightarrow> 'f \<Rightarrow> 'f"
  fmul :: "'f \<Rightarrow> 'f \<Rightarrow> 'f"
  fdiv :: "'f \<Rightarrow> 'f \<Rightarrow> 'f"
  frem :: "'f \<Rightarrow> 'f \<Rightarrow> 'f"
  fneg :: "'f \<Rightarrow> 'f"
  fole :: "'f \<Rightarrow> 'f \<Rightarrow> bool"
  folt :: "'f \<Rightarrow> 'f \<Rightarrow> bool"
  foeq :: "'f \<Rightarrow> 'f \<Rightarrow> bool"
  fone :: "'f \<Rightarrow> 'f \<Rightarrow> bool"
  sitofp :: "int \<Rightarrow> 'f"
  fptosi :: "nat \<Rightarrow> 'f \<Rightarrow> int option"

record ('env, 'f) code =
  ctype :: ltype
  run :: "'env \<Rightarrow> 'f lval result"

section \<open>Integer instructions\<close>

datatype iop = Add | Sub | Mul | SDiv | URem | And | Or | Xor | Shl | AShr | LShr

datatype ipred = IEQ | INE | SLT | SLE | SGT | SGE

definition sdiv_ok :: "'a :: len word \<Rightarrow> 'a word \<Rightarrow> bool" where
  "sdiv_ok a b \<longleftrightarrow> b \<noteq> 0 \<and> \<not> (sint a = - (2 ^ (LENGTH('a) - 1)) \<and> b = - 1)"

fun word_op :: "iop \<Rightarrow> 'a :: len word \<Rightarrow> 'a word \<Rightarrow> 'a word result" where
  "word_op Add a b = Inr (a + b)"
| "word_op Sub a b = Inr (a - b)"
| "word_op Mul a b = Inr (a * b)"
| "word_op SDiv a b = (if sdiv_ok a b then Inr (ll_sdiv a b) else Inl (Fatal ''sdiv''))"
| "word_op URem a b = (if b \<noteq> 0 then Inr (a mod b) else Inl (Fatal ''urem''))"
| "word_op And a b = Inr (a AND b)"
| "word_op Or a b = Inr (a OR b)"
| "word_op Xor a b = Inr (a XOR b)"
| "word_op Shl a b = (if unat b < LENGTH('a) then Inr (push_bit (unat b) a) else Inl (Fatal ''shl''))"
| "word_op LShr a b = (if unat b < LENGTH('a) then Inr (drop_bit (unat b) a) else Inl (Fatal ''lshr''))"
| "word_op AShr a b = (if unat b < LENGTH('a) then Inr (signed_drop_bit (unat b) a) else Inl (Fatal ''ashr''))"

fun word_pred :: "ipred \<Rightarrow> 'a :: len word \<Rightarrow> 'a word \<Rightarrow> bool" where
  "word_pred IEQ a b \<longleftrightarrow> a = b"
| "word_pred INE a b \<longleftrightarrow> a \<noteq> b"
| "word_pred SLT a b \<longleftrightarrow> sint a < sint b"
| "word_pred SLE a b \<longleftrightarrow> sint a \<le> sint b"
| "word_pred SGT a b \<longleftrightarrow> sint b < sint a"
| "word_pred SGE a b \<longleftrightarrow> sint b \<le> sint a"

abbreviation i1 :: "bool \<Rightarrow> 'f lval" where
  "i1 b \<equiv> I1 (of_bool b)"

fun int_op :: "iop \<Rightarrow> 'f lval \<Rightarrow> 'f lval \<Rightarrow> 'f lval result" where
  "int_op p (I1 a) (I1 b) = rbind (word_op p a b) (\<lambda>c. Inr (I1 c))"
| "int_op p (I32 a) (I32 b) = rbind (word_op p a b) (\<lambda>c. Inr (I32 c))"
| "int_op p (I64 a) (I64 b) = rbind (word_op p a b) (\<lambda>c. Inr (I64 c))"
| "int_op p _ _ = Inl BadAccess"

fun int_pred :: "ipred \<Rightarrow> 'f lval \<Rightarrow> 'f lval \<Rightarrow> 'f lval result" where
  "int_pred p (I1 a) (I1 b) = Inr (i1 (word_pred p a b))"
| "int_pred p (I32 a) (I32 b) = Inr (i1 (word_pred p a b))"
| "int_pred p (I64 a) (I64 b) = Inr (i1 (word_pred p a b))"
| "int_pred p _ _ = Inl BadAccess"

fun fp_op :: "('f \<Rightarrow> 'f \<Rightarrow> 'f) \<Rightarrow> 'f lval \<Rightarrow> 'f lval \<Rightarrow> 'f lval result" where
  "fp_op f (FP a) (FP b) = Inr (FP (f a b))"
| "fp_op f _ _ = Inl BadAccess"

fun fp_pred :: "('f \<Rightarrow> 'f \<Rightarrow> bool) \<Rightarrow> 'f lval \<Rightarrow> 'f lval \<Rightarrow> 'f lval result" where
  "fp_pred f (FP a) (FP b) = Inr (i1 (f a b))"
| "fp_pred f _ _ = Inl BadAccess"

section \<open>The builder\<close>

definition isIntTy :: "ltype \<Rightarrow> bool" where
  "isIntTy t = (case t of TInt n \<Rightarrow> n = 1 \<or> n = 32 \<or> n = 64 | _ \<Rightarrow> False)"

definition const_code :: "'f lval \<Rightarrow> ('env, 'f) code" where
  "const_code v = \<lparr>ctype = type_of v, run = (\<lambda>_. Inr v)\<rparr>"

text \<open>An instruction with two operands of one type, which is in a set, and a result type.\<close>

definition binary_code ::
  "(ltype \<Rightarrow> bool) \<Rightarrow> (ltype \<Rightarrow> ltype) \<Rightarrow> ('f lval \<Rightarrow> 'f lval \<Rightarrow> 'f lval result) \<Rightarrow>
    ('env, 'f) code \<Rightarrow> ('env, 'f) code \<Rightarrow> ('env, 'f) code result" where
  "binary_code ok res f a b =
    rbind (rassert (ctype a = ctype b \<and> ok (ctype a)) ''operand types'') (\<lambda>_.
      Inr \<lparr>ctype = res (ctype a), run = (\<lambda>env. rbind (run a env) (\<lambda>x. rbind (run b env) (f x)))\<rparr>)"

definition unary_code ::
  "(ltype \<Rightarrow> bool) \<Rightarrow> (ltype \<Rightarrow> ltype) \<Rightarrow> ('f lval \<Rightarrow> 'f lval result) \<Rightarrow> ('env, 'f) code \<Rightarrow> ('env, 'f) code result" where
  "unary_code ok res f a =
    rbind (rassert (ok (ctype a)) ''operand type'') (\<lambda>_.
      Inr \<lparr>ctype = res (ctype a), run = (\<lambda>env. rbind (run a env) f)\<rparr>)"

definition CreateBinOp :: "iop \<Rightarrow> ('env, 'f) code \<Rightarrow> ('env, 'f) code \<Rightarrow> ('env, 'f) code result" where
  "CreateBinOp p = binary_code isIntTy id (int_op p)"

definition CreateICmp :: "ipred \<Rightarrow> ('env, 'f) code \<Rightarrow> ('env, 'f) code \<Rightarrow> ('env, 'f) code result" where
  "CreateICmp p = binary_code isIntTy (\<lambda>_. TInt 1) (int_pred p)"

definition CreateFBin :: "('f \<Rightarrow> 'f \<Rightarrow> 'f) \<Rightarrow> ('env, 'f) code \<Rightarrow> ('env, 'f) code \<Rightarrow> ('env, 'f) code result" where
  "CreateFBin f = binary_code (\<lambda>t. t = TDouble) id (fp_op f)"

definition CreateFCmp :: "('f \<Rightarrow> 'f \<Rightarrow> bool) \<Rightarrow> ('env, 'f) code \<Rightarrow> ('env, 'f) code \<Rightarrow> ('env, 'f) code result" where
  "CreateFCmp f = binary_code (\<lambda>t. t = TDouble) (\<lambda>_. TInt 1) (fp_pred f)"

fun neg_lval :: "'f lval \<Rightarrow> 'f lval result" where
  "neg_lval (I1 a) = Inr (I1 (- a))"
| "neg_lval (I32 a) = Inr (I32 (- a))"
| "neg_lval (I64 a) = Inr (I64 (- a))"
| "neg_lval _ = Inl BadAccess"

definition CreateNeg :: "('env, 'f) code \<Rightarrow> ('env, 'f) code result" where
  "CreateNeg = unary_code isIntTy id neg_lval"

fun fneg_lval :: "('f \<Rightarrow> 'f) \<Rightarrow> 'f lval \<Rightarrow> 'f lval result" where
  "fneg_lval f (FP a) = Inr (FP (f a))"
| "fneg_lval f _ = Inl BadAccess"

definition CreateFNeg :: "('f \<Rightarrow> 'f) \<Rightarrow> ('env, 'f) code \<Rightarrow> ('env, 'f) code result" where
  "CreateFNeg f = unary_code (\<lambda>t. t = TDouble) id (fneg_lval f)"

fun not_lval :: "'f lval \<Rightarrow> 'f lval result" where
  "not_lval (I1 a) = Inr (I1 (NOT a))"
| "not_lval _ = Inl BadAccess"

definition CreateNot :: "('env, 'f) code \<Rightarrow> ('env, 'f) code result" where
  "CreateNot = unary_code (\<lambda>t. t = TInt 1) id not_lval"

fun int_of_lval :: "'f lval \<Rightarrow> int result" where
  "int_of_lval (I1 a) = Inr (sint a)"
| "int_of_lval (I32 a) = Inr (sint a)"
| "int_of_lval (I64 a) = Inr (sint a)"
| "int_of_lval _ = Inl BadAccess"

definition lval_of_int :: "ltype \<Rightarrow> int \<Rightarrow> 'f lval result" where
  "lval_of_int t i =
    (if t = TInt 1 then Inr (I1 (of_int i)) else if t = TInt 32 then Inr (I32 (of_int i))
     else if t = TInt 64 then Inr (I64 (of_int i)) else Inl BadAccess)"

text \<open>Sign extension and truncation keep the value, seen as a signed number, as far as it fits.\<close>

definition CreateSExtOrTrunc :: "ltype \<Rightarrow> ('env, 'f) code \<Rightarrow> ('env, 'f) code result" where
  "CreateSExtOrTrunc t =
    unary_code (\<lambda>s. isIntTy s \<and> isIntTy t) (\<lambda>_. t) (\<lambda>v. rbind (int_of_lval v) (lval_of_int t))"

definition CreateSIToFP :: "(int \<Rightarrow> 'f) \<Rightarrow> ltype \<Rightarrow> ('env, 'f) code \<Rightarrow> ('env, 'f) code result" where
  "CreateSIToFP f t =
    unary_code (\<lambda>s. isIntTy s \<and> t = TDouble) (\<lambda>_. t) (\<lambda>v. rbind (int_of_lval v) (\<lambda>i. Inr (FP (f i))))"

fun fptosi_lval :: "(nat \<Rightarrow> 'f \<Rightarrow> int option) \<Rightarrow> ltype \<Rightarrow> 'f lval \<Rightarrow> 'f lval result" where
  "fptosi_lval f (TInt n) (FP a) = (case f n a of None \<Rightarrow> Inl (Fatal ''fptosi'') | Some i \<Rightarrow> lval_of_int (TInt n) i)"
| "fptosi_lval f _ _ = Inl BadAccess"

definition CreateFPToSI :: "(nat \<Rightarrow> 'f \<Rightarrow> int option) \<Rightarrow> ltype \<Rightarrow> ('env, 'f) code \<Rightarrow> ('env, 'f) code result" where
  "CreateFPToSI f t = unary_code (\<lambda>s. s = TDouble \<and> isIntTy t) (\<lambda>_. t) (fptosi_lval f t)"

definition CreateFPCast :: "ltype \<Rightarrow> ('env, 'f) code \<Rightarrow> ('env, 'f) code result" where
  "CreateFPCast t = unary_code (\<lambda>s. s = TDouble \<and> t = TDouble) id Inr"

text \<open>A branch on a condition, with the value that each side stores into one variable.\<close>

definition CreateIf ::
  "('env, 'f) code \<Rightarrow> ('env, 'f) code \<Rightarrow> ('env, 'f) code \<Rightarrow> ('env, 'f) code result" where
  "CreateIf c a b =
    rbind (rassert (ctype c = TInt 1) ''branch condition'') (\<lambda>_.
    rbind (rassert (ctype a = ctype b) ''store type'') (\<lambda>_.
      Inr \<lparr>ctype = ctype a,
           run = (\<lambda>env. rbind (run c env) (\<lambda>v.
             case v of I1 w \<Rightarrow> if w \<noteq> 0 then run a env else run b env | _ \<Rightarrow> Inl BadAccess))\<rparr>))"

fun member_at :: "nat \<Rightarrow> 'f lval \<Rightarrow> 'f lval result" where
  "member_at i (Struct vs) = (if i < length vs then Inr (vs ! i) else Inl BadAccess)"
| "member_at i _ = Inl BadAccess"

definition CreateExtractValue :: "nat \<Rightarrow> ('env, 'f) code \<Rightarrow> ('env, 'f) code result" where
  "CreateExtractValue i a =
    (case ctype a of
       TStruct ts \<Rightarrow>
         rbind (rassert (i < length ts) ''Invalid indices'') (\<lambda>_.
           Inr \<lparr>ctype = ts ! i, run = (\<lambda>env. rbind (run a env) (member_at i))\<rparr>)
     | _ \<Rightarrow> Inl (Assertion ''Invalid indices''))"

definition constructStruct :: "('env, 'f) code list \<Rightarrow> ('env, 'f) code" where
  "constructStruct cs =
    \<lparr>ctype = TStruct (map ctype cs), run = (\<lambda>env. rbind (rmap (\<lambda>c. run c env) cs) (\<lambda>vs. Inr (Struct vs)))\<rparr>"

text \<open>The call of a library function with operands of the given types.\<close>

definition CreateCall ::
  "ltype list \<Rightarrow> ltype \<Rightarrow> ('f lval list \<Rightarrow> 'f lval result) \<Rightarrow> ('env, 'f) code list \<Rightarrow> ('env, 'f) code result" where
  "CreateCall args res f cs =
    rbind (rassert (map ctype cs = args) ''Calling a function with a bad signature!'') (\<lambda>_.
      Inr \<lparr>ctype = res, run = (\<lambda>env. rbind (rmap (\<lambda>c. run c env) cs) f)\<rparr>)"

end
