(* ===== verification/ExprTypes.thy ===== *)
theory ExprTypes
  imports LLVMCode "HOL-Library.List_Lexorder" "HOL-Library.Char_ord"
begin

text \<open>
  The types of expressions and the attributes of records
  (\<^verbatim>\<open>olap/values/expressionTypes.hpp\<close>, \<^verbatim>\<open>expressionTypes.cpp\<close>, \<^verbatim>\<open>indexed-seq.hpp\<close>): names,
  identifiers, the LLVM type of a value, the order of attributes and the lookup of an attribute in a
  record type. The map from names to attributes that a record type keeps beside its list of
  attributes is computed from the list.
\<close>

section \<open>Types\<close>

type_synonym dictionary = "(32 word \<times> string) list"

datatype typeID =
    BOOL_id | DSTRING_id | STRING_id | FLOAT_id | INT_id | DATE_id | RECORD_id | LIST_id | BAG_id | SET_id
  | INT64_id | COMPOSITE_id | BLOCK_id | INDEXEDSEQ_id

datatype ExpressionType =
    BoolType | StringType | DStringType "dictionary option" | FloatType | IntType | Int64Type | DateType
  | BlockType ExpressionType | ListType ExpressionType | BagType ExpressionType | SetType ExpressionType
  | RecordType "RecordAttribute list" | IndexedSeq ExpressionType
and RecordAttribute =
    RecordAttribute (getRelationName: string) (getAttrName: string) (getOriginalRelationName: string)
      (getOriginalType: ExpressionType) (getAttrNo: int) (isProjected: bool)

fun getTypeID :: "ExpressionType \<Rightarrow> typeID" where
  "getTypeID BoolType = BOOL_id"
| "getTypeID StringType = STRING_id"
| "getTypeID (DStringType _) = DSTRING_id"
| "getTypeID FloatType = FLOAT_id"
| "getTypeID IntType = INT_id"
| "getTypeID Int64Type = INT64_id"
| "getTypeID DateType = DATE_id"
| "getTypeID (BlockType _) = BLOCK_id"
| "getTypeID (ListType _) = LIST_id"
| "getTypeID (BagType _) = BAG_id"
| "getTypeID (SetType _) = SET_id"
| "getTypeID (RecordType _) = RECORD_id"
| "getTypeID (IndexedSeq _) = INDEXEDSEQ_id"

fun isPrimitive :: "ExpressionType \<Rightarrow> bool" where
  "isPrimitive (BlockType _) = False"
| "isPrimitive (ListType _) = False"
| "isPrimitive (BagType _) = False"
| "isPrimitive (SetType _) = False"
| "isPrimitive (RecordType _) = False"
| "isPrimitive (IndexedSeq _) = False"
| "isPrimitive _ = True"

fun join_types :: "string list \<Rightarrow> string" where
  "join_types [] = []"
| "join_types [t] = t"
| "join_types (t # ts) = t @ '', '' @ join_types ts"

fun getType :: "ExpressionType \<Rightarrow> string" and attr_getType :: "RecordAttribute \<Rightarrow> string" where
  "getType BoolType = ''Bool''"
| "getType StringType = ''String''"
| "getType (DStringType _) = ''DString''"
| "getType FloatType = ''Float''"
| "getType IntType = ''Int''"
| "getType Int64Type = ''Int64''"
| "getType DateType = ''Date''"
| "getType (BlockType t) = ''Block('' @ getType t @ '')''"
| "getType (ListType t) = ''List('' @ getType t @ '')''"
| "getType (BagType t) = ''Bag('' @ getType t @ '')''"
| "getType (SetType t) = ''Set('' @ getType t @ '')''"
| "getType (RecordType as) = ''Record('' @ join_types (map attr_getType as) @ '')''"
| "getType (IndexedSeq t) = ''IndexedSeq('' @ getType t @ '')''"
| "attr_getType (RecordAttribute rel attr orig t n p) = attr @ '' '' @ getType t"

text \<open>The type of a value in the generated code; a collection without one throws.\<close>

fun getLLVMType :: "ExpressionType \<Rightarrow> ltype result" and attr_getLLVMType :: "RecordAttribute \<Rightarrow> ltype result" where
  "getLLVMType BoolType = Inr (TInt 1)"
| "getLLVMType StringType = Inr TString"
| "getLLVMType (DStringType _) = Inr (TInt 32)"
| "getLLVMType FloatType = Inr TDouble"
| "getLLVMType IntType = Inr (TInt 32)"
| "getLLVMType Int64Type = Inr (TInt 64)"
| "getLLVMType DateType = Inr (TInt 64)"
| "getLLVMType (BlockType t) = rbind (getLLVMType t) (\<lambda>l. Inr (TPtr l))"
| "getLLVMType (RecordType as) = rbind (rmap attr_getLLVMType as) (\<lambda>ls. Inr (TStruct ls))"
| "getLLVMType (IndexedSeq t) = rbind (getLLVMType t) (\<lambda>l. case l of TPtr l' \<Rightarrow> Inr l' | _ \<Rightarrow> Inl (Assertion ''getPointerElementType''))"
| "getLLVMType t = Inl (RuntimeError (''unmapped type: '' @ getType t))"
| "attr_getLLVMType (RecordAttribute rel attr orig t n p) = getLLVMType t"

section \<open>Attributes\<close>

definition type_less :: "ExpressionType \<Rightarrow> ExpressionType \<Rightarrow> bool" where
  "type_less l r \<longleftrightarrow> getType l < getType r"

definition recordComparator :: "RecordAttribute \<Rightarrow> RecordAttribute \<Rightarrow> bool" where
  "recordComparator x y \<longleftrightarrow> getAttrNo x < getAttrNo y"

definition attr_less :: "RecordAttribute \<Rightarrow> RecordAttribute \<Rightarrow> bool" where
  "attr_less l r =
    (if getRelationName l = getRelationName r then getAttrName l < getAttrName r
     else getRelationName l < getRelationName r)"

definition attr_equal :: "RecordAttribute \<Rightarrow> RecordAttribute \<Rightarrow> bool" where
  "attr_equal l r \<longleftrightarrow> getRelationName l = getRelationName r \<and> getAttrName l = getAttrName r"

text \<open>The constructors; an attribute without the name of a relation throws.\<close>

definition no_relname :: "string \<Rightarrow> error" where
  "no_relname attr = RuntimeError (''Unexpected, no-relname attribute: '' @ attr)"

definition new_RecordAttribute :: "int \<Rightarrow> string \<Rightarrow> string \<Rightarrow> ExpressionType \<Rightarrow> bool \<Rightarrow> RecordAttribute result" where
  "new_RecordAttribute no rel attr t make_block =
    (if rel = [] then Inl (no_relname attr)
     else Inr (RecordAttribute rel attr rel (if make_block then BlockType t else t) no False))"

definition new_RecordAttribute_orig :: "int \<Rightarrow> string \<Rightarrow> string \<Rightarrow> string \<Rightarrow> ExpressionType \<Rightarrow> RecordAttribute result" where
  "new_RecordAttribute_orig no orig rel attr t =
    (if rel = [] then Inl (no_relname attr)
     else if orig = [] then Inl (RuntimeError (''Unexpected, no-origrelname attribute: '' @ attr))
     else Inr (RecordAttribute rel attr orig t no False))"

definition new_RecordAttribute_oid :: "string \<Rightarrow> string \<Rightarrow> ExpressionType \<Rightarrow> RecordAttribute result" where
  "new_RecordAttribute_oid rel attr t =
    (if rel = [] then Inl (no_relname attr) else Inr (RecordAttribute rel attr rel t (- 1) False))"

definition make_block_attr :: "RecordAttribute \<Rightarrow> bool \<Rightarrow> RecordAttribute" where
  "make_block_attr obj make_block =
    RecordAttribute (getRelationName obj) (getAttrName obj) (getOriginalRelationName obj)
      (if make_block then BlockType (getOriginalType obj) else getOriginalType obj) (getAttrNo obj) (isProjected obj)"

definition setProjected :: "RecordAttribute \<Rightarrow> RecordAttribute" where
  "setProjected a =
    RecordAttribute (getRelationName a) (getAttrName a) (getOriginalRelationName a) (getOriginalType a) (getAttrNo a) True"

section \<open>Records\<close>

text \<open>The map of the record type holds, for each name, the last attribute of that name.\<close>

definition getArg :: "string \<Rightarrow> RecordAttribute list \<Rightarrow> RecordAttribute option" where
  "getArg name args = find (\<lambda>a. getAttrName a = name) (rev args)"

definition appendAttribute :: "RecordAttribute \<Rightarrow> RecordAttribute list \<Rightarrow> RecordAttribute list" where
  "appendAttribute attr args = (case getArg (getAttrName attr) args of None \<Rightarrow> args @ [attr] | Some _ \<Rightarrow> args)"

text \<open>The loop of getIndex: the index so far, the last match by name only, and the number of those.\<close>

fun index_loop :: "RecordAttribute \<Rightarrow> RecordAttribute list \<Rightarrow> nat \<Rightarrow> nat option \<Rightarrow> nat \<Rightarrow> nat option result" where
  "index_loop x [] index maybe cnt =
    rbind (rassert (cnt \<le> 1) ''Multiple matches for attribute name, but none with rel'') (\<lambda>_. Inr maybe)"
| "index_loop x (attr # args) index maybe cnt =
    (if getAttrName x = getAttrName attr then
       if getRelationName x = getRelationName attr then Inr (Some index)
       else index_loop x args (index + 1) (Some index) (cnt + 1)
     else index_loop x args (index + 1) maybe cnt)"

definition getIndex :: "RecordAttribute \<Rightarrow> RecordAttribute list \<Rightarrow> nat option result" where
  "getIndex x args = index_loop x args 0 None 0"

section \<open>Lemmas\<close>

lemma attr_less_strict_order:
  "\<not> attr_less a a" "attr_less a b \<Longrightarrow> attr_less b c \<Longrightarrow> attr_less a c"
  by (auto simp: attr_less_def split: if_splits dest: order.strict_trans)

lemma attr_equal_iff_incomparable: "attr_equal a b \<longleftrightarrow> \<not> attr_less a b \<and> \<not> attr_less b a"
  by (auto simp: attr_equal_def attr_less_def split: if_splits)

lemma getArg_appendAttribute: "getArg (getAttrName attr) (appendAttribute attr args) \<noteq> None"
  by (auto simp: appendAttribute_def getArg_def split: option.splits)

lemma getArg_appendAttribute_other:
  "name \<noteq> getAttrName attr \<Longrightarrow> getArg name (appendAttribute attr args) = getArg name args"
  by (auto simp: appendAttribute_def getArg_def split: option.splits)

lemma index_loop_bounds:
  "index_loop x args i maybe cnt = Inr (Some k) \<Longrightarrow> (\<forall>j. maybe = Some j \<longrightarrow> j < i) \<Longrightarrow>
    k < i + length args \<and> (maybe = Some k \<or> (i \<le> k \<and> getAttrName (args ! (k - i)) = getAttrName x))"
proof (induction x args i maybe cnt rule: index_loop.induct)
  case (1 x i maybe cnt)
  then show ?case by (auto simp: rbind_eq_Inr_iff)
next
  case (2 x attr args i maybe cnt)
  consider "getAttrName x = getAttrName attr" "getRelationName x = getRelationName attr"
    | "getAttrName x = getAttrName attr" "getRelationName x \<noteq> getRelationName attr"
    | "getAttrName x \<noteq> getAttrName attr" by blast
  then show ?case
  proof cases
    case 1
    then show ?thesis using 2(3) by auto
  next
    case 2
    then have "k < i + 1 + length args \<and> (k = i \<or> (i + 1 \<le> k \<and> getAttrName (args ! (k - (i + 1))) = getAttrName x))"
      using "2.IH"(1) "2.prems" by auto
    then show ?thesis using 2 by (auto simp: nth_Cons')
  next
    case 3
    then have "k < i + 1 + length args \<and> (maybe = Some k \<or> (i + 1 \<le> k \<and> getAttrName (args ! (k - (i + 1))) = getAttrName x))"
      using "2.IH"(2) "2.prems" by (auto simp: less_Suc_eq)
    then show ?thesis by (auto simp: nth_Cons')
  qed
qed

lemma getIndex_bounds:
  assumes "getIndex x args = Inr (Some k)"
  shows "k < length args" "getAttrName (args ! k) = getAttrName x"
  using index_loop_bounds [of x args 0 None 0 k] assms by (simp_all add: getIndex_def)

end
