(* ===== verification/Expressions.thy ===== *)
theory Expressions
  imports ExprTypes
begin

text \<open>
  Expressions (\<^verbatim>\<open>olap/expressions/expressions.hpp\<close>, \<^verbatim>\<open>expressions.cpp\<close>,
  \<^verbatim>\<open>binary-operators.hpp\<close>): the expression tree, the type of an expression, the checks of the
  constructors, the helpers that build comparisons with strings and aggregations, the order of
  expressions, and the cache that is keyed by expressions (\<^verbatim>\<open>olap/lib/util/caching.hpp\<close>).
  References and assignments are left out.
\<close>

section \<open>The expression tree\<close>

datatype opID =
    EQ_op | NEQ_op | GE_op | GT_op | LE_op | LT_op | ADD_op | SUB_op | MULT_op | DIV_op | AND_op | OR_op
  | MAX_op | MIN_op | MOD_op | SHL_op | LSHR_op | ASHR_op | XOR_op

record ('env, 'f) ProteusValue =
  pv_value :: "('env, 'f) code"
  pv_isNull :: "('env, 'f) code"

datatype (dead 'env, dead 'f) expr =
    IntConstant "32 word"
  | Int64Constant "64 word"
  | DateConstant "64 word"
  | FloatConstant 'f
  | BoolConstant bool
  | StringConstant string
  | DStringConstant "32 word" "dictionary option"
  | InputArgument "RecordAttribute list" int
  | RecordProjection "('env, 'f) expr" RecordAttribute
  | RecordConstruction "(string \<times> ('env, 'f) expr) list"
  | IfThenElse "('env, 'f) expr" "('env, 'f) expr" "('env, 'f) expr"
  | BinaryExpression opID "('env, 'f) expr" "('env, 'f) expr"
  | RandExpression
  | HintExpression "('env, 'f) expr" 'f
  | HashExpression "('env, 'f) expr"
  | TestNullExpression "('env, 'f) expr" bool
  | ExtractExpression "('env, 'f) expr" extract_unit
  | NegExpression "('env, 'f) expr"
  | CastExpression ExpressionType "('env, 'f) expr"
  | PlaceholderExpression ExpressionType nat
  | ProteusValueExpression ExpressionType "('env, 'f) ProteusValue"

text \<open>The type that the constructor of each class passes to its base class.\<close>

definition comparison :: "opID \<Rightarrow> bool" where
  "comparison p \<longleftrightarrow> p = EQ_op \<or> p = NEQ_op \<or> p = GE_op \<or> p = GT_op \<or> p = LE_op \<or> p = LT_op"

lemma size_attr_less: "(n, e) \<in> set atts \<Longrightarrow> size e < Suc (size_list (size_prod (\<lambda>_. 0) size) atts)"
  by (induction atts) auto

function getExpressionType :: "('env, 'f) expr \<Rightarrow> ExpressionType" where
  "getExpressionType (IntConstant _) = IntType"
| "getExpressionType (Int64Constant _) = Int64Type"
| "getExpressionType (DateConstant _) = DateType"
| "getExpressionType (FloatConstant _) = FloatType"
| "getExpressionType (BoolConstant _) = BoolType"
| "getExpressionType (StringConstant _) = StringType"
| "getExpressionType (DStringConstant _ d) = DStringType d"
| "getExpressionType (InputArgument args _) = RecordType args"
| "getExpressionType (RecordProjection _ a) = getOriginalType a"
| "getExpressionType (RecordConstruction atts) =
    RecordType (map (\<lambda>(n, e). RecordAttribute ''tmp'' n ''tmp'' (getExpressionType e) (- 1) False) atts)"
| "getExpressionType (IfThenElse _ e _) = getExpressionType e"
| "getExpressionType (BinaryExpression p l r) =
    (if comparison p then BoolType else if p = MOD_op then getExpressionType r else getExpressionType l)"
| "getExpressionType RandExpression = IntType"
| "getExpressionType (HintExpression e _) = getExpressionType e"
| "getExpressionType (HashExpression _) = Int64Type"
| "getExpressionType (TestNullExpression _ _) = BoolType"
| "getExpressionType (ExtractExpression _ _) = IntType"
| "getExpressionType (NegExpression e) = getExpressionType e"
| "getExpressionType (CastExpression t _) = t"
| "getExpressionType (PlaceholderExpression t _) = t"
| "getExpressionType (ProteusValueExpression t _) = t"
  by pat_completeness auto

termination
  by (relation "measure size") (auto dest: size_attr_less)

section \<open>Checked constructors\<close>

definition new_IfThenElse :: "('env, 'f) expr \<Rightarrow> ('env, 'f) expr \<Rightarrow> ('env, 'f) expr \<Rightarrow> ('env, 'f) expr result" where
  "new_IfThenElse e1 e2 e3 =
    rbind (rassert (getTypeID (getExpressionType e2) = getTypeID (getExpressionType e3)) ''IfThenElse'') (\<lambda>_.
      Inr (IfThenElse e1 e2 e3))"

text \<open>The condition that Max and Min hold is built by their constructors.\<close>

definition max_cond :: "('env, 'f) expr \<Rightarrow> ('env, 'f) expr \<Rightarrow> ('env, 'f) expr" where
  "max_cond l r = IfThenElse (BinaryExpression GT_op l r) l r"

definition min_cond :: "('env, 'f) expr \<Rightarrow> ('env, 'f) expr \<Rightarrow> ('env, 'f) expr" where
  "min_cond l r = IfThenElse (BinaryExpression LT_op l r) l r"

definition new_MaxExpression :: "('env, 'f) expr \<Rightarrow> ('env, 'f) expr \<Rightarrow> ('env, 'f) expr result" where
  "new_MaxExpression l r = rbind (new_IfThenElse (BinaryExpression GT_op l r) l r) (\<lambda>_. Inr (BinaryExpression MAX_op l r))"

definition new_MinExpression :: "('env, 'f) expr \<Rightarrow> ('env, 'f) expr \<Rightarrow> ('env, 'f) expr result" where
  "new_MinExpression l r = rbind (new_IfThenElse (BinaryExpression LT_op l r) l r) (\<lambda>_. Inr (BinaryExpression MIN_op l r))"

definition createReturnType :: "extract_unit \<Rightarrow> ExpressionType result" where
  "createReturnType u =
    (if u = MILLISECOND \<or> u = ISO_DAYOFWEEK \<or> u = ISO_YEAR
     then Inl (RuntimeError ''[extract_unit: ] Unknown return type for extract unit'') else Inr IntType)"

definition new_ExtractExpression :: "('env, 'f) expr \<Rightarrow> extract_unit \<Rightarrow> ('env, 'f) expr result" where
  "new_ExtractExpression e u =
    rbind (createReturnType u) (\<lambda>_.
    rbind (rassert (getTypeID (getExpressionType e) = DATE_id) ''DATE'') (\<lambda>_. Inr (ExtractExpression e u)))"

section \<open>Comparisons with a string\<close>

definition probeDictionary :: "dictionary \<Rightarrow> string \<Rightarrow> (32 word) result" where
  "probeDictionary d v =
    (case find (\<lambda>x. snd x = v) d of None \<Rightarrow> Inl (Assertion ''String not found in dictionary'') | Some x \<Rightarrow> Inr (fst x))"

definition getDictionary :: "dictionary option \<Rightarrow> dictionary result" where
  "getDictionary d = (case d of None \<Rightarrow> Inl (Assertion ''dictionary'') | Some d' \<Rightarrow> Inr d')"

text \<open>The functions eq, ne, ge, gt, le and lt with a string on the right: the string is looked up in the dictionary of the left side.\<close>

definition compare_string :: "opID \<Rightarrow> ('env, 'f) expr \<Rightarrow> string \<Rightarrow> ('env, 'f) expr result" where
  "compare_string p lhs s =
    (case getExpressionType lhs of
       DStringType dict \<Rightarrow>
         rbind (getDictionary dict) (\<lambda>d. rbind (probeDictionary d s) (\<lambda>k. Inr (BinaryExpression p lhs (DStringConstant k (Some d)))))
     | _ \<Rightarrow> Inr (BinaryExpression p lhs (StringConstant s)))"

text \<open>With the string on the left the inequality is reversed.\<close>

fun reverse_op :: "opID \<Rightarrow> opID" where
  "reverse_op GE_op = LE_op"
| "reverse_op GT_op = LT_op"
| "reverse_op LE_op = GE_op"
| "reverse_op LT_op = GT_op"
| "reverse_op p = p"

definition string_compare :: "opID \<Rightarrow> string \<Rightarrow> ('env, 'f) expr \<Rightarrow> ('env, 'f) expr result" where
  "string_compare p s rhs = compare_string (reverse_op p) rhs s"

section \<open>Aggregations\<close>

datatype Monoid = SUM_m | MULTIPLY_m | MAX_m | MIN_m | OR_m | AND_m | UNION_m | BAGUNION_m | APPEND_m

fun toExpression :: "Monoid \<Rightarrow> ('env, 'f) expr \<Rightarrow> ('env, 'f) expr \<Rightarrow> ('env, 'f) expr result" where
  "toExpression SUM_m l r = Inr (BinaryExpression ADD_op l r)"
| "toExpression MULTIPLY_m l r = Inr (BinaryExpression MULT_op l r)"
| "toExpression MIN_m l r = new_MinExpression l r"
| "toExpression MAX_m l r = new_MaxExpression l r"
| "toExpression OR_m l r = Inr (BinaryExpression OR_op l r)"
| "toExpression AND_m l r = Inr (BinaryExpression AND_op l r)"
| "toExpression _ l r = Inl (RuntimeError ''Unknown monoid'')"

text \<open>The constants of the generated code that start an aggregation; there is none for a collection.\<close>

record 'f float_consts =
  fzero :: 'f
  fone_const :: 'f
  finfinity :: 'f
  fneg_infinity :: 'f

definition on_numerics :: error where
  "on_numerics = RuntimeError ''[Monoid: ] Sum/Multiply/Max operate on numerics''"

definition on_booleans :: error where
  "on_booleans = RuntimeError ''[Monoid: ] Or/And operate on booleans''"

definition getIdentityElementIfSimple :: "'f float_consts \<Rightarrow> Monoid \<Rightarrow> ExpressionType \<Rightarrow> 'f lval option result" where
  "getIdentityElementIfSimple fc m t =
    rbind (getLLVMType t) (\<lambda>_.
      case m of
        SUM_m \<Rightarrow>
          (case getTypeID t of DATE_id \<Rightarrow> Inr (Some (I64 0)) | INT64_id \<Rightarrow> Inr (Some (I64 0)) | INT_id \<Rightarrow> Inr (Some (I32 0))
           | FLOAT_id \<Rightarrow> Inr (Some (FP (fzero fc)))
           | _ \<Rightarrow> Inl (RuntimeError (''[Monoid: ] Sum/Multiply/Max operate on numerics (not '' @ getType t @ '')'')))
      | MULTIPLY_m \<Rightarrow>
          (case getTypeID t of INT64_id \<Rightarrow> Inr (Some (I64 1)) | INT_id \<Rightarrow> Inr (Some (I32 1))
           | FLOAT_id \<Rightarrow> Inr (Some (FP (fone_const fc))) | _ \<Rightarrow> Inl on_numerics)
      | MAX_m \<Rightarrow>
          (case getTypeID t of DATE_id \<Rightarrow> Inr (Some (I64 (- (2 ^ 63)))) | INT64_id \<Rightarrow> Inr (Some (I64 (- (2 ^ 63))))
           | INT_id \<Rightarrow> Inr (Some (I32 (- (2 ^ 31)))) | FLOAT_id \<Rightarrow> Inr (Some (FP (fneg_infinity fc))) | _ \<Rightarrow> Inl on_numerics)
      | MIN_m \<Rightarrow>
          (case getTypeID t of DATE_id \<Rightarrow> Inr (Some (I64 (2 ^ 63 - 1))) | INT64_id \<Rightarrow> Inr (Some (I64 (2 ^ 63 - 1)))
           | INT_id \<Rightarrow> Inr (Some (I32 (2 ^ 31 - 1))) | FLOAT_id \<Rightarrow> Inr (Some (FP (finfinity fc))) | _ \<Rightarrow> Inl on_numerics)
      | OR_m \<Rightarrow> (case getTypeID t of BOOL_id \<Rightarrow> Inr (Some (I1 0)) | _ \<Rightarrow> Inl on_booleans)
      | AND_m \<Rightarrow> (case getTypeID t of BOOL_id \<Rightarrow> Inr (Some (I1 1)) | _ \<Rightarrow> Inl on_booleans)
      | _ \<Rightarrow> Inr None)"

section \<open>The order of expressions\<close>

fun expr_id :: "('env, 'f) expr \<Rightarrow> nat" where
  "expr_id (ProteusValueExpression _ _) = 1"
| "expr_id (InputArgument _ _) = 2"
| "expr_id (RecordProjection _ _) = 3"
| "expr_id (RecordConstruction _) = 4"
| "expr_id (IfThenElse _ _ _) = 5"
| "expr_id (BinaryExpression _ _ _) = 6"
| "expr_id RandExpression = 7"
| "expr_id (HintExpression _ _) = 8"
| "expr_id (HashExpression _) = 9"
| "expr_id (TestNullExpression _ _) = 10"
| "expr_id (ExtractExpression _ _) = 11"
| "expr_id (NegExpression _) = 12"
| "expr_id (CastExpression _ _) = 13"
| "expr_id (PlaceholderExpression _ _) = 16"
| "expr_id _ = 0"

text \<open>Two expressions are taken as equal when neither is less; the second comparison is skipped when the first holds.\<close>

definition neither :: "bool result \<Rightarrow> bool result \<Rightarrow> bool result" where
  "neither lt gt = rbind lt (\<lambda>a. if a then Inr False else rbind gt (\<lambda>b. Inr (\<not> b)))"

text \<open>The operator of two binary expressions with the same operator, from the comparisons of their operands.\<close>

definition TBinaryExpression_less :: "bool result \<Rightarrow> bool result \<Rightarrow> bool result" where
  "TBinaryExpression_less l1r1 l2r2 =
    rbind l1r1 (\<lambda>eq1. rbind l2r2 (\<lambda>eq2. if eq1 then if eq2 then Inr False else l2r2 else l1r1))"

text \<open>The operator of two conditional expressions, from the comparisons of their three parts both ways.\<close>

definition IfThenElse_less :: "bool result \<times> bool result \<Rightarrow> bool result \<times> bool result \<Rightarrow> bool result \<times> bool result \<Rightarrow> bool result" where
  "IfThenElse_less c t e =
    rbind (neither (fst c) (snd c)) (\<lambda>eqCond.
    rbind (neither (fst t) (snd t)) (\<lambda>eqIfResult.
    rbind (neither (fst e) (snd e)) (\<lambda>eqElseResult.
      if eqCond then if eqIfResult then if eqElseResult then Inr False else fst e else fst t else fst c)))"

fun attrs_less :: "RecordAttribute list \<Rightarrow> RecordAttribute list \<Rightarrow> bool" where
  "attrs_less (a # as) (b # bs) = (if attr_less a b \<or> attr_less b a then attr_less a b else attrs_less as bs)"
| "attrs_less _ _ = False"

definition InputArgument_less :: "RecordAttribute list \<Rightarrow> RecordAttribute list \<Rightarrow> bool" where
  "InputArgument_less l r =
    (let cmpExprType1 = type_less (RecordType l) (RecordType r);
         cmpExprType2 = type_less (RecordType r) (RecordType r)
     in if \<not> cmpExprType1 \<and> \<not> cmpExprType2 then
          if length l \<noteq> length r then length l < length r else attrs_less l r
        else cmpExprType1)"

definition RecordProjection_less :: "RecordAttribute \<Rightarrow> RecordAttribute \<Rightarrow> bool" where
  "RecordProjection_less a b =
    (let cmpRel1 = getRelationName a < getRelationName b; cmpRel2 = getRelationName b < getRelationName a
     in if \<not> cmpRel1 \<and> \<not> cmpRel2 then
          if \<not> attr_less a b \<and> \<not> attr_less b a then False else attr_less a b
        else cmpRel1)"

definition incompatible :: error where
  "incompatible = RuntimeError ''[Tandem Visitor: ] Incompatible Pair''"

text \<open>
  The operator, with the order of addresses and of doubles as parameters. Expressions of different
  identifiers are ordered by these; otherwise both are visited in tandem, which throws when they are
  not of one class.
\<close>

function expr_less ::
  "(('env, 'f) ProteusValue \<Rightarrow> ('env, 'f) ProteusValue \<Rightarrow> bool) \<Rightarrow> ('f \<Rightarrow> 'f \<Rightarrow> bool) \<Rightarrow>
    ('env, 'f) expr \<Rightarrow> ('env, 'f) expr \<Rightarrow> bool result"
  and atts_less ::
  "(('env, 'f) ProteusValue \<Rightarrow> ('env, 'f) ProteusValue \<Rightarrow> bool) \<Rightarrow> ('f \<Rightarrow> 'f \<Rightarrow> bool) \<Rightarrow>
    (string \<times> ('env, 'f) expr) list \<Rightarrow> (string \<times> ('env, 'f) expr) list \<Rightarrow> bool result" where
  "expr_less ptr flt e1 e2 =
    (if expr_id e1 \<noteq> expr_id e2 then Inr (expr_id e1 < expr_id e2)
     else case (e1, e2) of
       (IntConstant a, IntConstant b) \<Rightarrow> Inr (sint a < sint b)
     | (Int64Constant a, Int64Constant b) \<Rightarrow> Inr (sint a < sint b)
     | (DateConstant a, DateConstant b) \<Rightarrow> Inr (sint a < sint b)
     | (FloatConstant a, FloatConstant b) \<Rightarrow> Inr (flt a b)
     | (BoolConstant a, BoolConstant b) \<Rightarrow> Inr (a < b)
     | (StringConstant a, StringConstant b) \<Rightarrow> Inr (a < b)
     | (DStringConstant a _, DStringConstant b _) \<Rightarrow> Inr (sint a < sint b)
     | (InputArgument a _, InputArgument b _) \<Rightarrow> Inr (InputArgument_less a b)
     | (RecordProjection _ a, RecordProjection _ b) \<Rightarrow> Inr (RecordProjection_less a b)
     | (RecordConstruction l, RecordConstruction r) \<Rightarrow>
         if length l \<noteq> length r then Inr (length l < length r) else atts_less ptr flt l r
     | (IfThenElse c1 t1 f1, IfThenElse c2 t2 f2) \<Rightarrow>
         IfThenElse_less (expr_less ptr flt c1 c2, expr_less ptr flt c2 c1)
           (expr_less ptr flt t1 t2, expr_less ptr flt t2 t1) (expr_less ptr flt f1 f2, expr_less ptr flt f2 f1)
     | (BinaryExpression p l1 l2, BinaryExpression q r1 r2) \<Rightarrow>
         if p \<noteq> q then Inl incompatible
         else if p = MAX_op \<or> p = MIN_op then
           IfThenElse_less
             (TBinaryExpression_less (expr_less ptr flt l1 r1) (expr_less ptr flt l2 r2),
              TBinaryExpression_less (expr_less ptr flt r1 l1) (expr_less ptr flt r2 l2))
             (expr_less ptr flt l1 r1, expr_less ptr flt r1 l1) (expr_less ptr flt l2 r2, expr_less ptr flt r2 l2)
         else TBinaryExpression_less (expr_less ptr flt l1 r1) (expr_less ptr flt l2 r2)
     | (RandExpression, RandExpression) \<Rightarrow> Inr False
     | (HintExpression a _, HintExpression b _) \<Rightarrow> expr_less ptr flt a b
     | (HashExpression a, HashExpression b) \<Rightarrow> expr_less ptr flt a b
     | (TestNullExpression a _, TestNullExpression b _) \<Rightarrow> expr_less ptr flt a b
     | (ExtractExpression a _, ExtractExpression b _) \<Rightarrow> expr_less ptr flt a b
     | (NegExpression a, NegExpression b) \<Rightarrow> expr_less ptr flt a b
     | (CastExpression _ a, CastExpression _ b) \<Rightarrow> expr_less ptr flt a b
     | (PlaceholderExpression _ i, PlaceholderExpression _ j) \<Rightarrow> Inr (i < j)
     | (ProteusValueExpression _ v, ProteusValueExpression _ w) \<Rightarrow> Inr (ptr v w)
     | _ \<Rightarrow> Inl incompatible)"
| "atts_less ptr flt ((n, a) # l) ((m, b) # r) =
    rbind (expr_less ptr flt a b) (\<lambda>lt. if lt then Inr True else
    rbind (expr_less ptr flt b a) (\<lambda>gt. if gt then Inr False else atts_less ptr flt l r))"
| "atts_less ptr flt [] r = Inr False"
| "atts_less ptr flt (x # l) [] = Inr False"
  by pat_completeness auto

termination
  by (relation "measure (case_sum (\<lambda>(ptr, flt, a, b). size a + size b)
      (\<lambda>(ptr, flt, l, r). size_list (size_prod (\<lambda>_. 0) size) l + size_list (size_prod (\<lambda>_. 0) size) r))") auto

declare expr_less.simps [simp del]

section \<open>The cache of expressions\<close>

record CacheInfo =
  objectTypes :: "typeID list"
  structFieldNo :: int
  payloadPtr :: "64 word"
  itemCount :: "64 word"

record ('env, 'f) CachingService =
  binCaches :: "(('env, 'f) expr \<times> CacheInfo) list"
  binCacheIsFull :: "(('env, 'f) expr \<times> bool) list"
  pmCaches :: "string \<rightharpoonup> 64 word"

definition new_CachingService :: "('env, 'f) CachingService" where
  "new_CachingService = \<lparr>binCaches = [], binCacheIsFull = [], pmCaches = Map.empty\<rparr>"

text \<open>
  The lookup of a std::map: the entry whose key is equivalent, that is, neither less nor greater. The
  order of the keys is a parameter.
\<close>

fun map_find :: "('k \<Rightarrow> 'k \<Rightarrow> bool result) \<Rightarrow> 'k \<Rightarrow> ('k \<times> 'v) list \<Rightarrow> 'v option result" where
  "map_find lt k [] = Inr None"
| "map_find lt k ((k', v) # m) =
    rbind (neither (lt k' k) (lt k k')) (\<lambda>eq. if eq then Inr (Some v) else map_find lt k m)"

fun map_erase :: "('k \<Rightarrow> 'k \<Rightarrow> bool result) \<Rightarrow> 'k \<Rightarrow> ('k \<times> 'v) list \<Rightarrow> ('k \<times> 'v) list result" where
  "map_erase lt k [] = Inr []"
| "map_erase lt k ((k', v) # m) =
    rbind (neither (lt k' k) (lt k k')) (\<lambda>eq.
      if eq then Inr m else rbind (map_erase lt k m) (\<lambda>m'. Inr ((k', v) # m')))"

definition registerCache ::
  "(('env, 'f) expr \<Rightarrow> ('env, 'f) expr \<Rightarrow> bool result) \<Rightarrow> ('env, 'f) expr \<Rightarrow> CacheInfo \<Rightarrow> bool \<Rightarrow>
    ('env, 'f) CachingService \<Rightarrow> ('env, 'f) CachingService result" where
  "registerCache lt e payload entireDataset s =
    rbind (map_find lt e (binCaches s)) (\<lambda>it.
      if it \<noteq> None then
        if entireDataset then
          rbind (map_erase lt e (binCaches s)) (\<lambda>bc.
          rbind (map_erase lt e (binCacheIsFull s)) (\<lambda>bf.
            Inr (s\<lparr>binCaches := (e, payload) # bc, binCacheIsFull := (e, entireDataset) # bf\<rparr>)))
        else Inr s
      else Inr (s\<lparr>binCaches := (e, payload) # binCaches s, binCacheIsFull := (e, entireDataset) # binCacheIsFull s\<rparr>))"

definition invalid_CacheInfo :: CacheInfo where
  "invalid_CacheInfo = \<lparr>objectTypes = [], structFieldNo = - 1, payloadPtr = 0, itemCount = 0\<rparr>"

definition getCache ::
  "(('env, 'f) expr \<Rightarrow> ('env, 'f) expr \<Rightarrow> bool result) \<Rightarrow> ('env, 'f) expr \<Rightarrow> ('env, 'f) CachingService \<Rightarrow> CacheInfo result" where
  "getCache lt e s =
    rbind (map_find lt e (binCaches s)) (\<lambda>it. Inr (case it of None \<Rightarrow> invalid_CacheInfo | Some info \<Rightarrow> info))"

definition getCacheIsFull ::
  "(('env, 'f) expr \<Rightarrow> ('env, 'f) expr \<Rightarrow> bool result) \<Rightarrow> ('env, 'f) expr \<Rightarrow> ('env, 'f) CachingService \<Rightarrow> bool result" where
  "getCacheIsFull lt e s =
    rbind (map_find lt e (binCacheIsFull s)) (\<lambda>it.
      case it of None \<Rightarrow> Inl (RuntimeError ''No Bin Cache Info found for expr '') | Some b \<Rightarrow> Inr b)"

definition registerPM :: "string \<Rightarrow> 64 word \<Rightarrow> ('env, 'f) CachingService \<Rightarrow> ('env, 'f) CachingService" where
  "registerPM fileName ptr s = s\<lparr>pmCaches := (pmCaches s)(fileName \<mapsto> ptr)\<rparr>"

definition getPM :: "string \<Rightarrow> ('env, 'f) CachingService \<Rightarrow> 64 word" where
  "getPM fileName s = (case pmCaches s fileName of None \<Rightarrow> 0 | Some p \<Rightarrow> p)"

definition clear_caches :: "('env, 'f) CachingService \<Rightarrow> ('env, 'f) CachingService" where
  "clear_caches s = s\<lparr>binCaches := [], binCacheIsFull := []\<rparr>"

definition clearPM :: "('env, 'f) CachingService \<Rightarrow> ('env, 'f) CachingService" where
  "clearPM s = s\<lparr>pmCaches := Map.empty\<rparr>"

section \<open>Lemmas\<close>

lemma TBinaryExpression_less_False: "TBinaryExpression_less a b = Inr x \<Longrightarrow> \<not> x"
  by (auto simp: TBinaryExpression_less_def rbind_eq_Inr_iff split: if_splits)

lemma TBinaryExpression_less_Inr: "TBinaryExpression_less (Inr a) (Inr b) = Inr False"
  by (simp add: TBinaryExpression_less_def)

lemma RecordProjection_less_eq: "RecordProjection_less a b \<longleftrightarrow> attr_less a b"
  by (auto simp: RecordProjection_less_def attr_less_def Let_def split: if_splits)

lemma expr_less_projections:
  "expr_less ptr flt (RecordProjection e a) (RecordProjection e' b) = Inr (attr_less a b)"
  by (simp add: expr_less.simps RecordProjection_less_eq)

lemma expr_less_binary:
  "p \<noteq> MAX_op \<Longrightarrow> p \<noteq> MIN_op \<Longrightarrow> expr_less ptr flt (BinaryExpression p l1 l2) (BinaryExpression p r1 r2) =
    TBinaryExpression_less (expr_less ptr flt l1 r1) (expr_less ptr flt l2 r2)"
  by (simp add: expr_less.simps)

text \<open>
  C16. The cache keyed by expressions. For projections it works: what is cached for a projection is
  found by another one exactly if both name the same attribute of the same relation, and the others
  are found as before. For binary expressions it does not: for every operator but the maximum and the
  minimum the order takes all expressions with the same operator for equal, so what is cached for one is
  returned for any other, whatever the operands are, as long as they can be compared at all (the
  comparison of constants of different kinds throws). In both cases the cache has no entry for the
  new expression before.\<close>

theorem cache_lookup_by_expression:
  assumes "p \<noteq> MAX_op" "p \<noteq> MIN_op"
    and "isOK (expr_less ptr flt l1 r1)" "isOK (expr_less ptr flt l2 r2)"
    and "isOK (expr_less ptr flt r1 l1)" "isOK (expr_less ptr flt r2 l2)"
    and "map_find (expr_less ptr flt) (RecordProjection e a) (binCaches s) = Inr None"
    and "map_find (expr_less ptr flt) (BinaryExpression p l1 l2) (binCaches s) = Inr None"
  shows "rbind (registerCache (expr_less ptr flt) (RecordProjection e a) info full s)
        (getCache (expr_less ptr flt) (RecordProjection e' b)) =
        (if attr_equal a b then Inr info else getCache (expr_less ptr flt) (RecordProjection e' b) s) \<and>
      rbind (registerCache (expr_less ptr flt) (BinaryExpression p l1 l2) info full s)
        (getCache (expr_less ptr flt) (BinaryExpression p r1 r2)) = Inr info"
  using assms by (auto simp: registerCache_def getCache_def expr_less_projections neither_def
      attr_equal_iff_incomparable expr_less_binary TBinaryExpression_less_Inr isOK_iff)

text \<open>A cache that has a projection already.\<close>

definition sample_cache :: "(unit, unit) CachingService" where
  "sample_cache = new_CachingService\<lparr>binCaches := [(RecordProjection (IntConstant 0)
     (RecordAttribute ''r'' ''a'' ''r'' IntType 1 False),
     \<lparr>objectTypes = [INT_id], structFieldNo = 0, payloadPtr = 32, itemCount = 4\<rparr>)]\<rparr>"

theorem cache_lookup_by_expression_witness:
  "rbind (registerCache (expr_less (\<lambda>_ _. False) (\<lambda>_ _. False)) (BinaryExpression ADD_op (IntConstant 1) (IntConstant 2))
      \<lparr>objectTypes = [INT_id], structFieldNo = 1, payloadPtr = 64, itemCount = 128\<rparr> True sample_cache)
    (getCache (expr_less (\<lambda>_ _. False) (\<lambda>_ _. False)) (BinaryExpression ADD_op (IntConstant 7) (IntConstant 5))) =
   Inr \<lparr>objectTypes = [INT_id], structFieldNo = 1, payloadPtr = 64, itemCount = 128\<rparr>"
  by (rule cache_lookup_by_expression [where e = "IntConstant 0" and a = "RecordAttribute ''r'' ''b'' ''r'' IntType 2 False", THEN conjunct2])
     (simp_all add: expr_less.simps sample_cache_def new_CachingService_def neither_def RecordProjection_less_eq attr_less_def less_char_def)

text \<open>
  The unit of an extraction, the direction of a null test and the type of a cast do not take part in
  the order either.
\<close>

lemma extractions_indistinguishable:
  "expr_less ptr flt (ExtractExpression e u) (ExtractExpression e' u') = expr_less ptr flt e e'"
  "expr_less ptr flt (TestNullExpression e b) (TestNullExpression e' b') = expr_less ptr flt e e'"
  "expr_less ptr flt (CastExpression t e) (CastExpression t' e') = expr_less ptr flt e e'"
  by (simp_all add: expr_less.simps)

end
