(* ===== verification/ExprGenerator.thy ===== *)
theory ExprGenerator
  imports Expressions
begin

text \<open>
  The visitors that generate code for an expression and for its hash
  (\<^verbatim>\<open>olap/lib/expressions/expressions-generator.cpp\<close>, \<^verbatim>\<open>expressions-hasher.cpp\<close>). A visit gives
  the code of the value and of its null flag, or the error that stops the generation. The plugins of the
  relations, the library hash functions, and the values that the query gets at run time are
  parameters.
\<close>

section \<open>Context and state\<close>

type_synonym ('env, 'f) bindings = "(RecordAttribute \<times> ('env, 'f) ProteusValue) list"

text \<open>
  The interface of a plugin. A variable in memory is given by the code of its contents, so that reading
  it is loading it.
\<close>

record ('env, 'f) Plugin =
  getOIDType :: ExpressionType
  readPath :: "string \<Rightarrow> ('env, 'f) bindings \<Rightarrow> ('env, 'f) ProteusValue \<Rightarrow> string \<Rightarrow> RecordAttribute \<Rightarrow> ('env, 'f) ProteusValue result"
  readValue :: "('env, 'f) ProteusValue \<Rightarrow> ExpressionType \<Rightarrow> ('env, 'f) ProteusValue result"
  readCachedValue :: "CacheInfo \<Rightarrow> ('env, 'f) bindings \<Rightarrow> ('env, 'f) ProteusValue result"
  hashValue :: "('env, 'f) ProteusValue \<Rightarrow> ExpressionType \<Rightarrow> ('env, 'f) ProteusValue result"
  hashValueEager :: "('env, 'f) ProteusValue \<Rightarrow> ExpressionType \<Rightarrow> ('env, 'f) ProteusValue result"

record ('env, 'f) Context =
  fops :: "'f float_ops"
  plugins :: "string \<rightharpoonup> ('env, 'f) Plugin"
  caches :: "('env, 'f) CachingService"
  expr_order :: "('env, 'f) expr \<Rightarrow> ('env, 'f) expr \<Rightarrow> bool result"
  currState :: "('env, 'f) bindings"
  session_value :: "nat \<Rightarrow> ltype \<Rightarrow> 'env \<Rightarrow> 'f lval result"
  rand_value :: "nat \<Rightarrow> 'env \<Rightarrow> 32 word"
  std_hash_string :: "byte list \<Rightarrow> 64 word"
  std_hash_double :: "'f \<Rightarrow> 64 word"
  std_hash_bool :: "bool \<Rightarrow> 64 word"
  CreateGEP :: "('env, 'f) code \<Rightarrow> ('env, 'f) code \<Rightarrow> ('env, 'f) code result"

text \<open>The relation that a previous visit has set, and the number of calls of rand emitted so far.\<close>

record gstate =
  activeRelation :: string
  rand_calls :: nat

abbreviation activeLoop :: string where
  "activeLoop \<equiv> ''activeTuple''"

definition getPlugin :: "('env, 'f) Context \<Rightarrow> string \<Rightarrow> ('env, 'f) Plugin result" where
  "getPlugin ctx rel =
    (case plugins ctx rel of
       None \<Rightarrow> Inl (RuntimeError (''Catalog does not contain the plugin of '' @ rel)) | Some pg \<Rightarrow> Inr pg)"

definition find_binding :: "RecordAttribute \<Rightarrow> ('env, 'f) bindings \<Rightarrow> ('env, 'f) ProteusValue option" where
  "find_binding a bs = map_option snd (find (\<lambda>x. attr_equal (fst x) a) bs)"

definition state_at :: "('env, 'f) bindings \<Rightarrow> RecordAttribute \<Rightarrow> ('env, 'f) ProteusValue result" where
  "state_at bs key =
    (case find_binding key bs of
       Some v \<Rightarrow> Inr v
     | None \<Rightarrow>
         (case find (\<lambda>x. getAttrName (fst x) = getAttrName key) bs of
            Some x \<Rightarrow> Inr (snd x)
          | None \<Rightarrow> Inl (RuntimeError ''attribute not found in state'')))"

section \<open>Values of the generated code\<close>

definition createFalse :: "('env, 'f) code" where
  "createFalse = const_code (I1 0)"

definition createTrue :: "('env, 'f) code" where
  "createTrue = const_code (I1 1)"

definition not_null :: "('env, 'f) code \<Rightarrow> ('env, 'f) ProteusValue" where
  "not_null c = \<lparr>pv_value = c, pv_isNull = createFalse\<rparr>"

definition not_null_r :: "('env, 'f) code result \<Rightarrow> ('env, 'f) ProteusValue result" where
  "not_null_r m = rbind m (\<lambda>c. Inr (not_null c))"

definition string_unsupported :: error where
  "string_unsupported = RuntimeError ''[ExpressionGeneratorVisitor]: string operations not supported yet''"

definition invalid_type :: error where
  "invalid_type = RuntimeError ''[ExpressionGeneratorVisitor]: invalid expression type''"

definition unknown_input :: error where
  "unknown_input = RuntimeError ''[ExpressionGeneratorVisitor]: Unknown Input''"

definition only_primitive :: error where
  "only_primitive = RuntimeError ''[ExpressionGeneratorVisitor]: input of binary expression can only be primitive''"

section \<open>Comparisons\<close>

text \<open>The function strncmp that the string comparison calls stops behind a zero byte.\<close>

fun strncmp_eq :: "byte list \<Rightarrow> byte list \<Rightarrow> bool" where
  "strncmp_eq (a # as) (b # bs) = (a = b \<and> (a = 0 \<or> strncmp_eq as bs))"
| "strncmp_eq [] [] = True"
| "strncmp_eq _ _ = False"

definition equalStringObjs :: "byte list \<Rightarrow> byte list \<Rightarrow> bool" where
  "equalStringObjs o1 o2 \<longleftrightarrow> length o1 = length o2 \<and> strncmp_eq o1 o2"

fun equalStringObjs_lval :: "'f lval list \<Rightarrow> 'f lval result" where
  "equalStringObjs_lval [StringObject a, StringObject b] = Inr (i1 (equalStringObjs a b))"
| "equalStringObjs_lval _ = Inl BadAccess"

lemma size_getOriginalType: "size (getOriginalType a) < Suc (size a + n)"
  by (cases a) simp

text \<open>Equality of two values of the given types; records are compared member by member.\<close>

function gen_eq ::
  "('env, 'f) Context \<Rightarrow> ExpressionType \<Rightarrow> ExpressionType \<Rightarrow> ('env, 'f) code \<Rightarrow> ('env, 'f) code \<Rightarrow> ('env, 'f) code result"
  and gen_eq_members ::
  "('env, 'f) Context \<Rightarrow> RecordAttribute list \<Rightarrow> RecordAttribute list \<Rightarrow> nat \<Rightarrow> ('env, 'f) code \<Rightarrow> ('env, 'f) code \<Rightarrow>
    ('env, 'f) code \<Rightarrow> ('env, 'f) code result" where
  "gen_eq ctx t1 t2 l r =
    (case getTypeID t1 of
       DSTRING_id \<Rightarrow> CreateICmp IEQ l r
     | DATE_id \<Rightarrow> CreateICmp IEQ l r
     | INT64_id \<Rightarrow> CreateICmp IEQ l r
     | INT_id \<Rightarrow> CreateICmp IEQ l r
     | FLOAT_id \<Rightarrow> CreateFCmp (foeq (fops ctx)) l r
     | BOOL_id \<Rightarrow> CreateICmp IEQ l r
     | STRING_id \<Rightarrow> CreateCall [TString, TString] (TInt 1) equalStringObjs_lval [l, r]
     | RECORD_id \<Rightarrow>
         (case t1 of RecordType al \<Rightarrow>
            (case t2 of RecordType ar \<Rightarrow>
               rbind (rassert (length al = length ar \<and> al \<noteq> []) ''record size'') (\<lambda>_.
                 gen_eq_members ctx al ar 0 l r createTrue)
             | _ \<Rightarrow> Inl NullDeref)
          | _ \<Rightarrow> Inl NullDeref)
     | BAG_id \<Rightarrow> Inl invalid_type
     | LIST_id \<Rightarrow> Inl invalid_type
     | SET_id \<Rightarrow> Inl invalid_type
     | _ \<Rightarrow> Inl unknown_input)"
| "gen_eq_members ctx [] ar i l r res = Inr res"
| "gen_eq_members ctx (a # al) [] i l r res = Inl BadAccess"
| "gen_eq_members ctx (a # al) (b # ar) i l r res =
    rbind (CreateExtractValue i l) (\<lambda>el.
    rbind (CreateExtractValue i r) (\<lambda>er.
    rbind (gen_eq ctx (getOriginalType a) (getOriginalType b) el er) (\<lambda>c.
    rbind (CreateBinOp And res c) (\<lambda>res'.
      gen_eq_members ctx al ar (i + 1) l r res'))))"
  by pat_completeness auto

termination
  by (relation "measure (case_sum (\<lambda>(ctx, t1, t2, l, r). size t1) (\<lambda>(ctx, al, ar, i, l, r, res). size_list size al))")
    (auto simp: size_getOriginalType)

declare gen_eq.simps [simp del]

text \<open>The other comparisons, of primitive values only.\<close>

definition compare_primitive ::
  "ipred \<Rightarrow> ('f \<Rightarrow> 'f \<Rightarrow> bool) \<Rightarrow> ExpressionType \<Rightarrow> ('env, 'f) code \<Rightarrow> ('env, 'f) code \<Rightarrow> ('env, 'f) code result" where
  "compare_primitive ip fp t l r =
    (if isPrimitive t then
       (case getTypeID t of
          DSTRING_id \<Rightarrow> CreateICmp ip l r
        | INT64_id \<Rightarrow> CreateICmp ip l r
        | DATE_id \<Rightarrow> CreateICmp ip l r
        | INT_id \<Rightarrow> CreateICmp ip l r
        | FLOAT_id \<Rightarrow> CreateFCmp fp l r
        | BOOL_id \<Rightarrow> CreateICmp ip l r
        | STRING_id \<Rightarrow> Inl string_unsupported
        | BAG_id \<Rightarrow> Inl invalid_type
        | LIST_id \<Rightarrow> Inl invalid_type
        | SET_id \<Rightarrow> Inl invalid_type
        | RECORD_id \<Rightarrow> Inl invalid_type
        | _ \<Rightarrow> Inl unknown_input)
     else Inl only_primitive)"

definition gen_ne :: "('env, 'f) Context \<Rightarrow> ExpressionType \<Rightarrow> ('env, 'f) code \<Rightarrow> ('env, 'f) code \<Rightarrow> ('env, 'f) code result" where
  "gen_ne ctx = compare_primitive INE (fone (fops ctx))"

definition gen_ge :: "('env, 'f) Context \<Rightarrow> ExpressionType \<Rightarrow> ('env, 'f) code \<Rightarrow> ('env, 'f) code \<Rightarrow> ('env, 'f) code result" where
  "gen_ge ctx = compare_primitive SGE (\<lambda>a b. fole (fops ctx) b a)"

definition gen_gt :: "('env, 'f) Context \<Rightarrow> ExpressionType \<Rightarrow> ('env, 'f) code \<Rightarrow> ('env, 'f) code \<Rightarrow> ('env, 'f) code result" where
  "gen_gt ctx = compare_primitive SGT (\<lambda>a b. folt (fops ctx) b a)"

definition gen_le :: "('env, 'f) Context \<Rightarrow> ExpressionType \<Rightarrow> ('env, 'f) code \<Rightarrow> ('env, 'f) code \<Rightarrow> ('env, 'f) code result" where
  "gen_le ctx = compare_primitive SLE (fole (fops ctx))"

definition gen_lt :: "('env, 'f) Context \<Rightarrow> ExpressionType \<Rightarrow> ('env, 'f) code \<Rightarrow> ('env, 'f) code \<Rightarrow> ('env, 'f) code result" where
  "gen_lt ctx = compare_primitive SLT (folt (fops ctx))"

section \<open>Arithmetic\<close>

definition gen_add :: "('env, 'f) Context \<Rightarrow> ExpressionType \<Rightarrow> ('env, 'f) code \<Rightarrow> ('env, 'f) code \<Rightarrow> ('env, 'f) code result" where
  "gen_add ctx t l r =
    (case getTypeID t of
       INT64_id \<Rightarrow> CreateBinOp Add l r
     | DATE_id \<Rightarrow> CreateBinOp Add l r
     | INT_id \<Rightarrow> CreateBinOp Add l r
     | FLOAT_id \<Rightarrow> CreateFBin (fadd (fops ctx)) l r
     | BOOL_id \<Rightarrow> CreateBinOp Add l r
     | INDEXEDSEQ_id \<Rightarrow> CreateGEP ctx l r
     | STRING_id \<Rightarrow> Inl string_unsupported
     | BAG_id \<Rightarrow> Inl invalid_type
     | LIST_id \<Rightarrow> Inl invalid_type
     | SET_id \<Rightarrow> Inl invalid_type
     | RECORD_id \<Rightarrow> Inl invalid_type
     | _ \<Rightarrow> Inl unknown_input)"

definition arith_primitive ::
  "typeID list \<Rightarrow> iop \<Rightarrow> ('f \<Rightarrow> 'f \<Rightarrow> 'f) \<Rightarrow> ExpressionType \<Rightarrow> ('env, 'f) code \<Rightarrow> ('env, 'f) code \<Rightarrow> ('env, 'f) code result" where
  "arith_primitive ints ip fp t l r =
    (if isPrimitive t then
       if getTypeID t \<in> set ints then CreateBinOp ip l r
       else
         (case getTypeID t of
            FLOAT_id \<Rightarrow> CreateFBin fp l r
          | STRING_id \<Rightarrow> Inl string_unsupported
          | BAG_id \<Rightarrow> Inl invalid_type
          | LIST_id \<Rightarrow> Inl invalid_type
          | SET_id \<Rightarrow> Inl invalid_type
          | RECORD_id \<Rightarrow> Inl invalid_type
          | _ \<Rightarrow> Inl unknown_input)
     else Inl only_primitive)"

definition gen_sub :: "('env, 'f) Context \<Rightarrow> ExpressionType \<Rightarrow> ('env, 'f) code \<Rightarrow> ('env, 'f) code \<Rightarrow> ('env, 'f) code result" where
  "gen_sub ctx = arith_primitive [INT64_id, DATE_id, INT_id, BOOL_id] Sub (fsub (fops ctx))"

definition gen_mult :: "('env, 'f) Context \<Rightarrow> ExpressionType \<Rightarrow> ('env, 'f) code \<Rightarrow> ('env, 'f) code \<Rightarrow> ('env, 'f) code result" where
  "gen_mult ctx = arith_primitive [INT64_id, INT_id, BOOL_id] Mul (fmul (fops ctx))"

definition gen_div :: "('env, 'f) Context \<Rightarrow> ExpressionType \<Rightarrow> ('env, 'f) code \<Rightarrow> ('env, 'f) code \<Rightarrow> ('env, 'f) code result" where
  "gen_div ctx = arith_primitive [INT64_id, INT_id, BOOL_id] SDiv (fdiv (fops ctx))"

definition gen_mod :: "('env, 'f) Context \<Rightarrow> ExpressionType \<Rightarrow> ('env, 'f) code \<Rightarrow> ('env, 'f) code \<Rightarrow> ('env, 'f) code result" where
  "gen_mod ctx = arith_primitive [INT64_id, INT_id, BOOL_id] URem (frem (fops ctx))"

section \<open>Conditions, casts and the other operators\<close>

definition gen_if ::
  "('env, 'f) ProteusValue \<Rightarrow> ('env, 'f) ProteusValue \<Rightarrow> ('env, 'f) ProteusValue \<Rightarrow> ('env, 'f) ProteusValue result" where
  "gen_if ifCond ifResult elseResult =
    rbind (CreateIf (pv_value ifCond) (pv_value ifResult) (pv_value elseResult)) (\<lambda>v.
    rbind (CreateIf (pv_value ifCond) (pv_isNull ifResult) (pv_isNull elseResult)) (\<lambda>n.
      Inr \<lparr>pv_value = v, pv_isNull = n\<rparr>))"

definition gen_neg :: "('env, 'f) Context \<Rightarrow> ('env, 'f) ProteusValue \<Rightarrow> ('env, 'f) ProteusValue result" where
  "gen_neg ctx v =
    rbind (if ctype (pv_value v) = TDouble then CreateFNeg (fneg (fops ctx)) (pv_value v) else CreateNeg (pv_value v)) (\<lambda>c.
      Inr (v\<lparr>pv_value := c\<rparr>))"

definition gen_test_null :: "bool \<Rightarrow> ('env, 'f) ProteusValue \<Rightarrow> ('env, 'f) ProteusValue result" where
  "gen_test_null nullTest v = not_null_r (if nullTest then Inr (pv_isNull v) else CreateNot (pv_isNull v))"

definition isIntegerTy :: "ltype \<Rightarrow> bool" where
  "isIntegerTy t = (case t of TInt _ \<Rightarrow> True | _ \<Rightarrow> False)"

definition gen_cast ::
  "('env, 'f) Context \<Rightarrow> ExpressionType \<Rightarrow> ExpressionType \<Rightarrow> ('env, 'f) ProteusValue \<Rightarrow> ('env, 'f) ProteusValue result" where
  "gen_cast ctx etype_to etype_from v =
    rbind (getLLVMType etype_to) (\<lambda>ltype_to.
    rbind (getLLVMType etype_from) (\<lambda>ltype_from.
    rbind (if isIntegerTy ltype_to \<and> isIntegerTy ltype_from then CreateSExtOrTrunc ltype_to (pv_value v)
           else if \<not> isIntegerTy ltype_to \<and> isIntegerTy ltype_from then CreateSIToFP (sitofp (fops ctx)) ltype_to (pv_value v)
           else if isIntegerTy ltype_to \<and> \<not> isIntegerTy ltype_from then CreateFPToSI (fptosi (fops ctx)) ltype_to (pv_value v)
           else CreateFPCast ltype_to (pv_value v)) (\<lambda>c.
      Inr (v\<lparr>pv_value := c\<rparr>))))"

text \<open>The intrinsic expect-with-probability returns its first operand, which has the type of the constant true.\<close>

definition gen_hint :: "('env, 'f) ProteusValue \<Rightarrow> ('env, 'f) ProteusValue result" where
  "gen_hint v = rbind (rassert (ctype (pv_value v) = TInt 1) ''Calling a function with a bad signature!'') (\<lambda>_. Inr v)"

fun extract_lval :: "(64 word \<Rightarrow> 32 word) \<Rightarrow> 'f lval \<Rightarrow> 'f lval result" where
  "extract_lval f (I64 w) = Inr (I32 (f w))"
| "extract_lval f _ = Inl BadAccess"

definition gen_extract :: "extract_unit \<Rightarrow> ('env, 'f) ProteusValue \<Rightarrow> ('env, 'f) ProteusValue result" where
  "gen_extract u v =
    rbind (rassert (ctype (pv_value v) = TInt 64) ''operand types'') (\<lambda>_.
    rbind (visit_Extract u) (\<lambda>f.
    rbind (unary_code (\<lambda>t. t = TInt 64) (\<lambda>_. TInt 32) (extract_lval f) (pv_value v)) (\<lambda>c.
      Inr (v\<lparr>pv_value := c\<rparr>))))"

definition gen_placeholder :: "('env, 'f) Context \<Rightarrow> ExpressionType \<Rightarrow> nat \<Rightarrow> ('env, 'f) ProteusValue result" where
  "gen_placeholder ctx t i =
    rbind (getLLVMType t) (\<lambda>l. Inr (not_null \<lparr>ctype = l, run = session_value ctx i l\<rparr>))"

definition gen_rand :: "('env, 'f) Context \<Rightarrow> gstate \<Rightarrow> ('env, 'f) ProteusValue \<times> gstate" where
  "gen_rand ctx s =
    (not_null \<lparr>ctype = TInt 32, run = (\<lambda>env. Inr (I32 (rand_value ctx (rand_calls s) env)))\<rparr>, s\<lparr>rand_calls := rand_calls s + 1\<rparr>)"

section \<open>Binary operators\<close>

fun gen_binary ::
  "('env, 'f) Context \<Rightarrow> opID \<Rightarrow> ExpressionType \<Rightarrow> ExpressionType \<Rightarrow> ('env, 'f) code \<Rightarrow> ('env, 'f) code \<Rightarrow> ('env, 'f) code result" where
  "gen_binary ctx EQ_op t1 t2 l r = gen_eq ctx t1 t2 l r"
| "gen_binary ctx NEQ_op t1 t2 l r = gen_ne ctx t1 l r"
| "gen_binary ctx GE_op t1 t2 l r = gen_ge ctx t1 l r"
| "gen_binary ctx GT_op t1 t2 l r = gen_gt ctx t1 l r"
| "gen_binary ctx LE_op t1 t2 l r = gen_le ctx t1 l r"
| "gen_binary ctx LT_op t1 t2 l r = gen_lt ctx t1 l r"
| "gen_binary ctx ADD_op t1 t2 l r = gen_add ctx t1 l r"
| "gen_binary ctx SUB_op t1 t2 l r = gen_sub ctx t1 l r"
| "gen_binary ctx MULT_op t1 t2 l r = gen_mult ctx t1 l r"
| "gen_binary ctx DIV_op t1 t2 l r = gen_div ctx t1 l r"
| "gen_binary ctx MOD_op t1 t2 l r = gen_mod ctx t1 l r"
| "gen_binary ctx AND_op t1 t2 l r = CreateBinOp And l r"
| "gen_binary ctx OR_op t1 t2 l r = CreateBinOp Or l r"
| "gen_binary ctx SHL_op t1 t2 l r = CreateBinOp Shl l r"
| "gen_binary ctx ASHR_op t1 t2 l r = CreateBinOp AShr l r"
| "gen_binary ctx LSHR_op t1 t2 l r = CreateBinOp LShr l r"
| "gen_binary ctx XOR_op t1 t2 l r = CreateBinOp Xor l r"
| "gen_binary ctx MAX_op t1 t2 l r = gen_gt ctx t1 l r"
| "gen_binary ctx MIN_op t1 t2 l r = gen_lt ctx t1 l r"

section \<open>Input arguments and projections\<close>

definition gen_InputArgument :: "('env, 'f) Context \<Rightarrow> RecordAttribute list \<Rightarrow> gstate \<Rightarrow> ('env, 'f) ProteusValue result" where
  "gen_InputArgument ctx projections s =
    (if activeRelation s \<noteq> [] then
       rbind (getPlugin ctx (activeRelation s)) (\<lambda>pg.
       rbind (new_RecordAttribute_oid (activeRelation s) activeLoop (getOIDType pg)) (\<lambda>relevantAttr.
         case find_binding relevantAttr (currState ctx) of
           None \<Rightarrow> Inl (RuntimeError ''[Expression Generator: ] Could not find tuple information'')
         | Some v \<Rightarrow> Inr v))
     else
       (case filter (\<lambda>(rec, b). getAttrName rec = activeLoop \<and> getRelationName (fst b) = getRelationName rec \<and> getAttrName (fst b) = activeLoop)
               (List.product projections (currState ctx)) of
          [] \<Rightarrow> Inl (Assertion ''Argument not found'')
        | found \<Rightarrow> Inr (snd (snd (last found)))))"

definition projectArg ::
  "RecordAttribute list \<Rightarrow> ('env, 'f) code \<Rightarrow> RecordAttribute \<Rightarrow> ('env, 'f) code option result" where
  "projectArg args record_value attr =
    (case ctype record_value of
       TStruct ts \<Rightarrow>
         rbind (getLLVMType (RecordType args)) (\<lambda>l.
           if l \<noteq> TStruct ts then Inr None
           else rbind (getIndex attr args) (\<lambda>index.
             case index of None \<Rightarrow> Inr None | Some i \<Rightarrow> rbind (CreateExtractValue i record_value) (\<lambda>c. Inr (Some c))))
     | _ \<Rightarrow> Inr None)"

text \<open>The cached value of a projection, if there is a complete one and the attribute is not bound.\<close>

definition cached_projection ::
  "('env, 'f) Context \<Rightarrow> ('env, 'f) expr \<Rightarrow> RecordAttribute \<Rightarrow> CacheInfo option result" where
  "cached_projection ctx e a =
    rbind (getCache (expr_order ctx) e (caches ctx)) (\<lambda>info.
      if structFieldNo info \<noteq> - 1 \<and> find_binding a (currState ctx) = None then
        rbind (getCacheIsFull (expr_order ctx) e (caches ctx)) (\<lambda>full. Inr (if full then Some info else None))
      else Inr None)"

text \<open>The rest of the visit of a projection, after the record has been visited.\<close>

definition project_record ::
  "('env, 'f) Context \<Rightarrow> ('env, 'f) Plugin \<Rightarrow> ExpressionType \<Rightarrow> RecordAttribute \<Rightarrow> ('env, 'f) ProteusValue \<Rightarrow> gstate \<Rightarrow>
    ('env, 'f) ProteusValue result" where
  "project_record ctx pg exprType a rv s =
    (let read_from = (\<lambda>mem_path. readValue pg mem_path (getOriginalType a));
         by_path = rbind (readPath pg (activeRelation s) (currState ctx) rv (getAttrName a) a) read_from
     in if getAttrName a \<noteq> activeLoop then
          (case exprType of
             RecordType args \<Rightarrow>
               rbind (projectArg args (pv_value rv) a) (\<lambda>val.
                 case val of Some c \<Rightarrow> Inr \<lparr>pv_value = c, pv_isNull = pv_isNull rv\<rparr> | None \<Rightarrow> by_path)
           | _ \<Rightarrow> by_path)
        else
          rbind (getPlugin ctx (activeRelation s)) (\<lambda>pg'.
          rbind (new_RecordAttribute_oid (activeRelation s) activeLoop (getOIDType pg')) (\<lambda>key.
          rbind (state_at (currState ctx) key) read_from)))"

section \<open>Hash functions\<close>

definition murmur32 :: "32 word \<Rightarrow> 64 word" where
  "murmur32 key =
    (let hash = scast key;
         hash = hash XOR drop_bit 16 hash;
         hash = hash * 0x85ebca6b;
         hash = hash XOR drop_bit 13 hash;
         hash = hash * 0xc2b2ae35;
         hash = hash XOR drop_bit 16 hash
     in hash)"

definition murmur64 :: "64 word \<Rightarrow> 64 word" where
  "murmur64 key =
    (let hash = key;
         hash = hash XOR drop_bit 33 hash;
         hash = hash * 0xff51afd7ed558ccd;
         hash = hash XOR drop_bit 33 hash;
         hash = hash * 0xc4ceb9fe1a85ec53;
         hash = hash XOR drop_bit 33 hash
     in hash)"

fun murmur32_lval :: "'f lval \<Rightarrow> 'f lval result" where
  "murmur32_lval (I32 w) = Inr (I64 (murmur32 w))"
| "murmur32_lval _ = Inl BadAccess"

fun murmur64_lval :: "'f lval \<Rightarrow> 'f lval result" where
  "murmur64_lval (I64 w) = Inr (I64 (murmur64 w))"
| "murmur64_lval _ = Inl BadAccess"

definition hashInt32 :: "('env, 'f) ProteusValue \<Rightarrow> ('env, 'f) ProteusValue result" where
  "hashInt32 v =
    rbind (unary_code (\<lambda>t. t = TInt 32) (\<lambda>_. TInt 64) murmur32_lval (pv_value v)) (\<lambda>c.
      Inr \<lparr>pv_value = c, pv_isNull = pv_isNull v\<rparr>)"

definition hashInt64 :: "('env, 'f) ProteusValue \<Rightarrow> ('env, 'f) ProteusValue result" where
  "hashInt64 v =
    rbind (unary_code (\<lambda>t. t = TInt 64) (\<lambda>_. TInt 64) murmur64_lval (pv_value v)) (\<lambda>c.
      Inr \<lparr>pv_value = c, pv_isNull = pv_isNull v\<rparr>)"

text \<open>
  What the library functions return; hashing a string object ends at a zero byte. In the source
  \<^verbatim>\<open>hashStringObject\<close> also overwrites the two bytes behind the string. String values are byte lists
  here, not addresses, so that effect is not part of the call: the theory of the hashes has the function
  on memory, and that it returns the number given here.
\<close>

definition zero_terminated :: "byte list \<Rightarrow> byte list" where
  "zero_terminated bs = takeWhile (\<lambda>b. b \<noteq> 0) bs"

fun hash_call :: "('env, 'f) Context \<Rightarrow> 'f lval list \<Rightarrow> 'f lval result" where
  "hash_call ctx [FP a] = Inr (I64 (std_hash_double ctx a))"
| "hash_call ctx [I1 b] = Inr (I64 (std_hash_bool ctx (b \<noteq> 0)))"
| "hash_call ctx [StringObject bs] = Inr (I64 (std_hash_string ctx (zero_terminated bs)))"
| "hash_call ctx _ = Inl BadAccess"

definition hasher_invalid :: error where
  "hasher_invalid = RuntimeError ''[ExpressionHasherVisitor]: invalid expression type''"

definition hashPrimitive :: "('env, 'f) Context \<Rightarrow> typeID \<Rightarrow> ('env, 'f) ProteusValue \<Rightarrow> ('env, 'f) ProteusValue result" where
  "hashPrimitive ctx t v =
    (case t of
       INT_id \<Rightarrow> hashInt32 v
     | DSTRING_id \<Rightarrow> hashInt32 v
     | INT64_id \<Rightarrow> hashInt64 v
     | DATE_id \<Rightarrow> hashInt64 v
     | FLOAT_id \<Rightarrow> rbind (CreateCall [TDouble] (TInt 64) (hash_call ctx) [pv_value v]) (\<lambda>c. Inr \<lparr>pv_value = c, pv_isNull = pv_isNull v\<rparr>)
     | BOOL_id \<Rightarrow> rbind (CreateCall [TInt 1] (TInt 64) (hash_call ctx) [pv_value v]) (\<lambda>c. Inr \<lparr>pv_value = c, pv_isNull = pv_isNull v\<rparr>)
     | STRING_id \<Rightarrow> not_null_r (CreateCall [TString] (TInt 64) (hash_call ctx) [pv_value v])
     | INDEXEDSEQ_id \<Rightarrow> Inl (RuntimeError ''[ExpressionHasherVisitor]: Unknown Input'')
     | _ \<Rightarrow> Inl hasher_invalid)"

text \<open>The hash of an expression of a primitive type, from the visit of a generator.\<close>

definition hash_expression ::
  "('env, 'f) Context \<Rightarrow> ExpressionType \<Rightarrow> (('env, 'f) ProteusValue \<times> gstate) result \<Rightarrow> gstate \<Rightarrow>
    (('env, 'f) ProteusValue \<times> gstate) result" where
  "hash_expression ctx t generated s =
    rbind (rassert (isPrimitive t) ''Non-primitive types should be handled by the corresponding visit function!'') (\<lambda>_.
    rbind generated (\<lambda>(v, s1).
    rbind (hashPrimitive ctx (getTypeID t) v) (\<lambda>h. Inr (h, s\<lparr>rand_calls := rand_calls s1\<rparr>))))"

definition hash_if :: "('env, 'f) code \<Rightarrow> ('env, 'f) code \<Rightarrow> ('env, 'f) code \<Rightarrow> ('env, 'f) code result" where
  "hash_if c t f = rbind (rassert (ctype t = TInt 64 \<and> ctype f = TInt 64) ''store type'') (\<lambda>_. CreateIf c t f)"

text \<open>One step of the hash of a record: the hash of a member is mixed into the seed.\<close>

definition mix_hash :: "64 word \<Rightarrow> 64 word \<Rightarrow> 64 word" where
  "mix_hash seed hv = (((hv + 0x9e3779b9) + push_bit 6 seed) + drop_bit 2 seed) XOR seed"

fun mix_lval :: "'f lval \<Rightarrow> 'f lval \<Rightarrow> 'f lval result" where
  "mix_lval (I64 seed) (I64 hv) = Inr (I64 (mix_hash seed hv))"
| "mix_lval _ _ = Inl BadAccess"

definition gen_mix :: "('env, 'f) code \<Rightarrow> ('env, 'f) code \<Rightarrow> ('env, 'f) code result" where
  "gen_mix = binary_code (\<lambda>t. t = TInt 64) id mix_lval"

text \<open>The hashes of the tuples that an input argument stands for are combined by exclusive or.\<close>

definition hash_InputArgument :: "('env, 'f) Context \<Rightarrow> RecordAttribute list \<Rightarrow> ('env, 'f) ProteusValue result" where
  "hash_InputArgument ctx projections =
    rbind (rfold (\<lambda>it h.
        if getAttrName it \<noteq> activeLoop then Inr h
        else
          (case find (\<lambda>b. getRelationName (fst b) = getRelationName it \<and> getAttrName (fst b) = activeLoop) (currState ctx) of
             None \<Rightarrow> Inr h
           | Some b \<Rightarrow>
               rbind (getPlugin ctx (getRelationName (fst b))) (\<lambda>pg.
               rbind (hashValue pg (snd b) (RecordType projections)) (\<lambda>partialHash.
                 binary_code (\<lambda>t. t = TInt 64) id (int_op Xor) h (pv_value partialHash)))))
      projections (const_code (I64 0))) (\<lambda>h. Inr (not_null h))"

definition hash_record ::
  "('env, 'f) Context \<Rightarrow> ('env, 'f) Plugin \<Rightarrow> ExpressionType \<Rightarrow> RecordAttribute \<Rightarrow> ('env, 'f) ProteusValue \<Rightarrow> gstate \<Rightarrow>
    ('env, 'f) ProteusValue result" where
  "hash_record ctx pg exprType a rv s =
    (let by_path = rbind (readPath pg (activeRelation s) (currState ctx) rv (getAttrName a) a) (\<lambda>m. hashValue pg m (getOriginalType a))
     in if getAttrName a \<noteq> activeLoop then
          (case exprType of
             RecordType args \<Rightarrow>
               rbind (projectArg args (pv_value rv) a) (\<lambda>val.
                 case val of Some c \<Rightarrow> hashValueEager pg \<lparr>pv_value = c, pv_isNull = pv_isNull rv\<rparr> (getOriginalType a) | None \<Rightarrow> by_path)
           | _ \<Rightarrow> by_path)
        else
          rbind (getPlugin ctx (activeRelation s)) (\<lambda>pg'.
          rbind (new_RecordAttribute_oid (activeRelation s) activeLoop (getOIDType pg')) (\<lambda>key.
            case find_binding key (currState ctx) of
              None \<Rightarrow> Inl (RuntimeError ''[Expression Generator: ] Current tuple binding not found'')
            | Some m \<Rightarrow> hashValue pg m (getOriginalType a))))"

section \<open>The visitors\<close>

definition bytes_of :: "string \<Rightarrow> byte list" where
  "bytes_of s = map (\<lambda>c. of_nat (of_char c)) s"

definition hasher_only_primitive :: error where
  "hasher_only_primitive = RuntimeError ''[ExpressionHasherVisitor]: input of binary expression can only be primitive''"

text \<open>The visit of the hasher goes on with its own active relation after a generator of its own has run.\<close>

definition after_generator :: "gstate \<Rightarrow> gstate \<Rightarrow> gstate" where
  "after_generator s s' = s\<lparr>rand_calls := rand_calls s'\<rparr>"

definition fresh_generator :: "gstate \<Rightarrow> gstate" where
  "fresh_generator s = s\<lparr>activeRelation := []\<rparr>"

function visit :: "('env, 'f) Context \<Rightarrow> ('env, 'f) expr \<Rightarrow> gstate \<Rightarrow> (('env, 'f) ProteusValue \<times> gstate) result"
  and visit_atts :: "('env, 'f) Context \<Rightarrow> (string \<times> ('env, 'f) expr) list \<Rightarrow> ('env, 'f) code list \<Rightarrow> ('env, 'f) code \<Rightarrow> gstate \<Rightarrow>
    (('env, 'f) ProteusValue \<times> gstate) result"
  and hvisit :: "('env, 'f) Context \<Rightarrow> ('env, 'f) expr \<Rightarrow> gstate \<Rightarrow> (('env, 'f) ProteusValue \<times> gstate) result"
  and hvisit_atts :: "('env, 'f) Context \<Rightarrow> (string \<times> ('env, 'f) expr) list \<Rightarrow> ('env, 'f) code \<Rightarrow> gstate \<Rightarrow>
    (('env, 'f) ProteusValue \<times> gstate) result" where
  "visit ctx (IntConstant w) s = Inr (not_null (const_code (I32 w)), s)"
| "visit ctx (Int64Constant w) s = Inr (not_null (const_code (I64 w)), s)"
| "visit ctx (DateConstant w) s = Inr (not_null (const_code (I64 w)), s)"
| "visit ctx (FloatConstant f) s = Inr (not_null (const_code (FP f)), s)"
| "visit ctx (BoolConstant b) s = Inr (not_null (const_code (i1 b)), s)"
| "visit ctx (DStringConstant w d) s = Inr (not_null (const_code (I32 w)), s)"
| "visit ctx (StringConstant str) s = Inr (not_null (const_code (StringObject (bytes_of str))), s)"
| "visit ctx (InputArgument args n) s = rbind (gen_InputArgument ctx args s) (\<lambda>v. Inr (v, s))"
| "visit ctx (RecordProjection e a) s =
    (let s1 = s\<lparr>activeRelation := getOriginalRelationName a\<rparr>
     in rbind (getPlugin ctx (getOriginalRelationName a)) (\<lambda>pg.
        rbind (cached_projection ctx (RecordProjection e a) a) (\<lambda>info.
          case info of
            Some i \<Rightarrow> rbind (readCachedValue pg i (currState ctx)) (\<lambda>v. Inr (v, s1))
          | None \<Rightarrow>
              rbind (visit ctx e s1) (\<lambda>(rv, s2).
              rbind (project_record ctx pg (getExpressionType e) a rv s2) (\<lambda>v. Inr (v, s2))))))"
| "visit ctx (RecordConstruction atts) s = visit_atts ctx atts [] createFalse s"
| "visit ctx (IfThenElse c t f) s =
    rbind (visit ctx c s) (\<lambda>(cv, s1).
    rbind (visit ctx t s1) (\<lambda>(tv, s2).
    rbind (visit ctx f s2) (\<lambda>(fv, s3).
    rbind (gen_if cv tv fv) (\<lambda>v. Inr (v, s3)))))"
| "visit ctx (BinaryExpression p l r) s =
    rbind (visit ctx l s) (\<lambda>(lv, s1).
    rbind (visit ctx r s1) (\<lambda>(rv, s2).
    rbind (gen_binary ctx p (getExpressionType l) (getExpressionType r) (pv_value lv) (pv_value rv)) (\<lambda>c.
      if p = MAX_op \<or> p = MIN_op then
        rbind (visit ctx l s2) (\<lambda>(tv, s3).
        rbind (visit ctx r s3) (\<lambda>(fv, s4).
        rbind (gen_if (not_null c) tv fv) (\<lambda>v. Inr (v, s4))))
      else Inr (not_null c, s2))))"
| "visit ctx RandExpression s = Inr (gen_rand ctx s)"
| "visit ctx (HintExpression e sel) s = rbind (visit ctx e s) (\<lambda>(v, s1). rbind (gen_hint v) (\<lambda>v'. Inr (v', s1)))"
| "visit ctx (HashExpression e) s =
    rbind (hvisit ctx e (fresh_generator s)) (\<lambda>(v, s1). Inr (v, after_generator s s1))"
| "visit ctx (TestNullExpression e nullTest) s =
    rbind (visit ctx e s) (\<lambda>(v, s1). rbind (gen_test_null nullTest v) (\<lambda>v'. Inr (v', s1)))"
| "visit ctx (ExtractExpression e u) s = rbind (visit ctx e s) (\<lambda>(v, s1). rbind (gen_extract u v) (\<lambda>v'. Inr (v', s1)))"
| "visit ctx (NegExpression e) s = rbind (visit ctx e s) (\<lambda>(v, s1). rbind (gen_neg ctx v) (\<lambda>v'. Inr (v', s1)))"
| "visit ctx (CastExpression t e) s =
    rbind (visit ctx e s) (\<lambda>(v, s1). rbind (gen_cast ctx t (getExpressionType e) v) (\<lambda>v'. Inr (v', s1)))"
| "visit ctx (PlaceholderExpression t i) s = rbind (gen_placeholder ctx t i) (\<lambda>v. Inr (v, s))"
| "visit ctx (ProteusValueExpression t v) s = Inr (v, s)"
| "visit_atts ctx [] vals n s = Inr (\<lparr>pv_value = constructStruct vals, pv_isNull = n\<rparr>, s)"
| "visit_atts ctx ((name, e) # atts) vals n s =
    rbind (visit ctx e s) (\<lambda>(v, s1).
    rbind (CreateBinOp Or n (pv_isNull v)) (\<lambda>n'.
      visit_atts ctx atts (vals @ [pv_value v]) n' s1))"
| "hvisit ctx (StringConstant str) s = Inr (not_null (const_code (I64 (std_hash_string ctx (bytes_of str)))), s)"
| "hvisit ctx (InputArgument args n) s = rbind (hash_InputArgument ctx args) (\<lambda>v. Inr (v, s))"
| "hvisit ctx (RecordProjection e a) s =
    (let s1 = s\<lparr>activeRelation := getOriginalRelationName a\<rparr>
     in rbind (visit ctx e s1) (\<lambda>(rv, s2).
        let s3 = after_generator s1 s2
        in rbind (getPlugin ctx (getOriginalRelationName a)) (\<lambda>pg.
           rbind (cached_projection ctx (RecordProjection e a) a) (\<lambda>info.
             case info of
               Some i \<Rightarrow>
                 rbind (readCachedValue pg i (currState ctx)) (\<lambda>v.
                 rbind (hashValueEager pg v (getOriginalType a)) (\<lambda>h. Inr (h, s3)))
             | None \<Rightarrow> rbind (hash_record ctx pg (getExpressionType e) a rv s3) (\<lambda>h. Inr (h, s3))))))"
| "hvisit ctx (RecordConstruction atts) s = hvisit_atts ctx atts (const_code (I64 0)) s"
| "hvisit ctx (IfThenElse c t f) s =
    rbind (visit ctx c (fresh_generator s)) (\<lambda>(cv, s1).
    rbind (hvisit ctx t (after_generator s s1)) (\<lambda>(tv, s2).
    rbind (hvisit ctx f s2) (\<lambda>(fv, s3).
    rbind (hash_if (pv_value cv) (pv_value tv) (pv_value fv)) (\<lambda>v. Inr (not_null v, s3)))))"
| "hvisit ctx (BinaryExpression p l r) s =
    (if p = MAX_op \<or> p = MIN_op then
       rbind (visit ctx l (fresh_generator s)) (\<lambda>(lv, s1).
       rbind (visit ctx r s1) (\<lambda>(rv, s2).
       rbind (gen_binary ctx p (getExpressionType l) (getExpressionType r) (pv_value lv) (pv_value rv)) (\<lambda>c.
       rbind (hvisit ctx l (after_generator s s2)) (\<lambda>(tv, s3).
       rbind (hvisit ctx r s3) (\<lambda>(fv, s4).
       rbind (hash_if c (pv_value tv) (pv_value fv)) (\<lambda>v. Inr (not_null v, s4)))))))
     else if \<not> comparison p \<and> p \<noteq> AND_op \<and> p \<noteq> OR_op \<and> \<not> isPrimitive (getExpressionType (BinaryExpression p l r)) then
       Inl hasher_only_primitive
     else
       hash_expression ctx (getExpressionType (BinaryExpression p l r)) (visit ctx (BinaryExpression p l r) (fresh_generator s)) s)"
| "hvisit ctx (HintExpression e sel) s = hvisit ctx e s"
| "hvisit ctx (HashExpression e) s = Inl (Assertion ''This does not really make sense... Why to hash a hash?'')"
| "hvisit ctx (NegExpression e) s =
    (if \<not> isPrimitive (getExpressionType e) then
       Inl (RuntimeError ''[ExpressionHasherVisitor]: input of negate expression can only be primitive'')
     else
       hash_expression ctx (getExpressionType e) (visit ctx (NegExpression e) (fresh_generator s)) s)"
| "hvisit ctx (ProteusValueExpression t v) s =
    (if isPrimitive t then hash_expression ctx t (Inr (v, s)) s
     else rbind (getPlugin ctx (activeRelation s)) (\<lambda>pg. rbind (hashValueEager pg v t) (\<lambda>h. Inr (h, s))))"
| "hvisit ctx (IntConstant w) s = rbind (hashInt32 (not_null (const_code (I32 w)))) (\<lambda>h. Inr (h, s))"
| "hvisit ctx (DStringConstant w d) s = rbind (hashInt32 (not_null (const_code (I32 w)))) (\<lambda>h. Inr (h, s))"
| "hvisit ctx (Int64Constant w) s = hash_expression ctx Int64Type (Inr (not_null (const_code (I64 w)), s)) s"
| "hvisit ctx (DateConstant w) s = hash_expression ctx DateType (Inr (not_null (const_code (I64 w)), s)) s"
| "hvisit ctx (FloatConstant f) s = hash_expression ctx FloatType (Inr (not_null (const_code (FP f)), s)) s"
| "hvisit ctx (BoolConstant b) s = hash_expression ctx BoolType (Inr (not_null (const_code (i1 b)), s)) s"
| "hvisit ctx RandExpression s =
    hash_expression ctx IntType (Inr (gen_rand ctx (fresh_generator s))) s"
| "hvisit ctx (TestNullExpression e b) s =
    hash_expression ctx BoolType (visit ctx (TestNullExpression e b) (fresh_generator s)) s"
| "hvisit ctx (ExtractExpression e u) s =
    hash_expression ctx IntType (visit ctx (ExtractExpression e u) (fresh_generator s)) s"
| "hvisit ctx (CastExpression t e) s =
    hash_expression ctx t (visit ctx (CastExpression t e) (fresh_generator s)) s"
| "hvisit ctx (PlaceholderExpression t i) s =
    hash_expression ctx t (rbind (gen_placeholder ctx t i) (\<lambda>v. Inr (v, s))) s"
| "hvisit_atts ctx [] seed s = Inr (not_null seed, s)"
| "hvisit_atts ctx ((name, e) # atts) seed s =
    rbind (hvisit ctx e s) (\<lambda>(v, s1).
    rbind (gen_mix seed (pv_value v)) (\<lambda>seed'.
      hvisit_atts ctx atts seed' s1))"
  by pat_completeness auto

termination
  by (relation "measure (case_sum
      (case_sum (\<lambda>(ctx, e, s). 2 * size e) (\<lambda>(ctx, atts, vals, n, s). 2 * size_list (size_prod (\<lambda>_. 0) size) atts))
      (case_sum (\<lambda>(ctx, e, s). 2 * size e + 1) (\<lambda>(ctx, atts, seed, s). 2 * size_list (size_prod (\<lambda>_. 0) size) atts + 1)))") auto

end
