(* ===== verification/ExprTyping.thy ===== *)
theory ExprTyping
  imports ExprGenerator
begin

text \<open>
  What the generated code computes: well-typed expressions generate code of their type that can only
  fail by an arithmetic fault, hashes agree with equality, and the elements that start an
  aggregation are neutral.
\<close>

section \<open>Sound code\<close>

text \<open>Code is sound if it gives a value of its type, or stops by a fault of an arithmetic instruction.\<close>

definition fault :: "error \<Rightarrow> bool" where
  "fault e = (case e of Fatal _ \<Rightarrow> True | _ \<Rightarrow> False)"

definition yields :: "'f lval result \<Rightarrow> ltype \<Rightarrow> bool" where
  "yields m t = (case m of Inl e \<Rightarrow> fault e | Inr v \<Rightarrow> type_of v = t)"

definition sound :: "('env, 'f) code \<Rightarrow> bool" where
  "sound c \<longleftrightarrow> (\<forall>env. yields (run c env) (ctype c))"

definition typed :: "('env, 'f) ProteusValue \<Rightarrow> ltype \<Rightarrow> bool" where
  "typed v t \<longleftrightarrow> ctype (pv_value v) = t \<and> sound (pv_value v) \<and> ctype (pv_isNull v) = TInt 1 \<and> sound (pv_isNull v)"

lemma fault_Fatal [simp]: "fault (Fatal m)"
  by (simp add: fault_def)

lemma yields_simps [simp]: "yields (Inl e) t = fault e" "yields (Inr v) t \<longleftrightarrow> type_of v = t"
  by (simp_all add: yields_def)

lemma type_of_cases:
  "type_of v = TInt n \<longleftrightarrow> (n = 1 \<and> (\<exists>w. v = I1 w)) \<or> (n = 32 \<and> (\<exists>w. v = I32 w)) \<or> (n = 64 \<and> (\<exists>w. v = I64 w))"
  "type_of v = TDouble \<longleftrightarrow> (\<exists>f. v = FP f)"
  "type_of v = TString \<longleftrightarrow> (\<exists>bs. v = StringObject bs)"
  "type_of v = TStruct ts \<longleftrightarrow> (\<exists>vs. v = Struct vs \<and> map type_of vs = ts)"
  by (cases v; auto)+

lemma yields_bind: "yields m t \<Longrightarrow> (\<And>v. m = Inr v \<Longrightarrow> type_of v = t \<Longrightarrow> yields (f v) t') \<Longrightarrow> yields (rbind m f) t'"
  by (cases m) auto

lemma soundD: "sound c \<Longrightarrow> yields (run c env) (ctype c)"
  by (simp add: sound_def)

lemma sound_const [simp]: "sound (const_code v)" "ctype (const_code v) = type_of v"
  by (simp_all add: sound_def const_code_def)

lemma typed_not_null: "typed (not_null c) t \<longleftrightarrow> ctype c = t \<and> sound c"
  by (auto simp: typed_def not_null_def createFalse_def)

subsection \<open>The builder keeps soundness\<close>

lemma binary_code_sound:
  assumes "ctype a = ctype b" "ok (ctype a)" "sound a" "sound b"
    and "\<And>x y. type_of x = ctype a \<Longrightarrow> type_of y = ctype a \<Longrightarrow> yields (f x y) (res (ctype a))"
  shows "\<exists>c. binary_code ok res f a b = Inr c \<and> ctype c = res (ctype a) \<and> sound c"
  using assms soundD [OF assms(3)] soundD [OF assms(4)]
  by (auto simp: binary_code_def sound_def intro!: yields_bind)

lemma binary_code_sound_id:
  assumes "ctype a = ctype b" "ok (ctype a)" "sound a" "sound b"
    and "\<And>x y. type_of x = ctype a \<Longrightarrow> type_of y = ctype a \<Longrightarrow> yields (f x y) (ctype a)"
  shows "\<exists>c. binary_code ok id f a b = Inr c \<and> ctype c = ctype a \<and> sound c"
proof -
  have "\<exists>c. binary_code ok id f a b = Inr c \<and> ctype c = id (ctype a) \<and> sound c"
    by (rule binary_code_sound) (use assms in simp_all)
  then show ?thesis by simp
qed

lemma unary_code_sound:
  assumes "ok (ctype a)" "sound a" "\<And>x. type_of x = ctype a \<Longrightarrow> yields (f x) (res (ctype a))"
  shows "\<exists>c. unary_code ok res f a = Inr c \<and> ctype c = res (ctype a) \<and> sound c"
  using assms soundD [OF assms(2)] by (auto simp: unary_code_def sound_def intro!: yields_bind)

lemma word_op_fault: "word_op p a b = Inl e \<Longrightarrow> fault e"
  by (cases p) (auto split: if_splits)

lemma int_op_yields: "isIntTy t \<Longrightarrow> type_of x = t \<Longrightarrow> type_of y = t \<Longrightarrow> yields (int_op p x y) t"
  by (auto simp: isIntTy_def type_of_cases split: ltype.splits) (auto simp: rbind_def word_op_fault split: sum.split)

lemma CreateBinOp_sound:
  "ctype a = ctype b \<Longrightarrow> isIntTy (ctype a) \<Longrightarrow> sound a \<Longrightarrow> sound b \<Longrightarrow>
    \<exists>c. CreateBinOp p a b = Inr c \<and> ctype c = ctype a \<and> sound c"
  unfolding CreateBinOp_def by (rule binary_code_sound_id) (simp_all add: int_op_yields)

lemma CreateICmp_sound:
  "ctype a = ctype b \<Longrightarrow> isIntTy (ctype a) \<Longrightarrow> sound a \<Longrightarrow> sound b \<Longrightarrow>
    \<exists>c. CreateICmp p a b = Inr c \<and> ctype c = TInt 1 \<and> sound c"
  unfolding CreateICmp_def
  by (rule binary_code_sound) (auto simp: isIntTy_def type_of_cases split: ltype.splits)

lemma CreateFBin_sound:
  "ctype a = TDouble \<Longrightarrow> ctype b = TDouble \<Longrightarrow> sound a \<Longrightarrow> sound b \<Longrightarrow>
    \<exists>c. CreateFBin f a b = Inr c \<and> ctype c = ctype a \<and> sound c"
  unfolding CreateFBin_def by (rule binary_code_sound_id) (auto simp: type_of_cases)

lemma CreateFCmp_sound:
  "ctype a = TDouble \<Longrightarrow> ctype b = TDouble \<Longrightarrow> sound a \<Longrightarrow> sound b \<Longrightarrow>
    \<exists>c. CreateFCmp f a b = Inr c \<and> ctype c = TInt 1 \<and> sound c"
  unfolding CreateFCmp_def by (rule binary_code_sound) (auto simp: type_of_cases)

lemma CreateIf_sound:
  assumes "ctype c = TInt 1" "ctype a = ctype b" "sound c" "sound a" "sound b"
  shows "\<exists>d. CreateIf c a b = Inr d \<and> ctype d = ctype a \<and> sound d"
proof -
  have "yields (rbind (run c env) (\<lambda>v. case v of I1 w \<Rightarrow> if w \<noteq> 0 then run a env else run b env | _ \<Rightarrow> Inl BadAccess)) (ctype a)" for env
    using soundD [OF assms(3), of env] soundD [OF assms(4), of env] soundD [OF assms(5), of env] assms(1,2)
    by (intro yields_bind [of _ "TInt 1"]) (auto simp: type_of_cases)
  then show ?thesis using assms(1,2) by (simp add: CreateIf_def sound_def)
qed

lemma CreateExtractValue_sound:
  assumes "ctype a = TStruct ts" "i < length ts" "sound a"
  shows "\<exists>c. CreateExtractValue i a = Inr c \<and> ctype c = ts ! i \<and> sound c"
proof -
  have "yields (rbind (run a env) (member_at i)) (ts ! i)" for env
    using soundD [OF assms(3), of env] assms(1,2) by (intro yields_bind [of _ "TStruct ts"]) (auto simp: type_of_cases)
  then show ?thesis using assms(1,2) by (simp add: CreateExtractValue_def sound_def)
qed

lemma rmap_yields:
  "list_all sound cs \<Longrightarrow> (case rmap (\<lambda>c. run c env) cs of Inl e \<Rightarrow> fault e | Inr vs \<Rightarrow> map type_of vs = map ctype cs)"
proof (induction cs)
  case (Cons c cs)
  then show ?case using soundD [of c env]
    by (cases "run c env"; cases "rmap (\<lambda>c. run c env) cs") auto
qed simp

lemma constructStruct_sound:
  "list_all sound cs \<Longrightarrow> sound (constructStruct cs) \<and> ctype (constructStruct cs) = TStruct (map ctype cs)"
proof -
  assume cs: "list_all sound cs"
  have "yields (rbind (rmap (\<lambda>c. run c env) cs) (\<lambda>vs. Inr (Struct vs))) (TStruct (map ctype cs))" for env
    using rmap_yields [OF cs, of env] by (cases "rmap (\<lambda>c. run c env) cs") auto
  then show ?thesis by (simp add: constructStruct_def sound_def)
qed

lemma CreateCall_sound:
  assumes "map ctype cs = args" "list_all sound cs" "\<And>vs. map type_of vs = args \<Longrightarrow> yields (f vs) res"
  shows "\<exists>c. CreateCall args res f cs = Inr c \<and> ctype c = res \<and> sound c"
proof -
  have "yields (rbind (rmap (\<lambda>c. run c env) cs) f) res" for env
    using rmap_yields [OF assms(2), of env] assms(1,3) by (cases "rmap (\<lambda>c. run c env) cs") auto
  then show ?thesis using assms(1) by (simp add: CreateCall_def sound_def)
qed

section \<open>Operators on typed operands\<close>

definition compared_type :: "ExpressionType \<Rightarrow> bool" where
  "compared_type t \<longleftrightarrow> isPrimitive t \<and> t \<noteq> StringType"

definition added_type :: "ExpressionType \<Rightarrow> bool" where
  "added_type t \<longleftrightarrow> t = Int64Type \<or> t = DateType \<or> t = IntType \<or> t = FloatType \<or> t = BoolType"

definition multiplied_type :: "ExpressionType \<Rightarrow> bool" where
  "multiplied_type t \<longleftrightarrow> t = Int64Type \<or> t = IntType \<or> t = FloatType \<or> t = BoolType"

text \<open>Types whose values can be compared for equality: records member by member, primitive values of one LLVM type.\<close>

function eq_types :: "ExpressionType \<Rightarrow> ExpressionType \<Rightarrow> bool"
  and eq_members :: "RecordAttribute list \<Rightarrow> RecordAttribute list \<Rightarrow> bool" where
  "eq_types t1 t2 =
    (case t1 of
       RecordType al \<Rightarrow> (case t2 of RecordType ar \<Rightarrow> al \<noteq> [] \<and> eq_members al ar | _ \<Rightarrow> False)
     | _ \<Rightarrow> isPrimitive t1 \<and> getLLVMType t1 = getLLVMType t2)"
| "eq_members [] [] = True"
| "eq_members (a # al) (b # ar) = (eq_types (getOriginalType a) (getOriginalType b) \<and> eq_members al ar)"
| "eq_members [] (b # ar) = False"
| "eq_members (a # al) [] = False"
  by pat_completeness auto

termination
  by (relation "measure (case_sum (\<lambda>(t1, t2). size t1) (\<lambda>(al, ar). size_list size al))") (auto simp: size_getOriginalType)

declare eq_types.simps [simp del]

lemma eq_members_length: "eq_members al ar \<Longrightarrow> length al = length ar"
  by (induction al arbitrary: ar) (auto elim: eq_members.elims)

lemma attr_getLLVMType_eq: "attr_getLLVMType a = getLLVMType (getOriginalType a)"
  by (cases a) simp

definition code_of :: "ExpressionType \<Rightarrow> ('env, 'f) code \<Rightarrow> bool" where
  "code_of t c \<longleftrightarrow> getLLVMType t = Inr (ctype c) \<and> sound c"

lemma ctype_sym [simp]:
  "TInt n = ctype c \<longleftrightarrow> ctype c = TInt n" "TDouble = ctype c \<longleftrightarrow> ctype c = TDouble" "TString = ctype c \<longleftrightarrow> ctype c = TString"
  "TPtr t = ctype c \<longleftrightarrow> ctype c = TPtr t" "TStruct ts = ctype c \<longleftrightarrow> ctype c = TStruct ts"
  by auto

lemma primitive_eq_sound:
  assumes "isPrimitive t" "code_of t l" "ctype r = ctype l" "sound r"
  shows "\<exists>c. gen_eq ctx t t2 l r = Inr c \<and> ctype c = TInt 1 \<and> sound c"
proof -
  have cmp: "ctype l = ctype r" "sound l" "sound r" using assms by (simp_all add: code_of_def)
  have str: "\<exists>c. CreateCall [TString, TString] (TInt 1) equalStringObjs_lval [l, r] = Inr c \<and> ctype c = TInt 1 \<and> sound c" if "t = StringType"
  proof (rule CreateCall_sound)
    show "map ctype [l, r] = [TString, TString]" using assms that by (simp add: code_of_def)
    show "yields (equalStringObjs_lval vs) (TInt 1)" if "map type_of vs = [TString, TString]" for vs :: "'b lval list"
      using that by (auto simp: type_of_cases)
  qed (use cmp in simp)
  show ?thesis
    using assms(1,2) cmp CreateICmp_sound [OF cmp(1) _ cmp(2,3)] CreateFCmp_sound [of l r] str
    by (cases t) (auto simp: gen_eq.simps code_of_def isIntTy_def)
qed

lemma gen_eq_sound:
  "eq_types t1 t2 \<Longrightarrow> code_of t1 l \<Longrightarrow> code_of t2 r \<Longrightarrow> \<exists>c. gen_eq ctx t1 t2 l r = Inr c \<and> ctype c = TInt 1 \<and> sound c"
  "eq_members al ar \<Longrightarrow> ctype l = TStruct ls \<Longrightarrow> ctype r = TStruct rs \<Longrightarrow> sound l \<Longrightarrow> sound r \<Longrightarrow>
    rmap attr_getLLVMType al = Inr (drop i ls) \<Longrightarrow> rmap attr_getLLVMType ar = Inr (drop i rs) \<Longrightarrow>
    ctype res = TInt 1 \<Longrightarrow> sound res \<Longrightarrow> \<exists>c. gen_eq_members ctx al ar i l r res = Inr c \<and> ctype c = TInt 1 \<and> sound c"
proof (induction t1 t2 and al ar arbitrary: l r and l r ls rs i res rule: eq_types_eq_members.induct)
  case (1 t1 t2)
  show ?case
  proof (cases "\<exists>al. t1 = RecordType al")
    case True
    then obtain al where RecordType: "t1 = RecordType al" by blast
    then obtain ar where ar: "t2 = RecordType ar" "al \<noteq> []" "eq_members al ar"
      using "1.prems"(1) by (auto simp: eq_types.simps split: ExpressionType.splits)
    obtain ls rs where "ctype l = TStruct ls" "rmap attr_getLLVMType al = Inr ls" "ctype r = TStruct rs" "rmap attr_getLLVMType ar = Inr rs"
      using "1.prems"(2,3) by (auto simp: RecordType ar code_of_def rbind_eq_Inr_iff)
    then show ?thesis
      using "1.IH" [OF RecordType ar(1)] "1.prems"(2,3) ar(2,3) eq_members_length [OF ar(3)]
      by (simp add: RecordType ar(1) gen_eq.simps code_of_def createTrue_def)
  next
    case False
    then have "isPrimitive t1" "getLLVMType t1 = getLLVMType t2"
      using "1.prems"(1) eq_types.simps [of t1 t2] by (cases t1; force)+
    moreover from this(2) have "ctype r = ctype l" "sound r" using "1.prems"(2,3) by (simp_all add: code_of_def)
    ultimately show ?thesis using primitive_eq_sound [OF _ "1.prems"(2)] by blast
  qed
next
  case (3 a al b ar)
  have "drop i ls \<noteq> []" "drop i rs \<noteq> []" using "3.prems"(6,7) by (auto simp: rbind_eq_Inr_iff)
  then have i: "i < length ls" "i < length rs" by simp_all
  have la: "getLLVMType (getOriginalType a) = Inr (ls ! i)" "rmap attr_getLLVMType al = Inr (drop (i + 1) ls)"
    using "3.prems"(6) i by (auto simp: rbind_eq_Inr_iff attr_getLLVMType_eq [of a] simp flip: Cons_nth_drop_Suc)
  have lb: "getLLVMType (getOriginalType b) = Inr (rs ! i)" "rmap attr_getLLVMType ar = Inr (drop (i + 1) rs)"
    using "3.prems"(7) i by (auto simp: rbind_eq_Inr_iff attr_getLLVMType_eq [of b] simp flip: Cons_nth_drop_Suc)
  obtain el where el: "CreateExtractValue i l = Inr el" "ctype el = ls ! i" "sound el"
    using CreateExtractValue_sound [OF "3.prems"(2) i(1) "3.prems"(4)] by blast
  obtain er where er: "CreateExtractValue i r = Inr er" "ctype er = rs ! i" "sound er"
    using CreateExtractValue_sound [OF "3.prems"(3) i(2) "3.prems"(5)] by blast
  obtain c where c: "gen_eq ctx (getOriginalType a) (getOriginalType b) el er = Inr c" "ctype c = TInt 1" "sound c"
    using "3.IH"(1) [of el er] "3.prems"(1) el er la(1) lb(1) by (auto simp: code_of_def)
  obtain res' where res': "CreateBinOp And res c = Inr res'" "ctype res' = TInt 1" "sound res'"
    using CreateBinOp_sound [of res c And] "3.prems"(8,9) c by (auto simp: isIntTy_def)
  show ?case
    using "3.IH"(2) [of l ls r rs "i + 1" res'] "3.prems" la(2) lb(2) el er c res' by auto
qed simp_all

definition gives :: "('env, 'f) code result \<Rightarrow> ltype \<Rightarrow> bool" where
  "gives m t \<longleftrightarrow> (\<exists>c. m = Inr c \<and> ctype c = t \<and> sound c)"

lemma compare_primitive_sound:
  assumes "compared_type t" "code_of t l" "ctype r = ctype l" "sound r"
  shows "gives (compare_primitive ip fp t l r) (TInt 1)"
  using assms CreateICmp_sound [of l r ip] CreateFCmp_sound [of l r fp]
  by (cases t) (auto simp: gives_def compare_primitive_def compared_type_def code_of_def isIntTy_def)

lemma gen_add_sound:
  assumes "added_type t" "code_of t l" "ctype r = ctype l" "sound r"
  shows "gives (gen_add ctx t l r) (ctype l)"
  using assms CreateBinOp_sound [of l r Add] CreateFBin_sound [of l r]
  by (auto simp: gives_def gen_add_def added_type_def code_of_def isIntTy_def)

lemma arith_primitive_sound:
  assumes "added_type t" "code_of t l" "ctype r = ctype l" "sound r" "\<not> (t = DateType \<and> DATE_id \<notin> set ints)"
    and "set ints \<union> {DATE_id} = {INT64_id, DATE_id, INT_id, BOOL_id}"
  shows "gives (arith_primitive ints ip fp t l r) (ctype l)"
proof -
  have ids: "INT64_id \<in> set ints" "INT_id \<in> set ints" "BOOL_id \<in> set ints" "FLOAT_id \<notin> set ints" using assms(6) by auto
  then show ?thesis
    using assms(1-5) CreateBinOp_sound [of l r ip] CreateFBin_sound [of l r fp]
    by (auto simp: gives_def arith_primitive_def added_type_def code_of_def isIntTy_def)
qed

text \<open>The operand types that each binary operator accepts.\<close>

definition accepts :: "opID \<Rightarrow> ExpressionType \<Rightarrow> ExpressionType \<Rightarrow> bool" where
  "accepts p t1 t2 \<longleftrightarrow>
    (if p = EQ_op then eq_types t1 t2
     else getLLVMType t1 = getLLVMType t2 \<and>
       (if comparison p \<or> p = MAX_op \<or> p = MIN_op then compared_type t1
        else if p = ADD_op \<or> p = SUB_op then added_type t1
        else if p = MULT_op \<or> p = DIV_op \<or> p = MOD_op then multiplied_type t1
        else (case getLLVMType t1 of Inr l \<Rightarrow> isIntTy l | Inl _ \<Rightarrow> False)))"

lemma gen_binary_sound:
  assumes "accepts p t1 t2" "code_of t1 l" "code_of t2 r"
  shows "gives (gen_binary ctx p t1 t2 l r) (if comparison p \<or> p = MAX_op \<or> p = MIN_op then TInt 1 else ctype l)"
proof (cases "p = EQ_op")
  case True
  then show ?thesis using gen_eq_sound(1) [of t1 t2 l r ctx] assms by (auto simp: gives_def accepts_def comparison_def)
next
  case False
  then have ty: "getLLVMType t1 = getLLVMType t2" using assms(1) by (simp add: accepts_def)
  then have r: "ctype r = ctype l" "sound r" "sound l" using assms(2,3) by (simp_all add: code_of_def)
  have mul: "multiplied_type t \<Longrightarrow> added_type t \<and> t \<noteq> DateType" for t by (auto simp: multiplied_type_def added_type_def)
  note cmp = compare_primitive_sound [OF _ assms(2) r(1,2)] and bin = CreateBinOp_sound [OF r(1) [symmetric] _ r(3,2), folded gives_def]
    and add = gen_add_sound [OF _ assms(2) r(1,2)] and ar = arith_primitive_sound [OF _ assms(2) r(1,2)]
  show ?thesis
    using False assms(1,2)
    by (cases p) (auto simp: accepts_def comparison_def code_of_def gen_ne_def gen_ge_def gen_gt_def gen_le_def gen_lt_def
        gen_sub_def gen_mult_def gen_div_def gen_mod_def dest: mul simp del: One_nat_def intro!: cmp bin add ar [OF _ _ _])
qed

declare gen_binary.simps [simp del]

text \<open>The other operators, on values with a null flag.\<close>

definition gives_value :: "('env, 'f) ProteusValue result \<Rightarrow> ltype \<Rightarrow> bool" where
  "gives_value m t \<longleftrightarrow> (\<exists>v. m = Inr v \<and> typed v t)"

lemma unary_update_sound:
  assumes "typed v t" "ok t" "\<And>x. type_of x = t \<Longrightarrow> yields (f x) (res t)"
  shows "\<exists>c. unary_code ok res f (pv_value v) = Inr c \<and> ctype c = res t \<and> sound c"
  using unary_code_sound [of ok "pv_value v" f res] assms by (simp add: typed_def)

lemma gen_if_sound:
  "ctype (pv_value c) = TInt 1 \<Longrightarrow> sound (pv_value c) \<Longrightarrow> typed a t \<Longrightarrow> typed b t \<Longrightarrow> gives_value (gen_if c a b) t"
  using CreateIf_sound [of "pv_value c" "pv_value a" "pv_value b"] CreateIf_sound [of "pv_value c" "pv_isNull a" "pv_isNull b"]
  by (auto simp: gives_value_def gen_if_def typed_def)

lemma gen_neg_sound:
  assumes "typed v t" "isIntTy t \<or> t = TDouble"
  shows "gives_value (gen_neg ctx v) t"
proof (cases "t = TDouble")
  case True
  have "\<exists>c. CreateFNeg (fneg (fops ctx)) (pv_value v) = Inr c \<and> ctype c = id t \<and> sound c"
    unfolding CreateFNeg_def by (rule unary_update_sound [OF assms(1)]) (auto simp: True type_of_cases)
  then show ?thesis using assms(1) True by (auto simp: gives_value_def gen_neg_def typed_def)
next
  case False
  have "\<exists>c. CreateNeg (pv_value v) = Inr c \<and> ctype c = id t \<and> sound c"
    unfolding CreateNeg_def
    by (rule unary_update_sound [OF assms(1)]) (use False assms(2) in \<open>auto simp: isIntTy_def type_of_cases split: ltype.splits\<close>)
  then show ?thesis using assms(1) False by (auto simp: gives_value_def gen_neg_def typed_def)
qed

lemma gen_test_null_sound: "typed v t \<Longrightarrow> gives_value (gen_test_null b v) (TInt 1)"
proof -
  assume v: "typed v t"
  have "\<exists>c. CreateNot (pv_isNull v) = Inr c \<and> ctype c = id (ctype (pv_isNull v)) \<and> sound c"
    unfolding CreateNot_def by (rule unary_code_sound) (use v in \<open>auto simp: typed_def type_of_cases\<close>)
  then show ?thesis using v by (auto simp: gives_value_def gen_test_null_def not_null_r_def not_null_def createFalse_def typed_def simp del: One_nat_def)
qed

lemma gen_hint_sound: "typed v (TInt 1) \<Longrightarrow> gives_value (gen_hint v) (TInt 1)"
  by (simp add: gives_value_def gen_hint_def typed_def)

lemma gen_extract_sound:
  assumes "typed v (TInt 64)" "visit_Extract u = Inr f"
  shows "gives_value (gen_extract u v) (TInt 32)"
proof -
  have "\<exists>c. unary_code (\<lambda>t. t = TInt 64) (\<lambda>_. TInt 32) (extract_lval f) (pv_value v) = Inr c \<and> ctype c = TInt 32 \<and> sound c"
    by (rule unary_update_sound [OF assms(1)]) (auto simp: type_of_cases)
  then show ?thesis using assms by (auto simp: gives_value_def gen_extract_def typed_def)
qed

definition scalar :: "ltype \<Rightarrow> bool" where
  "scalar t \<longleftrightarrow> isIntTy t \<or> t = TDouble"

lemma lval_of_int_yields: "isIntTy t \<Longrightarrow> yields (lval_of_int t i) t"
  by (auto simp: isIntTy_def lval_of_int_def split: ltype.splits)

lemma int_of_lval_cases: "isIntTy t \<Longrightarrow> type_of x = t \<Longrightarrow> \<exists>i. int_of_lval x = Inr i"
  by (auto simp: isIntTy_def type_of_cases split: ltype.splits)

lemma fptosi_yields: "isIntTy t \<Longrightarrow> yields (fptosi_lval f t (FP x)) t"
  by (cases t) (auto simp: isIntTy_def lval_of_int_def split: option.split)

lemma cast_code_sound:
  assumes "typed v s"
  shows "isIntTy s \<Longrightarrow> isIntTy t \<Longrightarrow> gives (CreateSExtOrTrunc t (pv_value v)) t"
    "isIntTy s \<Longrightarrow> gives (CreateSIToFP g TDouble (pv_value v)) TDouble"
    "s = TDouble \<Longrightarrow> isIntTy t \<Longrightarrow> gives (CreateFPToSI h t (pv_value v)) t"
    "s = TDouble \<Longrightarrow> gives (CreateFPCast TDouble (pv_value v)) TDouble"
proof -
  show "gives (CreateSExtOrTrunc t (pv_value v)) t" if "isIntTy s" "isIntTy t"
    unfolding gives_def CreateSExtOrTrunc_def
    by (rule unary_update_sound [OF assms]) (use that int_of_lval_cases [of s] lval_of_int_yields [of t] in force)+
  show "gives (CreateSIToFP g TDouble (pv_value v)) TDouble" if "isIntTy s"
    unfolding gives_def CreateSIToFP_def
    by (rule unary_update_sound [OF assms]) (use that int_of_lval_cases [of s] in force)+
  show "gives (CreateFPToSI h t (pv_value v)) t" if "s = TDouble" "isIntTy t"
    unfolding gives_def CreateFPToSI_def
    by (rule unary_update_sound [OF assms]) (use that fptosi_yields in \<open>auto simp: type_of_cases\<close>)
  show "gives (CreateFPCast TDouble (pv_value v)) TDouble" if "s = TDouble"
    using unary_update_sound [OF assms, of "\<lambda>s. s = TDouble \<and> TDouble = TDouble" Inr id] that
    by (simp add: gives_def CreateFPCast_def)
qed

lemma gen_cast_sound:
  assumes "typed v s" "getLLVMType t1 = Inr s" "getLLVMType t = Inr l" "scalar s" "scalar l"
  shows "gives_value (gen_cast ctx t t1 v) l"
proof -
  have int: "isIntegerTy x \<longleftrightarrow> isIntTy x" if "scalar x" for x
    using that by (auto simp: scalar_def isIntegerTy_def isIntTy_def split: ltype.splits)
  note c = cast_code_sound [OF assms(1)]
  show ?thesis
    using c(1) [of l] c(2) [of "sitofp (fops ctx)"] c(3) [of l "fptosi (fops ctx)"] c(4) assms
    by (auto simp: gives_value_def gives_def gen_cast_def int typed_def, auto simp: scalar_def)
qed

section \<open>Well-typed expressions\<close>

abbreviation expr_ltype :: "('env, 'f) expr \<Rightarrow> ltype result" where
  "expr_ltype e \<equiv> getLLVMType (getExpressionType e)"

fun column_of :: "('env, 'f) expr \<Rightarrow> RecordAttribute list option" where
  "column_of (InputArgument args n) = Some args"
| "column_of _ = None"

text \<open>
  The relation of a projected attribute has a plugin, and the projection is not in the cache. The
  plugin finds the attribute of the current tuple in memory.
\<close>

definition projects :: "('env, 'f) Context \<Rightarrow> ('env, 'f) expr \<Rightarrow> RecordAttribute \<Rightarrow> ('env, 'f) Plugin \<Rightarrow> bool" where
  "projects ctx e a pg \<longleftrightarrow>
    getPlugin ctx (getOriginalRelationName a) = Inr pg \<and> cached_projection ctx (RecordProjection e a) a = Inr None \<and>
    getAttrName a \<noteq> activeLoop"

definition reads_column ::
  "('env, 'f) Context \<Rightarrow> RecordAttribute list \<Rightarrow> RecordAttribute \<Rightarrow> ('env, 'f) Plugin \<Rightarrow> ('env, 'f) ProteusValue \<Rightarrow> bool" where
  "reads_column ctx args a pg m \<longleftrightarrow>
    (\<exists>rv. gen_InputArgument ctx args \<lparr>activeRelation = getOriginalRelationName a, rand_calls = 0\<rparr> = Inr rv \<and>
      projectArg args (pv_value rv) a = Inr None \<and>
      readPath pg (getOriginalRelationName a) (currState ctx) rv (getAttrName a) a = Inr m)"

definition has_member :: "ExpressionType \<Rightarrow> RecordAttribute \<Rightarrow> bool" where
  "has_member t a \<longleftrightarrow>
    (\<exists>args i. t = RecordType args \<and> getIndex a args = Inr (Some i) \<and> attr_getLLVMType (args ! i) = attr_getLLVMType a)"

definition hashes_typed :: "('env, 'f) Plugin \<Rightarrow> RecordAttribute \<Rightarrow> bool" where
  "hashes_typed pg a \<longleftrightarrow>
    (\<forall>v l. getLLVMType (getOriginalType a) = Inr l \<longrightarrow> typed v l \<longrightarrow> gives_value (hashValueEager pg v (getOriginalType a)) (TInt 64))"

text \<open>Expressions that can be generated, and expressions whose hash can be.\<close>

function (sequential) well_typed :: "('env, 'f) Context \<Rightarrow> ('env, 'f) expr \<Rightarrow> bool"
  and hash_typed :: "('env, 'f) Context \<Rightarrow> ('env, 'f) expr \<Rightarrow> bool" where
  "well_typed ctx (InputArgument args n) = False"
| "well_typed ctx (RecordProjection e a) =
    (\<exists>pg. projects ctx e a pg \<and>
      (case column_of e of
         Some args \<Rightarrow> \<exists>m l. reads_column ctx args a pg m \<and> getLLVMType (getOriginalType a) = Inr l \<and> gives_value (readValue pg m (getOriginalType a)) l
       | None \<Rightarrow> has_member (getExpressionType e) a \<and> well_typed ctx e))"
| "well_typed ctx (RecordConstruction atts) = list_all (\<lambda>(n, e). well_typed ctx e) atts"
| "well_typed ctx (IfThenElse c t f) =
    (expr_ltype c = Inr (TInt 1) \<and> expr_ltype t = expr_ltype f \<and> well_typed ctx c \<and> well_typed ctx t \<and> well_typed ctx f)"
| "well_typed ctx (BinaryExpression p l r) =
    (accepts p (getExpressionType l) (getExpressionType r) \<and> well_typed ctx l \<and> well_typed ctx r)"
| "well_typed ctx (HintExpression e q) = (expr_ltype e = Inr (TInt 1) \<and> well_typed ctx e)"
| "well_typed ctx (HashExpression e) = hash_typed ctx e"
| "well_typed ctx (TestNullExpression e b) = well_typed ctx e"
| "well_typed ctx (ExtractExpression e u) = (expr_ltype e = Inr (TInt 64) \<and> (\<exists>f. visit_Extract u = Inr f) \<and> well_typed ctx e)"
| "well_typed ctx (NegExpression e) = ((\<exists>l. expr_ltype e = Inr l \<and> scalar l) \<and> well_typed ctx e)"
| "well_typed ctx (CastExpression t e) =
    ((\<exists>l. getLLVMType t = Inr l \<and> scalar l) \<and> (\<exists>l. expr_ltype e = Inr l \<and> scalar l) \<and> well_typed ctx e)"
| "well_typed ctx (PlaceholderExpression t i) = (\<exists>l. getLLVMType t = Inr l)"
| "well_typed ctx (ProteusValueExpression t v) = (\<exists>l. getLLVMType t = Inr l \<and> typed v l)"
| "well_typed ctx _ = True"
| "hash_typed ctx (InputArgument args n) = False"
| "hash_typed ctx (RecordProjection e a) =
    (\<exists>pg. projects ctx e a pg \<and>
      (case column_of e of
         Some args \<Rightarrow> \<exists>m. reads_column ctx args a pg m \<and> gives_value (hashValue pg m (getOriginalType a)) (TInt 64)
       | None \<Rightarrow> has_member (getExpressionType e) a \<and> hashes_typed pg a \<and> well_typed ctx e))"
| "hash_typed ctx (RecordConstruction atts) = list_all (\<lambda>(n, e). hash_typed ctx e) atts"
| "hash_typed ctx (IfThenElse c t f) = (expr_ltype c = Inr (TInt 1) \<and> well_typed ctx c \<and> hash_typed ctx t \<and> hash_typed ctx f)"
| "hash_typed ctx (BinaryExpression p l r) =
    (accepts p (getExpressionType l) (getExpressionType r) \<and> well_typed ctx l \<and> well_typed ctx r \<and>
      (if p = MAX_op \<or> p = MIN_op then hash_typed ctx l \<and> hash_typed ctx r
       else isPrimitive (getExpressionType (BinaryExpression p l r))))"
| "hash_typed ctx (HintExpression e q) = hash_typed ctx e"
| "hash_typed ctx (HashExpression e) = False"
| "hash_typed ctx e = (isPrimitive (getExpressionType e) \<and> well_typed ctx e)"
  by pat_completeness auto

termination
  by (relation "measure (case_sum (\<lambda>(ctx, e). 2 * size e) (\<lambda>(ctx, e). 2 * size e + 1))") (auto dest: size_attr_less)

definition generates :: "(('env, 'f) ProteusValue \<times> gstate) result \<Rightarrow> ltype \<Rightarrow> bool" where
  "generates m t \<longleftrightarrow> (\<exists>v s. m = Inr (v, s) \<and> typed v t)"

definition generates_expr :: "('env, 'f) Context \<Rightarrow> ('env, 'f) expr \<Rightarrow> bool" where
  "generates_expr ctx e \<longleftrightarrow> (\<exists>l. expr_ltype e = Inr l \<and> (\<forall>s. generates (visit ctx e s) l))"

lemma generates_bind:
  "generates m t \<Longrightarrow> (\<And>v s. typed v t \<Longrightarrow> generates (f (v, s)) t') \<Longrightarrow> generates (rbind m f) t'"
  by (auto simp: generates_def)

lemma gives_value_bind: "gives_value m t \<Longrightarrow> (\<And>v. typed v t \<Longrightarrow> generates (f v) t') \<Longrightarrow> generates (rbind m f) t'"
  by (auto simp: gives_value_def generates_def)

lemma gives_bind: "gives m t \<Longrightarrow> (\<And>c. ctype c = t \<Longrightarrow> sound c \<Longrightarrow> generates (f c) t') \<Longrightarrow> generates (rbind m f) t'"
  by (auto simp: gives_def generates_def)

lemma generates_Inr [simp]: "generates (Inr (v, s)) t \<longleftrightarrow> typed v t"
  by (simp add: generates_def)

lemma generates_exprI: "expr_ltype e = Inr l \<Longrightarrow> (\<And>s. generates (visit ctx e s) l) \<Longrightarrow> generates_expr ctx e"
  by (simp add: generates_expr_def)

lemma generates_exprE: "generates_expr ctx e \<Longrightarrow> expr_ltype e = Inr l \<Longrightarrow> generates (visit ctx e s) l"
  by (auto simp: generates_expr_def)

lemma visit_atts_sound:
  fixes ctx :: "('env, 'f) Context"
  shows "list_all (\<lambda>(n, e). generates_expr ctx e) atts \<Longrightarrow> rmap (\<lambda>(n, e). expr_ltype e) atts = Inr ls \<Longrightarrow>
    list_all sound vals \<Longrightarrow> ctype n = TInt 1 \<Longrightarrow> sound n \<Longrightarrow> generates (visit_atts ctx atts vals n s) (TStruct (map ctype vals @ ls))"
proof (induction atts arbitrary: ls vals n s)
  case Nil
  then show ?case using constructStruct_sound [of vals] by (simp add: typed_def)
next
  case (Cons x atts)
  obtain name e where x: "x = (name, e)" by (cases x)
  obtain l ls' where l: "expr_ltype e = Inr l" "rmap (\<lambda>(n, e). expr_ltype e) atts = Inr ls'" "ls = l # ls'"
    using Cons.prems(2) by (auto simp: x rbind_eq_Inr_iff)
  have e: "generates (visit ctx e s) l" using Cons.prems(1) l(1) by (auto simp: x generates_expr_def)
  show ?case
    unfolding x visit_atts.simps
  proof (rule generates_bind [OF e], simp only: prod.case)
    fix v :: "('env, 'f) ProteusValue" and s' assume v: "typed v l"
    then have "gives (CreateBinOp Or n (pv_isNull v)) (ctype n)"
      unfolding gives_def using Cons.prems(4,5) by (intro CreateBinOp_sound) (simp_all add: typed_def isIntTy_def)
    then show "generates (rbind (CreateBinOp Or n (pv_isNull v)) (\<lambda>n'. visit_atts ctx atts (vals @ [pv_value v]) n' s')) (TStruct (map ctype vals @ ls))"
    proof (rule gives_bind)
      fix c :: "('env, 'f) code" assume c: "ctype c = ctype n" "sound c"
      show "generates (visit_atts ctx atts (vals @ [pv_value v]) c s') (TStruct (map ctype vals @ ls))"
        using Cons.IH [of ls' "vals @ [pv_value v]" c s'] Cons.prems(1,3,4) l(2,3) v c by (simp add: x typed_def)
    qed
  qed
qed

lemma rmap_record_type: "rmap (\<lambda>(n, e). expr_ltype e) atts = rmap attr_getLLVMType (map (\<lambda>(n, e). RecordAttribute ''tmp'' n ''tmp'' (getExpressionType e) (- 1) False) atts)"
  by (induction atts) (auto split: prod.splits)

lemma rmap_expr_ltype: "list_all (\<lambda>(n, e). generates_expr ctx e) atts \<Longrightarrow> \<exists>ls. rmap (\<lambda>(n, e). expr_ltype e) atts = Inr ls"
  by (induction atts) (auto simp: generates_expr_def)

lemma record_sound:
  assumes "list_all (\<lambda>(n, e). generates_expr ctx e) atts"
  shows "generates_expr ctx (RecordConstruction atts)"
proof -
  obtain ls where ls: "rmap (\<lambda>(n, e). expr_ltype e) atts = Inr ls" using rmap_expr_ltype [OF assms] by blast
  show ?thesis
    by (rule generates_exprI [of _ "TStruct ls"])
      (use ls visit_atts_sound [OF assms ls, of "[]" createFalse] in \<open>simp_all add: rmap_record_type createFalse_def\<close>)
qed

lemma gen_mix_sound:
  assumes "ctype a = TInt 64" "ctype b = TInt 64" "sound a" "sound b"
  shows "gives (gen_mix a b) (TInt 64)"
proof -
  have "\<exists>c. gen_mix a b = Inr c \<and> ctype c = ctype a \<and> sound c"
    unfolding gen_mix_def by (rule binary_code_sound_id) (use assms in \<open>auto simp: type_of_cases\<close>)
  then show ?thesis using assms by (simp add: gives_def)
qed

lemma hvisit_atts_sound:
  "list_all (\<lambda>(n, e). \<forall>s. generates (hvisit ctx e s) (TInt 64)) atts \<Longrightarrow> ctype seed = TInt 64 \<Longrightarrow> sound seed \<Longrightarrow>
    generates (hvisit_atts ctx atts seed s) (TInt 64)"
proof (induction atts arbitrary: seed s)
  case (Cons x atts)
  obtain name e where x: "x = (name, e)" by (cases x)
  have e: "generates (hvisit ctx e s) (TInt 64)" using Cons.prems(1) by (simp add: x)
  show ?case
    unfolding x hvisit_atts.simps
    using Cons.prems Cons.IH by (intro generates_bind [OF e]) (auto intro!: gives_bind [OF gen_mix_sound] simp: x typed_def)
qed (simp add: typed_not_null)

lemma hash_code_sound:
  assumes "typed v l"
  shows "l = TInt 32 \<Longrightarrow> gives_value (hashInt32 v) (TInt 64)" "l = TInt 64 \<Longrightarrow> gives_value (hashInt64 v) (TInt 64)"
    "l \<in> {TDouble, TInt 1, TString} \<Longrightarrow> gives (CreateCall [l] (TInt 64) (hash_call ctx) [pv_value v]) (TInt 64)"
proof -
  show "gives_value (hashInt32 v) (TInt 64)" if "l = TInt 32"
  proof -
    have "\<exists>c. unary_code (\<lambda>t. t = TInt 32) (\<lambda>_. TInt 64) murmur32_lval (pv_value v) = Inr c \<and> ctype c = TInt 64 \<and> sound c"
      by (rule unary_update_sound [OF assms]) (auto simp: that type_of_cases)
    then show ?thesis using assms by (auto simp: gives_value_def hashInt32_def typed_def)
  qed
  show "gives_value (hashInt64 v) (TInt 64)" if "l = TInt 64"
  proof -
    have "\<exists>c. unary_code (\<lambda>t. t = TInt 64) (\<lambda>_. TInt 64) murmur64_lval (pv_value v) = Inr c \<and> ctype c = TInt 64 \<and> sound c"
      by (rule unary_update_sound [OF assms]) (auto simp: that type_of_cases)
    then show ?thesis using assms by (auto simp: gives_value_def hashInt64_def typed_def)
  qed
  show "gives (CreateCall [l] (TInt 64) (hash_call ctx) [pv_value v]) (TInt 64)" if "l \<in> {TDouble, TInt 1, TString}"
    unfolding gives_def
    by (rule CreateCall_sound) (use assms that in \<open>auto simp: typed_def type_of_cases\<close>)
qed

lemma hashPrimitive_sound:
  assumes "typed v l" "getLLVMType t = Inr l" "isPrimitive t"
  shows "gives_value (hashPrimitive ctx (getTypeID t) v) (TInt 64)"
  using hash_code_sound(1,2) [OF assms(1)] hash_code_sound(3) [OF assms(1), of ctx] assms
  by (cases t) (auto simp: hashPrimitive_def gives_value_def gives_def not_null_r_def not_null_def createFalse_def typed_def simp del: One_nat_def)

lemma hash_expression_sound:
  assumes "generates m l" "getLLVMType t = Inr l" "isPrimitive t"
  shows "generates (hash_expression ctx t m s) (TInt 64)"
  unfolding hash_expression_def using assms(3)
  by (simp, intro generates_bind [OF assms(1)]) (auto intro!: gives_value_bind [OF hashPrimitive_sound] assms)

subsection \<open>One constructor at a time\<close>

lemma project_member_sound:
  assumes "has_member t a" "getLLVMType t = Inr l" "typed rv l"
  shows "\<exists>args c. t = RecordType args \<and> projectArg args (pv_value rv) a = Inr (Some c) \<and>
    getLLVMType (getOriginalType a) = Inr (ctype c) \<and> sound c"
proof -
  obtain args i where a: "t = RecordType args" "getIndex a args = Inr (Some i)" "attr_getLLVMType (args ! i) = attr_getLLVMType a"
    using assms(1) by (auto simp: has_member_def)
  obtain ls where ls: "rmap attr_getLLVMType args = Inr ls" "l = TStruct ls" using assms(2) by (auto simp: a(1) rbind_eq_Inr_iff)
  have at: "length ls = length args \<and> (\<forall>j < length args. attr_getLLVMType (args ! j) = Inr (ls ! j))"
    using ls(1) by (induction args arbitrary: ls) (auto simp: rbind_eq_Inr_iff less_Suc_eq_0_disj)
  have i: "i < length args" using getIndex_bounds [OF a(2)] by simp
  have "\<exists>c. CreateExtractValue i (pv_value rv) = Inr c \<and> ctype c = ls ! i \<and> sound c"
    by (rule CreateExtractValue_sound) (use assms(3) ls(2) at i in \<open>simp_all add: typed_def\<close>)
  then show ?thesis
    using a ls assms(3) at i by (auto simp: projectArg_def typed_def attr_getLLVMType_eq [of a])
qed

lemma gen_InputArgument_relation:
  "activeRelation s = activeRelation s' \<Longrightarrow> gen_InputArgument ctx args s = gen_InputArgument ctx args s'"
  by (simp add: gen_InputArgument_def)

lemma column_read:
  assumes "reads_column ctx args a pg m" "activeRelation s = getOriginalRelationName a"
  shows "\<exists>rv. gen_InputArgument ctx args s = Inr rv \<and> projectArg args (pv_value rv) a = Inr None \<and>
    readPath pg (activeRelation s) (currState ctx) rv (getAttrName a) a = Inr m"
  using assms gen_InputArgument_relation [of s "\<lparr>activeRelation = getOriginalRelationName a, rand_calls = 0\<rparr>" ctx args]
  by (auto simp: reads_column_def)

lemma column_of_Some: "column_of e = Some args \<Longrightarrow> \<exists>n. e = InputArgument args n"
  by (cases e) auto

lemma column_generates:
  assumes "projects ctx e a pg" "column_of e = Some args" "reads_column ctx args a pg m"
    and "getLLVMType (getOriginalType a) = Inr l" "gives_value (readValue pg m (getOriginalType a)) l"
  shows "generates_expr ctx (RecordProjection e a)"
proof (rule generates_exprI)
  show "expr_ltype (RecordProjection e a) = Inr l" using assms(4) by simp
  fix s :: gstate
  define s1 where "s1 = s\<lparr>activeRelation := getOriginalRelationName a\<rparr>"
  obtain n where e: "e = InputArgument args n" using column_of_Some [OF assms(2)] by blast
  obtain rv where "gen_InputArgument ctx args s1 = Inr rv" "projectArg args (pv_value rv) a = Inr None"
    "readPath pg (activeRelation s1) (currState ctx) rv (getAttrName a) a = Inr m"
    using column_read [OF assms(3), of s1] by (auto simp: s1_def)
  then show "generates (visit ctx (RecordProjection e a) s) l"
    using assms(1,5)
    by (auto simp: e projects_def project_record_def Let_def generates_def gives_value_def simp flip: s1_def)
qed

lemma column_hash_generates:
  assumes "projects ctx e a pg" "column_of e = Some args" "reads_column ctx args a pg m"
    and "gives_value (hashValue pg m (getOriginalType a)) (TInt 64)"
  shows "generates (hvisit ctx (RecordProjection e a) s) (TInt 64)"
proof -
  define s1 :: gstate where "s1 = s\<lparr>activeRelation := getOriginalRelationName a\<rparr>"
  obtain n where e: "e = InputArgument args n" using column_of_Some [OF assms(2)] by blast
  obtain rv where "gen_InputArgument ctx args s1 = Inr rv" "projectArg args (pv_value rv) a = Inr None"
    "readPath pg (activeRelation s1) (currState ctx) rv (getAttrName a) a = Inr m"
    using column_read [OF assms(3), of s1] by (auto simp: s1_def)
  then show ?thesis
    using assms(1,4)
    by (auto simp: e projects_def hash_record_def Let_def generates_def gives_value_def after_generator_def simp flip: s1_def)
qed

lemma member_generates:
  assumes "projects ctx e a pg" "has_member (getExpressionType e) a" "generates_expr ctx e"
  shows "generates_expr ctx (RecordProjection e a)"
    and "hashes_typed pg a \<Longrightarrow> generates (hvisit ctx (RecordProjection e a) s) (TInt 64)"
proof -
  obtain l where l: "expr_ltype e = Inr l" "\<And>s. generates (visit ctx e s) l" using assms(3) by (auto simp: generates_expr_def)
  define s1 where "s1 s = s\<lparr>activeRelation := getOriginalRelationName a\<rparr>" for s :: gstate
  have read: "\<exists>rv s2 args c. visit ctx e (s1 s) = Inr (rv, s2) \<and> typed rv l \<and> getExpressionType e = RecordType args \<and>
    projectArg args (pv_value rv) a = Inr (Some c) \<and> getLLVMType (getOriginalType a) = Inr (ctype c) \<and> sound c" for s
    using l(2) [of "s1 s"] project_member_sound [OF assms(2) l(1)] unfolding generates_def by blast
  then obtain la where la: "getLLVMType (getOriginalType a) = Inr la" by blast
  have "generates (visit ctx (RecordProjection e a) s) la" for s
    using assms(1) read [of s] la
    by (auto simp: projects_def project_record_def Let_def generates_def typed_def simp flip: s1_def)
  then show "generates_expr ctx (RecordProjection e a)" using la by (auto intro: generates_exprI)
  assume h: "hashes_typed pg a"
  obtain rv s2 args c where c: "visit ctx e (s1 s) = Inr (rv, s2)" "typed rv l" "getExpressionType e = RecordType args"
    "projectArg args (pv_value rv) a = Inr (Some c)" "getLLVMType (getOriginalType a) = Inr (ctype c)" "sound c"
    using read by blast
  have "typed \<lparr>pv_value = c, pv_isNull = pv_isNull rv\<rparr> (ctype c)" using c(2,6) by (simp add: typed_def)
  then have "gives_value (hashValueEager pg \<lparr>pv_value = c, pv_isNull = pv_isNull rv\<rparr> (getOriginalType a)) (TInt 64)"
    using h c(5) by (simp add: hashes_typed_def)
  then show "generates (hvisit ctx (RecordProjection e a) s) (TInt 64)"
    using assms(1) c by (auto simp: projects_def hash_record_def Let_def generates_def gives_value_def after_generator_def simp flip: s1_def)
qed

lemma unary_generates:
  assumes "generates_expr ctx e" "expr_ltype e = Inr l" "expr_ltype x = Inr t"
    and "\<And>s. visit ctx x s = rbind (visit ctx e s) (\<lambda>(v, s1). rbind (g v) (\<lambda>v'. Inr (v', s1)))"
    and "\<And>v. typed v l \<Longrightarrow> gives_value (g v) t"
  shows "generates_expr ctx x"
  using assms by (intro generates_exprI [of _ t]) (auto intro!: generates_bind [OF generates_exprE] gives_value_bind)

lemma if_generates:
  assumes "generates_expr ctx c" "generates_expr ctx t" "generates_expr ctx f" "expr_ltype c = Inr (TInt 1)" "expr_ltype t = expr_ltype f"
  shows "generates_expr ctx (IfThenElse c t f)"
proof -
  obtain l where l: "expr_ltype t = Inr l" "expr_ltype f = Inr l" using assms(2,5) by (auto simp: generates_expr_def)
  show ?thesis
    using assms l
    by (intro generates_exprI [of _ l])
      (auto intro!: generates_bind [OF generates_exprE] gives_value_bind [OF gen_if_sound] simp: typed_def)
qed

lemma binary_code_of:
  assumes "generates_expr ctx l" "generates_expr ctx r" "accepts p (getExpressionType l) (getExpressionType r)"
    and "expr_ltype l = Inr t1" "expr_ltype r = Inr t2" "typed lv t1" "typed rv t2"
  shows "gives (gen_binary ctx p (getExpressionType l) (getExpressionType r) (pv_value lv) (pv_value rv))
    (if comparison p \<or> p = MAX_op \<or> p = MIN_op then TInt 1 else t1)"
  using gen_binary_sound [OF assms(3), of "pv_value lv" "pv_value rv" ctx] assms(4-7) by (auto simp: code_of_def typed_def simp del: One_nat_def)

lemma accepts_same_type: "accepts p t1 t2 \<Longrightarrow> p \<noteq> EQ_op \<Longrightarrow> getLLVMType t1 = getLLVMType t2"
  by (simp add: accepts_def)

lemma binary_generates:
  assumes "generates_expr ctx l" "generates_expr ctx r" "accepts p (getExpressionType l) (getExpressionType r)"
  shows "generates_expr ctx (BinaryExpression p l r)"
proof -
  obtain t1 t2 where t: "expr_ltype l = Inr t1" "expr_ltype r = Inr t2" using assms(1,2) by (auto simp: generates_expr_def)
  have same: "p \<noteq> EQ_op \<Longrightarrow> t2 = t1" using accepts_same_type [OF assms(3)] t by simp
  note ops = generates_bind [OF generates_exprE [OF assms(1) t(1)]] generates_bind [OF generates_exprE [OF assms(2) t(2)]]
    gives_bind [OF binary_code_of [OF assms(1,2) _ t]] gives_value_bind [OF gen_if_sound [of _ _ t1]]
  show ?thesis
  proof (cases "p = MAX_op \<or> p = MIN_op")
    case True
    then show ?thesis
      using assms(3) t same by (intro generates_exprI [of _ t1]) (auto intro!: ops simp: comparison_def typed_not_null not_null_def)
  next
    case False
    then show ?thesis
      using assms(3) t same
      by (intro generates_exprI [of _ "if comparison p then TInt 1 else t1"]) (auto intro!: ops simp: typed_not_null comparison_def)
  qed
qed

lemma hash_if_sound:
  "ctype c = TInt 1 \<Longrightarrow> sound c \<Longrightarrow> typed t (TInt 64) \<Longrightarrow> typed f (TInt 64) \<Longrightarrow> gives (hash_if c (pv_value t) (pv_value f)) (TInt 64)"
  using CreateIf_sound [of c "pv_value t" "pv_value f"] by (auto simp: gives_def hash_if_def typed_def)

lemma hash_if_generates:
  assumes "generates_expr ctx c" "\<forall>s. generates (hvisit ctx t s) (TInt 64)" "\<forall>s. generates (hvisit ctx f s) (TInt 64)"
    and "expr_ltype c = Inr (TInt 1)"
  shows "generates (hvisit ctx (IfThenElse c t f) s) (TInt 64)"
  using assms
  by (auto intro!: generates_bind [OF generates_exprE [OF assms(1,4)]] generates_bind [OF assms(2) [rule_format]]
      generates_bind [OF assms(3) [rule_format]] gives_bind [OF hash_if_sound] simp: typed_not_null) (simp_all add: typed_def)

lemma hash_minmax_generates:
  assumes "generates_expr ctx l" "generates_expr ctx r" "accepts p (getExpressionType l) (getExpressionType r)" "p = MAX_op \<or> p = MIN_op"
    and "\<forall>s. generates (hvisit ctx l s) (TInt 64)" "\<forall>s. generates (hvisit ctx r s) (TInt 64)"
  shows "generates (hvisit ctx (BinaryExpression p l r) s) (TInt 64)"
proof -
  obtain t1 t2 where t: "expr_ltype l = Inr t1" "expr_ltype r = Inr t2" using assms(1,2) by (auto simp: generates_expr_def)
  note ops = generates_bind [OF generates_exprE [OF assms(1) t(1)]] generates_bind [OF generates_exprE [OF assms(2) t(2)]]
    gives_bind [OF binary_code_of [OF assms(1,2) _ t]] generates_bind [OF assms(5) [rule_format]] generates_bind [OF assms(6) [rule_format]]
    gives_bind [OF hash_if_sound]
  show ?thesis using assms(3,4) by (auto intro!: ops simp: typed_not_null)
qed

lemma hash_other_generates:
  assumes "generates_expr ctx e" "isPrimitive (getExpressionType e)"
  shows "generates (hash_expression ctx (getExpressionType e) (visit ctx e s1) s) (TInt 64)"
proof -
  obtain l where "expr_ltype e = Inr l" "generates (visit ctx e s1) l" using assms(1) by (auto simp: generates_expr_def)
  then show ?thesis using hash_expression_sound assms(2) by blast
qed

subsection \<open>All expressions\<close>

definition session_typed :: "('env, 'f) Context \<Rightarrow> bool" where
  "session_typed ctx \<longleftrightarrow> (\<forall>i l env. yields (session_value ctx i l env) l)"

lemma constant_generates:
  "generates_expr ctx (IntConstant w)" "generates_expr ctx (Int64Constant x)" "generates_expr ctx (DateConstant x)"
  "generates_expr ctx (FloatConstant f)" "generates_expr ctx (BoolConstant b)" "generates_expr ctx (DStringConstant w d)"
  "generates_expr ctx (StringConstant str)" "generates_expr ctx RandExpression"
  by (simp_all add: generates_expr_def typed_not_null gen_rand_def sound_def generates_def const_code_def not_null_def typed_def createFalse_def)

lemma value_generates:
  "session_typed ctx \<Longrightarrow> getLLVMType t = Inr l \<Longrightarrow> generates_expr ctx (PlaceholderExpression t i)"
  "getLLVMType t = Inr l \<Longrightarrow> typed v l \<Longrightarrow> generates_expr ctx (ProteusValueExpression t v)"
  by (simp_all add: generates_expr_def gen_placeholder_def typed_not_null sound_def session_typed_def)

lemma hash_generates: "\<forall>s. generates (hvisit ctx e s) (TInt 64) \<Longrightarrow> generates_expr ctx (HashExpression e)"
  by (rule generates_exprI [of _ "TInt 64"]) (auto intro!: generates_bind)

lemma string_hash_generates: "generates (hvisit ctx (StringConstant str) s) (TInt 64)"
  by (simp add: typed_not_null)

text \<open>The other expressions of a primitive type are hashed by their value.\<close>

fun hashed_by_value :: "('env, 'f) expr \<Rightarrow> bool" where
  "hashed_by_value (InputArgument _ _) = False"
| "hashed_by_value (RecordProjection _ _) = False"
| "hashed_by_value (RecordConstruction _) = False"
| "hashed_by_value (IfThenElse _ _ _) = False"
| "hashed_by_value (BinaryExpression p _ _) = (p \<noteq> MAX_op \<and> p \<noteq> MIN_op)"
| "hashed_by_value (HintExpression _ _) = False"
| "hashed_by_value (HashExpression _) = False"
| "hashed_by_value (StringConstant _) = False"
| "hashed_by_value _ = True"

lemma hvisit_by_value:
  assumes "hashed_by_value e" "isPrimitive (getExpressionType e)"
  shows "hvisit ctx e s = hash_expression ctx (getExpressionType e) (visit ctx e s) s \<or>
    hvisit ctx e s = hash_expression ctx (getExpressionType e) (visit ctx e (fresh_generator s)) s"
  using assms by (cases e) (auto simp: hash_expression_def hashPrimitive_def)

lemma by_value_generates:
  assumes "generates_expr ctx e" "hashed_by_value e" "isPrimitive (getExpressionType e)"
  shows "generates (hvisit ctx e s) (TInt 64)"
  using hvisit_by_value [OF assms(2,3), of ctx s] hash_other_generates [OF assms(1,3)] by metis

lemma visit_sound:
  shows "session_typed ctx \<Longrightarrow> well_typed ctx e \<Longrightarrow> generates_expr ctx e"
    and "session_typed ctx \<Longrightarrow> hash_typed ctx e \<Longrightarrow> \<forall>s. generates (hvisit ctx e s) (TInt 64)"
proof (induction ctx e and ctx e rule: well_typed_hash_typed.induct)
  case (2 ctx e a)
  then show ?case by (cases "column_of e") (auto intro: column_generates member_generates(1))
next
  case (3 ctx atts)
  then show ?case by (intro record_sound) (auto simp: list_all_iff)
next
  case (4 ctx c t f)
  then show ?case by (auto intro: if_generates)
next
  case (5 ctx p l r)
  then show ?case by (auto intro: binary_generates)
next
  case (6 ctx e q)
  then show ?case by - (rule unary_generates [of ctx e "TInt 1" _ "TInt 1" gen_hint], auto intro: gen_hint_sound simp del: One_nat_def)
next
  case (8 ctx e b)
  then have e: "generates_expr ctx e" by simp
  then obtain l where "expr_ltype e = Inr l" by (auto simp: generates_expr_def)
  with e show ?case by - (rule unary_generates [of ctx e l _ "TInt 1" "gen_test_null b"], auto intro: gen_test_null_sound simp del: One_nat_def)
next
  case (9 ctx e u)
  then show ?case by - (rule unary_generates [of ctx e "TInt 64" _ "TInt 32" "gen_extract u"], auto intro: gen_extract_sound)
next
  case (10 ctx e)
  then obtain l where "expr_ltype e = Inr l" "scalar l" by auto
  with 10 show ?case
    by - (rule unary_generates [of ctx e l _ l "gen_neg ctx"], auto intro: gen_neg_sound simp: scalar_def)
next
  case (11 ctx t e)
  then obtain l l' where "expr_ltype e = Inr l" "scalar l" "getLLVMType t = Inr l'" "scalar l'" by auto
  with 11 show ?case
    by - (rule unary_generates [of ctx e l _ l' "gen_cast ctx t (getExpressionType e)"], auto intro: gen_cast_sound)
next
  case (12 ctx t i)
  then show ?case by (auto intro: value_generates)
next
  case (13 ctx t v)
  then show ?case by (auto intro: value_generates)
next
  case (16 ctx e a)
  then show ?case by (cases "column_of e") (auto simp del: hvisit.simps intro: column_hash_generates member_generates(2))
next
  case (17 ctx atts)
  then have "list_all (\<lambda>(n, e). \<forall>s. generates (hvisit ctx e s) (TInt 64)) atts" by (fastforce simp: list_all_iff)
  then show ?case by (auto intro: hvisit_atts_sound)
next
  case (18 ctx c t f)
  then show ?case by (auto simp del: hvisit.simps intro: hash_if_generates)
next
  case (19 ctx p l r)
  show ?case
  proof (cases "p = MAX_op \<or> p = MIN_op")
    case True
    with 19 show ?thesis by (auto simp del: hvisit.simps intro: hash_minmax_generates)
  next
    case False
    with 19 have "generates_expr ctx (BinaryExpression p l r)" "isPrimitive (getExpressionType (BinaryExpression p l r))"
      by (auto intro: binary_generates)
    then show ?thesis using False by (auto simp del: hvisit.simps intro: by_value_generates)
  qed
next
  case (20 ctx e q)
  then show ?case by simp
qed (simp_all del: hvisit.simps add: constant_generates value_generates hash_generates string_hash_generates by_value_generates)

text \<open>
  C13. Type soundness of code generation. For a well-typed expression, the visit succeeds, whatever the
  state of the visitor, and gives code for a value of the LLVM type of the expression and for a
  one-bit null flag. Whenever that code runs, it gives a value of its type, or it stops by an arithmetic
  fault: it never takes a value for one of another type. This needs that the values set for the
  parameters of the session have the types that the query gives them, and of the plugins only that the values they
  read have the type of their column. Input arguments that are not projected from and projections that
  the cache holds are not among the well-typed expressions.\<close>

theorem well_typed_generates:
  assumes "session_typed ctx" "well_typed ctx e"
  shows "\<exists>l v s'. getLLVMType (getExpressionType e) = Inr l \<and> visit ctx e s = Inr (v, s') \<and>
    ctype (pv_value v) = l \<and> ctype (pv_isNull v) = TInt 1 \<and>
    (\<forall>env. yields (run (pv_value v) env) l \<and> yields (run (pv_isNull v) env) (TInt 1))"
proof -
  obtain l where l: "getLLVMType (getExpressionType e) = Inr l" "generates (visit ctx e s) l"
    using visit_sound(1) [OF assms] by (auto simp: generates_expr_def)
  then obtain v s' where "visit ctx e s = Inr (v, s')" "typed v l" by (auto simp: generates_def)
  then show ?thesis using l(1) by (auto simp: typed_def sound_def simp del: One_nat_def)
qed

text \<open>A relation with one integer column, whose value is the run-time environment.\<close>

definition sample_plugin :: "(32 word, unit) Plugin" where
  "sample_plugin =
    \<lparr>getOIDType = Int64Type, readPath = (\<lambda>_ _ _ _ _. Inr (not_null \<lparr>ctype = TInt 32, run = (\<lambda>env. Inr (I32 env))\<rparr>)),
     readValue = (\<lambda>v _. Inr v), readCachedValue = (\<lambda>_ _. Inl NullDeref), hashValue = (\<lambda>v _. hashInt32 v), hashValueEager = (\<lambda>v _. hashInt32 v)\<rparr>"

definition sample_floats :: "unit float_ops" where
  "sample_floats =
    \<lparr>fadd = (\<lambda>_ _. ()), fsub = (\<lambda>_ _. ()), fmul = (\<lambda>_ _. ()), fdiv = (\<lambda>_ _. ()), frem = (\<lambda>_ _. ()), fneg = (\<lambda>_. ()),
     fole = (\<lambda>_ _. True), folt = (\<lambda>_ _. False), foeq = (\<lambda>_ _. True), fone = (\<lambda>_ _. False), sitofp = (\<lambda>_. ()), fptosi = (\<lambda>_ _. None)\<rparr>"

definition sample_context :: "(32 word, unit) Context" where
  "sample_context =
    \<lparr>fops = sample_floats, plugins = [''r'' \<mapsto> sample_plugin], caches = new_CachingService,
     expr_order = expr_less (\<lambda>_ _. False) (\<lambda>_ _. False),
     currState = [(RecordAttribute ''r'' activeLoop ''r'' Int64Type (- 1) False, not_null (const_code (I64 7)))],
     session_value = (\<lambda>_ _ _. Inl (Fatal ''no parameter'')), rand_value = (\<lambda>_ _. 4),
     std_hash_string = (\<lambda>bs. of_nat (length bs)), std_hash_double = (\<lambda>_. 0), std_hash_bool = (\<lambda>b. of_bool b),
     CreateGEP = (\<lambda>_ _. Inl NullDeref)\<rparr>"

definition sample_column :: "(32 word, unit) expr" where
  "sample_column = (let a = RecordAttribute ''r'' ''x'' ''r'' IntType 1 False in RecordProjection (InputArgument [a] 0) a)"

definition sample_expr :: "(32 word, unit) expr" where
  "sample_expr =
    IfThenElse (BinaryExpression GT_op sample_column (IntConstant 5))
      (HashExpression (RecordConstruction [(''x'', sample_column), (''name'', StringConstant ''ab'')])) (Int64Constant 0)"

lemma sample_column_typed: "well_typed sample_context sample_column" "hash_typed sample_context sample_column"
proof -
  define a where "a = RecordAttribute ''r'' ''x'' ''r'' IntType 1 False"
  define m :: "(32 word, unit) ProteusValue" where "m = not_null \<lparr>ctype = TInt 32, run = (\<lambda>env. Inr (I32 env))\<rparr>"
  have m: "typed m (TInt 32)" by (simp add: m_def typed_not_null sound_def)
  have proj: "projects sample_context (InputArgument [a] 0) a sample_plugin"
    by (simp add: projects_def sample_context_def getPlugin_def a_def cached_projection_def getCache_def new_CachingService_def invalid_CacheInfo_def)
  have col: "reads_column sample_context [a] a sample_plugin m"
    by (simp add: reads_column_def gen_InputArgument_def sample_context_def sample_plugin_def m_def a_def getPlugin_def
        new_RecordAttribute_oid_def find_binding_def attr_equal_def projectArg_def not_null_def const_code_def)
  have read: "gives_value (readValue sample_plugin m IntType) (TInt 32)" "gives_value (hashValue sample_plugin m IntType) (TInt 64)"
    using m hash_code_sound(1) [OF m] by (auto simp: sample_plugin_def gives_value_def)
  show "well_typed sample_context sample_column" "hash_typed sample_context sample_column"
    using proj col read by (auto simp: sample_column_def Let_def a_def)
qed

theorem well_typed_generates_witness:
  "\<exists>v s'. visit sample_context sample_expr \<lparr>activeRelation = [], rand_calls = 0\<rparr> = Inr (v, s') \<and>
    ctype (pv_value v) = TInt 64 \<and> ctype (pv_isNull v) = TInt 1 \<and>
    (\<forall>env. yields (run (pv_value v) env) (TInt 64) \<and> yields (run (pv_isNull v) env) (TInt 1))"
proof -
  have "well_typed sample_context sample_expr"
    using sample_column_typed by (simp add: sample_expr_def accepts_def comparison_def compared_type_def, simp add: sample_column_def Let_def)
  moreover have "session_typed sample_context" by (simp add: session_typed_def sample_context_def)
  moreover have "getLLVMType (getExpressionType sample_expr) = Inr (TInt 64)" by (simp add: sample_expr_def)
  ultimately show ?thesis using well_typed_generates [of sample_context sample_expr] by force
qed

end
