(* ===== verification/ExprHash.thy ===== *)
theory ExprHash
  imports ExprTyping Versions
begin

text \<open>
  Hashes and aggregations in the generated code: values that the generated equality takes for equal have
  the same hash, strings as long as the hash function does not overwrite them, the hashes of integers never collide, and the elements that start an aggregation are
  neutral.
\<close>

section \<open>The hash of an integer is injective\<close>

text \<open>An exclusive or with a right shift of the same word can be undone from the top bit down, a product with an odd number by its inverse.\<close>

lemma xorshift_inj:
  fixes x y :: "'a :: len word"
  assumes k: "0 < k" and eq: "x XOR drop_bit k x = y XOR drop_bit k y"
  shows "x = y"
proof -
  have top: "bit x (LENGTH('a) - Suc i) = bit y (LENGTH('a) - Suc i)" if "i < LENGTH('a)" for i
    using that
  proof (induction i rule: less_induct)
    case (less i)
    define n where "n = LENGTH('a) - Suc i"
    have "bit (x XOR drop_bit k x) n = bit (y XOR drop_bit k y) n" by (simp add: eq)
    then have "(bit x n \<noteq> bit x (n + k)) = (bit y n \<noteq> bit y (n + k))"
      by (simp add: bit_xor_iff bit_drop_bit_eq add.commute)
    moreover have "bit x (n + k) = bit y (n + k)"
    proof (cases "n + k < LENGTH('a)")
      case True
      then have "bit x (LENGTH('a) - Suc (i - k)) = bit y (LENGTH('a) - Suc (i - k))"
        using less.prems k by (intro less.IH) (auto simp: n_def)
      moreover have "LENGTH('a) - Suc (i - k) = n + k" using True less.prems by (simp add: n_def)
      ultimately show ?thesis by simp
    next
      case False
      then show ?thesis using bit_imp_le_length by (meson not_less)
    qed
    ultimately show ?case unfolding n_def by blast
  qed
  have "bit x n = bit y n" if "n < LENGTH('a)" for n
    using top [of "LENGTH('a) - Suc n"] that by simp
  then show ?thesis by (auto intro!: bit_word_eqI)
qed

lemma mult_inj:
  fixes x y :: "'a :: len word"
  assumes "c * d = 1" "x * c = y * c"
  shows "x = y"
proof -
  have "x * (c * d) = y * (c * d)" using assms(2) by (simp only: mult.assoc [symmetric])
  then show ?thesis using assms(1) by simp
qed

lemma murmur64_inj: "murmur64 x = murmur64 y \<Longrightarrow> x = y"
  unfolding murmur64_def Let_def
  by (drule xorshift_inj [rotated], simp, drule mult_inj [of _ 11291846944257947611, rotated], simp,
      drule xorshift_inj [rotated], simp, drule mult_inj [of _ 5725274745694666757, rotated], simp,
      erule xorshift_inj [rotated], simp)

lemma murmur32_inj: "murmur32 x = murmur32 y \<Longrightarrow> x = y"
proof -
  assume "murmur32 x = murmur32 y"
  then have "(scast x :: 64 word) = scast y"
    unfolding murmur32_def Let_def
    by - (drule xorshift_inj [rotated], simp, drule mult_inj [of _ 15091052789936272413, rotated], simp,
      drule xorshift_inj [rotated], simp, drule mult_inj [of _ 2941351004705347, rotated], simp,
      erule xorshift_inj [rotated], simp)
  then have "sint (scast x :: 64 word) = sint (scast y :: 64 word)" by simp
  moreover have "sint (scast w :: 64 word) = sint w" for w :: "32 word"
  proof -
    have "- (2 ^ 31) \<le> sint w" "sint w < 2 ^ 31" using sint_ge [of w] sint_lt [of w] by simp_all
    then have "signed_take_bit (LENGTH(64) - Suc 0) (sint w) = sint w" by (intro signed_take_bit_int_eq_self) simp_all
    then show ?thesis by (simp only: scast_eq signed_of_int of_int_eq_id id_apply)
  qed
  ultimately show "x = y" by (metis signed_word_eqI)
qed

section \<open>The hash of a string in memory\<close>

text \<open>
  \<^verbatim>\<open>hashStringObject\<close> puts a zero byte behind the string, hashes the characters up to the first zero byte,
  and writes the byte that it saved one place too far. \<open>hasher\<close> is the hash function of the library; a
  negative length makes the function write in front of the string, which is an error of the model, and for
  the greatest length \<^verbatim>\<open>obj.len + 1\<close> overflows.
\<close>

fun c_string :: "nat \<Rightarrow> memory \<Rightarrow> uintptr \<Rightarrow> byte list result" where
  "c_string 0 m a = Inl Diverges"
| "c_string (Suc fuel) m a = (if m a = 0 then Inr [] else rbind (c_string fuel m (a + 1)) (\<lambda>bs. Inr (m a # bs)))"

definition hashStringObject :: "(byte list \<Rightarrow> 64 word) \<Rightarrow> uintptr \<Rightarrow> 32 word \<Rightarrow> memory \<Rightarrow> (64 word \<times> memory) result" where
  "hashStringObject hasher start len m =
    (if sint len < 0 then Inl BadAccess
     else if sint len = 2 ^ 31 - 1 then Inl SignedOverflow
     else let tmp = m (start + scast len);
              m1 = m(start + scast len := 0)
          in rbind (c_string (Suc (nat (sint len))) m1 start) (\<lambda>bs.
             let result = hasher bs;
                 m2 = m1(start + scast len + 1 := tmp)
             in Inr (result, m2)))"

definition string_len :: "32 word \<Rightarrow> bool" where
  "string_len len \<longleftrightarrow> 0 \<le> sint len \<and> sint len < 2 ^ 31 - 1"

abbreviation string_at :: "memory \<Rightarrow> uintptr \<Rightarrow> 32 word \<Rightarrow> byte list" where
  "string_at m start len \<equiv> load_bytes m start (nat (sint len))"

lemma c_string_ends:
  "m (a + of_nat n) = 0 \<Longrightarrow> c_string (Suc n) m a = Inr (zero_terminated (load_bytes m a n))"
proof (induction n arbitrary: a)
  case (Suc n)
  have step: "load_bytes m a (Suc n) = m a # load_bytes m (a + 1) n"
    by (simp add: load_bytes_def upt_conv_Cons del: upt_Suc) (simp add: map_Suc_upt [symmetric] add.assoc del: map_Suc_upt upt_Suc)
  have "c_string (Suc n) m (a + 1) = Inr (zero_terminated (load_bytes m (a + 1) n))" using Suc by (simp add: add.assoc del: c_string.simps)
  then show ?case unfolding step c_string.simps(2) [of "Suc n"] by (simp add: zero_terminated_def del: c_string.simps)
qed (simp add: zero_terminated_def load_bytes_def)

lemma scast_nonneg: "0 \<le> sint len \<Longrightarrow> (scast (len :: 32 word) :: uintptr) = of_nat (nat (sint len))"
proof -
  assume "0 \<le> sint len"
  then have "(of_nat (nat (sint len)) :: uintptr) = of_int (sint len)" by (rule of_nat_nat)
  then show ?thesis by (simp only: scast_eq)
qed

lemma string_keeps:
  assumes "\<And>x. x \<in> blk a n \<Longrightarrow> m' x = m x" "n \<le> 2 ^ 64"
  shows "load_bytes m' a n = load_bytes m a n"
  using assms by (auto simp: load_bytes_def blk_def unat_of_nat)

lemma behind_blk: "n < 2 ^ 64 \<Longrightarrow> a + of_nat n \<notin> blk a n"
  by (simp add: blk_def unat_of_nat)

lemma hashStringObject_run:
  assumes "string_len len"
  shows "hashStringObject hasher start len m =
    Inr (hasher (zero_terminated (string_at m start len)), m(start + scast len := 0, start + scast len + 1 := m (start + scast len)))"
proof -
  let ?m = "m(start + scast len := 0)" and ?n = "nat (sint len)"
  have n: "?n < 2 ^ 31" "0 \<le> sint len" using assms by (auto simp: string_len_def nat_less_iff)
  have "c_string (Suc ?n) ?m start = Inr (zero_terminated (load_bytes ?m start ?n))"
    by (rule c_string_ends) (simp add: scast_nonneg [OF n(2)])
  moreover have "load_bytes ?m start ?n = string_at m start len"
  proof (rule string_keeps)
    have "start + scast len \<notin> blk start ?n" unfolding scast_nonneg [OF n(2)] by (rule behind_blk) (use n in simp)
    then show "?m x = m x" if "x \<in> blk start ?n" for x using that by auto
  qed (use n in simp)
  ultimately show ?thesis using assms by (simp add: string_len_def hashStringObject_def Let_def del: c_string.simps)
qed

lemma hash_call_string:
  "string_len len \<Longrightarrow> \<exists>h m'. hashStringObject (std_hash_string ctx) start len m = Inr (h, m') \<and>
    hash_call ctx [StringObject (string_at m start len)] = Inr (I64 h)"
  by (simp add: hashStringObject_run)

section \<open>Equal values\<close>

lemma strncmp_eq_zero_terminated: "length a = length b \<Longrightarrow> strncmp_eq a b \<Longrightarrow> zero_terminated a = zero_terminated b"
  by (induction a b rule: strncmp_eq.induct) (auto simp: zero_terminated_def)

definition integral_type :: "ExpressionType \<Rightarrow> bool" where
  "integral_type t \<longleftrightarrow> isPrimitive t \<and> t \<noteq> FloatType \<and> t \<noteq> StringType \<and> t \<noteq> BoolType"

lemma run_binary_code: "binary_code ok res f a b = Inr c \<Longrightarrow> run a env = Inr x \<Longrightarrow> run b env = Inr y \<Longrightarrow> run c env = f x y"
  by (auto simp: binary_code_def rbind_eq_Inr_iff)

lemma run_unary_code: "unary_code ok res f a = Inr c \<Longrightarrow> run a env = Inr x \<Longrightarrow> run c env = f x"
  by (auto simp: unary_code_def rbind_eq_Inr_iff)

lemma run_CreateCall: "CreateCall args res f cs = Inr c \<Longrightarrow> rmap (\<lambda>c. run c env) cs = Inr vs \<Longrightarrow> run c env = f vs"
  by (auto simp: CreateCall_def rbind_eq_Inr_iff)

text \<open>What the code of the equality and of the hash compute on two values of a primitive type.\<close>

fun lval_eq :: "'f float_ops \<Rightarrow> 'f lval \<Rightarrow> 'f lval \<Rightarrow> bool" where
  "lval_eq fo (I1 a) (I1 b) = (a = b)"
| "lval_eq fo (I32 a) (I32 b) = (a = b)"
| "lval_eq fo (I64 a) (I64 b) = (a = b)"
| "lval_eq fo (FP a) (FP b) = foeq fo a b"
| "lval_eq fo (StringObject a) (StringObject b) = equalStringObjs a b"
| "lval_eq fo _ _ = False"

fun lval_hash :: "('env, 'f) Context \<Rightarrow> 'f lval \<Rightarrow> 64 word" where
  "lval_hash ctx (I1 b) = std_hash_bool ctx (b \<noteq> 0)"
| "lval_hash ctx (I32 a) = murmur32 a"
| "lval_hash ctx (I64 a) = murmur64 a"
| "lval_hash ctx (FP a) = std_hash_double ctx a"
| "lval_hash ctx (StringObject bs) = std_hash_string ctx (zero_terminated bs)"
| "lval_hash ctx _ = 0"

lemma run_gen_eq:
  assumes "isPrimitive t" "getLLVMType t = Inr k" "type_of x = k" "type_of y = k"
    and "gen_eq ctx t t2 l r = Inr c" "run l env = Inr x" "run r env = Inr y"
  shows "run c env = Inr (i1 (lval_eq (fops ctx) x y))"
proof -
  have "run c env = int_pred IEQ x y" if "CreateICmp IEQ l r = Inr c"
    using that assms(6,7) unfolding CreateICmp_def by (rule run_binary_code)
  moreover have "run c env = fp_pred f x y" if "CreateFCmp f l r = Inr c" for f
    using that assms(6,7) unfolding CreateFCmp_def by (rule run_binary_code)
  moreover have "run c env = f [x, y]" if "CreateCall args res f [l, r] = Inr c" for args res f
    by (rule run_CreateCall [OF that]) (simp add: assms(6,7))
  ultimately show ?thesis
    using assms(1-5) by (cases t) (auto simp: gen_eq.simps type_of_cases)
qed

lemma run_hashPrimitive:
  assumes "isPrimitive t" "getLLVMType t = Inr k" "type_of x = k"
    and "hashPrimitive ctx (getTypeID t) v = Inr h" "run (pv_value v) env = Inr x"
  shows "run (pv_value h) env = Inr (I64 (lval_hash ctx x))"
  using assms(1-4)
  by (cases t)
    (auto simp: hashPrimitive_def hashInt32_def hashInt64_def not_null_r_def not_null_def type_of_cases rbind_eq_Inr_iff assms(5)
      dest!: run_unary_code [OF _ assms(5)] run_CreateCall [of _ _ _ "[pv_value v]" _ env "[x]"])

lemma lval_eq_hash:
  assumes "type_of x = k" "type_of y = k" "getLLVMType t = Inr k" "isPrimitive t"
    and "\<forall>a b. foeq (fops ctx) a b \<longrightarrow> std_hash_double ctx a = std_hash_double ctx b"
  shows "lval_eq (fops ctx) x y \<Longrightarrow> lval_hash ctx x = lval_hash ctx y"
    and "integral_type t \<Longrightarrow> lval_hash ctx x = lval_hash ctx y \<Longrightarrow> lval_eq (fops ctx) x y"
  using assms
  by (cases t; auto simp: type_of_cases equalStringObjs_def strncmp_eq_zero_terminated integral_type_def dest: murmur32_inj murmur64_inj
      intro: arg_cong [of _ _ "std_hash_string ctx"])+

lemma hash_equal_strings:
  assumes "equalStringObjs (string_at m p n) (string_at m q k)" "string_len n" "string_len k"
    and "p + scast n \<notin> blk q (nat (sint k))" "p + scast n + 1 \<notin> blk q (nat (sint k))"
  shows "\<exists>h m1 m2. hashStringObject hasher p n m = Inr (h, m1) \<and> hashStringObject hasher q k m1 = Inr (h, m2)"
proof -
  let ?m1 = "m(p + scast n := 0, p + scast n + 1 := m (p + scast n))"
  have "nat (sint k) < 2 ^ 31" using assms(3) by (auto simp: string_len_def nat_less_iff)
  then have "string_at ?m1 q k = string_at m q k" by (intro string_keeps) (use assms(4,5) in auto)
  moreover have "zero_terminated (string_at m q k) = zero_terminated (string_at m p n)"
    using assms(1) strncmp_eq_zero_terminated [of "string_at m p n" "string_at m q k"] unfolding equalStringObjs_def by (elim conjE) (rule sym)
  ultimately show ?thesis by (simp add: hashStringObject_run [OF assms(2)] hashStringObject_run [OF assms(3)])
qed

text \<open>
  C14. Hashes agree with equality. On two values of one primitive type other than strings, for which code is
  generated, the code for the equality and the codes for the two hashes can be generated, and when the
  values are there at run time they give a truth value and two 64-bit numbers. Equal values have equal
  hashes, and for integers, dates and dictionary codes equal hashes only come from equal values: the hash
  never collides. Strings are hashed in place: hashing one string and then an equal one gives the
  same hash twice as long as the second string does not reach into the two bytes behind the first,
  which the first call overwrites. Of the library this uses that equal double precision numbers have
  equal hashes.\<close>

theorem equal_values_equal_hashes:
  assumes "isPrimitive t" "t \<noteq> StringType" "code_of t l" "code_of t r"
    and "\<forall>a b. foeq (fops ctx) a b \<longrightarrow> std_hash_double ctx a = std_hash_double ctx b"
  shows "(\<exists>c hl hr. gen_eq ctx t t l r = Inr c \<and> hashPrimitive ctx (getTypeID t) (not_null l) = Inr hl \<and>
    hashPrimitive ctx (getTypeID t) (not_null r) = Inr hr \<and>
    (\<forall>env x y. run l env = Inr x \<longrightarrow> run r env = Inr y \<longrightarrow>
      (\<exists>b h1 h2. run c env = Inr (i1 b) \<and> run (pv_value hl) env = Inr (I64 h1) \<and> run (pv_value hr) env = Inr (I64 h2) \<and>
        (b \<longrightarrow> h1 = h2) \<and> (integral_type t \<longrightarrow> h1 = h2 \<longrightarrow> b)))) \<and>
    (\<forall>m p n q k. equalStringObjs (string_at m p n) (string_at m q k) \<longrightarrow> string_len n \<longrightarrow> string_len k \<longrightarrow>
      p + scast n \<notin> blk q (nat (sint k)) \<longrightarrow> p + scast n + 1 \<notin> blk q (nat (sint k)) \<longrightarrow>
      (\<exists>h m1 m2. hashStringObject (std_hash_string ctx) p n m = Inr (h, m1) \<and> hashStringObject (std_hash_string ctx) q k m1 = Inr (h, m2)))"
proof -
  obtain k where k: "getLLVMType t = Inr k" "ctype l = k" "ctype r = k" "sound l" "sound r" using assms(3,4) by (auto simp: code_of_def)
  obtain c where c: "gen_eq ctx t t l r = Inr c" using primitive_eq_sound [OF assms(1,3), of r ctx t] k by auto
  have "typed (not_null l) k" "typed (not_null r) k" using k by (simp_all add: typed_not_null)
  then obtain hl hr where h: "hashPrimitive ctx (getTypeID t) (not_null l) = Inr hl" "hashPrimitive ctx (getTypeID t) (not_null r) = Inr hr"
    using hashPrimitive_sound [OF _ k(1) assms(1)] unfolding gives_value_def by blast
  have "run c env = Inr (i1 (lval_eq (fops ctx) x y)) \<and> run (pv_value hl) env = Inr (I64 (lval_hash ctx x)) \<and>
      run (pv_value hr) env = Inr (I64 (lval_hash ctx y)) \<and> (lval_eq (fops ctx) x y \<longrightarrow> lval_hash ctx x = lval_hash ctx y) \<and>
      (integral_type t \<longrightarrow> lval_hash ctx x = lval_hash ctx y \<longrightarrow> lval_eq (fops ctx) x y)"
    if "run l env = Inr x" "run r env = Inr y" for env x y
  proof -
    have ty: "type_of x = k" "type_of y = k" using k soundD [of l env] soundD [of r env] that by simp_all
    show ?thesis
      using run_gen_eq [OF assms(1) k(1) ty c that] run_hashPrimitive [OF assms(1) k(1) ty(1) h(1)] run_hashPrimitive [OF assms(1) k(1) ty(2) h(2)]
        lval_eq_hash [OF ty k(1) assms(1,5)] that by (auto simp: not_null_def)
  qed
  with c h have "\<exists>c hl hr. gen_eq ctx t t l r = Inr c \<and> hashPrimitive ctx (getTypeID t) (not_null l) = Inr hl \<and>
    hashPrimitive ctx (getTypeID t) (not_null r) = Inr hr \<and>
    (\<forall>env x y. run l env = Inr x \<longrightarrow> run r env = Inr y \<longrightarrow>
      (\<exists>b h1 h2. run c env = Inr (i1 b) \<and> run (pv_value hl) env = Inr (I64 h1) \<and> run (pv_value hr) env = Inr (I64 h2) \<and>
        (b \<longrightarrow> h1 = h2) \<and> (integral_type t \<longrightarrow> h1 = h2 \<longrightarrow> b)))" by blast
  then show ?thesis using hash_equal_strings by blast
qed

text \<open>
  The condition on the bytes is needed: of two equal strings one behind the other, the first call
  erases the first character of the second.
\<close>

lemma adjacent_strings_hash_apart:
  assumes "m 100 = 97" "m 101 = 97" "hasher [97] \<noteq> hasher []"
  shows "equalStringObjs (string_at m 100 1) (string_at m 101 1)"
    "\<exists>h1 m1 h2 m2. hashStringObject hasher 100 1 m = Inr (h1, m1) \<and> hashStringObject hasher 101 1 m1 = Inr (h2, m2) \<and> h1 \<noteq> h2"
  using assms by (simp_all add: hashStringObject_run string_len_def load_bytes_def zero_terminated_def equalStringObjs_def)

theorem equal_values_equal_hashes_witness:
  "\<exists>c hl hr. gen_eq sample_context IntType IntType \<lparr>ctype = TInt 32, run = (\<lambda>env. Inr (I32 env))\<rparr> (const_code (I32 5)) = Inr c \<and>
    hashPrimitive sample_context INT_id (not_null \<lparr>ctype = TInt 32, run = (\<lambda>env. Inr (I32 env))\<rparr>) = Inr hl \<and>
    hashPrimitive sample_context INT_id (not_null (const_code (I32 5))) = Inr hr \<and>
    (\<exists>b h1 h2. run c 7 = Inr (i1 b) \<and> run (pv_value hl) 7 = Inr (I64 h1) \<and> run (pv_value hr) 7 = Inr (I64 h2) \<and> (h1 = h2 \<longleftrightarrow> b)) \<and>
    (\<exists>h m1 m2. hashStringObject (std_hash_string sample_context) 100 1 (\<lambda>_. 97) = Inr (h, m1) \<and>
      hashStringObject (std_hash_string sample_context) 200 1 m1 = Inr (h, m2))"
proof -
  let ?l = "\<lparr>ctype = TInt 32, run = (\<lambda>env. Inr (I32 env))\<rparr> :: (32 word, unit) code" and ?r = "const_code (I32 5) :: (32 word, unit) code"
  have p: "isPrimitive IntType" "IntType \<noteq> StringType" "code_of IntType ?l" "code_of IntType ?r"
    "\<forall>a b. foeq (fops sample_context) a b \<longrightarrow> std_hash_double sample_context a = std_hash_double sample_context b"
    by (simp_all add: sample_context_def code_of_def sound_def const_code_def)
  have run: "run ?l 7 = Inr (I32 7)" "run ?r 7 = Inr (I32 5)" "integral_type IntType"
    by (simp_all add: const_code_def integral_type_def)
  have str: "equalStringObjs (string_at (\<lambda>_. 97) 100 1) (string_at (\<lambda>_. 97) 200 1)" "string_len 1"
    "100 + scast (1 :: 32 word) \<notin> blk 200 (nat (sint (1 :: 32 word)))" "100 + scast (1 :: 32 word) + 1 \<notin> blk 200 (nat (sint (1 :: 32 word)))"
    by (simp_all add: load_bytes_def equalStringObjs_def blk_def string_len_def)
  note E = equal_values_equal_hashes [OF p, unfolded getTypeID.simps]
  show ?thesis using conjunct1 [OF E] run conjunct2 [OF E, rule_format, OF str(1,2,2,3,4)] by blast
qed

section \<open>Aggregations start with a neutral element\<close>

lemma start_bounds32: "sint (- (2 ^ 31) :: 32 word) \<le> sint w" "sint w \<le> sint (2 ^ 31 - 1 :: 32 word)" for w :: "32 word"
  using sint_ge [of w] sint_lt [of w] by simp_all

lemma start_bounds64: "sint (- (2 ^ 63) :: 64 word) \<le> sint w" "sint w \<le> sint (2 ^ 63 - 1 :: 64 word)" for w :: "64 word"
  using sint_ge [of w] sint_lt [of w] by simp_all

text \<open>The operator of a monoid, on values; the comparison of a maximum or minimum chooses its second operand.\<close>

lemma neutral_int_op:
  "type_of x = TInt 32 \<Longrightarrow> int_op Add (I32 0) x = Inr x" "type_of x = TInt 64 \<Longrightarrow> int_op Add (I64 0) x = Inr x"
  "type_of x = TInt 32 \<Longrightarrow> int_op Mul (I32 1) x = Inr x" "type_of x = TInt 64 \<Longrightarrow> int_op Mul (I64 1) x = Inr x"
  "type_of x = TInt 1 \<Longrightarrow> int_op Or (I1 0) x = Inr x" "type_of x = TInt 1 \<Longrightarrow> int_op And (I1 1) x = Inr x"
proof -
  have "1 AND w = w" for w :: "1 word" by (rule bit_word_eqI) (auto simp: bit_simps)
  then show "type_of x = TInt 1 \<Longrightarrow> int_op And (I1 1) x = Inr x" by (auto simp: type_of_cases)
qed (auto simp: type_of_cases)

lemma losing_comparison:
  "(\<And>w. \<not> word_pred p c w) \<Longrightarrow> type_of x = TInt 32 \<Longrightarrow> int_pred p (I32 c) x = Inr (I1 0)"
  "(\<And>w. \<not> word_pred p d w) \<Longrightarrow> type_of x = TInt 64 \<Longrightarrow> int_pred p (I64 d) x = Inr (I1 0)"
  by (auto simp: type_of_cases)

lemma neutral_comparison:
  "type_of x = TInt 32 \<Longrightarrow> int_pred SGT (I32 (- (2 ^ 31))) x = Inr (I1 0)" "type_of x = TInt 64 \<Longrightarrow> int_pred SGT (I64 (- (2 ^ 63))) x = Inr (I1 0)"
  "type_of x = TInt 32 \<Longrightarrow> int_pred SLT (I32 (2 ^ 31 - 1)) x = Inr (I1 0)" "type_of x = TInt 64 \<Longrightarrow> int_pred SLT (I64 (2 ^ 63 - 1)) x = Inr (I1 0)"
  by (rule losing_comparison; simp only: word_pred.simps not_less start_bounds32 start_bounds64; fail)+

lemma run_const [simp]: "run (const_code z) env = Inr z"
  by (simp add: const_code_def)

lemma neutral_binop:
  assumes "typed v (type_of z)" "isIntTy (type_of z)" "\<And>x. type_of x = type_of z \<Longrightarrow> int_op p z x = Inr x"
  shows "\<exists>c. CreateBinOp p (const_code z) (pv_value v) = Inr c \<and> (\<forall>env. run c env = run (pv_value v) env)"
proof -
  have "rbind (run (pv_value v) env) (int_op p z) = run (pv_value v) env" for env
    using soundD [of "pv_value v" env] assms(1,3) by (cases "run (pv_value v) env") (auto simp: typed_def)
  then show ?thesis using assms(1,2) by (auto simp: CreateBinOp_def binary_code_def typed_def)
qed

text \<open>A maximum or minimum with a constant that loses every comparison.\<close>

lemma neutral_choice:
  assumes "typed v (type_of z)" "isIntTy (type_of z)" "\<And>x. type_of x = type_of z \<Longrightarrow> int_pred p z x = Inr (I1 0)"
  shows "\<exists>c w. CreateICmp p (const_code z) (pv_value v) = Inr c \<and> gen_if (not_null c) (not_null (const_code z)) v = Inr w \<and>
    (\<forall>env. run (pv_value w) env = run (pv_value v) env) \<and>
    (\<forall>env x. run (pv_value v) env = Inr x \<longrightarrow> run (pv_isNull w) env = run (pv_isNull v) env)"
proof -
  have "rbind (rbind (run (pv_value v) env) (int_pred p z))
      (\<lambda>u. case u of I1 b \<Rightarrow> if b \<noteq> 0 then run (const_code z) env else run (pv_value v) env | _ \<Rightarrow> Inl BadAccess) = run (pv_value v) env" for env
    using soundD [of "pv_value v" env] assms(1,3) by (cases "run (pv_value v) env") (auto simp: typed_def)
  moreover have "int_pred p z x = Inr (I1 0)" if "run (pv_value v) env = Inr x" for env x
    using soundD [of "pv_value v" env] assms(1,3) that by (auto simp: typed_def)
  ultimately show ?thesis
    using assms(1,2)
    by (auto simp: CreateICmp_def binary_code_def typed_def gen_if_def CreateIf_def not_null_def createFalse_def)
qed

lemma identity_cases:
  assumes "getIdentityElementIfSimple fc m t = Inr (Some z)" "t \<noteq> FloatType"
  shows "(m = SUM_m \<and> t \<in> {DateType, Int64Type} \<and> z = I64 0) \<or> (m = SUM_m \<and> t = IntType \<and> z = I32 0) \<or>
    (m = MULTIPLY_m \<and> t = Int64Type \<and> z = I64 1) \<or> (m = MULTIPLY_m \<and> t = IntType \<and> z = I32 1) \<or>
    (m = MAX_m \<and> t \<in> {DateType, Int64Type} \<and> z = I64 (- (2 ^ 63))) \<or> (m = MAX_m \<and> t = IntType \<and> z = I32 (- (2 ^ 31))) \<or>
    (m = MIN_m \<and> t \<in> {DateType, Int64Type} \<and> z = I64 (2 ^ 63 - 1)) \<or> (m = MIN_m \<and> t = IntType \<and> z = I32 (2 ^ 31 - 1)) \<or>
    (m = OR_m \<and> t = BoolType \<and> z = I1 0) \<or> (m = AND_m \<and> t = BoolType \<and> z = I1 1)"
  using assms unfolding getIdentityElementIfSimple_def rbind_eq_Inr_iff
  by (cases m; cases t) (simp_all only: Monoid.case getTypeID.simps typeID.case sum.inject sum.distinct option.inject option.distinct simp_thms insert_iff empty_iff, (elim exE conjE, hypsubst, simp only: simp_thms)+)

text \<open>The visits of the operators of a monoid, of two values.\<close>

lemma visit_values:
  "visit ctx (BinaryExpression p (ProteusValueExpression t a) (ProteusValueExpression t b)) s =
    rbind (gen_binary ctx p t t (pv_value a) (pv_value b)) (\<lambda>c.
      if p = MAX_op \<or> p = MIN_op then rbind (gen_if (not_null c) a b) (\<lambda>v. Inr (v, s)) else Inr (not_null c, s))"
  by (simp cong: if_cong)

lemma pv_value_not_null: "pv_value (not_null c) = c"
  by (simp add: not_null_def)

lemma gen_binary_monoid:
  "t \<in> {DateType, Int64Type, IntType} \<Longrightarrow> gen_binary ctx ADD_op t t l r = CreateBinOp Add l r"
  "t \<in> {Int64Type, IntType} \<Longrightarrow> gen_binary ctx MULT_op t t l r = CreateBinOp Mul l r"
  "t \<in> {DateType, Int64Type, IntType} \<Longrightarrow> gen_binary ctx MAX_op t t l r = CreateICmp SGT l r"
  "t \<in> {DateType, Int64Type, IntType} \<Longrightarrow> gen_binary ctx MIN_op t t l r = CreateICmp SLT l r"
  "gen_binary ctx OR_op t t l r = CreateBinOp Or l r" "gen_binary ctx AND_op t t l r = CreateBinOp And l r"
  by (auto simp: gen_binary.simps gen_add_def gen_mult_def gen_gt_def gen_lt_def arith_primitive_def compare_primitive_def)

lemma toExpression_choice:
  "toExpression MAX_m (ProteusValueExpression t a) (ProteusValueExpression t b) =
    Inr (BinaryExpression MAX_op (ProteusValueExpression t a) (ProteusValueExpression t b))"
  "toExpression MIN_m (ProteusValueExpression t a) (ProteusValueExpression t b) =
    Inr (BinaryExpression MIN_op (ProteusValueExpression t a) (ProteusValueExpression t b))"
  by (simp_all add: new_MaxExpression_def new_MinExpression_def new_IfThenElse_def)

lemma aggregate_op:
  assumes "typed v (type_of z)" "isIntTy (type_of z)" "\<And>x. type_of x = type_of z \<Longrightarrow> int_op q z x = Inr x"
    and "toExpression m (ProteusValueExpression t (not_null (const_code z))) (ProteusValueExpression t v) =
      Inr (BinaryExpression p (ProteusValueExpression t (not_null (const_code z))) (ProteusValueExpression t v))"
    and "\<And>l r. gen_binary ctx p t t l r = CreateBinOp q l r" "p \<noteq> MAX_op" "p \<noteq> MIN_op"
    and "m \<notin> {MAX_m, MIN_m}"
  shows "\<exists>e w s'. toExpression m (ProteusValueExpression t (not_null (const_code z))) (ProteusValueExpression t v) = Inr e \<and>
    visit ctx e s = Inr (w, s') \<and> (\<forall>env. run (pv_value w) env = run (pv_value v) env) \<and>
    (\<forall>env x. run (pv_value v) env = Inr x \<longrightarrow>
      run (pv_isNull w) env = (if m \<in> {MAX_m, MIN_m} then run (pv_isNull v) env else Inr (I1 0)))"
  using neutral_binop [OF assms(1-3)] assms(4-8) by (auto simp: visit_values not_null_def createFalse_def simp del: visit.simps)

lemma aggregate_choice:
  assumes "typed v (type_of z)" "isIntTy (type_of z)" "\<And>x. type_of x = type_of z \<Longrightarrow> int_pred q z x = Inr (I1 0)"
    and "toExpression m (ProteusValueExpression t (not_null (const_code z))) (ProteusValueExpression t v) =
      Inr (BinaryExpression p (ProteusValueExpression t (not_null (const_code z))) (ProteusValueExpression t v))"
    and "\<And>l r. gen_binary ctx p t t l r = CreateICmp q l r" "p = MAX_op \<or> p = MIN_op" "m \<in> {MAX_m, MIN_m}"
  shows "\<exists>e w s'. toExpression m (ProteusValueExpression t (not_null (const_code z))) (ProteusValueExpression t v) = Inr e \<and>
    visit ctx e s = Inr (w, s') \<and> (\<forall>env. run (pv_value w) env = run (pv_value v) env) \<and>
    (\<forall>env x. run (pv_value v) env = Inr x \<longrightarrow>
      run (pv_isNull w) env = (if m \<in> {MAX_m, MIN_m} then run (pv_isNull v) env else Inr (I1 0)))"
proof -
  obtain c w where c: "CreateICmp q (const_code z) (pv_value v) = Inr c" "gen_if (not_null c) (not_null (const_code z)) v = Inr w"
    "\<forall>env. run (pv_value w) env = run (pv_value v) env"
    "\<forall>env x. run (pv_value v) env = Inr x \<longrightarrow> run (pv_isNull w) env = run (pv_isNull v) env"
    using neutral_choice [OF assms(1-3)] by blast
  have "visit ctx (BinaryExpression p (ProteusValueExpression t (not_null (const_code z))) (ProteusValueExpression t v)) s = Inr (w, s)"
    using c(1,2) assms(5,6) by (simp add: visit_values pv_value_not_null del: visit.simps)
  then show ?thesis using assms(4,7) c(3,4) by auto
qed

text \<open>
  C15. The constant that starts a simple aggregation is neutral, for any type but double precision
  numbers, whose sum 0.0 + -0.0 is not -0.0. If there is a constant for the monoid and the type, the
  expression that combines it with a value of the type generates code that computes that value: a
  sum starts with 0, a product with 1, a maximum and a minimum with a number that no value is below, or
  above, a disjunction with false and a conjunction with true. The null flag of the value is kept by the
  maximum and the minimum only: the other operators give a value that is never null.\<close>

theorem identity_element_neutral:
  assumes "getIdentityElementIfSimple fc m t = Inr (Some z)" "t \<noteq> FloatType" "typed v (type_of z)"
  shows "\<exists>e w s'. toExpression m (ProteusValueExpression t (not_null (const_code z))) (ProteusValueExpression t v) = Inr e \<and>
    visit ctx e s = Inr (w, s') \<and> (\<forall>env. run (pv_value w) env = run (pv_value v) env) \<and>
    (\<forall>env x. run (pv_value v) env = Inr x \<longrightarrow>
      run (pv_isNull w) env = (if m \<in> {MAX_m, MIN_m} then run (pv_isNull v) env else Inr (I1 0)))"
  using identity_cases [OF assms(1,2)]
proof (elim disjE conjE)
  assume "m = SUM_m" "t \<in> {DateType, Int64Type}" "z = I64 0"
  then show ?thesis using assms(3) neutral_int_op(2) by (intro aggregate_op [where p = ADD_op and q = Add]) (auto simp: gen_binary_monoid isIntTy_def)
next
  assume "m = SUM_m" "t = IntType" "z = I32 0"
  then show ?thesis using assms(3) neutral_int_op(1) by (intro aggregate_op [where p = ADD_op and q = Add]) (auto simp: gen_binary_monoid isIntTy_def)
next
  assume "m = MULTIPLY_m" "t = Int64Type" "z = I64 1"
  then show ?thesis using assms(3) neutral_int_op(4) by (intro aggregate_op [where p = MULT_op and q = Mul]) (auto simp: gen_binary_monoid isIntTy_def)
next
  assume "m = MULTIPLY_m" "t = IntType" "z = I32 1"
  then show ?thesis using assms(3) neutral_int_op(3) by (intro aggregate_op [where p = MULT_op and q = Mul]) (auto simp: gen_binary_monoid isIntTy_def)
next
  assume "m = OR_m" "t = BoolType" "z = I1 0"
  then show ?thesis using assms(3) neutral_int_op(5) by (intro aggregate_op [where p = OR_op and q = Or]) (auto simp: gen_binary_monoid isIntTy_def)
next
  assume "m = AND_m" "t = BoolType" "z = I1 1"
  then show ?thesis using assms(3) neutral_int_op(6) by (intro aggregate_op [where p = AND_op and q = And]) (auto simp: gen_binary_monoid isIntTy_def)
next
  assume z: "m = MAX_m" "t \<in> {DateType, Int64Type}" "z = I64 (- (2 ^ 63))"
  show ?thesis
    by (rule aggregate_choice [where p = MAX_op and q = SGT, OF assms(3)]) (use z neutral_comparison(2) in \<open>auto simp: gen_binary_monoid isIntTy_def toExpression_choice simp del: toExpression.simps\<close>)
next
  assume z: "m = MAX_m" "t = IntType" "z = I32 (- (2 ^ 31))"
  show ?thesis
    by (rule aggregate_choice [where p = MAX_op and q = SGT, OF assms(3)]) (use z neutral_comparison(1) in \<open>auto simp: gen_binary_monoid isIntTy_def toExpression_choice simp del: toExpression.simps\<close>)
next
  assume z: "m = MIN_m" "t \<in> {DateType, Int64Type}" "z = I64 (2 ^ 63 - 1)"
  show ?thesis
    by (rule aggregate_choice [where p = MIN_op and q = SLT, OF assms(3)]) (use z neutral_comparison(4) in \<open>auto simp: gen_binary_monoid isIntTy_def toExpression_choice simp del: toExpression.simps\<close>)
next
  assume z: "m = MIN_m" "t = IntType" "z = I32 (2 ^ 31 - 1)"
  show ?thesis
    by (rule aggregate_choice [where p = MIN_op and q = SLT, OF assms(3)]) (use z neutral_comparison(3) in \<open>auto simp: gen_binary_monoid isIntTy_def toExpression_choice simp del: toExpression.simps\<close>)
qed

definition sample_value :: "(32 word, unit) ProteusValue" where
  "sample_value = not_null \<lparr>ctype = TInt 32, run = (\<lambda>env. Inr (I32 env))\<rparr>"

theorem identity_element_neutral_witness:
  "\<exists>e w s'. toExpression MAX_m (ProteusValueExpression IntType (not_null (const_code (I32 (- (2 ^ 31))))))
      (ProteusValueExpression IntType sample_value) = Inr e \<and>
    visit sample_context e \<lparr>activeRelation = [], rand_calls = 0\<rparr> = Inr (w, s') \<and>
    (\<forall>env. run (pv_value w) env = run (pv_value sample_value) env) \<and>
    (\<forall>env x. run (pv_value sample_value) env = Inr x \<longrightarrow>
      run (pv_isNull w) env = (if MAX_m \<in> {MAX_m, MIN_m} then run (pv_isNull sample_value) env else Inr (I1 0)))"
proof (rule identity_element_neutral)
  show "getIdentityElementIfSimple \<lparr>fzero = (), fone_const = (), finfinity = (), fneg_infinity = ()\<rparr> MAX_m IntType = Inr (Some (I32 (- (2 ^ 31))))"
    by (simp add: getIdentityElementIfSimple_def)
qed (simp_all add: sample_value_def typed_not_null sound_def)

section \<open>Where the generated code departs from the arithmetic of its types\<close>

text \<open>
  Truth values are compared as signed one-bit numbers, so that true is less than false; the cast of true
  to an integer type gives -1; and the remainder is that of unsigned numbers, also for negative operands.
\<close>

lemma bool_less_inverted:
  assumes "gen_lt ctx BoolType l r = Inr c" "run l env = Inr (i1 a)" "run r env = Inr (i1 b)"
  shows "run c env = Inr (i1 (a \<and> \<not> b))"
proof -
  have "CreateICmp SLT l r = Inr c" using assms(1) by (simp add: gen_lt_def compare_primitive_def)
  then have "run c env = int_pred SLT (i1 a) (i1 b)" unfolding CreateICmp_def by (rule run_binary_code) (use assms(2,3) in simp_all)
  then show ?thesis by (cases a; cases b) simp_all
qed

lemma cast_true_to_int:
  assumes "gen_cast ctx IntType BoolType v = Inr w" "run (pv_value v) env = Inr (i1 b)"
  shows "run (pv_value w) env = Inr (I32 (if b then - 1 else 0))"
proof -
  obtain c where c: "CreateSExtOrTrunc (TInt 32) (pv_value v) = Inr c" "w = v\<lparr>pv_value := c\<rparr>"
    using assms(1) by (auto simp: gen_cast_def isIntegerTy_def rbind_eq_Inr_iff)
  then have "run c env = rbind (int_of_lval (i1 b)) (lval_of_int (TInt 32))"
    using assms(2) by (auto simp: CreateSExtOrTrunc_def dest: run_unary_code)
  then show ?thesis by (cases b) (simp_all add: c(2) lval_of_int_def)
qed

lemma mod_of_negative:
  assumes "gen_mod ctx IntType l r = Inr c" "run l env = Inr (I32 (- 7))" "run r env = Inr (I32 5)"
  shows "run c env = Inr (I32 4)"
proof -
  have "CreateBinOp URem l r = Inr c" using assms(1) by (simp add: gen_mod_def arith_primitive_def)
  then have "run c env = int_op URem (I32 (- 7)) (I32 5)" unfolding CreateBinOp_def by (rule run_binary_code) (use assms(2,3) in simp_all)
  then show ?thesis by simp
qed

end
