(* ===== verification/Spec2Isabelle.thy ===== *)
theory Spec2Isabelle
  imports Prelude StorageUtils DeltaPtr TxnTable BlockAllocator DeltaStore ReaderProtocol MemoryPool AtomicBitSet Columns CircularMaster MasterSync Versions RecordList IntervalMap LazyColumn ColumnStore SnapshotIsolation TableLifecycle ArtNode Art ArtMap RadixCluster RadixJoin Atois DictEncode DateExtract LLVMCode ExprTypes Expressions ExprGenerator ExprTyping ExprHash
begin

text \<open>
  A verification development for Proteus, an in-memory engine for hybrid transactional and analytical
  workloads: its transactional storage engine (\<^verbatim>\<open>src/core/oltp\<close>) and, of its query engine
  (\<^verbatim>\<open>src/core/olap\<close>, \<^verbatim>\<open>src/core/platform\<close>), the radix join, the reading and encoding of values, and the code generation for expressions.

  \<^bold>\<open>The program.\<close> A transaction gets a start time from the transaction manager and is entered in a
  table of its worker. It reads and updates records of tables stored by column. Each record has an
  index entry in the metadata column of its table: the timestamp of the record, its row identifier
  and a reference to a chain of older versions. An update copies the record to a new version, puts
  it in front of the chain, writes the columns in place and stamps the index entry; a reader whose
  snapshot is older walks the chain. Versions live in delta stores, which hand out memory and are
  collected when no transaction can need them. Columns can have several masters with dirty masks,
  from which snapshots and the analytical copy are built. A primary key can be indexed by an adaptive
  radix tree. The query engine compiles a plan to LLVM code; the operators evaluate expressions by
  code that a visitor emits, hash them by code of a second visitor, and join relations by a library of
  radix partitioning and bucket chains.

  \<^bold>\<open>Theories.\<close> Each theory models one part; definitions keep the names of the code, with a prefix
  where two classes have a method of the same name (\<^verbatim>\<open>cm_\<close> for multi-master columns, \<^verbatim>\<open>lz_\<close> for lazy
  columns, \<^verbatim>\<open>bs_\<close> for the bit set, \<^verbatim>\<open>ds_\<close> and \<^verbatim>\<open>dsm_\<close> for the two delta stores).

  \<^item> \<open>Prelude\<close>: integer types, error values, sequencing of fallible steps, byte buffers, and the
    contract of the third-party cuckoo hash map.
  \<^item> \<open>StorageUtils\<close> (\<^verbatim>\<open>storage-utils.hpp\<close>) and \<open>DeltaPtr\<close> (\<^verbatim>\<open>delta-memory-ptr.hpp\<close>): packing of row, column
    and table identifiers and of tagged references, and that packing is inverted by unpacking.
  \<^item> \<open>TxnTable\<close> (\<^verbatim>\<open>transaction.hpp\<close>, \<^verbatim>\<open>txn-table.hpp\<close>, \<^verbatim>\<open>transaction_manager.hpp\<close>): timestamps, the tables
    of running transactions, and that the reported minimum is a lower bound of all of them.
  \<^item> \<open>BlockAllocator\<close>, \<open>MemoryPool\<close> (\<^verbatim>\<open>memory-pool.hpp\<close>), \<open>DeltaStore\<close> (\<^verbatim>\<open>delta_storage.hpp/.cpp\<close>) and
    \<open>ReaderProtocol\<close>: the circular store with per-thread slack and epochs, the pool-backed store, that
    blocks in use are disjoint, when a collection may happen, and the protocol between readers and
    collectors as a step relation over all interleavings of its atomic steps.
  \<^item> \<open>AtomicBitSet\<close> (\<^verbatim>\<open>atomic_bit_set.hpp\<close>): the dirty masks as sets of indices.
  \<^item> \<open>Columns\<close> (\<^verbatim>\<open>column.cpp\<close>), \<open>CircularMaster\<close> and \<open>MasterSync\<close> (\<^verbatim>\<open>circular-master-column.cpp\<close>), \<open>IntervalMap\<close>
    (\<^verbatim>\<open>interval-map.hpp\<close>) and \<open>LazyColumn\<close> (\<^verbatim>\<open>lazy-column.cpp\<close>): the three kinds of columns. The locale
    \<open>column_store_law\<close> is what a table needs of a column; it is interpreted for single-version and
    multi-master columns and for the dispatch over both.
  \<^item> \<open>Versions\<close> (\<^verbatim>\<open>mv-versions.hpp\<close>) and \<open>RecordList\<close> (\<^verbatim>\<open>mv-record-list.cpp\<close>): version objects at addresses of
    a byte memory, chains of them, the search for a readable version and the pruning of chains. The
    locale \<open>version_store\<close> is what version lists need of a delta store; it is interpreted for the
    pool-backed store. The circular store does not satisfy it: the blocks it hands out are one byte too
    small for a version, so what is shown for updates and deletions is shown for the pool-backed store.
  \<^item> \<open>ColumnStore\<close> (\<^verbatim>\<open>column_store.cpp\<close>, \<^verbatim>\<open>table.cpp\<close>), \<open>SnapshotIsolation\<close> and \<open>TableLifecycle\<close>: tables, the
    history of a row, and what construction, insertion, update and deletion do to what every
    transaction reads, for tables whose columns are single-version or multi-master columns; lazy columns, which
    cannot be read before a snapshot, are treated on their own.
  \<^item> \<open>ArtNode\<close>, \<open>Art\<close> and \<open>ArtMap\<close> (\<^verbatim>\<open>art_node.hpp\<close>, \<^verbatim>\<open>art.hpp\<close>): the nodes of the four widths, lookup and insertion in
    the adaptive radix tree as one thread runs them, and that the tree refines a map from keys.
  \<^item> \<open>RadixCluster\<close> and \<open>RadixJoin\<close> (\<^verbatim>\<open>radix-join.cpp\<close>, \<^verbatim>\<open>prj_params.h\<close>): histograms, stable partitioning, bucket
    chains and the probe, and that the join counts the pairs with equal keys.
  \<^item> \<open>Atois\<close> (\<^verbatim>\<open>atois.cpp\<close>) and \<open>DictEncode\<close> (\<^verbatim>\<open>functions.cpp\<close>): integers in text, generated and library code, and the
    codes of an order-preserving dictionary.
  \<^item> \<open>DateExtract\<close> (\<^verbatim>\<open>expressions-generator.cpp\<close>): the fields of a date, against a calendar that counts days.
  \<^item> \<open>LLVMCode\<close>: the values and instructions of the generated code. \<open>ExprTypes\<close> (\<^verbatim>\<open>expressionTypes.hpp\<close>), \<open>Expressions\<close>
    (\<^verbatim>\<open>expressions.hpp\<close>, \<^verbatim>\<open>caching.hpp\<close>) and \<open>ExprGenerator\<close> (\<^verbatim>\<open>expressions-generator.cpp\<close>, \<^verbatim>\<open>expressions-hasher.cpp\<close>): types, the
    expression tree with its order, the cache keyed by it, and the two visitors. \<open>ExprTyping\<close> shows that well-typed
    expressions generate code of their type that only arithmetic faults can stop; \<open>ExprHash\<close> that hashes agree
    with equality, with the hash of a string as a function on memory, and that aggregations start with a neutral element.

  \<^bold>\<open>Conventions.\<close> An operation that can stop returns \<open>error + 'a\<close>: a failed \<^verbatim>\<open>assert\<close>, \<^verbatim>\<open>LOG(FATAL)\<close>, a
  thrown exception, a missing key of \<^verbatim>\<open>at\<close>, a null or bad access, a loop that never ends, or the overflow of
  a signed number where it is kept apart from wrapping around. Integers keep their width. Threads are explicit numbers; what the memory manager, the topology and
  compare-and-exchange return is a parameter. Loops along version chains take fuel, and the theorems
  show that more fuel than the length of the chain is enough; the operations of the radix tree take the number of attempts that restarts may use,
  of which one is enough for a single thread. The code that a visitor generates is the type of its value and the function that computes it at run
  time; plugins, double precision numbers, the hash functions of the C++ library and the parameters of a
  session are parameters, and the theorems name what they use of them.

  \<^bold>\<open>Not modelled.\<close> Of the query engine: the operators and pipelines, the plugins, GPU kernels, plan parsing and
  references and assignments in expressions, which generate or drive native code through LLVM, CUDA and the operating
  system. The planner, the network layer, the storage manager, the benchmarks and the front ends. In the storage engine:
  memory orders weaker than sequential consistency, NUMA placement and huge pages, logging and statistics, the
  per-attribute version lists that the code calls broken, and the consolidation of chains that is compiled out; in the radix tree,
  interleavings of threads and multi-value leaves.
\<close>

end
